(* ===== verification/Prelude.thy ===== *)
theory Prelude
  imports Main
begin

text \<open>
  Shared base of the development.

  \<^item> Go's \<open>int64\<close> is an \<open>int\<close> on which every addition and subtraction of the program is followed by
    \<open>wrap64\<close>, two's complement wrap-around at 64 bits, so that a theorem about a sum says
    when the sum is the mathematical one; \<open>in64\<close> is the range of the type.
  \<^item> Generic lemmas on pointwise updates of a heap along a list of addresses, on sums over
    such updates and on strings, which the component theories share.
  \<^item> The collections \<open>i64_simps\<close> (arithmetic without wrap-around) and \<open>heap_simps\<close>
    (reading a heap after an update).
\<close>

named_theorems i64_simps \<open>64-bit arithmetic in range\<close>
named_theorems heap_simps \<open>reading a heap after an update\<close>

section \<open>64-bit signed integers\<close>

abbreviation max_int64 :: int where
  "max_int64 \<equiv> 9223372036854775807"

abbreviation min_int64 :: int where
  "min_int64 \<equiv> - 9223372036854775808"

definition wrap64 :: "int \<Rightarrow> int" where
  "wrap64 x = (x + 9223372036854775808) mod 18446744073709551616 - 9223372036854775808"

definition in64 :: "int \<Rightarrow> bool" where
  "in64 x \<longleftrightarrow> min_int64 \<le> x \<and> x \<le> max_int64"

lemma wrap64_in64 [simp]: "in64 (wrap64 x)"
  by (simp add: wrap64_def in64_def)

lemma wrap64_id [i64_simps]: "in64 x \<Longrightarrow> wrap64 x = x"
  by (simp add: wrap64_def in64_def)

lemma wrap64_nonneg [i64_simps]: "0 \<le> x \<Longrightarrow> x \<le> max_int64 \<Longrightarrow> wrap64 x = x"
  by (simp add: wrap64_def)

lemma wrap64_wrap64 [simp]: "wrap64 (wrap64 x) = wrap64 x"
  by (simp add: wrap64_id)

lemma wrap64_add_left [simp]: "wrap64 (wrap64 x + y) = wrap64 (x + y)"
proof -
  have "((x + 9223372036854775808) mod 18446744073709551616 + y) mod 18446744073709551616
    = (x + y + 9223372036854775808) mod (18446744073709551616::int)"
    by (simp add: mod_simps) (simp add: algebra_simps)
  then show ?thesis by (simp add: wrap64_def algebra_simps)
qed

lemma wrap64_diff_left [simp]: "wrap64 (wrap64 x - y) = wrap64 (x - y)"
  using wrap64_add_left [of x "- y"] by simp

text \<open>Adding and then subtracting the same amount restores an \<open>int64\<close>, wrap-around or not.\<close>

lemma wrap64_cancel [simp]: "in64 x \<Longrightarrow> wrap64 (x + n - n) = x"
  by (simp add: wrap64_id)

lemma wrap64_over: "max_int64 < x \<Longrightarrow> x \<le> 2 * max_int64 \<Longrightarrow> wrap64 x = x - 18446744073709551616"
proof -
  assume "max_int64 < x" "x \<le> 2 * max_int64"
  moreover have "(x + 9223372036854775808) mod 18446744073709551616
      = (x + 9223372036854775808 - 18446744073709551616) mod 18446744073709551616"
    by (rule minus_mod_self2 [symmetric])
  ultimately show ?thesis by (simp add: wrap64_def)
qed

lemma in64_0 [simp]: "in64 0"
  by (simp add: in64_def)

lemma wrap64_0 [simp]: "wrap64 0 = 0"
  by (simp add: wrap64_def)

section \<open>Heaps: total functions updated along a list of addresses\<close>

text \<open>\<open>on_all f ps h\<close> applies \<open>f\<close> to the cells whose address is in \<open>ps\<close>.\<close>

definition on_all :: "('a \<Rightarrow> 'a) \<Rightarrow> 'p list \<Rightarrow> ('p \<Rightarrow> 'a) \<Rightarrow> ('p \<Rightarrow> 'a)" where
  "on_all f ps h = (\<lambda>q. if q \<in> set ps then f (h q) else h q)"

lemma on_all_apply [heap_simps]: "on_all f ps h q = (if q \<in> set ps then f (h q) else h q)"
  by (simp add: on_all_def)

lemma on_all_Nil [simp]: "on_all f [] h = h"
  by (simp add: on_all_def)

lemma on_all_Cons: "p \<notin> set ps \<Longrightarrow> on_all f ps (h(p := f (h p))) = on_all f (p # ps) h"
  by (auto simp: on_all_def fun_eq_iff)

lemma on_all_cong: "(\<And>q. q \<in> set ps \<Longrightarrow> f (h q) = g (h q)) \<Longrightarrow> on_all f ps h = on_all g ps h"
  by (auto simp: on_all_def)

lemma on_all_id: "(\<And>q. q \<in> set ps \<Longrightarrow> f (h q) = h q) \<Longrightarrow> on_all f ps h = h"
  by (auto simp: on_all_def fun_eq_iff)

text \<open>A sum over cells of which exactly one changes by \<open>d\<close>, or none does.\<close>

lemma sum_change_one:
  fixes f g :: "'p \<Rightarrow> int"
  assumes "finite A" and "c \<in> A" and "g c = f c + d" and "\<And>x. x \<in> A \<Longrightarrow> x \<noteq> c \<Longrightarrow> g x = f x"
  shows "sum g A = sum f A + d"
proof -
  have "sum g (A - {c}) = sum f (A - {c})"
    by (rule sum.cong) (use assms(4) in auto)
  then show ?thesis
    using sum.remove [OF assms(1,2), of f] sum.remove [OF assms(1,2), of g] assms(3) by simp
qed

lemma sum_change_none:
  fixes f g :: "'p \<Rightarrow> int"
  assumes "\<And>x. x \<in> A \<Longrightarrow> g x = f x"
  shows "sum g A = sum f A"
  by (rule sum.cong) (use assms in auto)

lemma member_le_sum_int:
  fixes f :: "'p \<Rightarrow> int"
  assumes "finite A" and "c \<in> A" and "\<And>x. x \<in> A \<Longrightarrow> 0 \<le> f x"
  shows "f c \<le> sum f A"
  using assms by (intro member_le_sum) auto

section \<open>Strings\<close>

text \<open>\<open>strings.Split(s, sep)\<close> for a one-character separator: never empty, one field for the empty
  string.\<close>

fun split_on :: "char \<Rightarrow> string \<Rightarrow> string list" where
  "split_on c [] = [[]]"
| "split_on c (x # xs) =
     (if x = c then [] # split_on c xs
      else case split_on c xs of [] \<Rightarrow> [[x]] | y # ys \<Rightarrow> (x # y) # ys)"

lemma split_on_not_Nil [simp]: "split_on c xs \<noteq> []"
  by (induction xs) (auto split: list.splits)

lemma split_on_fields: "y \<in> set (split_on c xs) \<Longrightarrow> c \<notin> set y"
  by (induction xs arbitrary: y) (auto split: list.splits if_splits)

lemma split_on_no_sep: "c \<notin> set xs \<Longrightarrow> split_on c xs = [xs]"
  by (induction xs) auto

lemma split_on_append:
  "c \<notin> set xs \<Longrightarrow> split_on c (xs @ c # ys) = xs # split_on c ys"
  by (induction xs) auto

end
