(* ===== verification/Pool.thy ===== *)
theory Pool
  imports Prelude
begin

text \<open>
  The quota ledger of \<open>pkg/quota/quota.go\<close>: pools (ledger nodes) in a tree, every operation on a
  node propagated along its parent chain.

  A \<open>*Pool\<close> is an address (\<open>pid\<close>) into a heap \<open>pools\<close>; \<open>next_pid\<close> is the next unused
  address, so a pool's parent, which exists when the pool is built and is never reassigned,
  has a smaller address. \<open>chain s p\<close> lists \<open>p\<close> and its ancestors: the recursive methods
  \<open>reserveUp\<close>, \<open>commitUp\<close>, \<open>releaseUp\<close>, \<open>releaseCommittedUp\<close> and \<open>adjustUp\<close> of the source
  recurse over it. A broadcast on a root's wait queue is recorded in \<open>wakes\<close>; the queue
  itself is modelled in \<open>Waitq\<close> and joined to the ledger in \<open>Quota_Wait\<close>.
\<close>

section \<open>State\<close>

type_synonym pid = nat

record pool =
  maxBytes :: int
  committed :: int
  reserved :: int
  allocated :: int
  oreserve :: int
  parent :: "pid option"
  children :: "pid list"
  path :: string
  queue :: bool

record store =
  pools :: "pid \<Rightarrow> pool"
  next_pid :: pid
  wakes :: "pid list"

datatype qerr = ErrStorageFull | ErrWaitTimeout | ErrTooLargeFull | ErrQueueFullFull
  | ErrCanceled | ErrNoQueue | ErrAllocExceeded | ErrEmptyPath | ErrNoScope
  | ErrSettlementCommitted | ErrSettlementReleased | ErrSettlementNoTarget
  | ErrAllocReleased | ErrOther

definition nonNeg :: "int \<Rightarrow> int" where
  "nonNeg n = (if n < 0 then 0 else n)"

definition mk_pool :: "int \<Rightarrow> pid option \<Rightarrow> string \<Rightarrow> bool \<Rightarrow> pool" where
  "mk_pool mb par pth q = \<lparr>maxBytes = mb, committed = 0, reserved = 0, allocated = 0, oreserve = 0,
     parent = par, children = [], path = pth, queue = q\<rparr>"

definition alloc_pool :: "store \<Rightarrow> pool \<Rightarrow> pid \<times> store" where
  "alloc_pool s pl = (next_pid s,
     s\<lparr>pools := (pools s)(next_pid s := pl), next_pid := Suc (next_pid s)\<rparr>)"

definition NewPool :: "store \<Rightarrow> int \<Rightarrow> pid \<times> store" where
  "NewPool s mb = alloc_pool s (mk_pool mb None [] True)"

definition NewPoolWithParent :: "store \<Rightarrow> pid \<Rightarrow> int \<Rightarrow> pid \<times> store" where
  "NewPoolWithParent s par mb = alloc_pool s (mk_pool mb (Some par) [] False)"

text \<open>The parent chain. The test \<open>q < p\<close> holds for every allocated pool (\<open>parents_below\<close>); it makes
  the walk total.\<close>

function anc :: "(pid \<Rightarrow> pid option) \<Rightarrow> pid \<Rightarrow> pid list" where
  "anc par p = p # (case par p of None \<Rightarrow> [] | Some q \<Rightarrow> if q < p then anc par q else [])"
  by pat_completeness auto
termination
  by (relation "measure snd") auto

declare anc.simps [simp del]

definition chain :: "store \<Rightarrow> pid \<Rightarrow> pid list" where
  "chain s p = anc (\<lambda>q. parent (pools s q)) p"

definition rootPool :: "store \<Rightarrow> pid \<Rightarrow> pid" where
  "rootPool s p = last (chain s p)"

definition withWaitLock :: "store \<Rightarrow> pid \<Rightarrow> (store \<Rightarrow> 'a \<times> store) \<Rightarrow> 'a \<times> store" where
  "withWaitLock s p fn = (let root = rootPool s p; (a, s1) = fn s
     in (a, if queue (pools s1 root) then s1\<lparr>wakes := wakes s1 @ [root]\<rparr> else s1))"

section \<open>Ledger arithmetic along the chain\<close>

definition usableLocked :: "pool \<Rightarrow> int" where
  "usableLocked pl = (if maxBytes pl \<le> 0 then 0 else max (wrap64 (maxBytes pl - oreserve pl)) 0)"

definition over_limit :: "pool \<Rightarrow> int \<Rightarrow> bool" where
  "over_limit pl n \<longleftrightarrow> 0 < maxBytes pl
     \<and> usableLocked pl < wrap64 (wrap64 (committed pl + reserved pl) + n)"

definition add_reserved :: "int \<Rightarrow> pool \<Rightarrow> pool" where
  "add_reserved n pl = pl\<lparr>reserved := wrap64 (reserved pl + n)\<rparr>"

definition add_committed :: "int \<Rightarrow> pool \<Rightarrow> pool" where
  "add_committed n pl = pl\<lparr>committed := wrap64 (committed pl + n)\<rparr>"

fun reserveUp_chain :: "(pid \<Rightarrow> pool) \<Rightarrow> pid list \<Rightarrow> int \<Rightarrow> bool \<times> (pid \<Rightarrow> pool)" where
  "reserveUp_chain h [] n = (True, h)"
| "reserveUp_chain h (p # ps) n =
     (if over_limit (h p) n then (False, h)
      else case reserveUp_chain (h(p := add_reserved n (h p))) ps n of
        (True, h2) \<Rightarrow> (True, h2)
      | (False, h2) \<Rightarrow> (False, h2(p := add_reserved (- n) (h2 p))))"

definition reserveUp :: "store \<Rightarrow> pid \<Rightarrow> int \<Rightarrow> qerr option \<times> store" where
  "reserveUp s p n = (case reserveUp_chain (pools s) (chain s p) n of
     (ok, h) \<Rightarrow> (if ok then None else Some ErrStorageFull, s\<lparr>pools := h\<rparr>))"

definition commit_node :: "int \<Rightarrow> int \<Rightarrow> pool \<Rightarrow> pool" where
  "commit_node amount actual pl =
     pl\<lparr>reserved := wrap64 (reserved pl - amount), committed := wrap64 (committed pl + actual)\<rparr>"

fun commitUp_chain :: "(pid \<Rightarrow> pool) \<Rightarrow> pid list \<Rightarrow> int \<Rightarrow> int \<Rightarrow> (pid \<Rightarrow> pool)" where
  "commitUp_chain h [] amount actual = h"
| "commitUp_chain h (p # ps) amount actual =
     commitUp_chain (h(p := commit_node amount actual (h p))) ps amount actual"

definition commitUp :: "store \<Rightarrow> pid \<Rightarrow> int \<Rightarrow> int \<Rightarrow> store" where
  "commitUp s p amount actual = s\<lparr>pools := commitUp_chain (pools s) (chain s p) amount actual\<rparr>"

fun releaseUp_chain :: "(pid \<Rightarrow> pool) \<Rightarrow> pid list \<Rightarrow> int \<Rightarrow> (pid \<Rightarrow> pool)" where
  "releaseUp_chain h [] n = h"
| "releaseUp_chain h (p # ps) n =
     (if n \<le> 0 then h
      else let actual = min n (reserved (h p)); h1 = h(p := add_reserved (- actual) (h p))
           in if 0 < actual then releaseUp_chain h1 ps actual else h1)"

definition releaseUp :: "store \<Rightarrow> pid \<Rightarrow> int \<Rightarrow> store" where
  "releaseUp s p n = s\<lparr>pools := releaseUp_chain (pools s) (chain s p) n\<rparr>"

fun releaseCommittedUp_chain :: "(pid \<Rightarrow> pool) \<Rightarrow> pid list \<Rightarrow> int \<Rightarrow> (pid \<Rightarrow> pool)" where
  "releaseCommittedUp_chain h [] n = h"
| "releaseCommittedUp_chain h (p # ps) n =
     (if n \<le> 0 then h
      else let actual = min n (committed (h p)); h1 = h(p := add_committed (- actual) (h p))
           in if 0 < actual then releaseCommittedUp_chain h1 ps actual else h1)"

definition releaseCommittedUp :: "store \<Rightarrow> pid \<Rightarrow> int \<Rightarrow> store" where
  "releaseCommittedUp s p n = s\<lparr>pools := releaseCommittedUp_chain (pools s) (chain s p) n\<rparr>"

fun adjustUp_chain :: "(pid \<Rightarrow> pool) \<Rightarrow> pid list \<Rightarrow> int \<Rightarrow> (pid \<Rightarrow> pool)" where
  "adjustUp_chain h [] diff = h"
| "adjustUp_chain h (p # ps) diff =
     (if diff = 0 then h
      else let actual = (if wrap64 (committed (h p) + diff) < 0 then wrap64 (- committed (h p)) else diff);
               h1 = h(p := add_committed actual (h p))
           in if actual \<noteq> 0 then adjustUp_chain h1 ps actual else h1)"

definition adjustUp :: "store \<Rightarrow> pid \<Rightarrow> int \<Rightarrow> store" where
  "adjustUp s p diff = s\<lparr>pools := adjustUp_chain (pools s) (chain s p) diff\<rparr>"

section \<open>Reservations and the public ledger operations\<close>

record reservation =
  rpool :: pid
  ramount :: int
  rdone :: bool

definition commitReservation :: "store \<Rightarrow> pid \<Rightarrow> int \<Rightarrow> int \<Rightarrow> store" where
  "commitReservation s p amount actual =
     (if amount \<le> actual then commitUp s p amount actual
      else snd (withWaitLock s p (\<lambda>s. ((), commitUp s p amount actual))))"

definition releaseReserve :: "store \<Rightarrow> pid \<Rightarrow> int \<Rightarrow> store" where
  "releaseReserve s p n = snd (withWaitLock s p (\<lambda>s. ((), releaseUp s p n)))"

definition Pool_TryReserve :: "store \<Rightarrow> pid \<Rightarrow> int \<Rightarrow> (qerr + reservation) \<times> store" where
  "Pool_TryReserve s p estimate = (let amt = nonNeg estimate in
     case reserveUp s p amt of
       (Some e, s1) \<Rightarrow> (Inl e, s1)
     | (None, s1) \<Rightarrow> (Inr \<lparr>rpool = p, ramount = amt, rdone = False\<rparr>, s1))"

definition Reservation_Commit :: "store \<Rightarrow> reservation \<Rightarrow> int \<Rightarrow> reservation \<times> store" where
  "Reservation_Commit s r actual =
     (if rdone r then (r, s)
      else (r\<lparr>rdone := True\<rparr>, commitReservation s (rpool r) (ramount r) (nonNeg actual)))"

definition Reservation_Release :: "store \<Rightarrow> reservation \<Rightarrow> reservation \<times> store" where
  "Reservation_Release s r =
     (if rdone r then (r, s)
      else (r\<lparr>rdone := True\<rparr>,
            snd (withWaitLock s (rpool r) (\<lambda>s. ((), releaseUp s (rpool r) (ramount r))))))"

definition Pool_Usage :: "store \<Rightarrow> pid \<Rightarrow> int" where
  "Pool_Usage s p = committed (pools s p)"

definition Pool_Reserved :: "store \<Rightarrow> pid \<Rightarrow> int" where
  "Pool_Reserved s p = reserved (pools s p)"

definition Pool_MaxBytes :: "store \<Rightarrow> pid \<Rightarrow> int" where
  "Pool_MaxBytes s p = maxBytes (pools s p)"

definition Pool_Usable :: "store \<Rightarrow> pid \<Rightarrow> int" where
  "Pool_Usable s p = usableLocked (pools s p)"

definition available :: "store \<Rightarrow> pid \<Rightarrow> int" where
  "available s p = (let used = wrap64 (committed (pools s p) + reserved (pools s p)) in
     if maxBytes (pools s p) \<le> 0 then max_int64
     else let u = usableLocked (pools s p) in if u \<le> used then 0 else wrap64 (u - used))"

definition SetMaxBytes :: "store \<Rightarrow> pid \<Rightarrow> int \<Rightarrow> store" where
  "SetMaxBytes s p n = snd (withWaitLock s p (\<lambda>s.
     ((), s\<lparr>pools := (pools s)(p := (pools s p)\<lparr>maxBytes := n\<rparr>)\<rparr>)))"

definition SetOperationalReserve :: "store \<Rightarrow> pid \<Rightarrow> int \<Rightarrow> store" where
  "SetOperationalReserve s p n = (let m = (if n < 0 then 0 else n) in snd (withWaitLock s p (\<lambda>s.
     ((), s\<lparr>pools := (pools s)(p := (pools s p)\<lparr>oreserve := m\<rparr>)\<rparr>))))"

definition Pool_Adjust :: "store \<Rightarrow> pid \<Rightarrow> int \<Rightarrow> int \<Rightarrow> store" where
  "Pool_Adjust s p prev nxt = snd (withWaitLock s p (\<lambda>s. ((), adjustUp s p (wrap64 (nxt - prev)))))"

definition ReleaseCommitted :: "store \<Rightarrow> pid \<Rightarrow> int \<Rightarrow> store" where
  "ReleaseCommitted s p n = snd (withWaitLock s p (\<lambda>s. ((), releaseCommittedUp s p (nonNeg n))))"

text \<open>\<open>Scope.TryReserve\<close>, \<open>Scope.ReleaseUsage\<close> and \<open>Scope.Adjust\<close> have their own bodies in the
  source, over the same ledger node.\<close>

definition Scope_TryReserve :: "store \<Rightarrow> pid \<Rightarrow> int \<Rightarrow> (qerr + reservation) \<times> store" where
  "Scope_TryReserve s p estimate = (let amt = nonNeg estimate in
     case reserveUp s p amt of
       (Some e, s1) \<Rightarrow> (Inl e, s1)
     | (None, s1) \<Rightarrow> (Inr \<lparr>rpool = p, ramount = amt, rdone = False\<rparr>, s1))"

definition ReleaseUsage :: "store \<Rightarrow> pid \<Rightarrow> int \<Rightarrow> store" where
  "ReleaseUsage s p n = snd (withWaitLock s p (\<lambda>s. ((), releaseCommittedUp s p (nonNeg n))))"

definition Scope_Adjust :: "store \<Rightarrow> pid \<Rightarrow> int \<Rightarrow> int \<Rightarrow> store" where
  "Scope_Adjust s p prev nxt = snd (withWaitLock s p (\<lambda>s. ((), adjustUp s p (wrap64 (nxt - prev)))))"

definition ProbeReserve :: "store \<Rightarrow> pid \<Rightarrow> int \<Rightarrow> qerr option \<times> store" where
  "ProbeReserve s p n =
     (if n \<le> 0 then (None, s)
      else case Scope_TryReserve s p n of
        (Inl e, s1) \<Rightarrow> (Some e, s1)
      | (Inr r, s1) \<Rightarrow> (None, snd (Reservation_Release s1 r)))"

section \<open>Well-formed stores\<close>

text \<open>Addresses grow along construction, and every field is an \<open>int64\<close>.\<close>

definition parents_below :: "store \<Rightarrow> bool" where
  "parents_below s \<longleftrightarrow> (\<forall>p < next_pid s. \<forall>q. parent (pools s p) = Some q \<longrightarrow> q < p)"

definition pool_in64 :: "pool \<Rightarrow> bool" where
  "pool_in64 pl \<longleftrightarrow> in64 (maxBytes pl) \<and> in64 (committed pl) \<and> in64 (reserved pl)
     \<and> in64 (allocated pl) \<and> in64 (oreserve pl)"

definition kids :: "store \<Rightarrow> pid \<Rightarrow> pid set" where
  "kids s p = {c. c < next_pid s \<and> parent (pools s c) = Some p}"

text \<open>The aggregation law of a ledger field: no ancestor records less than the sum of the nodes
  below it, and nothing is negative.\<close>

definition aggregated :: "(pool \<Rightarrow> int) \<Rightarrow> store \<Rightarrow> bool" where
  "aggregated f s \<longleftrightarrow> (\<forall>p < next_pid s. 0 \<le> f (pools s p) \<and> f (pools s p) \<le> max_int64
     \<and> (\<Sum>c\<in>kids s p. f (pools s c)) \<le> f (pools s p))"

section \<open>The chain\<close>

lemma anc_self [simp]: "p \<in> set (anc par p)"
  by (subst anc.simps) simp

lemma anc_None: "par p = None \<Longrightarrow> anc par p = [p]"
  by (subst anc.simps) simp

lemma anc_Some: "par p = Some q \<Longrightarrow> q < p \<Longrightarrow> anc par p = p # anc par q"
  by (subst anc.simps) simp

lemma anc_above: "par p = Some q \<Longrightarrow> \<not> q < p \<Longrightarrow> anc par p = [p]"
  by (subst anc.simps) simp

lemma anc_cases:
  obtains (root) "anc par p = [p]" and "\<And>q. par p = Some q \<Longrightarrow> p \<le> q"
  | (child) q where "par p = Some q" and "q < p" and "anc par p = p # anc par q"
proof (cases "par p")
  case None
  then show ?thesis using root by (simp add: anc_None)
next
  case (Some q)
  then show ?thesis
    using root child by (cases "q < p") (simp_all add: anc_Some anc_above)
qed

lemma anc_le: "q \<in> set (anc par p) \<Longrightarrow> q \<le> p"
proof (induction p rule: less_induct)
  case (less p)
  show ?case
    by (cases rule: anc_cases [of par p]) (use less in fastforce)+
qed

lemma anc_distinct: "distinct (anc par p)"
proof (induction p rule: less_induct)
  case (less p)
  show ?case
    by (cases rule: anc_cases [of par p]) (use less in \<open>auto dest: anc_le\<close>)
qed

text \<open>With parents below their children the chain is closed under \<open>parent\<close>, and each node of the chain
  but the first has exactly one child on it.\<close>

lemma anc_parent:
  "q \<in> set (anc par p) \<Longrightarrow> par q = Some r \<Longrightarrow> r < q \<Longrightarrow> r \<in> set (anc par p)"
proof (induction p rule: less_induct)
  case (less p)
  show ?case
    by (cases rule: anc_cases [of par p]) (use less in fastforce)+
qed

lemma anc_kid:
  "r \<in> set (anc par p) \<Longrightarrow> r \<noteq> p \<Longrightarrow> \<exists>c. c \<in> set (anc par p) \<and> par c = Some r \<and> r < c"
proof (induction p rule: less_induct)
  case (less p)
  show ?case
  proof (cases rule: anc_cases [of par p])
    case root
    with less.prems show ?thesis by simp
  next
    case (child q)
    show ?thesis
    proof (cases "r = q")
      case True
      with child show ?thesis by auto
    next
      case False
      with less child show ?thesis by auto
    qed
  qed
qed

lemma anc_kid_unique:
  assumes "c \<in> set (anc par p)" and "d \<in> set (anc par p)"
    and "par c = Some r" and "par d = Some r" and "r < c" and "r < d"
  shows "c = d"
  using assms
proof (induction p rule: less_induct)
  case (less p)
  show ?case
  proof (cases rule: anc_cases [of par p])
    case root
    with less.prems show ?thesis by simp
  next
    case (child q)
    have above: "x \<in> set (anc par q) \<Longrightarrow> par x = Some r \<Longrightarrow> r < x \<Longrightarrow> r \<noteq> q" for x
      by (auto dest: anc_le)
    show ?thesis
      using less child above by (cases "c = p"; cases "d = p") auto
  qed
qed

lemma anc_below: "p < N \<Longrightarrow> q \<in> set (anc par p) \<Longrightarrow> q < N"
  by (auto dest: anc_le)

lemma anc_last_root:
  assumes "\<And>q r. q \<le> p \<Longrightarrow> par q = Some r \<Longrightarrow> r < q"
  shows "par (last (anc par p)) = None"
  using assms
proof (induction p rule: less_induct)
  case (less p)
  show ?case
  proof (cases rule: anc_cases [of par p])
    case root
    then show ?thesis using less.prems by (cases "par p") (auto dest: leD)
  next
    case (child q)
    have "par (last (anc par q)) = None"
      using child(2) by (intro less.IH) (auto intro: less.prems)
    moreover have "anc par q \<noteq> []" by (subst anc.simps) simp
    ultimately show ?thesis using child by simp
  qed
qed

lemma chain_not_Nil [simp]: "chain s p \<noteq> []"
  unfolding chain_def by (subst anc.simps) simp

lemma chain_self [simp]: "p \<in> set (chain s p)"
  by (simp add: chain_def)

lemma chain_distinct [simp]: "distinct (chain s p)"
  by (simp add: chain_def anc_distinct)

lemma chain_below: "p < next_pid s \<Longrightarrow> q \<in> set (chain s p) \<Longrightarrow> q < next_pid s"
  by (auto simp: chain_def intro: anc_below)

lemma chain_cong: "(\<And>q. parent (pools s' q) = parent (pools s q)) \<Longrightarrow> chain s' = chain s"
  by (simp add: chain_def fun_eq_iff)

lemma chain_frame [simp]:
  "chain (s\<lparr>wakes := w\<rparr>) = chain s" "chain (s\<lparr>next_pid := k\<rparr>) = chain s"
  by (auto intro: chain_cong)

lemma chain_Cons: "chain s p = p # tl (chain s p)"
  unfolding chain_def by (subst (1 2) anc.simps) simp

lemma finite_kids [simp]: "finite (kids s p)"
  by (simp add: kids_def)

lemma kids_above: "parents_below s \<Longrightarrow> c \<in> kids s r \<Longrightarrow> r < c"
  by (simp add: kids_def parents_below_def)

lemma chain_kid:
  assumes "p < next_pid s" and "r \<in> set (chain s p)" and "r \<noteq> p"
  shows "\<exists>c. c \<in> set (chain s p) \<and> c \<in> kids s r"
proof -
  obtain c where "c \<in> set (chain s p)" and "parent (pools s c) = Some r"
    using anc_kid [OF assms(2) [unfolded chain_def] assms(3)] by (auto simp: chain_def)
  then show ?thesis using chain_below [OF assms(1)] by (auto simp: kids_def)
qed

lemma chain_kid_unique:
  assumes "parents_below s" and "c \<in> kids s r" and "d \<in> kids s r"
    and "c \<in> set (chain s p)" and "d \<in> set (chain s p)"
  shows "c = d"
proof (rule anc_kid_unique)
  show "c \<in> set (anc (\<lambda>q. parent (pools s q)) p)" "d \<in> set (anc (\<lambda>q. parent (pools s q)) p)"
    using assms(4,5) by (simp_all add: chain_def)
  show "parent (pools s c) = Some r" "parent (pools s d) = Some r"
    using assms(2,3) by (simp_all add: kids_def)
  show "r < c" "r < d" using assms(1-3) by (auto dest: kids_above)
qed

lemma chain_parent:
  assumes "parents_below s" and "c \<in> kids s r" and "c \<in> set (chain s p)"
  shows "r \<in> set (chain s p)" and "r \<noteq> p"
proof -
  have "r < c" using assms(1,2) by (rule kids_above)
  then show "r \<in> set (chain s p)"
    using assms(2,3) by (auto simp: chain_def kids_def intro: anc_parent)
  show "r \<noteq> p" using \<open>r < c\<close> assms(3) by (auto simp: chain_def dest: anc_le)
qed

text \<open>Adding \<open>d\<close> along the chain of \<open>p\<close> changes the children's sum of every ancestor by \<open>d\<close>, and of
  no other node.\<close>

lemma sum_kids_chain:
  fixes v :: "pid \<Rightarrow> int"
  assumes wf: "parents_below s" and p: "p < next_pid s"
  shows "(\<Sum>c\<in>kids s r. if c \<in> set (chain s p) then v c + d else v c)
    = (\<Sum>c\<in>kids s r. v c) + (if r \<in> set (chain s p) \<and> r \<noteq> p then d else 0)"
proof (cases "r \<in> set (chain s p) \<and> r \<noteq> p")
  case True
  then obtain c where c: "c \<in> set (chain s p)" "c \<in> kids s r"
    using chain_kid [OF p] by blast
  moreover have "x \<notin> set (chain s p)" if "x \<in> kids s r" "x \<noteq> c" for x
    using chain_kid_unique [OF wf that(1) c(2) _ c(1)] that(2) by blast
  ultimately have "(\<Sum>x\<in>kids s r. if x \<in> set (chain s p) then v x + d else v x)
    = (\<Sum>x\<in>kids s r. v x) + d"
    using c(1) by (intro sum_change_one [where c = c and f = v]) simp_all
  then show ?thesis using True by simp
next
  case False
  then have "x \<notin> set (chain s p)" if "x \<in> kids s r" for x
    using chain_parent [OF wf that] by blast
  then have "(\<Sum>x\<in>kids s r. if x \<in> set (chain s p) then v x + d else v x) = (\<Sum>x\<in>kids s r. v x)"
    by (intro sum_change_none [where f = v]) simp
  then show ?thesis using False by auto
qed

end
