(* ===== verification/Ledger.thy ===== *)
theory Ledger
  imports Pool
begin

text \<open>
  Laws of the quota ledger (\<open>Pool\<close>): closed forms of the recursive chain walks, the node's own share of
  a field (\<open>own\<close>), and the invariant \<open>ledger_ok\<close>, kept by every ledger operation. The central fact is
  \<open>own_on_chain\<close>: a change applied along the chain of \<open>p\<close> changes the own share of \<open>p\<close> and of no
  other node.
\<close>

section \<open>Frame facts\<close>

lemma add_reserved_sel [simp]:
  "maxBytes (add_reserved n pl) = maxBytes pl" "committed (add_reserved n pl) = committed pl"
  "allocated (add_reserved n pl) = allocated pl" "oreserve (add_reserved n pl) = oreserve pl"
  "parent (add_reserved n pl) = parent pl" "children (add_reserved n pl) = children pl"
  "path (add_reserved n pl) = path pl" "queue (add_reserved n pl) = queue pl"
  "reserved (add_reserved n pl) = wrap64 (reserved pl + n)"
  by (simp_all add: add_reserved_def)

lemma add_committed_sel [simp]:
  "maxBytes (add_committed n pl) = maxBytes pl" "reserved (add_committed n pl) = reserved pl"
  "allocated (add_committed n pl) = allocated pl" "oreserve (add_committed n pl) = oreserve pl"
  "parent (add_committed n pl) = parent pl" "children (add_committed n pl) = children pl"
  "path (add_committed n pl) = path pl" "queue (add_committed n pl) = queue pl"
  "committed (add_committed n pl) = wrap64 (committed pl + n)"
  by (simp_all add: add_committed_def)

lemma commit_node_sel [simp]:
  "maxBytes (commit_node a b pl) = maxBytes pl" "reserved (commit_node a b pl) = wrap64 (reserved pl - a)"
  "allocated (commit_node a b pl) = allocated pl" "oreserve (commit_node a b pl) = oreserve pl"
  "parent (commit_node a b pl) = parent pl" "children (commit_node a b pl) = children pl"
  "path (commit_node a b pl) = path pl" "queue (commit_node a b pl) = queue pl"
  "committed (commit_node a b pl) = wrap64 (committed pl + b)"
  by (simp_all add: commit_node_def)

lemma add_reserved_undo: "in64 (reserved pl) \<Longrightarrow> add_reserved (- n) (add_reserved n pl) = pl"
  by (simp add: add_reserved_def wrap64_id)

lemma add_reserved_0: "in64 (reserved pl) \<Longrightarrow> add_reserved 0 pl = pl"
  by (simp add: add_reserved_def wrap64_id)

lemma add_committed_0: "in64 (committed pl) \<Longrightarrow> add_committed 0 pl = pl"
  by (simp add: add_committed_def wrap64_id)

lemma nonNeg_nonneg [simp]: "0 \<le> nonNeg n"
  by (simp add: nonNeg_def)

lemma nonNeg_id [simp]: "0 \<le> n \<Longrightarrow> nonNeg n = n"
  by (simp add: nonNeg_def)

section \<open>Closed forms of the chain walks\<close>

lemma reserveUp_chain_eq:
  assumes "distinct ps" and "\<And>p. p \<in> set ps \<Longrightarrow> in64 (reserved (h p))"
  shows "reserveUp_chain h ps n =
    (if \<exists>p\<in>set ps. over_limit (h p) n then (False, h) else (True, on_all (add_reserved n) ps h))"
  using assms
proof (induction ps arbitrary: h)
  case Nil
  then show ?case by simp
next
  case (Cons p ps)
  let ?h1 = "h(p := add_reserved n (h p))"
  have same: "?h1 q = h q" if "q \<in> set ps" for q using Cons.prems(1) that by auto
  have IH: "reserveUp_chain ?h1 ps n =
      (if \<exists>q\<in>set ps. over_limit (h q) n then (False, ?h1) else (True, on_all (add_reserved n) ps ?h1))"
    using Cons.prems same by (subst Cons.IH) (auto simp: same)
  show ?case
  proof (cases "over_limit (h p) n")
    case True
    then show ?thesis by simp
  next
    case False
    show ?thesis
    proof (cases "\<exists>q\<in>set ps. over_limit (h q) n")
      case True
      then show ?thesis
        using False Cons.prems by (simp add: IH add_reserved_undo fun_upd_idem)
    next
      case none: False
      then show ?thesis
        using False Cons.prems by (simp add: IH on_all_Cons)
    qed
  qed
qed

lemma commitUp_chain_eq: "distinct ps \<Longrightarrow> commitUp_chain h ps a b = on_all (commit_node a b) ps h"
  by (induction ps arbitrary: h) (simp_all add: on_all_Cons)

lemma releaseUp_chain_all:
  "distinct ps \<Longrightarrow> 0 < n \<Longrightarrow> (\<And>p. p \<in> set ps \<Longrightarrow> n \<le> reserved (h p))
    \<Longrightarrow> releaseUp_chain h ps n = on_all (add_reserved (- n)) ps h"
proof (induction ps arbitrary: h)
  case (Cons p ps)
  have "releaseUp_chain (h(p := add_reserved (- n) (h p))) ps n
      = on_all (add_reserved (- n)) ps (h(p := add_reserved (- n) (h p)))"
    using Cons.prems by (intro Cons.IH) auto
  with Cons.prems show ?case by (simp add: on_all_Cons Let_def min_absorb1)
qed simp

lemma releaseCommittedUp_chain_all:
  "distinct ps \<Longrightarrow> 0 < n \<Longrightarrow> (\<And>p. p \<in> set ps \<Longrightarrow> n \<le> committed (h p))
    \<Longrightarrow> releaseCommittedUp_chain h ps n = on_all (add_committed (- n)) ps h"
proof (induction ps arbitrary: h)
  case (Cons p ps)
  have "releaseCommittedUp_chain (h(p := add_committed (- n) (h p))) ps n
      = on_all (add_committed (- n)) ps (h(p := add_committed (- n) (h p)))"
    using Cons.prems by (intro Cons.IH) auto
  with Cons.prems show ?case by (simp add: on_all_Cons Let_def min_absorb1)
qed simp

lemma adjustUp_chain_all:
  "distinct ps \<Longrightarrow> d \<noteq> 0 \<Longrightarrow> (\<And>p. p \<in> set ps \<Longrightarrow> 0 \<le> committed (h p) + d \<and> committed (h p) + d \<le> max_int64)
    \<Longrightarrow> adjustUp_chain h ps d = on_all (add_committed d) ps h"
proof (induction ps arbitrary: h)
  case (Cons p ps)
  have "adjustUp_chain (h(p := add_committed d (h p))) ps d
      = on_all (add_committed d) ps (h(p := add_committed d (h p)))"
    using Cons.prems by (intro Cons.IH) auto
  moreover have "wrap64 (committed (h p) + d) = committed (h p) + d"
    using Cons.prems by (simp add: wrap64_nonneg)
  moreover have "\<not> committed (h p) + d < 0" using Cons.prems(3) [of p] by simp
  ultimately show ?case using Cons.prems(1,2) by (simp add: on_all_Cons Let_def)
qed simp

section \<open>Own shares and the ledger invariant\<close>

definition own :: "(pool \<Rightarrow> int) \<Rightarrow> store \<Rightarrow> pid \<Rightarrow> int" where
  "own f s p = f (pools s p) - (\<Sum>c\<in>kids s p. f (pools s c))"

definition ledger_ok :: "store \<Rightarrow> bool" where
  "ledger_ok s \<longleftrightarrow> parents_below s \<and> (\<forall>p < next_pid s. pool_in64 (pools s p))
     \<and> aggregated committed s \<and> aggregated reserved s"

lemma ledger_okD:
  assumes "ledger_ok s"
  shows "parents_below s" and "aggregated committed s" and "aggregated reserved s"
    and "p < next_pid s \<Longrightarrow> pool_in64 (pools s p)"
  using assms by (auto simp: ledger_ok_def)

lemma aggregatedD:
  assumes "aggregated f s" and "p < next_pid s"
  shows "0 \<le> f (pools s p)" and "f (pools s p) \<le> max_int64" and "0 \<le> own f s p"
  using assms by (auto simp: aggregated_def own_def)

lemma kids_cong:
  "next_pid s' = next_pid s \<Longrightarrow> (\<And>q. parent (pools s' q) = parent (pools s q)) \<Longrightarrow> kids s' = kids s"
  by (auto simp: kids_def fun_eq_iff)

lemma kids_frame [simp]: "kids (s\<lparr>wakes := w\<rparr>) = kids s"
  by (simp add: kids_def fun_eq_iff)

lemma own_frame [simp]: "own f (s\<lparr>wakes := w\<rparr>) p = own f s p"
  by (simp add: own_def)

lemma ledger_ok_frame [simp]: "ledger_ok (s\<lparr>wakes := w\<rparr>) = ledger_ok s"
  by (simp add: ledger_ok_def parents_below_def aggregated_def)

lemma parents_below_cong:
  "next_pid s' = next_pid s \<Longrightarrow> (\<And>q. parent (pools s' q) = parent (pools s q))
    \<Longrightarrow> parents_below s' = parents_below s"
  by (simp add: parents_below_def)

text \<open>A child never records more than its parent.\<close>

lemma aggregated_chain_mono:
  assumes "aggregated f s" and "parents_below s" and "p < next_pid s"
  shows "q \<in> set (chain s p) \<Longrightarrow> f (pools s p) \<le> f (pools s q)"
  using assms(3)
proof (induction p rule: less_induct)
  case (less p)
  let ?par = "\<lambda>q. parent (pools s q)"
  show ?case
  proof (cases rule: anc_cases [of ?par p])
    case root
    with less.prems show ?thesis by (simp add: chain_def)
  next
    case (child r)
    then have kid: "p \<in> kids s r" and r: "r < next_pid s"
      using less.prems by (auto simp: kids_def)
    have "f (pools s p) \<le> (\<Sum>c\<in>kids s r. f (pools s c))"
      using assms(1) kid by (intro member_le_sum_int) (auto simp: kids_def aggregated_def)
    also have "\<dots> \<le> f (pools s r)" using assms(1) r by (simp add: aggregated_def)
    finally have "f (pools s p) \<le> f (pools s r)" .
    moreover have "f (pools s r) \<le> f (pools s q)" if "q \<in> set (chain s r)"
      using less.IH [OF \<open>r < p\<close> that r] .
    ultimately show ?thesis using less.prems child by (auto simp: chain_def)
  qed
qed

text \<open>The effect of one walk along the chain of \<open>p\<close> by a node update \<open>g\<close> that adds \<open>d\<close> to a field.\<close>

definition walk :: "(pool \<Rightarrow> pool) \<Rightarrow> pid \<Rightarrow> store \<Rightarrow> store" where
  "walk g p s = s\<lparr>pools := on_all g (chain s p) (pools s)\<rparr>"

lemma walk_pools: "pools (walk g p s) q = (if q \<in> set (chain s p) then g (pools s q) else pools s q)"
  by (simp add: walk_def on_all_apply)

lemma walk_sel [simp]: "next_pid (walk g p s) = next_pid s" "wakes (walk g p s) = wakes s"
  by (simp_all add: walk_def)

lemma walk_parent:
  assumes "\<And>pl. parent (g pl) = parent pl"
  shows "parent (pools (walk g p s) q) = parent (pools s q)"
  by (simp add: walk_pools assms)

lemma walk_structure:
  assumes "\<And>pl. parent (g pl) = parent pl"
  shows "chain (walk g p s) = chain s" and "kids (walk g p s) = kids s"
    and "parents_below (walk g p s) = parents_below s"
  by (auto intro!: chain_cong kids_cong parents_below_cong simp: walk_parent [OF assms])

lemma own_on_chain:
  assumes wf: "parents_below s" and p: "p < next_pid s" and par: "\<And>pl. parent (g pl) = parent pl"
    and d: "\<And>q. q \<in> set (chain s p) \<Longrightarrow> f (g (pools s q)) = f (pools s q) + d"
  shows "own f (walk g p s) r = own f s r + (if r = p then d else 0)"
proof -
  have "(\<Sum>c\<in>kids s r. f (pools (walk g p s) c))
      = (\<Sum>c\<in>kids s r. if c \<in> set (chain s p) then f (pools s c) + d else f (pools s c))"
    by (rule sum.cong) (auto simp: walk_pools d)
  also have "\<dots> = (\<Sum>c\<in>kids s r. f (pools s c)) + (if r \<in> set (chain s p) \<and> r \<noteq> p then d else 0)"
    by (rule sum_kids_chain [OF wf p])
  finally show ?thesis
    by (auto simp: own_def walk_structure [OF par] walk_pools d)
qed

lemma aggregated_walk:
  assumes wf: "parents_below s" and p: "p < next_pid s" and par: "\<And>pl. parent (g pl) = parent pl"
    and d: "\<And>q. q \<in> set (chain s p) \<Longrightarrow> f (g (pools s q)) = f (pools s q) + d"
    and ag: "aggregated f s" and share: "0 \<le> own f s p + d"
    and hi: "\<And>q. q \<in> set (chain s p) \<Longrightarrow> f (pools s q) + d \<le> max_int64"
  shows "aggregated f (walk g p s)"
proof -
  have lo: "0 \<le> f (pools s q) + d" if "q \<in> set (chain s p)" for q
  proof -
    have "own f s p \<le> f (pools s p)"
      using ag p by (auto simp: own_def aggregated_def kids_def intro!: sum_nonneg)
    with share aggregated_chain_mono [OF ag wf p that] show ?thesis by simp
  qed
  show ?thesis
    unfolding aggregated_def
  proof (intro allI impI conjI)
    fix r assume r: "r < next_pid (walk g p s)"
    then show "0 \<le> f (pools (walk g p s) r)" "f (pools (walk g p s) r) \<le> max_int64"
      using ag lo hi by (auto simp: walk_pools d aggregated_def)
    have "0 \<le> own f (walk g p s) r"
      using own_on_chain [OF wf p par d, of r] aggregatedD(3) [OF ag, of r] r share by simp
    then show "(\<Sum>c\<in>kids (walk g p s) r. f (pools (walk g p s) c)) \<le> f (pools (walk g p s) r)"
      by (simp add: own_def)
  qed
qed

lemma aggregated_walk_same:
  assumes wf: "parents_below s" and p: "p < next_pid s" and par: "\<And>pl. parent (g pl) = parent pl"
    and same: "\<And>pl. f (g pl) = f pl" and ag: "aggregated f s"
  shows "aggregated f (walk g p s)"
  using aggregatedD(3) [OF ag p] ag chain_below [OF p]
  by (intro aggregated_walk [where d = 0, OF wf p par]) (auto simp: same aggregated_def)

lemma ledger_ok_walk:
  assumes ok: "ledger_ok s" and p: "p < next_pid s"
    and frame: "\<And>pl. parent (g pl) = parent pl" "\<And>pl. maxBytes (g pl) = maxBytes pl"
      "\<And>pl. allocated (g pl) = allocated pl" "\<And>pl. oreserve (g pl) = oreserve pl"
    and dc: "\<And>q. q \<in> set (chain s p) \<Longrightarrow> committed (g (pools s q)) = committed (pools s q) + dc"
    and dr: "\<And>q. q \<in> set (chain s p) \<Longrightarrow> reserved (g (pools s q)) = reserved (pools s q) + dr"
    and share: "0 \<le> own committed s p + dc" "0 \<le> own reserved s p + dr"
    and hi: "\<And>q. q \<in> set (chain s p) \<Longrightarrow> committed (pools s q) + dc \<le> max_int64"
      "\<And>q. q \<in> set (chain s p) \<Longrightarrow> reserved (pools s q) + dr \<le> max_int64"
  shows "ledger_ok (walk g p s)"
proof -
  note wf = ledger_okD(1) [OF ok]
  have ag: "aggregated committed (walk g p s)" "aggregated reserved (walk g p s)"
    using aggregated_walk [OF wf p frame(1) dc ledger_okD(2) [OF ok] share(1) hi(1)]
      aggregated_walk [OF wf p frame(1) dr ledger_okD(3) [OF ok] share(2) hi(2)] by auto
  have "pool_in64 (pools (walk g p s) q)" if q: "q < next_pid s" for q
    using ledger_okD(4) [OF ok q] aggregatedD [OF ag(1), of q] aggregatedD [OF ag(2), of q] q
    by (auto simp: pool_in64_def walk_pools frame in64_def)
  with ag wf show ?thesis by (simp add: ledger_ok_def walk_structure [OF frame(1)])
qed

section \<open>The walks under the invariant\<close>

lemma ledger_ok_chain_in64:
  "ledger_ok s \<Longrightarrow> p < next_pid s \<Longrightarrow> q \<in> set (chain s p) \<Longrightarrow> pool_in64 (pools s q)"
  using chain_below ledger_okD(4) by blast

lemma walk_id: "(\<And>q. q \<in> set (chain s p) \<Longrightarrow> g (pools s q) = pools s q) \<Longrightarrow> walk g p s = s"
  by (simp add: walk_def on_all_id)

lemma reserveUp_eq:
  assumes "ledger_ok s" and "p < next_pid s"
  shows "reserveUp s p n = (if \<exists>q\<in>set (chain s p). over_limit (pools s q) n
    then (Some ErrStorageFull, s) else (None, walk (add_reserved n) p s))"
  using ledger_ok_chain_in64 [OF assms]
  by (simp add: reserveUp_def walk_def pool_in64_def reserveUp_chain_eq)

lemma commitUp_eq: "commitUp s p a b = walk (commit_node a b) p s"
  by (simp add: commitUp_def walk_def commitUp_chain_eq)

text \<open>What a release takes off: the requested amount, cut to what the node holds.\<close>

definition taken :: "int \<Rightarrow> int \<Rightarrow> int" where
  "taken held n = max 0 (min n held)"

lemma taken_bounds: "0 \<le> taken held n" "0 \<le> held \<Longrightarrow> taken held n \<le> held" "0 \<le> n \<Longrightarrow> taken held n \<le> n"
  by (auto simp: taken_def)

lemma taken_all [simp]: "0 \<le> n \<Longrightarrow> n \<le> held \<Longrightarrow> taken held n = n"
  by (simp add: taken_def)

lemma releaseUp_eq:
  assumes ok: "ledger_ok s" and p: "p < next_pid s"
  shows "releaseUp s p n = walk (add_reserved (- taken (reserved (pools s p)) n)) p s"
proof -
  note mono = aggregated_chain_mono [OF ledger_okD(3,1) [OF ok] p]
  note in64 = ledger_ok_chain_in64 [OF ok p, unfolded pool_in64_def]
  obtain ps where ps: "chain s p = p # ps" using chain_Cons by blast
  let ?h = "pools s" and ?a = "min n (reserved (pools s p))"
  show ?thesis
  proof (cases "0 < ?a")
    case True
    then have "releaseUp_chain ?h (chain s p) n = releaseUp_chain ?h (chain s p) ?a"
      by (simp add: ps Let_def min_le_iff_disj)
    also have "\<dots> = on_all (add_reserved (- ?a)) (chain s p) ?h"
      using True mono by (intro releaseUp_chain_all) (auto intro: min.coboundedI2)
    finally show ?thesis using True by (simp add: releaseUp_def walk_def taken_def)
  next
    case False
    then have "taken (reserved (pools s p)) n = 0" by (auto simp: taken_def min_def max_def)
    moreover have "releaseUp_chain ?h (chain s p) n = ?h"
      using False aggregatedD(1) [OF ledger_okD(3) [OF ok] p] in64 [of p]
      by (auto simp: ps Let_def add_reserved_0 min_def split: if_splits)
    ultimately show ?thesis
      using in64 by (simp add: releaseUp_def walk_id add_reserved_0)
  qed
qed

lemma releaseCommittedUp_eq:
  assumes ok: "ledger_ok s" and p: "p < next_pid s"
  shows "releaseCommittedUp s p n = walk (add_committed (- taken (committed (pools s p)) n)) p s"
proof -
  note mono = aggregated_chain_mono [OF ledger_okD(2,1) [OF ok] p]
  note in64 = ledger_ok_chain_in64 [OF ok p, unfolded pool_in64_def]
  obtain ps where ps: "chain s p = p # ps" using chain_Cons by blast
  let ?h = "pools s" and ?a = "min n (committed (pools s p))"
  show ?thesis
  proof (cases "0 < ?a")
    case True
    then have "releaseCommittedUp_chain ?h (chain s p) n = releaseCommittedUp_chain ?h (chain s p) ?a"
      by (simp add: ps Let_def min_le_iff_disj)
    also have "\<dots> = on_all (add_committed (- ?a)) (chain s p) ?h"
      using True mono by (intro releaseCommittedUp_chain_all) (auto intro: min.coboundedI2)
    finally show ?thesis using True by (simp add: releaseCommittedUp_def walk_def taken_def)
  next
    case False
    then have "taken (committed (pools s p)) n = 0" by (auto simp: taken_def min_def max_def)
    moreover have "releaseCommittedUp_chain ?h (chain s p) n = ?h"
      using False aggregatedD(1) [OF ledger_okD(2) [OF ok] p] in64 [of p]
      by (auto simp: ps Let_def add_committed_0 min_def split: if_splits)
    ultimately show ?thesis
      using in64 by (simp add: releaseCommittedUp_def walk_id add_committed_0)
  qed
qed

lemma adjustUp_eq:
  assumes ok: "ledger_ok s" and p: "p < next_pid s" and d: "in64 d"
    and hi: "\<And>q. q \<in> set (chain s p) \<Longrightarrow> committed (pools s q) + d \<le> max_int64"
  shows "adjustUp s p d = walk (add_committed (max d (- committed (pools s p)))) p s"
proof -
  note mono = aggregated_chain_mono [OF ledger_okD(2,1) [OF ok] p]
  note in64 = ledger_ok_chain_in64 [OF ok p, unfolded pool_in64_def]
  note pos = aggregatedD [OF ledger_okD(2) [OF ok]]
  obtain ps where ps: "chain s p = p # ps" using chain_Cons by blast
  let ?h = "pools s" and ?a = "max d (- committed (pools s p))"
  have rng: "0 \<le> committed (?h q) + ?a \<and> committed (?h q) + ?a \<le> max_int64" if "q \<in> set (chain s p)" for q
    using hi [OF that] mono [OF that] pos(2) [OF chain_below [OF p that]] pos(1) [OF p] by (simp add: max_def)
  have wrap: "wrap64 (committed (?h p) + d) = committed (?h p) + d"
    using d hi [of p] pos(1,2) [OF p] by (simp add: wrap64_id in64_def)
  have neg: "wrap64 (- committed (?h p)) = - committed (?h p)"
    using pos(1,2) [OF p] by (simp add: wrap64_id in64_def)
  show ?thesis
  proof (cases "?a = 0")
    case True
    then have "adjustUp_chain ?h (chain s p) d = ?h"
      using in64 [of p] pos(1) [OF p] wrap neg
      by (auto simp: ps Let_def add_committed_0 max_def split: if_splits)
    then show ?thesis using True in64 by (simp add: adjustUp_def walk_id add_committed_0)
  next
    case False
    have "adjustUp_chain ?h (chain s p) d = adjustUp_chain ?h (chain s p) ?a"
    proof (cases "committed (?h p) + d < 0")
      case True
      with False wrap neg pos(1) [OF p] show ?thesis by (simp add: ps)
    next
      case False
      then have "?a = d" by simp
      then show ?thesis by simp
    qed
    also have "\<dots> = on_all (add_committed ?a) (chain s p) ?h"
      using False rng by (intro adjustUp_chain_all) auto
    finally show ?thesis by (simp add: adjustUp_def walk_def)
  qed
qed

section \<open>Shifts: the abstract effect of an operation on the ledger\<close>

text \<open>\<open>shifted s p dc dr s'\<close>: from \<open>s\<close> to \<open>s'\<close> the node \<open>p\<close> and its ancestors gained \<open>dc\<close> committed and
  \<open>dr\<close> reserved bytes (mathematically, nothing wrapped), and no other cell changed.\<close>

definition shift_node :: "int \<Rightarrow> int \<Rightarrow> pool \<Rightarrow> pool" where
  "shift_node dc dr pl = pl\<lparr>committed := committed pl + dc, reserved := reserved pl + dr\<rparr>"

definition shifted :: "store \<Rightarrow> pid \<Rightarrow> int \<Rightarrow> int \<Rightarrow> store \<Rightarrow> bool" where
  "shifted s p dc dr s' \<longleftrightarrow> next_pid s' = next_pid s
     \<and> (\<forall>q. pools s' q = (if q \<in> set (chain s p) then shift_node dc dr (pools s q) else pools s q))"

lemma shift_node_sel [simp]:
  "maxBytes (shift_node a b pl) = maxBytes pl" "reserved (shift_node a b pl) = reserved pl + b"
  "allocated (shift_node a b pl) = allocated pl" "oreserve (shift_node a b pl) = oreserve pl"
  "parent (shift_node a b pl) = parent pl" "children (shift_node a b pl) = children pl"
  "path (shift_node a b pl) = path pl" "queue (shift_node a b pl) = queue pl"
  "committed (shift_node a b pl) = committed pl + a"
  by (simp_all add: shift_node_def)

lemma shift_node_shift_node: "shift_node c d (shift_node a b pl) = shift_node (a + c) (b + d) pl"
  by (simp add: shift_node_def)

lemma shift_node_0 [simp]: "shift_node 0 0 pl = pl"
  by (simp add: shift_node_def)

lemma shifted_pools: "shifted s p dc dr s' \<Longrightarrow> pools s' = pools (walk (shift_node dc dr) p s)"
  by (simp add: shifted_def fun_eq_iff walk_pools)

lemma shifted_next: "shifted s p dc dr s' \<Longrightarrow> next_pid s' = next_pid s"
  by (simp add: shifted_def)

lemma shifted_chain: "shifted s p dc dr s' \<Longrightarrow> chain s' = chain s"
  by (rule chain_cong) (simp add: shifted_def)

lemma shifted_sel:
  assumes "shifted s p dc dr s'"
  shows "parent (pools s' q) = parent (pools s q)" "maxBytes (pools s' q) = maxBytes (pools s q)"
    "oreserve (pools s' q) = oreserve (pools s q)" "queue (pools s' q) = queue (pools s q)"
    "usableLocked (pools s' q) = usableLocked (pools s q)"
    "committed (pools s' q) = committed (pools s q) + (if q \<in> set (chain s p) then dc else 0)"
    "reserved (pools s' q) = reserved (pools s q) + (if q \<in> set (chain s p) then dr else 0)"
  using assms by (auto simp: shifted_def usableLocked_def)

lemma shifted_kids: "shifted s p dc dr s' \<Longrightarrow> kids s' = kids s"
  by (rule kids_cong) (auto simp: shifted_def)

lemma shifted_refl [simp]: "shifted s p 0 0 s"
  by (simp add: shifted_def)

lemma shifted_same: "shifted s p 0 0 s' \<Longrightarrow> pools s' = pools s"
  by (simp add: shifted_def fun_eq_iff)

lemma shifted_trans:
  assumes "shifted s p a b s'" and "shifted s' p c d s''"
  shows "shifted s p (a + c) (b + d) s''"
  using assms shifted_chain [OF assms(1)] by (simp add: shifted_def shift_node_shift_node)

lemma shifted_wakes [simp]: "shifted s p dc dr (s'\<lparr>wakes := w\<rparr>) = shifted s p dc dr s'"
  by (simp add: shifted_def)

lemma shifted_own:
  assumes "ledger_ok s" and "p < next_pid s" and "shifted s p dc dr s'"
  shows "own committed s' r = own committed s r + (if r = p then dc else 0)"
    and "own reserved s' r = own reserved s r + (if r = p then dr else 0)"
proof -
  note w = ledger_okD(1) [OF assms(1)] assms(2)
  have "own f s' r = own f (walk (shift_node dc dr) p s) r" for f
    using shifted_pools [OF assms(3)] shifted_kids [OF assms(3)]
    by (simp add: own_def walk_structure)
  then show "own committed s' r = own committed s r + (if r = p then dc else 0)"
    and "own reserved s' r = own reserved s r + (if r = p then dr else 0)"
    using own_on_chain [OF w, of "shift_node dc dr" committed dc r]
      own_on_chain [OF w, of "shift_node dc dr" reserved dr r] by simp_all
qed

text \<open>No ancestor overflows: \<open>room s p dc dr\<close>.\<close>

definition room :: "store \<Rightarrow> pid \<Rightarrow> int \<Rightarrow> int \<Rightarrow> bool" where
  "room s p dc dr \<longleftrightarrow> (\<forall>q \<in> set (chain s p). committed (pools s q) + dc \<le> max_int64
     \<and> reserved (pools s q) + dr \<le> max_int64)"

lemma room_down:
  assumes "ledger_ok s" and "p < next_pid s" and "dc \<le> 0" and "dr \<le> 0"
  shows "room s p dc dr"
  unfolding room_def
proof (intro ballI conjI)
  fix q assume "q \<in> set (chain s p)"
  then have q: "q < next_pid s" by (rule chain_below [OF assms(2)])
  show "committed (pools s q) + dc \<le> max_int64"
    using aggregatedD(2) [OF ledger_okD(2) [OF assms(1)] q] assms(3) by simp
  show "reserved (pools s q) + dr \<le> max_int64"
    using aggregatedD(2) [OF ledger_okD(3) [OF assms(1)] q] assms(4) by simp
qed

lemma shifted_ok:
  assumes ok: "ledger_ok s" and p: "p < next_pid s" and sh: "shifted s p dc dr s'"
    and share: "0 \<le> own committed s p + dc" "0 \<le> own reserved s p + dr" and room: "room s p dc dr"
  shows "ledger_ok s'"
proof -
  have "ledger_ok (walk (shift_node dc dr) p s)"
    using share room by (intro ledger_ok_walk [OF ok p, where dc = dc and dr = dr]) (auto simp: room_def)
  moreover have "s' = (walk (shift_node dc dr) p s)\<lparr>wakes := wakes s'\<rparr>"
    using shifted_pools [OF sh] shifted_next [OF sh] by simp
  ultimately show ?thesis by (metis ledger_ok_frame)
qed

section \<open>Every ledger operation is a shift\<close>

lemma own_le: "ledger_ok s \<Longrightarrow> p < next_pid s \<Longrightarrow> own committed s p \<le> committed (pools s p)"
  and own_le': "ledger_ok s \<Longrightarrow> p < next_pid s \<Longrightarrow> own reserved s p \<le> reserved (pools s p)"
  by (auto simp: own_def ledger_ok_def aggregated_def kids_def intro!: sum_nonneg)

lemma shifted_walk:
  assumes "\<And>q. q \<in> set (chain s p) \<Longrightarrow> g (pools s q) = shift_node dc dr (pools s q)"
  shows "shifted s p dc dr (walk g p s)"
  using assms by (simp add: shifted_def walk_pools)

lemma withWaitLock_shift:
  assumes "shifted s p dc dr (f s)"
  shows "shifted s p dc dr (snd (withWaitLock s p (\<lambda>s. ((), f s))))"
  using assms by (simp add: withWaitLock_def Let_def)

lemma reserveUp_shift:
  assumes ok: "ledger_ok s" and p: "p < next_pid s" and "0 \<le> n" and "room s p 0 n"
    and "reserveUp s p n = (None, s')"
  shows "shifted s p 0 n s'"
proof -
  from assms(5) have s': "s' = walk (add_reserved n) p s"
    by (simp add: reserveUp_eq [OF ok p] split: if_splits)
  show ?thesis
    unfolding s'
  proof (rule shifted_walk)
    fix q assume q: "q \<in> set (chain s p)"
    have "0 \<le> reserved (pools s q)"
      using aggregatedD(1) [OF ledger_okD(3) [OF ok] chain_below [OF p q]] .
    then show "add_reserved n (pools s q) = shift_node 0 n (pools s q)"
      using assms(3,4) q by (simp add: add_reserved_def shift_node_def room_def wrap64_nonneg)
  qed
qed

lemma reserveUp_error:
  "ledger_ok s \<Longrightarrow> p < next_pid s \<Longrightarrow> reserveUp s p n = (Some e, s') \<Longrightarrow> e = ErrStorageFull \<and> s' = s"
  by (simp add: reserveUp_eq split: if_splits)

lemma commitUp_shift:
  assumes ok: "ledger_ok s" and p: "p < next_pid s"
    and "0 \<le> a" and "a \<le> own reserved s p" and "0 \<le> b" and "room s p b 0"
  shows "shifted s p b (- a) (commitUp s p a b)"
  unfolding commitUp_eq
proof (rule shifted_walk)
  fix q assume q: "q \<in> set (chain s p)"
  note agC = aggregatedD [OF ledger_okD(2) [OF ok] chain_below [OF p q]]
  note agR = aggregatedD [OF ledger_okD(3) [OF ok] chain_below [OF p q]]
  have "a \<le> reserved (pools s q)"
    using aggregated_chain_mono [OF ledger_okD(3,1) [OF ok] p q] own_le' [OF ok p] assms(4) by simp
  moreover have "committed (pools s q) + b \<le> max_int64" using assms(6) q by (simp add: room_def)
  ultimately show "commit_node a b (pools s q) = shift_node b (- a) (pools s q)"
    using agC agR assms(3,5) by (simp add: commit_node_def shift_node_def wrap64_nonneg)
qed

lemma commitReservation_shift:
  assumes "ledger_ok s" and "p < next_pid s"
    and "0 \<le> a" and "a \<le> own reserved s p" and "0 \<le> b" and "room s p b 0"
  shows "shifted s p b (- a) (commitReservation s p a b)"
  using commitUp_shift [OF assms] withWaitLock_shift [of s p b "- a" "\<lambda>s. commitUp s p a b"]
  by (simp add: commitReservation_def)

lemma releaseUp_shift:
  assumes ok: "ledger_ok s" and p: "p < next_pid s"
  shows "shifted s p 0 (- taken (reserved (pools s p)) n) (releaseUp s p n)"
  unfolding releaseUp_eq [OF assms]
proof (rule shifted_walk)
  fix q assume q: "q \<in> set (chain s p)"
  have "taken (reserved (pools s p)) n \<le> reserved (pools s q)" "reserved (pools s q) \<le> max_int64"
    using aggregated_chain_mono [OF ledger_okD(3,1) [OF ok] p q] aggregatedD(1,2) [OF ledger_okD(3) [OF ok]]
      chain_below [OF p q] p taken_bounds(2) [of "reserved (pools s p)" n] by fastforce+
  then show "add_reserved (- taken (reserved (pools s p)) n) (pools s q)
      = shift_node 0 (- taken (reserved (pools s p)) n) (pools s q)"
    using taken_bounds(1) [of "reserved (pools s p)" n]
    by (simp add: add_reserved_def shift_node_def wrap64_nonneg)
qed

lemma releaseReserve_shift:
  assumes "ledger_ok s" and "p < next_pid s"
  shows "shifted s p 0 (- taken (reserved (pools s p)) n) (releaseReserve s p n)"
  unfolding releaseReserve_def using releaseUp_shift [OF assms] by (rule withWaitLock_shift)

lemma releaseCommittedUp_shift:
  assumes ok: "ledger_ok s" and p: "p < next_pid s"
  shows "shifted s p (- taken (committed (pools s p)) n) 0 (releaseCommittedUp s p n)"
  unfolding releaseCommittedUp_eq [OF assms]
proof (rule shifted_walk)
  fix q assume q: "q \<in> set (chain s p)"
  have "taken (committed (pools s p)) n \<le> committed (pools s q)" "committed (pools s q) \<le> max_int64"
    using aggregated_chain_mono [OF ledger_okD(2,1) [OF ok] p q] aggregatedD(1,2) [OF ledger_okD(2) [OF ok]]
      chain_below [OF p q] p taken_bounds(2) [of "committed (pools s p)" n] by fastforce+
  then show "add_committed (- taken (committed (pools s p)) n) (pools s q)
      = shift_node (- taken (committed (pools s p)) n) 0 (pools s q)"
    using taken_bounds(1) [of "committed (pools s p)" n]
    by (simp add: add_committed_def shift_node_def wrap64_nonneg)
qed

lemma ReleaseUsage_shift:
  assumes "ledger_ok s" and "p < next_pid s"
  shows "shifted s p (- taken (committed (pools s p)) (nonNeg n)) 0 (ReleaseUsage s p n)"
  unfolding ReleaseUsage_def using releaseCommittedUp_shift [OF assms] by (rule withWaitLock_shift)

lemma adjustUp_shift:
  assumes ok: "ledger_ok s" and p: "p < next_pid s" and d: "in64 d" and room: "room s p d 0"
  shows "shifted s p (max d (- committed (pools s p))) 0 (adjustUp s p d)"
proof -
  have hi: "committed (pools s q) + d \<le> max_int64" if "q \<in> set (chain s p)" for q
    using room that by (simp add: room_def)
  have eq: "adjustUp s p d = walk (add_committed (max d (- committed (pools s p)))) p s"
    using hi by (rule adjustUp_eq [OF ok p d])
  show ?thesis
    unfolding eq
  proof (rule shifted_walk)
    fix q assume q: "q \<in> set (chain s p)"
    have "0 \<le> committed (pools s q) + max d (- committed (pools s p))"
      "committed (pools s q) + max d (- committed (pools s p)) \<le> max_int64"
      using aggregated_chain_mono [OF ledger_okD(2,1) [OF ok] p q] hi [OF q] p
        aggregatedD(1) [OF ledger_okD(2) [OF ok] p] aggregatedD(2) [OF ledger_okD(2) [OF ok] chain_below [OF p q]]
      by (auto simp: max_def)
    then show "add_committed (max d (- committed (pools s p))) (pools s q)
        = shift_node (max d (- committed (pools s p))) 0 (pools s q)"
      by (simp add: add_committed_def shift_node_def wrap64_nonneg)
  qed
qed

lemma Scope_Adjust_shift:
  assumes "ledger_ok s" and "p < next_pid s" and "room s p (wrap64 (nxt - prev)) 0"
  shows "shifted s p (max (wrap64 (nxt - prev)) (- committed (pools s p))) 0 (Scope_Adjust s p prev nxt)"
  unfolding Scope_Adjust_def using adjustUp_shift [OF assms(1,2) wrap64_in64 assms(3)] by (rule withWaitLock_shift)

section \<open>Building the tree\<close>

definition empty_store :: store where
  "empty_store = \<lparr>pools = (\<lambda>_. mk_pool 0 None [] False), next_pid = 0, wakes = []\<rparr>"

lemma empty_store_ok: "ledger_ok empty_store"
  by (simp add: ledger_ok_def empty_store_def parents_below_def aggregated_def)

lemma mk_pool_sel [simp]:
  "committed (mk_pool mb par pth q) = 0" "reserved (mk_pool mb par pth q) = 0" "allocated (mk_pool mb par pth q) = 0"
  "maxBytes (mk_pool mb par pth q) = mb" "oreserve (mk_pool mb par pth q) = 0" "parent (mk_pool mb par pth q) = par"
  "children (mk_pool mb par pth q) = []" "path (mk_pool mb par pth q) = pth" "queue (mk_pool mb par pth q) = q"
  by (simp_all add: mk_pool_def)

text \<open>A fresh node holds nothing, so it adds nothing to its parent's sum.\<close>

lemma sum_kids_alloc:
  assumes "f pl = 0"
  shows "(\<Sum>c\<in>kids (snd (alloc_pool s pl)) p. f (pools (snd (alloc_pool s pl)) c)) = (\<Sum>c\<in>kids s p. f (pools s c))"
proof (rule sum.mono_neutral_cong_right)
  let ?s = "snd (alloc_pool s pl)"
  show "finite (kids ?s p)" by simp
  show "kids s p \<subseteq> kids ?s p" by (auto simp: kids_def alloc_pool_def)
  show "\<forall>i\<in>kids ?s p - kids s p. f (pools ?s i) = 0"
    by (auto simp: kids_def alloc_pool_def assms split: if_splits)
  show "\<And>x. x \<in> kids s p \<Longrightarrow> f (pools ?s x) = f (pools s x)" by (auto simp: kids_def alloc_pool_def)
qed

lemma kids_fresh: "parents_below s \<Longrightarrow> kids s (next_pid s) = {}"
  by (fastforce simp: kids_def parents_below_def)

lemma own_alloc:
  assumes "parents_below s" and "f pl = 0"
  shows "own f (snd (alloc_pool s pl)) p = (if p = next_pid s then 0 else own f s p)"
  using sum_kids_alloc [of f pl s p, OF assms(2)] kids_fresh [OF assms(1)] assms(2)
  by (simp add: own_def) (simp add: alloc_pool_def)

lemma aggregated_alloc:
  assumes wf: "parents_below s" and ag: "aggregated f s" and f: "f pl = 0"
  shows "aggregated f (snd (alloc_pool s pl))"
  unfolding aggregated_def
proof (intro allI impI)
  let ?s = "snd (alloc_pool s pl)"
  fix p assume p: "p < next_pid ?s"
  note sum = sum_kids_alloc [of f pl s p, OF f]
  show "0 \<le> f (pools ?s p) \<and> f (pools ?s p) \<le> max_int64 \<and> (\<Sum>c\<in>kids ?s p. f (pools ?s c)) \<le> f (pools ?s p)"
  proof (cases "p = next_pid s")
    case True
    with sum f kids_fresh [OF wf] show ?thesis by (simp add: alloc_pool_def)
  next
    case False
    then have "p < next_pid s" using p by (simp add: alloc_pool_def)
    with ag False sum show ?thesis by (simp add: aggregated_def alloc_pool_def)
  qed
qed

lemma alloc_pool_ok:
  assumes ok: "ledger_ok s" and par: "\<And>q. parent pl = Some q \<Longrightarrow> q < next_pid s"
    and pl: "pool_in64 pl" "committed pl = 0" "reserved pl = 0"
  shows "ledger_ok (snd (alloc_pool s pl))"
proof -
  have "parents_below (snd (alloc_pool s pl))"
    using ledger_okD(1) [OF ok] par by (auto simp: parents_below_def alloc_pool_def less_Suc_eq)
  moreover have "aggregated committed (snd (alloc_pool s pl))" "aggregated reserved (snd (alloc_pool s pl))"
    using pl by (auto intro!: aggregated_alloc ledger_okD [OF ok])
  moreover have "pool_in64 (pools (snd (alloc_pool s pl)) p)" if "p < next_pid (snd (alloc_pool s pl))" for p
    using that pl ledger_okD(4) [OF ok] by (auto simp: alloc_pool_def less_Suc_eq)
  ultimately show ?thesis by (simp add: ledger_ok_def)
qed

lemma NewPool_ok: "ledger_ok s \<Longrightarrow> in64 mb \<Longrightarrow> ledger_ok (snd (NewPool s mb))"
  unfolding NewPool_def by (rule alloc_pool_ok) (simp_all add: pool_in64_def)

lemma NewPoolWithParent_ok:
  "ledger_ok s \<Longrightarrow> p < next_pid s \<Longrightarrow> in64 mb \<Longrightarrow> ledger_ok (snd (NewPoolWithParent s p mb))"
  unfolding NewPoolWithParent_def by (rule alloc_pool_ok) (simp_all add: pool_in64_def)

text \<open>A two-level tree, root 100 bytes, child 60: the input of the concrete instances below.\<close>

definition two_level :: store where
  "two_level = snd (NewPoolWithParent (snd (NewPool empty_store 100)) 0 60)"

lemma two_level_ok: "ledger_ok two_level" "next_pid two_level = 2" "chain two_level 1 = [1, 0]"
proof -
  show "ledger_ok two_level"
    unfolding two_level_def
    by (intro NewPoolWithParent_ok NewPool_ok empty_store_ok) (simp_all add: in64_def NewPool_def alloc_pool_def)
  show "next_pid two_level = 2"
    by (simp add: two_level_def NewPoolWithParent_def NewPool_def alloc_pool_def empty_store_def)
  show "chain two_level 1 = [1, 0]"
    by (simp add: two_level_def NewPoolWithParent_def NewPool_def alloc_pool_def empty_store_def chain_def anc_Some anc_None)
qed

lemma two_level_pools:
  "pools two_level 1 = mk_pool 60 (Some 0) [] False" "pools two_level 0 = mk_pool 100 None [] True"
  by (simp_all add: two_level_def NewPoolWithParent_def NewPool_def alloc_pool_def empty_store_def)

lemmas two_level_eval = two_level_ok(3) [unfolded One_nat_def] two_level_pools [unfolded One_nat_def]

end
