(* ===== verification/Pool_Tree.thy ===== *)
theory Pool_Tree
  imports Ledger
begin

text \<open>
  The tree of scopes and the allocation ledger: mounting, resolving and unmounting of
  \<open>pkg/quota/quota.go\<close> and \<open>pkg/quota/allocation.go\<close>. A \<open>*Scope\<close> is the address of its pool. A limit given
  to a child is carved out of its direct parent: \<open>allocated\<close> of a node counts the limits of its
  children and the live \<open>Allocation\<close> handles on it. Not-found and nil results are \<open>None\<close>, errors
  are \<open>Inl\<close>.
\<close>

section \<open>Paths\<close>

definition slash :: char where
  "slash = CHR ''/''"

definition lastSegment :: "string \<Rightarrow> string" where
  "lastSegment pth = rev (takeWhile (\<lambda>c. c \<noteq> slash) (rev pth))"

definition joinPath :: "string \<Rightarrow> string \<Rightarrow> string" where
  "joinPath par child =
     (if par = [] then child
      else if child = [] then par
      else rev (dropWhile (\<lambda>c. c = slash) (rev par)) @ [slash] @ dropWhile (\<lambda>c. c = slash) child)"

section \<open>Tree operations\<close>

definition upd_pool :: "store \<Rightarrow> pid \<Rightarrow> (pool \<Rightarrow> pool) \<Rightarrow> store" where
  "upd_pool s p f = s\<lparr>pools := (pools s)(p := f (pools s p))\<rparr>"

definition newScope :: "store \<Rightarrow> pid \<Rightarrow> string \<Rightarrow> int \<Rightarrow> pid \<times> store" where
  "newScope s p pth mb =
     (case alloc_pool s (mk_pool mb (Some p) (joinPath (path (pools s p)) pth) False) of
        (c, s1) \<Rightarrow> (c, upd_pool s1 p (\<lambda>pl. pl\<lparr>children := children pl @ [c]\<rparr>)))"

definition childWithSegment :: "store \<Rightarrow> pid \<Rightarrow> string \<Rightarrow> pid option" where
  "childWithSegment s p seg = List.find (\<lambda>c. lastSegment (path (pools s c)) = seg) (children (pools s p))"

fun Resolve :: "store \<Rightarrow> pid \<Rightarrow> string list \<Rightarrow> pid" where
  "Resolve s cur [] = cur"
| "Resolve s cur (seg # segs) =
     (if seg = [] then Resolve s cur segs
      else case childWithSegment s cur seg of None \<Rightarrow> cur | Some c \<Rightarrow> Resolve s c segs)"

definition ResolvePath :: "store \<Rightarrow> pid \<Rightarrow> string \<Rightarrow> pid" where
  "ResolvePath s p pth = Resolve s p (split_on slash pth)"

definition Unmount :: "store \<Rightarrow> pid \<Rightarrow> store" where
  "Unmount s p = (case parent (pools s p) of
     None \<Rightarrow> s
   | Some q \<Rightarrow> upd_pool s q (\<lambda>pl. pl\<lparr>children := remove1 p (children pl)\<rparr>))"

definition ReleaseCommittedAndUnmount :: "store \<Rightarrow> pid \<Rightarrow> store" where
  "ReleaseCommittedAndUnmount s p = snd (withWaitLock s p (\<lambda>s.
     let used = Pool_Usage s p; s1 = (if 0 < used then releaseCommittedUp s p used else s)
     in ((), case parent (pools s1 p) of None \<Rightarrow> s1 | Some q \<Rightarrow> Unmount s1 p)))"

text \<open>\<open>collect\<close> walks the children, which have larger addresses (\<open>tree_wf\<close>); the tests make the walk total.\<close>

function collect :: "store \<Rightarrow> pid \<Rightarrow> (string \<Rightarrow> int option) \<Rightarrow> (string \<Rightarrow> int option)"
  and collect_list :: "store \<Rightarrow> pid \<Rightarrow> pid list \<Rightarrow> (string \<Rightarrow> int option) \<Rightarrow> (string \<Rightarrow> int option)" where
  "collect s p m = (let pl = pools s p;
      old = (case m (path pl) of None \<Rightarrow> 0 | Some v \<Rightarrow> v)
    in collect_list s p (children pl) (m(path pl \<mapsto> wrap64 (old + committed pl))))"
| "collect_list s p [] m = m"
| "collect_list s p (c # cs) m =
     collect_list s p cs (if p < c \<and> c < next_pid s then collect s c m else m)"
  by pat_completeness auto
termination
  by (relation "measures [\<lambda>x. case x of Inl (s, p, m) \<Rightarrow> next_pid s - p | Inr (s, p, cs, m) \<Rightarrow> next_pid s - p,
      \<lambda>x. case x of Inl (s, p, m) \<Rightarrow> Suc (length (children (pools s p))) | Inr (s, p, cs, m) \<Rightarrow> length cs]") auto

definition UsageByBucket :: "store \<Rightarrow> pid \<Rightarrow> (string \<Rightarrow> int option)" where
  "UsageByBucket s p = collect s p (\<lambda>_. None)"

section \<open>Allocation ledger\<close>

definition addAllocated :: "store \<Rightarrow> pid \<Rightarrow> int \<Rightarrow> qerr option \<times> store" where
  "addAllocated s p n = (let pl = pools s p in
     if 0 < maxBytes pl \<and> usableLocked pl < wrap64 (allocated pl + n) then (Some ErrAllocExceeded, s)
     else (None, upd_pool s p (\<lambda>pl. pl\<lparr>allocated := wrap64 (allocated pl + n)\<rparr>)))"

definition subAllocated :: "store \<Rightarrow> pid \<Rightarrow> int \<Rightarrow> store" where
  "subAllocated s p n = upd_pool s p (\<lambda>pl. let a = wrap64 (allocated pl - n)
     in pl\<lparr>allocated := (if a < 0 then 0 else a)\<rparr>)"

record allocation =
  apool :: pid
  aamount :: int
  areleased :: bool

definition TryAllocate :: "store \<Rightarrow> pid \<Rightarrow> int \<Rightarrow> (qerr + allocation) \<times> store" where
  "TryAllocate s p n = (let m = nonNeg n in case addAllocated s p m of
     (Some e, s1) \<Rightarrow> (Inl e, s1)
   | (None, s1) \<Rightarrow> (Inr \<lparr>apool = p, aamount = m, areleased = False\<rparr>, s1))"

definition Allocation_Release :: "store \<Rightarrow> allocation \<Rightarrow> allocation \<times> store" where
  "Allocation_Release s a =
     (if areleased a then (a, s)
      else (a\<lparr>areleased := True\<rparr>, snd (withWaitLock s (apool a) (\<lambda>s. ((), subAllocated s (apool a) (aamount a))))))"

definition Allocation_Set :: "store \<Rightarrow> allocation \<Rightarrow> int \<Rightarrow> qerr option \<times> allocation \<times> store" where
  "Allocation_Set s a n = (let m = nonNeg n in
     if areleased a then (Some ErrAllocReleased, a, s)
     else let delta = wrap64 (m - aamount a) in
       if 0 < delta then (case addAllocated s (apool a) delta of
           (Some e, s1) \<Rightarrow> (Some e, a, s1)
         | (None, s1) \<Rightarrow> (None, a\<lparr>aamount := m\<rparr>, s1))
       else if delta < 0
         then (None, a\<lparr>aamount := m\<rparr>, snd (withWaitLock s (apool a) (\<lambda>s. ((), subAllocated s (apool a) (wrap64 (- delta))))))
         else (None, a\<lparr>aamount := m\<rparr>, s))"

definition Allocation_Amount :: "allocation \<Rightarrow> int" where
  "Allocation_Amount a = aamount a"

definition Allocated :: "store \<Rightarrow> pid \<Rightarrow> int" where
  "Allocated s p = allocated (pools s p)"

definition Unallocated :: "store \<Rightarrow> pid \<Rightarrow> int" where
  "Unallocated s p = (let pl = pools s p in
     if maxBytes pl \<le> 0 then 0 else max (wrap64 (usableLocked pl - allocated pl)) 0)"

definition detachLocked :: "store \<Rightarrow> pid \<Rightarrow> store" where
  "detachLocked s p = (case parent (pools s p) of
     None \<Rightarrow> s
   | Some q \<Rightarrow> upd_pool s q (\<lambda>pl. pl\<lparr>children := filter (\<lambda>c. c \<noteq> p) (children pl)\<rparr>))"

definition adjustParentAllocationLocked :: "store \<Rightarrow> pid \<Rightarrow> int \<Rightarrow> qerr option \<times> store" where
  "adjustParentAllocationLocked s leaf delta = (case parent (pools s leaf) of
     None \<Rightarrow> (None, s)
   | Some q \<Rightarrow> (if delta < 0 then (None, subAllocated s q (wrap64 (- delta))) else addAllocated s q delta))"

definition setChildLimit :: "store \<Rightarrow> pid \<Rightarrow> int \<Rightarrow> pid list \<Rightarrow> qerr option \<times> store" where
  "setChildLimit s leaf mb created = (let delta = wrap64 (mb - maxBytes (pools s leaf)) in
     if delta = 0 then (None, s)
     else case adjustParentAllocationLocked s leaf delta of
       (Some e, s1) \<Rightarrow> (Some e, foldl detachLocked s1 created)
     | (None, s1) \<Rightarrow> (None, upd_pool s1 leaf (\<lambda>pl. pl\<lparr>maxBytes := mb\<rparr>)))"

text \<open>The descent that \<open>ensureChildTarget\<close> and \<open>ensureScopeWithLimit\<close> share: existing children are reused, missing
  ones are created without a limit and recorded for a rollback.\<close>

fun descend :: "store \<Rightarrow> pid \<Rightarrow> string list \<Rightarrow> bool \<Rightarrow> pid list \<Rightarrow> (pid \<times> bool \<times> pid list) \<times> store" where
  "descend s cur [] went created = ((cur, went, created), s)"
| "descend s cur (seg # segs) went created =
     (if seg = [] then descend s cur segs went created
      else case childWithSegment s cur seg of
        Some c \<Rightarrow> descend s c segs True created
      | None \<Rightarrow> (case newScope s cur seg 0 of (c, s1) \<Rightarrow> descend s1 c segs True (created @ [c])))"

definition ensureChildTarget :: "store \<Rightarrow> pid \<Rightarrow> string list \<Rightarrow> (qerr + pid \<times> pid list) \<times> store" where
  "ensureChildTarget s p segs = (case descend s p segs False [] of
     ((cur, went, created), s1) \<Rightarrow> (if went then Inr (cur, created) else Inl ErrEmptyPath, s1))"

definition ensureChildLocked :: "store \<Rightarrow> pid \<Rightarrow> string list \<Rightarrow> int \<Rightarrow> (qerr + pid) \<times> store" where
  "ensureChildLocked s p segs mb = (case ensureChildTarget s p segs of
     (Inl e, s1) \<Rightarrow> (Inl e, s1)
   | (Inr (cur, created), s1) \<Rightarrow> (case setChildLimit s1 cur (nonNeg mb) created of
       (Some e, s2) \<Rightarrow> (Inl e, s2)
     | (None, s2) \<Rightarrow> (Inr cur, s2)))"

definition EnsureChild :: "store \<Rightarrow> pid \<Rightarrow> string list \<Rightarrow> int \<Rightarrow> (qerr + pid) \<times> store" where
  "EnsureChild s p segs mb = withWaitLock s p (\<lambda>s. ensureChildLocked s p segs mb)"

definition newChildWithLimit :: "store \<Rightarrow> pid \<Rightarrow> string \<Rightarrow> int \<Rightarrow> (qerr + pid) \<times> store" where
  "newChildWithLimit s p pth mb =
     (case (case childWithSegment s p (lastSegment pth) of
              Some c \<Rightarrow> ((c, []), s)
            | None \<Rightarrow> (case newScope s p pth 0 of (c, s1) \<Rightarrow> ((c, [c]), s1))) of
        ((c, created), s1) \<Rightarrow> (case withWaitLock s1 p (\<lambda>s. setChildLimit s c mb created) of
            (Some e, s2) \<Rightarrow> (Inl e, s2)
          | (None, s2) \<Rightarrow> (Inr c, s2)))"

text \<open>\<open>Pool.Scope\<close> and \<open>Scope.Mount\<close> drop the error: \<open>nil\<close> stands for it.\<close>

definition Pool_Scope :: "store \<Rightarrow> pid \<Rightarrow> string \<Rightarrow> int \<Rightarrow> pid option \<times> store" where
  "Pool_Scope s p pth mb = (case newChildWithLimit s p pth mb of
     (Inl e, s1) \<Rightarrow> (None, s1) | (Inr c, s1) \<Rightarrow> (Some c, s1))"

definition Mount :: "store \<Rightarrow> pid \<Rightarrow> string \<Rightarrow> int list \<Rightarrow> pid option \<times> store" where
  "Mount s p pth mbs = (case newChildWithLimit s p pth (case mbs of [] \<Rightarrow> 0 | mb # _ \<Rightarrow> mb) of
     (Inl e, s1) \<Rightarrow> (None, s1) | (Inr c, s1) \<Rightarrow> (Some c, s1))"

definition ensureScopeWithLimit :: "store \<Rightarrow> pid \<Rightarrow> string list \<Rightarrow> int \<Rightarrow> (qerr + pid) \<times> store" where
  "ensureScopeWithLimit s p segs mb = (case descend s p segs False [] of
     ((cur, went, created), s1) \<Rightarrow>
       (if \<not> went then (Inl ErrEmptyPath, s1)
        else case withWaitLock s1 p (\<lambda>s. setChildLimit s cur mb created) of
          (Some e, s2) \<Rightarrow> (Inl e, s2)
        | (None, s2) \<Rightarrow> (Inr cur, s2)))"

definition EnsureScope :: "store \<Rightarrow> pid \<Rightarrow> string list \<Rightarrow> int \<Rightarrow> pid option \<times> store" where
  "EnsureScope s p segs mb = (case ensureScopeWithLimit s p segs mb of
     (Inl e, s1) \<Rightarrow> (None, s1) | (Inr c, s1) \<Rightarrow> (Some c, s1))"

section \<open>Well-formed trees\<close>

definition tree_wf :: "store \<Rightarrow> bool" where
  "tree_wf s \<longleftrightarrow> parents_below s \<and> (\<forall>p < next_pid s. distinct (children (pools s p))
     \<and> (\<forall>c \<in> set (children (pools s p)). c < next_pid s \<and> parent (pools s c) = Some p))"

lemma tree_wfD:
  assumes "tree_wf s" and "p < next_pid s" and "c \<in> set (children (pools s p))"
  shows "c < next_pid s" and "parent (pools s c) = Some p" and "p < c"
  using assms by (auto simp: tree_wf_def parents_below_def)

lemma upd_pool_sel [simp]:
  "next_pid (upd_pool s p f) = next_pid s"
  "pools (upd_pool s p f) q = (if q = p then f (pools s p) else pools s q)"
  by (simp_all add: upd_pool_def)

text \<open>\<open>extends s cs s'\<close>: \<open>s'\<close> is \<open>s\<close> with the nodes \<open>cs\<close> newly mounted (and perhaps more addresses used up).\<close>

definition extends :: "store \<Rightarrow> pid list \<Rightarrow> store \<Rightarrow> bool" where
  "extends s cs s' \<longleftrightarrow> next_pid s \<le> next_pid s' \<and> (\<forall>c \<in> set cs. next_pid s \<le> c \<and> c < next_pid s')
     \<and> (\<forall>q < next_pid s. pools s q = (pools s' q)\<lparr>children := filter (\<lambda>c. c \<notin> set cs) (children (pools s' q))\<rparr>)"

lemma extends_refl [simp]: "extends s [] s"
  by (simp add: extends_def)

lemma extends_trans:
  assumes "extends s cs s1" and "extends s1 ds s2"
  shows "extends s (cs @ ds) s2"
proof -
  have "pools s q = (pools s2 q)\<lparr>children := filter (\<lambda>c. c \<notin> set (cs @ ds)) (children (pools s2 q))\<rparr>"
    if "q < next_pid s" for q
  proof -
    have "q < next_pid s1" using that assms(1) by (simp add: extends_def)
    then have "pools s1 q = (pools s2 q)\<lparr>children := filter (\<lambda>c. c \<notin> set ds) (children (pools s2 q))\<rparr>"
      using assms(2) by (simp add: extends_def)
    moreover have "pools s q = (pools s1 q)\<lparr>children := filter (\<lambda>c. c \<notin> set cs) (children (pools s1 q))\<rparr>"
      using assms(1) that by (simp add: extends_def)
    ultimately show ?thesis by (simp add: conj_commute)
  qed
  then show ?thesis using assms by (force simp: extends_def)
qed

lemma extends_sel:
  assumes "extends s cs s'" and "q < next_pid s"
  shows "path (pools s' q) = path (pools s q)" "parent (pools s' q) = parent (pools s q)"
    "maxBytes (pools s' q) = maxBytes (pools s q)" "allocated (pools s' q) = allocated (pools s q)"
    "oreserve (pools s' q) = oreserve (pools s q)"
    "filter (\<lambda>c. c \<notin> set cs) (children (pools s' q)) = children (pools s q)"
proof -
  have "pools s q = (pools s' q)\<lparr>children := filter (\<lambda>c. c \<notin> set cs) (children (pools s' q))\<rparr>"
    using assms by (simp add: extends_def)
  then show "path (pools s' q) = path (pools s q)" "parent (pools s' q) = parent (pools s q)"
    "maxBytes (pools s' q) = maxBytes (pools s q)" "allocated (pools s' q) = allocated (pools s q)"
    "oreserve (pools s' q) = oreserve (pools s q)"
    "filter (\<lambda>c. c \<notin> set cs) (children (pools s' q)) = children (pools s q)" by simp_all
qed

section \<open>Mounting one node\<close>

lemma newScope_pools:
  assumes "newScope s p pth mb = (c, s1)" and "p < next_pid s"
  shows "c = next_pid s" "next_pid s1 = Suc c"
    "pools s1 q = (if q = p then (pools s p)\<lparr>children := children (pools s p) @ [c]\<rparr>
      else if q = c then mk_pool mb (Some p) (joinPath (path (pools s p)) pth) False else pools s q)"
  using assms by (auto simp: newScope_def alloc_pool_def)

lemma newScope_wf:
  assumes wf: "tree_wf s" and p: "p < next_pid s" and n: "newScope s p pth mb = (c, s1)"
  shows "tree_wf s1"
proof -
  note np = newScope_pools [OF n p]
  have "parents_below s1"
    using wf p by (auto simp: tree_wf_def parents_below_def np less_Suc_eq)
  moreover have "distinct (children (pools s1 q)) \<and> (\<forall>d \<in> set (children (pools s1 q)). d < next_pid s1 \<and> parent (pools s1 d) = Some q)"
    if "q < next_pid s1" for q
  proof (cases "q = next_pid s")
    case True
    then show ?thesis using p by (simp add: np mk_pool_def)
  next
    case False
    then have q: "q < next_pid s" using that np by simp
    note kid = tree_wfD [OF wf q]
    have "distinct (children (pools s q))" using wf q by (simp add: tree_wf_def)
    moreover have "next_pid s \<notin> set (children (pools s q))" using kid(1) by blast
    ultimately have "distinct (children (pools s1 q))" using False by (auto simp: np(1,3))
    moreover have "d < next_pid s1 \<and> parent (pools s1 d) = Some q" if "d \<in> set (children (pools s1 q))" for d
    proof (cases "d = next_pid s")
      case True
      then have "q = p" using that \<open>next_pid s \<notin> _\<close> False by (auto simp: np(1,3) split: if_splits)
      then show ?thesis using True p by (simp add: np mk_pool_def)
    next
      case d: False
      then have "d \<in> set (children (pools s q))" using that False by (auto simp: np(1,3) split: if_splits)
      from kid [OF this] d show ?thesis by (auto simp: np)
    qed
    ultimately show ?thesis by blast
  qed
  ultimately show ?thesis by (simp add: tree_wf_def)
qed

lemma newScope_extends:
  assumes wf: "tree_wf s" and p: "p < next_pid s" and n: "newScope s p pth mb = (c, s1)"
  shows "extends s [c] s1"
proof -
  note np = newScope_pools [OF n p]
  have "filter (\<lambda>d. d \<noteq> c) (children (pools s q)) = children (pools s q)" if "q < next_pid s" for q
    using tree_wfD(1) [OF wf that] np(1) by (intro filter_True) auto
  then show ?thesis using p by (auto simp: extends_def np)
qed

text \<open>A segment without a separator is found again under the node it was mounted on.\<close>

lemma lastSegment_no_slash: "slash \<notin> set seg \<Longrightarrow> lastSegment seg = seg"
  unfolding lastSegment_def by (subst takeWhile_eq_all_conv [THEN iffD2]) auto

lemma lastSegment_join:
  assumes "slash \<notin> set seg" and "seg \<noteq> []"
  shows "lastSegment (joinPath par seg) = seg"
proof (cases "par = []")
  case True
  then show ?thesis using assms by (simp add: joinPath_def lastSegment_no_slash)
next
  case False
  have "dropWhile (\<lambda>c. c = slash) seg = seg"
    using assms by (cases seg) auto
  moreover have "takeWhile (\<lambda>c. c \<noteq> slash) (rev seg @ slash # x) = rev seg" for x
    using assms(1) by (subst takeWhile_append2) auto
  ultimately show ?thesis using False assms by (simp add: joinPath_def lastSegment_def)
qed

lemma find_append: "List.find P (xs @ ys) = (case List.find P xs of Some x \<Rightarrow> Some x | None \<Rightarrow> List.find P ys)"
  by (induction xs) auto

lemma find_cong': "(\<And>x. x \<in> set xs \<Longrightarrow> P x = Q x) \<Longrightarrow> List.find P xs = List.find Q xs"
  by (induction xs) auto

lemma find_SomeD: "List.find P xs = Some x \<Longrightarrow> x \<in> set xs \<and> P x"
  by (induction xs) (auto split: if_splits)

lemma childWithSegment_mem: "childWithSegment s p seg = Some c \<Longrightarrow> c \<in> set (children (pools s p))"
  by (auto simp: childWithSegment_def dest: find_SomeD)

lemma newScope_found:
  assumes wf: "tree_wf s" and p: "p < next_pid s" and n: "newScope s p seg mb = (c, s1)"
    and none: "childWithSegment s p seg = None" and seg: "slash \<notin> set seg" "seg \<noteq> []"
  shows "childWithSegment s1 p seg = Some c"
proof -
  note np = newScope_pools [OF n p]
  have "List.find (\<lambda>d. lastSegment (path (pools s1 d)) = seg) (children (pools s p)) = None"
    using none tree_wfD(1) [OF wf p] np
    by (subst find_cong' [where Q = "\<lambda>d. lastSegment (path (pools s d)) = seg"]) (auto simp: childWithSegment_def)
  then show ?thesis
    using p lastSegment_join [OF seg] by (simp add: childWithSegment_def np(1,3) find_append mk_pool_def)
qed

section \<open>Descending a path\<close>

lemma Resolve_cong:
  assumes "\<And>q. children (pools s' q) = children (pools s q) \<and> path (pools s' q) = path (pools s q)"
  shows "Resolve s' p segs = Resolve s p segs"
proof -
  have "childWithSegment s' q seg = childWithSegment s q seg" for q seg
    using assms by (simp add: childWithSegment_def)
  then show ?thesis by (induction segs arbitrary: p) (auto split: option.splits)
qed

text \<open>Segments that are names: no separator inside.\<close>

definition plain :: "string list \<Rightarrow> bool" where
  "plain segs \<longleftrightarrow> (\<forall>seg \<in> set segs. slash \<notin> set seg)"

text \<open>What a descent does: it only mounts new nodes, below the start and above every earlier address, and
  the node it ends at is the one the path resolves to.\<close>

definition descended :: "store \<Rightarrow> pid \<Rightarrow> string list \<Rightarrow> pid list \<Rightarrow> pid \<Rightarrow> store \<Rightarrow> bool" where
  "descended s cur segs new leaf s' \<longleftrightarrow> tree_wf s' \<and> extends s new s' \<and> leaf < next_pid s' \<and> cur \<le> leaf
     \<and> (\<forall>q < cur. pools s' q = pools s q) \<and> Resolve s' cur segs = leaf
     \<and> (\<forall>q. next_pid s \<le> q \<longrightarrow> q < next_pid s' \<longrightarrow> maxBytes (pools s' q) = 0 \<and> allocated (pools s' q) = 0)
     \<and> ((\<exists>seg \<in> set segs. seg \<noteq> []) \<longrightarrow> (\<exists>q. q < leaf \<and> leaf \<in> set (children (pools s' q))))"

lemma Resolve_all_empty: "\<forall>seg \<in> set segs. seg = [] \<Longrightarrow> Resolve s p segs = p"
  by (induction segs) auto

lemma Resolve_step:
  assumes "seg \<noteq> []" and "childWithSegment s cur seg = Some c"
  shows "Resolve s cur (seg # segs) = Resolve s c segs"
  using assms by simp

lemma descended_down:
  assumes wf: "tree_wf s" and cur: "cur < next_pid s" and ch: "childWithSegment s cur seg = Some c" and "seg \<noteq> []"
    and d: "descended s c segs new leaf s'"
  shows "descended s cur (seg # segs) new leaf s'"
proof -
  have mem: "c \<in> set (children (pools s cur))" by (rule childWithSegment_mem [OF ch])
  note kid = tree_wfD [OF wf cur mem]
  have same: "pools s' cur = pools s cur" using d kid(3) by (simp add: descended_def)
  have ex: "extends s new s'" using d by (simp add: descended_def)
  have "lastSegment (path (pools s' x)) = lastSegment (path (pools s x))" if "x \<in> set (children (pools s cur))" for x
    using extends_sel(1) [OF ex] tree_wfD(1) [OF wf cur that] by simp
  then have "childWithSegment s' cur seg = Some c"
    using ch same unfolding childWithSegment_def by (subst find_cong') auto
  then have "Resolve s' cur (seg # segs) = leaf"
    using d Resolve_step [OF assms(4)] by (simp add: descended_def)
  moreover have "\<exists>q. q < leaf \<and> leaf \<in> set (children (pools s' q))"
  proof (cases "leaf = c")
    case True
    then show ?thesis using mem same kid(3) by auto
  next
    case False
    then have "\<exists>seg \<in> set segs. seg \<noteq> []"
      using d by (metis descended_def Resolve_all_empty)
    then show ?thesis using d by (simp add: descended_def)
  qed
  ultimately show ?thesis using d kid(3) by (auto simp: descended_def)
qed

lemma descended_new:
  assumes wf: "tree_wf s" and cur: "cur < next_pid s" and n: "newScope s cur seg 0 = (c, s1)"
    and d: "descended s1 cur segs new leaf s'"
  shows "descended s cur segs (c # new) leaf s'"
proof -
  note np = newScope_pools [OF n cur] and ex1 = newScope_extends [OF wf cur n]
  have ex: "extends s1 new s'" using d by (simp add: descended_def)
  have "extends s (c # new) s'" using extends_trans [OF ex1 ex] by simp
  moreover have "pools s' q = pools s q" if "q < cur" for q
    using that d np(1) cur by (auto simp: descended_def np(3))
  moreover have "maxBytes (pools s' q) = 0 \<and> allocated (pools s' q) = 0" if "next_pid s \<le> q" "q < next_pid s'" for q
  proof (cases "q = c")
    case True
    then have "q < next_pid s1" "maxBytes (pools s1 q) = 0" "allocated (pools s1 q) = 0"
      using np cur by (auto simp: mk_pool_def)
    then show ?thesis using extends_sel(3,4) [OF ex] by simp
  next
    case False
    then have "next_pid s1 \<le> q" using that np by simp
    then show ?thesis using d that by (simp add: descended_def)
  qed
  ultimately show ?thesis using d by (simp add: descended_def)
qed

lemma descend_descended:
  assumes "tree_wf s" and "cur < next_pid s" and "plain segs"
    and "descend s cur segs went created = ((leaf, went', created'), s')"
  shows "\<exists>new. created' = created @ new \<and> descended s cur segs new leaf s'
    \<and> went' = (went \<or> (\<exists>seg \<in> set segs. seg \<noteq> []))"
  using assms
proof (induction segs arbitrary: s cur went created)
  case Nil
  then show ?case by (simp add: descended_def)
next
  case (Cons seg segs)
  have sl: "plain segs" "slash \<notin> set seg" using Cons.prems(3) by (auto simp: plain_def)
  show ?case
  proof (cases "seg = []")
    case True
    with Cons.IH [OF Cons.prems(1,2) sl(1)] Cons.prems(4) show ?thesis by (simp add: descended_def)
  next
    case ne: False
    show ?thesis
    proof (cases "childWithSegment s cur seg")
      case (Some c)
      then have c: "c < next_pid s" using tree_wfD(1) [OF Cons.prems(1,2) childWithSegment_mem] by simp
      have "descend s c segs True created = ((leaf, went', created'), s')" using Cons.prems(4) ne Some by simp
      from Cons.IH [OF Cons.prems(1) c sl(1) this] obtain new where "created' = created @ new"
        "descended s c segs new leaf s'" "went'" by auto
      with descended_down [OF Cons.prems(1,2) Some ne] ne show ?thesis by auto
    next
      case None
      obtain c s1 where n: "newScope s cur seg 0 = (c, s1)" by (cases "newScope s cur seg 0")
      note np = newScope_pools [OF n Cons.prems(2)]
      have wf1: "tree_wf s1" by (rule newScope_wf [OF Cons.prems(1,2) n])
      have "descend s1 c segs True (created @ [c]) = ((leaf, went', created'), s')"
        using Cons.prems(4) ne None n by simp
      from Cons.IH [OF wf1 _ sl(1) this] np obtain new where new: "created' = created @ c # new"
        "descended s1 c segs new leaf s'" "went'" by auto
      have "childWithSegment s1 cur seg = Some c" by (rule newScope_found [OF Cons.prems(1,2) n None sl(2) ne])
      from descended_down [OF wf1 _ this ne new(2)] np Cons.prems(2)
      have "descended s1 cur (seg # segs) new leaf s'" by simp
      from descended_new [OF Cons.prems(1,2) n this] new ne show ?thesis by auto
    qed
  qed
qed

section \<open>Rollback\<close>

lemma detachLocked_pools:
  "pools (detachLocked s c) q = (pools s q)\<lparr>children := filter (\<lambda>d. \<not> (d = c \<and> parent (pools s c) = Some q)) (children (pools s q))\<rparr>"
  "next_pid (detachLocked s c) = next_pid s" "parent (pools (detachLocked s c) q) = parent (pools s q)"
  by (auto simp: detachLocked_def split: option.splits)

lemma detach_all_pools:
  "pools (foldl detachLocked s cs) q = (pools s q)\<lparr>children :=
     filter (\<lambda>d. \<not> (d \<in> set cs \<and> parent (pools s d) = Some q)) (children (pools s q))\<rparr>
   \<and> next_pid (foldl detachLocked s cs) = next_pid s"
proof (induction cs arbitrary: s)
  case Nil
  show ?case by simp
next
  case (Cons c cs)
  have "filter (\<lambda>d. \<not> (d \<in> set cs \<and> parent (pools s d) = Some q)) (filter (\<lambda>d. \<not> (d = c \<and> parent (pools s c) = Some q)) xs)
    = filter (\<lambda>d. \<not> (d \<in> set (c # cs) \<and> parent (pools s d) = Some q)) xs" for xs
    unfolding filter_filter by (rule filter_cong) auto
  then show ?case using Cons.IH [of "detachLocked s c"] by (simp add: detachLocked_pools del: filter_filter)
qed

lemma rollback:
  assumes wf: "tree_wf s'" and ex: "extends s cs s'" and q: "q < next_pid s"
  shows "pools (foldl detachLocked s' cs) q = pools s q"
proof -
  have "q < next_pid s'" using ex q by (simp add: extends_def)
  then have "filter (\<lambda>d. \<not> (d \<in> set cs \<and> parent (pools s' d) = Some q)) (children (pools s' q))
      = filter (\<lambda>d. d \<notin> set cs) (children (pools s' q))"
    using tree_wfD(2) [OF wf] by (intro filter_cong) auto
  moreover have "pools s q = (pools s' q)\<lparr>children := filter (\<lambda>c. c \<notin> set cs) (children (pools s' q))\<rparr>"
    using ex q unfolding extends_def by blast
  ultimately show ?thesis using detach_all_pools [of s' cs q] by simp
qed

section \<open>The allocation invariant\<close>

text \<open>\<open>carved s p\<close>: the limits of the direct children of \<open>p\<close>; \<open>lent s p\<close>: what is allocated beyond them, to
  \<open>Allocation\<close> handles.\<close>

definition carved :: "store \<Rightarrow> pid \<Rightarrow> int" where
  "carved s p = (\<Sum>c\<leftarrow>children (pools s p). maxBytes (pools s c))"

definition lent :: "store \<Rightarrow> pid \<Rightarrow> int" where
  "lent s p = allocated (pools s p) - carved s p"

definition alloc_ok :: "store \<Rightarrow> bool" where
  "alloc_ok s \<longleftrightarrow> tree_wf s \<and> (\<forall>p < next_pid s. 0 \<le> lent s p \<and> allocated (pools s p) \<le> max_int64
     \<and> (\<forall>c \<in> set (children (pools s p)). 0 \<le> maxBytes (pools s c) \<and> maxBytes (pools s c) \<le> max_int64))"

lemma alloc_okD:
  assumes "alloc_ok s"
  shows "tree_wf s" and "p < next_pid s \<Longrightarrow> 0 \<le> lent s p \<and> allocated (pools s p) \<le> max_int64"
    and "p < next_pid s \<Longrightarrow> c \<in> set (children (pools s p)) \<Longrightarrow> 0 \<le> maxBytes (pools s c) \<and> maxBytes (pools s c) \<le> max_int64"
  using assms by (auto simp: alloc_ok_def)

lemma sum_list_filter_split:
  fixes f :: "'a \<Rightarrow> int"
  shows "(\<And>x. x \<in> set xs \<Longrightarrow> \<not> P x \<Longrightarrow> f x = 0) \<Longrightarrow> (\<Sum>x\<leftarrow>xs. f x) = (\<Sum>x\<leftarrow>filter P xs. f x)"
  by (induction xs) auto

lemma descended_carved:
  assumes wf: "tree_wf s" and d: "descended s cur segs new leaf s'" and q: "q < next_pid s'"
  shows "carved s' q = (if q < next_pid s then carved s q else 0)"
proof -
  have ex: "extends s new s'" and wf': "tree_wf s'"
    and zero: "\<And>q. next_pid s \<le> q \<Longrightarrow> q < next_pid s' \<Longrightarrow> maxBytes (pools s' q) = 0"
    using d by (auto simp: descended_def)
  show ?thesis
  proof (cases "q < next_pid s")
    case True
    have "maxBytes (pools s' c) = 0" if "c \<in> set (children (pools s' q))" "\<not> c \<notin> set new" for c
      using that ex by (intro zero) (auto simp: extends_def)
    then have "carved s' q = (\<Sum>c\<leftarrow>filter (\<lambda>c. c \<notin> set new) (children (pools s' q)). maxBytes (pools s' c))"
      unfolding carved_def by (rule sum_list_filter_split)
    also have "\<dots> = carved s q"
      unfolding carved_def extends_sel(6) [OF ex True]
      using extends_sel(3) [OF ex] tree_wfD(1) [OF wf True] by (intro arg_cong [where f = sum_list] map_cong) auto
    finally show ?thesis using True by simp
  next
    case False
    have "maxBytes (pools s' c) = 0" if "c \<in> set (children (pools s' q))" for c
      using tree_wfD(1,3) [OF wf' q that] False by (intro zero) auto
    then have "map (\<lambda>c. maxBytes (pools s' c)) (children (pools s' q)) = map (\<lambda>_. 0) (children (pools s' q))" by simp
    then show ?thesis using False unfolding carved_def by (metis sum_list_0)
  qed
qed

lemma descended_lent:
  assumes "tree_wf s" and d: "descended s cur segs new leaf s'" and q: "q < next_pid s'"
  shows "lent s' q = (if q < next_pid s then lent s q else 0)"
  using descended_carved [OF assms] d q extends_sel(4) [of s new s' q]
  by (auto simp: lent_def descended_def)

lemma descended_alloc_ok:
  assumes ok: "alloc_ok s" and d: "descended s cur segs new leaf s'"
  shows "alloc_ok s'"
proof -
  have ex: "extends s new s'" and wf': "tree_wf s'"
    and zero: "\<And>q. next_pid s \<le> q \<Longrightarrow> q < next_pid s' \<Longrightarrow> maxBytes (pools s' q) = 0 \<and> allocated (pools s' q) = 0"
    using d by (auto simp: descended_def)
  have "0 \<le> lent s' q \<and> allocated (pools s' q) \<le> max_int64
      \<and> (\<forall>c \<in> set (children (pools s' q)). 0 \<le> maxBytes (pools s' c) \<and> maxBytes (pools s' c) \<le> max_int64)"
    if q: "q < next_pid s'" for q
  proof (intro conjI ballI)
    show "0 \<le> lent s' q" using descended_lent [OF alloc_okD(1) [OF ok] d q] alloc_okD(2) [OF ok] by simp
    show "allocated (pools s' q) \<le> max_int64"
      using zero [OF _ q] extends_sel(4) [OF ex] alloc_okD(2) [OF ok] by (cases "q < next_pid s") auto
    fix c assume c: "c \<in> set (children (pools s' q))"
    have "0 \<le> maxBytes (pools s' c) \<and> maxBytes (pools s' c) \<le> max_int64"
    proof (cases "next_pid s \<le> c")
      case True
      then show ?thesis using zero tree_wfD(1) [OF wf' q c] by simp
    next
      case False
      then have cq: "q < next_pid s" "c \<notin> set new"
        using tree_wfD(3) [OF wf' q c] ex by (auto simp: extends_def)
      then have "c \<in> set (filter (\<lambda>c. c \<notin> set new) (children (pools s' q)))" using c by simp
      then have "c \<in> set (children (pools s q))" unfolding extends_sel(6) [OF ex cq(1)] .
      from alloc_okD(3) [OF ok cq(1) this] show ?thesis using extends_sel(3) [OF ex] False by simp
    qed
    then show "0 \<le> maxBytes (pools s' c)" "maxBytes (pools s' c) \<le> max_int64" by auto
  qed
  then show ?thesis using wf' by (simp add: alloc_ok_def)
qed

text \<open>Changing the limit of one mounted child.\<close>

lemma sum_list_change:
  fixes f g :: "'a \<Rightarrow> int"
  shows "distinct xs \<Longrightarrow> x \<in> set xs \<Longrightarrow> (\<And>y. y \<in> set xs \<Longrightarrow> y \<noteq> x \<Longrightarrow> g y = f y)
    \<Longrightarrow> (\<Sum>y\<leftarrow>xs. g y) = (\<Sum>y\<leftarrow>xs. f y) + (g x - f x)"
proof (induction xs)
  case (Cons y ys)
  show ?case
  proof (cases "y = x")
    case True
    then have "(\<Sum>y\<leftarrow>ys. g y) = (\<Sum>y\<leftarrow>ys. f y)"
      using Cons.prems by (intro arg_cong [where f = sum_list] map_cong) auto
    then show ?thesis using True by simp
  next
    case False
    then show ?thesis using Cons by auto
  qed
qed simp

lemma elem_le_sum_list_int:
  fixes f :: "'a \<Rightarrow> int"
  shows "x \<in> set xs \<Longrightarrow> (\<And>y. y \<in> set xs \<Longrightarrow> 0 \<le> f y) \<Longrightarrow> f x \<le> (\<Sum>y\<leftarrow>xs. f y)"
proof (induction xs)
  case (Cons a xs)
  have "0 \<le> (\<Sum>y\<leftarrow>xs. f y)" "0 \<le> f a" using Cons.prems(2) by (auto intro!: sum_list_nonneg)
  with Cons show ?case by fastforce
qed simp

lemma child_limit_le_carved:
  assumes "alloc_ok s" and "q < next_pid s" and "c \<in> set (children (pools s q))"
  shows "maxBytes (pools s c) \<le> carved s q"
  unfolding carved_def using assms(3) alloc_okD(3) [OF assms(1,2)] by (intro elem_le_sum_list_int) auto

lemma setChildLimit_ok:
  assumes ok: "alloc_ok s" and q: "q < next_pid s" and leaf: "leaf \<in> set (children (pools s q))"
    and mb: "0 \<le> mb" "allocated (pools s q) + mb \<le> max_int64"
    and set: "setChildLimit s leaf mb created = (None, s')"
  shows "next_pid s' = next_pid s \<and> maxBytes (pools s' leaf) = mb
    \<and> (\<forall>r. pools s' r = (pools s r)\<lparr>maxBytes := (if r = leaf then mb else maxBytes (pools s r)),
        allocated := allocated (pools s r) + (if r = q then mb - maxBytes (pools s leaf) else 0)\<rparr>)
    \<and> (maxBytes (pools s leaf) < mb \<and> 0 < maxBytes (pools s q) \<longrightarrow> allocated (pools s' q) \<le> usableLocked (pools s' q))"
proof -
  note kid = tree_wfD [OF alloc_okD(1) [OF ok] q leaf] and lim = alloc_okD(3) [OF ok q leaf]
  let ?old = "maxBytes (pools s leaf)" and ?d = "mb - maxBytes (pools s leaf)"
  have al: "?old \<le> allocated (pools s q)"
    using alloc_okD(2) [OF ok q] child_limit_le_carved [OF ok q leaf] by (simp add: lent_def)
  have d: "wrap64 ?d = ?d" "in64 ?d" using lim mb al by (auto simp: in64_def intro!: wrap64_id)
  have up: "wrap64 (allocated (pools s q) + ?d) = allocated (pools s q) + ?d"
    using al lim mb by (intro wrap64_nonneg) auto
  consider (same) "?d = 0" | (down) "?d < 0" | (raise) "0 < ?d" by linarith
  then show ?thesis
  proof cases
    case same
    then show ?thesis using set d by (simp add: setChildLimit_def)
  next
    case down
    have "wrap64 (- ?d) = - ?d" using down lim mb by (intro wrap64_nonneg) auto
    moreover have "wrap64 (allocated (pools s q) - (?old - mb)) = allocated (pools s q) + ?d"
      using up by (simp add: algebra_simps)
    ultimately show ?thesis
      using set d down kid al mb
      by (auto simp: setChildLimit_def Let_def adjustParentAllocationLocked_def subAllocated_def)
  next
    case raise
    then have s': "\<not> (0 < maxBytes (pools s q) \<and> usableLocked (pools s q) < allocated (pools s q) + ?d)"
      "s' = upd_pool (upd_pool s q (\<lambda>pl. pl\<lparr>allocated := wrap64 (allocated pl + ?d)\<rparr>)) leaf (\<lambda>pl. pl\<lparr>maxBytes := mb\<rparr>)"
      using set d kid up by (auto simp: setChildLimit_def Let_def adjustParentAllocationLocked_def addAllocated_def
          split: if_splits)
    then show ?thesis using kid(3) up raise by (auto simp: usableLocked_def)
  qed
qed

text \<open>So the books of the parent stay balanced, and no other node is touched.\<close>

lemma limit_change_ok:
  assumes ok: "alloc_ok s" and q: "q < next_pid s" and leaf: "leaf \<in> set (children (pools s q))"
    and mb: "0 \<le> mb" "allocated (pools s q) + mb \<le> max_int64" and n: "next_pid s' = next_pid s"
    and s': "\<forall>r. pools s' r = (pools s r)\<lparr>maxBytes := (if r = leaf then mb else maxBytes (pools s r)),
        allocated := allocated (pools s r) + (if r = q then mb - maxBytes (pools s leaf) else 0)\<rparr>"
  shows "alloc_ok s' \<and> (\<forall>r < next_pid s. lent s' r = lent s r)"
proof -
  note wf = alloc_okD(1) [OF ok]
  have sel: "maxBytes (pools s' r) = (if r = leaf then mb else maxBytes (pools s r))" "children (pools s' r) = children (pools s r)"
    "parent (pools s' r) = parent (pools s r)"
    "allocated (pools s' r) = allocated (pools s r) + (if r = q then mb - maxBytes (pools s leaf) else 0)" for r
    using s' by simp_all
  have wf': "tree_wf s'" using wf n sel by (simp add: tree_wf_def parents_below_def)
  have carved: "carved s' r = carved s r + (if r = q then mb - maxBytes (pools s leaf) else 0)" if r: "r < next_pid s" for r
  proof (cases "r = q")
    case True
    have "distinct (children (pools s q))" using wf q by (simp add: tree_wf_def)
    then show ?thesis
      using sum_list_change [of "children (pools s q)" leaf "\<lambda>c. maxBytes (pools s' c)" "\<lambda>c. maxBytes (pools s c)"] leaf True
      by (simp add: carved_def sel(1,2))
  next
    case False
    have "leaf \<notin> set (children (pools s r))" using tree_wfD(2) [OF wf r] tree_wfD(2) [OF wf q leaf] False by auto
    then have "carved s' r = carved s r"
      unfolding carved_def sel(1,2) by (intro arg_cong [where f = sum_list] map_cong) auto
    then show ?thesis using False by simp
  qed
  then have lent: "lent s' r = lent s r" if "r < next_pid s" for r
    using that by (simp add: lent_def sel(4))
  have "allocated (pools s' r) \<le> max_int64" if "r < next_pid s" for r
    using alloc_okD(2) [OF ok that] alloc_okD(3) [OF ok q leaf] mb by (auto simp: sel(4))
  moreover have "mb \<le> max_int64"
    using mb(2) alloc_okD(2) [OF ok q] child_limit_le_carved [OF ok q leaf] alloc_okD(3) [OF ok q leaf]
    by (simp add: lent_def)
  ultimately have "alloc_ok s'"
    using ok wf' lent n mb by (auto simp: alloc_ok_def sel(1,2))
  with lent show ?thesis by blast
qed

section \<open>EnsureChild\<close>

lemma withWaitLock_pools:
  "withWaitLock s p fn = (a, s') \<Longrightarrow> \<exists>s1. fn s = (a, s1) \<and> pools s' = pools s1 \<and> next_pid s' = next_pid s1"
  by (auto simp: withWaitLock_def Let_def split: prod.splits if_splits)

lemma setChildLimit_error:
  "setChildLimit s leaf mb created = (Some e, s') \<Longrightarrow> s' = foldl detachLocked s created \<and> e = ErrAllocExceeded"
  by (auto simp: setChildLimit_def adjustParentAllocationLocked_def addAllocated_def Let_def
      split: if_splits option.splits prod.splits)

lemma ensureChildTarget_cases:
  assumes "tree_wf s" and "p < next_pid s" and "plain segs"
  obtains (target) leaf new s1 where "ensureChildTarget s p segs = (Inr (leaf, new), s1)" "descended s p segs new leaf s1"
      "\<exists>seg \<in> set segs. seg \<noteq> []"
  | (empty) s1 where "ensureChildTarget s p segs = (Inl ErrEmptyPath, s1)" "\<forall>seg \<in> set segs. seg = []" "s1 = s"
proof -
  obtain leaf went new s1 where d: "descend s p segs False [] = ((leaf, went, new), s1)"
    by (cases "descend s p segs False []") auto
  note dd = descend_descended [OF assms d]
  show ?thesis
  proof (cases went)
    case True
    with dd d target show ?thesis by (auto simp: ensureChildTarget_def)
  next
    case False
    then have all: "\<forall>seg \<in> set segs. seg = []" using dd by auto
    then have "descend s p segs False [] = ((p, False, []), s)" by (induction segs) auto
    with d False all empty show ?thesis by (auto simp: ensureChildTarget_def)
  qed
qed

section \<open>Properties\<close>

lemma root_store:
  assumes "in64 n"
  shows "alloc_ok (snd (NewPool empty_store n))" "next_pid (snd (NewPool empty_store n)) = 1"
    "pools (snd (NewPool empty_store n)) 0 = mk_pool n None [] True"
proof -
  let ?s = "snd (NewPool empty_store n)"
  show n: "next_pid ?s = 1" and p: "pools ?s 0 = mk_pool n None [] True"
    by (simp_all add: NewPool_def alloc_pool_def empty_store_def)
  show "alloc_ok ?s"
    using n p by (simp add: alloc_ok_def tree_wf_def parents_below_def lent_def carved_def)
qed

text \<open>C14. A refused \<open>EnsureChild\<close> changes nothing: when it returns an error (an empty path, or a limit that does
  not fit under the parent) every node that existed before is as it was, with the same
  children, limits and allocations; nodes mounted on the way are unmounted again.\<close>

theorem EnsureChild_atomic:
  assumes "tree_wf s" and "p < next_pid s" and "plain segs"
    and "EnsureChild s p segs mb = (Inl e, s')" and "q < next_pid s"
  shows "pools s' q = pools s q"
proof -
  from withWaitLock_pools [OF assms(4) [unfolded EnsureChild_def]]
  obtain s2 where e: "ensureChildLocked s p segs mb = (Inl e, s2)" and s': "pools s' = pools s2" by blast
  show ?thesis
  proof (cases rule: ensureChildTarget_cases [OF assms(1-3), case_names target empty])
    case (target leaf new s1)
    then have "setChildLimit s1 leaf (nonNeg mb) new = (Some e, s2)"
      using e by (auto simp: ensureChildLocked_def split: prod.splits option.splits)
    then have "s2 = foldl detachLocked s1 new" by (simp add: setChildLimit_error)
    moreover have "tree_wf s1" "extends s new s1" using target(2) by (auto simp: descended_def)
    ultimately show ?thesis using rollback assms(5) s' by simp
  next
    case (empty s1)
    then show ?thesis using e s' by (simp add: ensureChildLocked_def)
  qed
qed

theorem EnsureChild_atomic_witness:
  "case EnsureChild (snd (NewPool empty_store 100)) 0 [''d''] 101 of (r, s) \<Rightarrow>
     isl r \<and> next_pid s = 2 \<and> pools s 0 = pools (snd (NewPool empty_store 100)) 0"
proof -
  let ?s0 = "snd (NewPool empty_store 100)"
  let ?r = "EnsureChild ?s0 0 [''d''] 101"
  have "isl (fst ?r)" "next_pid (snd ?r) = 2" by code_simp+
  then obtain e s where r: "?r = (Inl e, s)" "next_pid s = 2" by (cases ?r) (auto simp: isl_def)
  show ?thesis
    using EnsureChild_atomic [OF _ _ _ r(1), of 0] alloc_okD(1) [OF root_store(1)] root_store(2) [of 100] r
    by (simp add: in64_def plain_def slash_def)
qed

text \<open>A granted \<open>EnsureChild\<close> carves the limit out of the direct parent and of nothing else: the path
  then resolves to the returned node, which has the requested limit; every node's allocation
  beyond its children's limits is what it was (none for new nodes), so the parent's allocation
  moved by exactly the change of the child's limit; and when the limit of a child of a limited parent
  was raised, the parent's total allocation is within its usable limit.\<close>

theorem EnsureChild_carves:
  assumes "alloc_ok s" and "p < next_pid s" and "plain segs"
    and "\<And>q. q < next_pid s \<Longrightarrow> allocated (pools s q) + nonNeg mb \<le> max_int64" and "nonNeg mb \<le> max_int64"
    and "EnsureChild s p segs mb = (Inr leaf, s')"
  shows "alloc_ok s' \<and> Resolve s' p segs = leaf \<and> maxBytes (pools s' leaf) = nonNeg mb
    \<and> (\<forall>q < next_pid s'. lent s' q = (if q < next_pid s then lent s q else 0))
    \<and> (\<exists>q < leaf. parent (pools s' leaf) = Some q
        \<and> ((if leaf < next_pid s then maxBytes (pools s leaf) else 0) < nonNeg mb \<and> 0 < maxBytes (pools s' q)
            \<longrightarrow> allocated (pools s' q) \<le> usableLocked (pools s' q)))"
proof -
  note wf = alloc_okD(1) [OF assms(1)]
  from withWaitLock_pools [OF assms(6) [unfolded EnsureChild_def]]
  obtain s2 where e: "ensureChildLocked s p segs mb = (Inr leaf, s2)" and s': "pools s' = pools s2" "next_pid s' = next_pid s2"
    by blast
  then obtain new s1 where t: "ensureChildTarget s p segs = (Inr (leaf, new), s1)"
    and set: "setChildLimit s1 leaf (nonNeg mb) new = (None, s2)"
    by (auto simp: ensureChildLocked_def split: prod.splits option.splits sum.splits)
  have d: "descended s p segs new leaf s1" and ne: "\<exists>seg \<in> set segs. seg \<noteq> []"
    by (cases rule: ensureChildTarget_cases [OF wf assms(2,3)]; use t in auto)+
  then obtain q where q: "q < leaf" "leaf \<in> set (children (pools s1 q))" and l1: "leaf < next_pid s1"
    by (auto simp: descended_def)
  have ok1: "alloc_ok s1" by (rule descended_alloc_ok [OF assms(1) d])
  have ex: "extends s new s1" using d by (simp add: descended_def)
  have q1: "q < next_pid s1" using q l1 by simp
  have al: "allocated (pools s1 q) + nonNeg mb \<le> max_int64"
    using assms(4,5) extends_sel(4) [OF ex] d q1 by (cases "q < next_pid s") (auto simp: descended_def)
  note sc = setChildLimit_ok [OF ok1 q1 q(2) nonNeg_nonneg al set]
  note lc = limit_change_ok [OF ok1 q1 q(2) nonNeg_nonneg al, of s2]
  have ok2: "alloc_ok s2" and lent2: "\<forall>r < next_pid s1. lent s2 r = lent s1 r" using lc sc by blast+
  have frame: "alloc_ok s' = alloc_ok s2" "\<And>r. lent s' r = lent s2 r"
    using s' by (simp_all add: alloc_ok_def lent_def carved_def tree_wf_def parents_below_def)
  have "Resolve s' p segs = Resolve s1 p segs" using sc s' by (intro Resolve_cong) simp
  then have "Resolve s' p segs = leaf" using d by (simp add: descended_def)
  moreover have "\<forall>r < next_pid s'. lent s' r = (if r < next_pid s then lent s r else 0)"
    using lent2 descended_lent [OF wf d] frame(2) sc s'(2) by simp
  moreover have "parent (pools s' leaf) = Some q"
    using tree_wfD(2) [OF alloc_okD(1) [OF ok1] q1 q(2)] sc s' by simp
  moreover have "maxBytes (pools s1 leaf) = (if leaf < next_pid s then maxBytes (pools s leaf) else 0)"
    using d l1 extends_sel(3) [OF ex] by (auto simp: descended_def)
  ultimately show ?thesis using sc s' ok2 frame(1) q(1) by auto
qed

theorem EnsureChild_carves_witness:
  "case EnsureChild (snd (NewPool empty_store 100)) 0 [''a''] 60 of (Inr leaf, s) \<Rightarrow>
     leaf = 1 \<and> Resolve s 0 [''a''] = leaf \<and> maxBytes (pools s leaf) = 60 \<and> lent s 0 = 0 | _ \<Rightarrow> False"
proof -
  let ?s0 = "snd (NewPool empty_store 100)"
  let ?r = "EnsureChild ?s0 0 [''a''] 60"
  have c: "fst ?r = Inr 1" "next_pid (snd ?r) = 2" by code_simp+
  then obtain s where r: "?r = (Inr 1, s)" by (cases ?r) auto
  have "lent ?s0 0 = 0" using root_store(3) [of 100] by (simp add: in64_def lent_def carved_def)
  moreover note EnsureChild_carves [OF root_store(1) _ _ _ _ r]
  ultimately show ?thesis
    using root_store(2,3) [of 100] r c(2) by (simp add: in64_def plain_def slash_def nonNeg_def)
qed

lemma mounted_child:
  assumes wf: "tree_wf s" and p: "p < next_pid s" and n: "newScope s p pth 0 = (c, s1)"
  shows "descended s p [] [c] p s1" and "c \<in> set (children (pools s1 p))"
proof -
  note np = newScope_pools [OF n p] and wf1 = newScope_wf [OF wf p n]
  have "descended s1 p [] [] p s1" using wf1 p np by (simp add: descended_def)
  then show "descended s p [] [c] p s1" by (rule descended_new [OF wf p n])
  show "c \<in> set (children (pools s1 p))" by (simp add: np(3))
qed

definition child_target :: "store \<Rightarrow> pid \<Rightarrow> string \<Rightarrow> (pid \<times> pid list) \<times> store" where
  "child_target s p pth = (case childWithSegment s p (lastSegment pth) of
     Some c \<Rightarrow> ((c, []), s)
   | None \<Rightarrow> (case newScope s p pth 0 of (c, s1) \<Rightarrow> ((c, [c]), s1)))"

lemma child_target:
  assumes wf: "tree_wf s" and p: "p < next_pid s" and t: "child_target s p pth = ((c, new), s1)"
  shows "descended s p [] new p s1" and "c \<in> set (children (pools s1 p))"
    and "maxBytes (pools s1 c) = (if c < next_pid s then maxBytes (pools s c) else 0)"
proof -
  show d: "descended s p [] new p s1" and mem: "c \<in> set (children (pools s1 p))"
  proof -
    consider (old) "childWithSegment s p (lastSegment pth) = Some c" "new = []" "s1 = s"
      | (fresh) "newScope s p pth 0 = (c, s1)" "new = [c]"
      using t by (auto simp: child_target_def split: option.splits prod.splits)
    then have "descended s p [] new p s1 \<and> c \<in> set (children (pools s1 p))"
    proof cases
      case old
      then show ?thesis using wf p childWithSegment_mem [OF old(1)] by (simp add: descended_def)
    next
      case fresh
      then show ?thesis using mounted_child [OF wf p fresh(1)] by simp
    qed
    then show "descended s p [] new p s1" and "c \<in> set (children (pools s1 p))" by auto
  qed
  have "c < next_pid s1" using d mem tree_wfD(1) [of s1 p c] p by (auto simp: descended_def extends_def)
  with d extends_sel(3) [of s new s1 c] show "maxBytes (pools s1 c) = (if c < next_pid s then maxBytes (pools s c) else 0)"
    by (auto simp: descended_def)
qed

text \<open>The production entry points \<open>Pool.Scope\<close> and \<open>Scope.Mount\<close>, for a non-negative limit: on refusal (\<open>nil\<close>)
  every existing node is unchanged; on success the returned child has the limit, the books of
  every node stay balanced, and a limited parent is not over-allocated by a raise.\<close>

theorem Scope_carves:
  assumes "alloc_ok s" and "p < next_pid s" and "0 \<le> mb" and "mb \<le> max_int64"
    and "allocated (pools s p) + mb \<le> max_int64" and "Pool_Scope s p pth mb = (res, s')"
  shows "Mount s p pth [mb] = (res, s') \<and> (case res of
      None \<Rightarrow> \<forall>q < next_pid s. pools s' q = pools s q
    | Some c \<Rightarrow> alloc_ok s' \<and> c \<in> set (children (pools s' p)) \<and> maxBytes (pools s' c) = mb
        \<and> (\<forall>q < next_pid s'. lent s' q = (if q < next_pid s then lent s q else 0))
        \<and> ((if c < next_pid s then maxBytes (pools s c) else 0) < mb \<and> 0 < maxBytes (pools s p)
            \<longrightarrow> allocated (pools s' p) \<le> usableLocked (pools s' p)))"
proof -
  note wf = alloc_okD(1) [OF assms(1)]
  obtain c new s1 where tgt: "child_target s p pth = ((c, new), s1)"
    by (cases "child_target s p pth") auto
  note ct = child_target [OF wf assms(2) tgt]
  note d = ct(1) and mem = ct(2) and cnew = ct(3)
  obtain o2 s2 where w: "withWaitLock s1 p (\<lambda>s. setChildLimit s c mb new) = (o2, s2)"
    by (cases "withWaitLock s1 p (\<lambda>s. setChildLimit s c mb new)")
  from withWaitLock_pools [OF this] obtain s3 where set: "setChildLimit s1 c mb new = (o2, s3)"
    and s2: "pools s2 = pools s3" "next_pid s2 = next_pid s3" by auto
  have res: "newChildWithLimit s p pth mb = (case o2 of Some e \<Rightarrow> Inl e | None \<Rightarrow> Inr c, s2)"
    using w tgt by (simp add: newChildWithLimit_def child_target_def split: option.splits)
  then have ret: "res = (case o2 of Some e \<Rightarrow> None | None \<Rightarrow> Some c)" "s' = s2" "Mount s p pth [mb] = (res, s')"
    using assms(6) by (auto simp: Pool_Scope_def Mount_def split: option.splits)
  have ex: "extends s new s1" and wf1: "tree_wf s1" and p1: "p < next_pid s1" using d by (auto simp: descended_def)
  show ?thesis
  proof (cases o2)
    case (Some e)
    then have "s3 = foldl detachLocked s1 new" using set by (simp add: setChildLimit_error)
    then show ?thesis using ret Some s2 rollback [OF wf1 ex] by simp
  next
    case None
    have ok1: "alloc_ok s1" by (rule descended_alloc_ok [OF assms(1) d])
    have sel: "allocated (pools s1 p) = allocated (pools s p)" "maxBytes (pools s1 p) = maxBytes (pools s p)"
      using extends_sel [OF ex assms(2)] by simp_all
    have al: "allocated (pools s1 p) + mb \<le> max_int64" using assms(5) sel by simp
    note sc = setChildLimit_ok [OF ok1 p1 mem assms(3) al set [unfolded None]]
    note lc = limit_change_ok [OF ok1 p1 mem assms(3) al, of s3]
    have frame: "alloc_ok s2 = alloc_ok s3" "\<And>r. lent s2 r = lent s3 r"
      using s2 by (simp_all add: alloc_ok_def lent_def carved_def tree_wf_def parents_below_def)
    have "p \<noteq> c" using tree_wfD(3) [OF wf1 p1 mem] by simp
    then have mp: "maxBytes (pools s2 p) = maxBytes (pools s p)" using sc sel s2 by simp
    have lc': "alloc_ok s2" "\<forall>r < next_pid s1. lent s2 r = lent s1 r" using lc sc frame by auto
    have n: "next_pid s2 = next_pid s1" using sc s2 by simp
    have "lent s2 q = (if q < next_pid s then lent s q else 0)" if "q < next_pid s2" for q
      using lc'(2) descended_lent [OF wf d] that n by simp
    moreover have "c \<in> set (children (pools s2 p))" using sc s2 mem by simp
    moreover have "maxBytes (pools s2 c) = mb" using sc s2 by simp
    moreover have "maxBytes (pools s1 c) < mb \<and> 0 < maxBytes (pools s1 p) \<longrightarrow> allocated (pools s2 p) \<le> usableLocked (pools s2 p)"
      unfolding s2(1) using sc by blast
    ultimately show ?thesis using ret None lc'(1) cnew sel(2) by simp
  qed
qed

theorem Scope_carves_witness:
  "case Pool_Scope (snd (NewPool empty_store 100)) 0 ''/tenant/a'' 60 of (Some c, s) \<Rightarrow>
     c = 1 \<and> maxBytes (pools s c) = 60 \<and> lent s 0 = 0 | _ \<Rightarrow> False"
proof -
  let ?s0 = "snd (NewPool empty_store 100)"
  let ?r = "Pool_Scope ?s0 0 ''/tenant/a'' 60"
  have c: "fst ?r = Some 1" "next_pid (snd ?r) = 2" by code_simp+
  then obtain s where r: "?r = (Some 1, s)" by (cases ?r) auto
  have "lent ?s0 0 = 0" using root_store(3) [of 100] by (simp add: in64_def lent_def carved_def)
  moreover note Scope_carves [OF root_store(1) _ _ _ _ r]
  ultimately show ?thesis using root_store(2,3) [of 100] r c(2) by (simp add: in64_def)
qed

section \<open>Allocation handles\<close>

text \<open>Allocation handles: while a handle is live its bytes are part of what its node has allocated;
  \<open>TryAllocate\<close> adds exactly the granted bytes, \<open>Set\<close> moves the node's allocation by exactly the change of the
  handle or reports an error and changes nothing, \<open>Release\<close> takes exactly the handle's bytes back, once.\<close>

theorem allocation_exact:
  assumes "0 \<le> aamount a" and "aamount a \<le> allocated (pools s (apool a))"
    and "allocated (pools s (apool a)) + nonNeg n \<le> max_int64" and "\<not> areleased a"
    and "Allocation_Set s a n = (e, a', s')" and "Allocation_Release s' a' = (a2, s2)"
  shows "(e \<noteq> None \<longrightarrow> a' = a \<and> s' = s) \<and> (e = None \<longrightarrow> aamount a' = nonNeg n)
    \<and> allocated (pools s' (apool a)) = allocated (pools s (apool a)) + (aamount a' - aamount a)
    \<and> allocated (pools s2 (apool a)) = allocated (pools s (apool a)) - aamount a
    \<and> Allocation_Release s2 a2 = (a2, s2)"
proof -
  let ?p = "apool a" and ?d = "nonNeg n - aamount a"
  have d: "wrap64 ?d = ?d" using assms(1-3) nonNeg_nonneg [of n] unfolding in64_def
    by (intro wrap64_id [unfolded in64_def]) linarith
  have up: "wrap64 (allocated (pools s ?p) + ?d) = allocated (pools s ?p) + ?d"
    using assms(1-3) nonNeg_nonneg [of n] by (intro wrap64_nonneg) linarith+
  have m: "wrap64 (- ?d) = - ?d" if "?d < 0"
    using assms(1-3) nonNeg_nonneg [of n] that by (intro wrap64_nonneg) linarith+
  have down: "wrap64 (allocated (pools s ?p) - (aamount a - nonNeg n)) = allocated (pools s ?p) + ?d"
    using up by (simp add: algebra_simps)
  have pos: "0 \<le> allocated (pools s ?p) + ?d" using assms(1,2) nonNeg_nonneg [of n] by linarith
  have set: "(e \<noteq> None \<longrightarrow> a' = a \<and> s' = s) \<and> (e = None \<longrightarrow> aamount a' = nonNeg n) \<and> apool a' = ?p \<and> \<not> areleased a'
    \<and> allocated (pools s' ?p) = allocated (pools s ?p) + (aamount a' - aamount a)"
  proof (cases "?d < 0")
    case True
    then have "e = None" "a' = a\<lparr>aamount := nonNeg n\<rparr>"
      "s' = snd (withWaitLock s ?p (\<lambda>s. ((), subAllocated s ?p (- ?d))))"
      using assms(4,5) d m [OF True] by (auto simp: Allocation_Set_def Let_def)
    then show ?thesis using down pos assms(4) by (simp add: Let_def subAllocated_def withWaitLock_def)
  next
    case False
    then consider "?d = 0" "e = None" "a' = a\<lparr>aamount := nonNeg n\<rparr>" "s' = s"
      | "e \<noteq> None" "a' = a" "s' = s"
      | "e = None" "a' = a\<lparr>aamount := nonNeg n\<rparr>" "s' = upd_pool s ?p (\<lambda>pl. pl\<lparr>allocated := wrap64 (allocated pl + ?d)\<rparr>)"
      using assms(4,5) d by (auto simp: Allocation_Set_def Let_def addAllocated_def split: if_splits)
    then show ?thesis using up assms(4) by cases auto
  qed
  have "aamount a' \<le> allocated (pools s' ?p)" "0 \<le> aamount a'" "allocated (pools s' ?p) \<le> max_int64"
  proof -
    have "aamount a' = nonNeg n \<or> aamount a' = aamount a" using set by (cases e) blast+
    moreover have "allocated (pools s' ?p) = allocated (pools s ?p) + (aamount a' - aamount a)" using set by blast
    ultimately show "aamount a' \<le> allocated (pools s' ?p)" "0 \<le> aamount a'" "allocated (pools s' ?p) \<le> max_int64"
      using assms(1-3) nonNeg_nonneg [of n] by linarith+
  qed
  then have w2: "wrap64 (allocated (pools s' ?p) - aamount a') = allocated (pools s' ?p) - aamount a'"
    by (intro wrap64_nonneg) auto
  have "allocated (pools s2 ?p) = allocated (pools s' ?p) - aamount a'" "areleased a2"
  proof -
    have st: "apool a' = ?p" "\<not> areleased a'" using set by blast+
    then show "areleased a2" using assms(6) by (auto simp: Allocation_Release_def)
    from st assms(6) have "s2 = snd (withWaitLock s' ?p (\<lambda>s. ((), subAllocated s ?p (aamount a'))))"
      by (auto simp: Allocation_Release_def)
    then show "allocated (pools s2 ?p) = allocated (pools s' ?p) - aamount a'"
      using w2 \<open>aamount a' \<le> _\<close> by (simp add: subAllocated_def withWaitLock_def Let_def)
  qed
  moreover from this have "Allocation_Release s2 a2 = (a2, s2)" by (simp add: Allocation_Release_def)
  ultimately show ?thesis using set by linarith
qed

theorem allocation_exact_witness:
  "case TryAllocate (snd (NewPool empty_store 100)) 0 30 of (Inr a, s) \<Rightarrow>
     (case Allocation_Set s a 80 of (e, a', s') \<Rightarrow> e = None \<and> allocated (pools s' 0) = 80
       \<and> allocated (pools (snd (Allocation_Release s' a')) 0) = 0) | _ \<Rightarrow> False"
proof -
  let ?r = "TryAllocate (snd (NewPool empty_store 100)) 0 30"
  let ?a = "\<lparr>apool = 0, aamount = 30, areleased = False\<rparr>"
  have "fst ?r = Inr ?a" "allocated (pools (snd ?r) 0) = 30" "fst (Allocation_Set (snd ?r) ?a 80) = None" by code_simp+
  then obtain s where r: "?r = (Inr ?a, s)" and al: "allocated (pools s 0) = 30" and e: "fst (Allocation_Set s ?a 80) = None"
    by (cases ?r) auto
  obtain a' s' where set: "Allocation_Set s ?a 80 = (None, a', s')" using e by (cases "Allocation_Set s ?a 80") auto
  obtain a2 s2 where rel: "Allocation_Release s' a' = (a2, s2)" by (cases "Allocation_Release s' a'")
  show ?thesis
    using allocation_exact [OF _ _ _ _ set rel] r set rel al by (simp add: nonNeg_def)
qed

section \<open>Where the allocation ledger departs from its documentation\<close>

definition alloc_scenario_negative :: store where
  "alloc_scenario_negative = (let s0 = snd (NewPool empty_store 100); s1 = snd (Pool_Scope s0 0 ''a'' 60);
     s2 = snd (Pool_Scope s1 0 ''b'' (- 60)); s3 = snd (Pool_Scope s2 0 ''c'' 100) in s3)"

definition alloc_scenario_shrink :: store where
  "alloc_scenario_shrink = (let s0 = snd (NewPool empty_store 100); s1 = snd (EnsureChild s0 0 [''a''] 60);
     s2 = snd (EnsureChild s1 0 [''a'', ''b''] 50) in snd (EnsureChild s2 0 [''a''] 10))"

definition alloc_scenario_unmount :: store where
  "alloc_scenario_unmount = (let s0 = snd (NewPool empty_store 100); s1 = snd (Pool_Scope s0 0 ''a'' 60)
     in ReleaseCommittedAndUnmount s1 1)"

text \<open>Three departures from the documented invariant (a limited node's children's limits sum to its
  allocation and fit its usable limit). A negative limit given to \<open>Scope\<close> takes allocation off the
  parent, after which the parent is over-carved; shrinking a node below what it has carved out is accepted;
  and unmounting a child leaves its limit allocated for ever.\<close>

lemma allocation_departures:
  "maxBytes (pools alloc_scenario_negative 1) + maxBytes (pools alloc_scenario_negative 3) = 160
   \<and> children (pools alloc_scenario_negative 0) = [1, 2, 3] \<and> maxBytes (pools alloc_scenario_negative 0) = 100
   \<and> allocated (pools alloc_scenario_shrink 1) = 50 \<and> usableLocked (pools alloc_scenario_shrink 1) = 10
   \<and> children (pools alloc_scenario_unmount 0) = [] \<and> allocated (pools alloc_scenario_unmount 0) = 60
   \<and> fst (Pool_Scope alloc_scenario_unmount 0 ''b'' 60) = None"
proof -
  have "maxBytes (pools alloc_scenario_negative 1) = 60" "maxBytes (pools alloc_scenario_negative 3) = 100"
    "children (pools alloc_scenario_negative 0) = [1, 2, 3]" "maxBytes (pools alloc_scenario_negative 0) = 100" by code_simp+
  moreover have "allocated (pools alloc_scenario_shrink 1) = 50" "usableLocked (pools alloc_scenario_shrink 1) = 10" by code_simp+
  moreover have "children (pools alloc_scenario_unmount 0) = []" "allocated (pools alloc_scenario_unmount 0) = 60"
    "fst (Pool_Scope alloc_scenario_unmount 0 ''b'' 60) = None" by code_simp+
  ultimately show ?thesis by simp
qed

end
