(* ===== verification/Claims.thy ===== *)
theory Claims
  imports Ledger
begin

text \<open>
  The interface between the ledger and the handles that hold quota (reservations, settlements, task
  accounts, quota writers). A handle is a claim \<open>(p, r, c)\<close>: it sits on node \<open>p\<close>, holds \<open>r\<close>
  reserved bytes and answers for \<open>c\<close> committed ones. The locale \<open>shift_ledger\<close> states what a handle
  relies on: a ledger operation is a shift of its node's own shares, and a shift that
  leaves the shares non-negative and overflows nothing keeps the ledger's invariant.
  \<open>backed\<close>, proved stable once for any such ledger, says that the reserved bytes of every node
  are exactly the live claims on it, and that its committed bytes cover the claimed ones.
\<close>

lemma sum_list_update_int:
  fixes xs :: "int list"
  shows "i < length xs \<Longrightarrow> sum_list (xs[i := y]) = sum_list xs - xs ! i + y"
  by (induction xs arbitrary: i) (auto split: nat.splits)

lemma nth_le_sum_list_int:
  fixes xs :: "int list"
  shows "i < length xs \<Longrightarrow> (\<And>x. x \<in> set xs \<Longrightarrow> 0 \<le> x) \<Longrightarrow> xs ! i \<le> sum_list xs"
proof (induction xs arbitrary: i)
  case (Cons x xs)
  then show ?case
    by (cases i) (auto intro: sum_list_nonneg order_trans add_increasing)
qed simp

type_synonym 'p claim = "'p \<times> int \<times> int"

definition res_at :: "'p \<Rightarrow> 'p claim \<Rightarrow> int" where
  "res_at p = (\<lambda>(q, r, c). if q = p then r else 0)"

definition com_at :: "'p \<Rightarrow> 'p claim \<Rightarrow> int" where
  "com_at p = (\<lambda>(q, r, c). if q = p then c else 0)"

locale shift_ledger =
  fixes inv :: "'s \<Rightarrow> bool" and node :: "'s \<Rightarrow> 'p \<Rightarrow> bool"
    and ownc :: "'s \<Rightarrow> 'p \<Rightarrow> int" and ownr :: "'s \<Rightarrow> 'p \<Rightarrow> int"
    and sh :: "'s \<Rightarrow> 'p \<Rightarrow> int \<Rightarrow> int \<Rightarrow> 's \<Rightarrow> bool" and fit :: "'s \<Rightarrow> 'p \<Rightarrow> int \<Rightarrow> int \<Rightarrow> bool"
  assumes sh_node: "sh s p dc dr s' \<Longrightarrow> node s' q = node s q"
    and sh_ownc: "inv s \<Longrightarrow> node s p \<Longrightarrow> sh s p dc dr s' \<Longrightarrow> ownc s' q = ownc s q + (if q = p then dc else 0)"
    and sh_ownr: "inv s \<Longrightarrow> node s p \<Longrightarrow> sh s p dc dr s' \<Longrightarrow> ownr s' q = ownr s q + (if q = p then dr else 0)"
    and sh_inv: "inv s \<Longrightarrow> node s p \<Longrightarrow> sh s p dc dr s' \<Longrightarrow> 0 \<le> ownc s p + dc \<Longrightarrow> 0 \<le> ownr s p + dr
      \<Longrightarrow> fit s p dc dr \<Longrightarrow> inv s'"
begin

definition backed :: "'s \<Rightarrow> 'p claim list \<Rightarrow> bool" where
  "backed s cs \<longleftrightarrow> inv s \<and> (\<forall>(p, r, c) \<in> set cs. node s p \<and> 0 \<le> r \<and> 0 \<le> c)
     \<and> (\<forall>p. node s p \<longrightarrow> ownr s p = (\<Sum>x\<leftarrow>cs. res_at p x) \<and> (\<Sum>x\<leftarrow>cs. com_at p x) \<le> ownc s p)"

lemma backed_inv: "backed s cs \<Longrightarrow> inv s"
  by (simp add: backed_def)

lemma backed_claim:
  assumes "backed s cs" and "i < length cs" and "cs ! i = (p, r, c)"
  shows "node s p" and "0 \<le> r" and "0 \<le> c" and "r \<le> ownr s p" and "c \<le> ownc s p"
    and "c \<le> (\<Sum>x\<leftarrow>cs. com_at p x)"
proof -
  have mem: "(p, r, c) \<in> set cs" using assms(2,3) by (metis nth_mem)
  with assms(1) show p: "node s p" and "0 \<le> r" and "0 \<le> c" by (auto simp: backed_def)
  have pos: "0 \<le> x" if "x \<in> set (map (res_at p) cs) \<union> set (map (com_at p) cs)" for x
    using assms(1) that by (fastforce simp: backed_def res_at_def com_at_def)
  have "map (res_at p) cs ! i = r" "map (com_at p) cs ! i = c"
    using assms(2,3) by (auto simp: res_at_def com_at_def)
  then have "r \<le> (\<Sum>x\<leftarrow>cs. res_at p x)" and *: "c \<le> (\<Sum>x\<leftarrow>cs. com_at p x)"
    using nth_le_sum_list_int [of i "map (res_at p) cs"] nth_le_sum_list_int [of i "map (com_at p) cs"]
      pos assms(2) by auto
  with assms(1) p show "r \<le> ownr s p" and "c \<le> ownc s p" by (auto simp: backed_def)
  show "c \<le> (\<Sum>x\<leftarrow>cs. com_at p x)" by (rule *)
qed

text \<open>One claim changes by a shift of its node, as long as the committed bytes still cover the claims.\<close>

lemma backed_move:
  assumes b: "backed s cs" and i: "i < length cs" "cs ! i = (p, r, c)" and sh: "sh s p dc dr s'"
    and r: "0 \<le> r + dr" and c: "0 \<le> c + k" "(\<Sum>x\<leftarrow>cs. com_at p x) + k \<le> ownc s p + dc" and fit: "fit s p dc dr"
  shows "backed s' (cs[i := (p, r + dr, c + k)])"
proof -
  note cl = backed_claim [OF b i]
  have res: "(\<Sum>x\<leftarrow>cs[i := (p, r + dr, c + k)]. res_at q x) = (\<Sum>x\<leftarrow>cs. res_at q x) + (if q = p then dr else 0)" for q
    using i by (simp add: map_update sum_list_update_int) (simp add: res_at_def)
  have com: "(\<Sum>x\<leftarrow>cs[i := (p, r + dr, c + k)]. com_at q x) = (\<Sum>x\<leftarrow>cs. com_at q x) + (if q = p then k else 0)" for q
    using i by (simp add: map_update sum_list_update_int) (simp add: com_at_def)
  have "inv s'" using sh_inv [OF backed_inv [OF b] cl(1) sh _ _ fit] cl(4,6) r c by linarith
  moreover have "\<forall>(q, r', c') \<in> set (cs[i := (p, r + dr, c + k)]). node s' q \<and> 0 \<le> r' \<and> 0 \<le> c'"
    using b r c cl(1) set_update_subset_insert [of cs i "(p, r + dr, c + k)"]
    by (auto simp: backed_def sh_node [OF sh])
  moreover have "ownr s' q = (\<Sum>x\<leftarrow>cs. res_at q x) + (if q = p then dr else 0)"
    "(\<Sum>x\<leftarrow>cs. com_at q x) + (if q = p then k else 0) \<le> ownc s' q" if "node s' q" for q
    using b that c(2) sh_ownr [OF backed_inv [OF b] cl(1) sh, of q]
      sh_ownc [OF backed_inv [OF b] cl(1) sh, of q] by (auto simp: backed_def sh_node [OF sh])
  ultimately show ?thesis by (simp add: backed_def res com)
qed

lemma backed_step:
  assumes "backed s cs" and "i < length cs" "cs ! i = (p, r, c)" and "sh s p dc dr s'"
    and "0 \<le> r + dr" and "0 \<le> c + k" "k \<le> dc" and "fit s p dc dr"
  shows "backed s' (cs[i := (p, r + dr, c + k)])"
  using assms backed_claim(1) [OF assms(1-3)]
  by (intro backed_move [OF assms(1-6) _ assms(8)]) (auto simp: backed_def add_mono)

text \<open>Bytes that no live claim answers for (files on disk) may come and go.\<close>

lemma backed_outside:
  assumes b: "backed s cs" and p: "node s p" and sh: "sh s p dc 0 s'"
    and c: "(\<Sum>x\<leftarrow>cs. com_at p x) \<le> ownc s p + dc" and r: "0 \<le> ownr s p" and fit: "fit s p dc 0"
  shows "backed s' cs"
proof -
  have "0 \<le> (\<Sum>x\<leftarrow>cs. com_at p x)"
    using b by (intro sum_list_nonneg) (fastforce simp: backed_def com_at_def)
  then have "inv s'" using sh_inv [OF backed_inv [OF b] p sh _ _ fit] c r by linarith
  with b c show ?thesis
    by (auto simp: backed_def sh_node [OF sh] sh_ownr [OF backed_inv [OF b] p sh]
        sh_ownc [OF backed_inv [OF b] p sh])
qed

text \<open>A new claim opens with a shift.\<close>

lemma backed_new:
  assumes b: "backed s cs" and p: "node s p" and sh: "sh s p 0 n s'" and "0 \<le> n" and "fit s p 0 n"
    and "0 \<le> ownr s p" and "0 \<le> ownc s p"
  shows "backed s' (cs @ [(p, n, 0)])"
proof -
  have "inv s'" using sh_inv [OF backed_inv [OF b] p sh] assms(4-7) by simp
  with b assms(4) p show ?thesis
    by (auto simp: backed_def res_at_def com_at_def sh_node [OF sh] sh_ownr [OF backed_inv [OF b] p sh]
        sh_ownc [OF backed_inv [OF b] p sh])
qed

end

interpretation quota: shift_ledger ledger_ok "\<lambda>s p. p < next_pid s" "own committed" "own reserved" shifted room
proof unfold_locales
  fix s p dc dr s' q
  show "shifted s p dc dr s' \<Longrightarrow> (q < next_pid s') = (q < next_pid s)" by (simp add: shifted_next)
  show "ledger_ok s \<Longrightarrow> p < next_pid s \<Longrightarrow> shifted s p dc dr s'
      \<Longrightarrow> own committed s' q = own committed s q + (if q = p then dc else 0)" by (rule shifted_own(1))
  show "ledger_ok s \<Longrightarrow> p < next_pid s \<Longrightarrow> shifted s p dc dr s'
      \<Longrightarrow> own reserved s' q = own reserved s q + (if q = p then dr else 0)" by (rule shifted_own(2))
  show "ledger_ok s \<Longrightarrow> p < next_pid s \<Longrightarrow> shifted s p dc dr s' \<Longrightarrow> 0 \<le> own committed s p + dc
      \<Longrightarrow> 0 \<le> own reserved s p + dr \<Longrightarrow> room s p dc dr \<Longrightarrow> ledger_ok s'" by (rule shifted_ok)
qed

section \<open>Following one handle\<close>

text \<open>\<open>tracked s\<^sub>0 p w r c s\<close>: since \<open>s\<^sub>0\<close> a handle on \<open>p\<close> has come to hold \<open>r\<close> reserved and \<open>c\<close> committed
  bytes, the ledger moved by exactly that, and the two together stay within \<open>w\<close>.
  \<open>headroom s p w\<close>: the counters of \<open>p\<close> and its ancestors can take \<open>w\<close> more bytes without leaving
  \<open>int64\<close>.\<close>

definition tracked :: "store \<Rightarrow> pid \<Rightarrow> int \<Rightarrow> int \<Rightarrow> int \<Rightarrow> store \<Rightarrow> bool" where
  "tracked s0 p w r c s \<longleftrightarrow> shifted s0 p c r s \<and> 0 \<le> r \<and> 0 \<le> c \<and> r + c \<le> w"

definition headroom :: "store \<Rightarrow> pid \<Rightarrow> int \<Rightarrow> bool" where
  "headroom s p w \<longleftrightarrow> (\<forall>q \<in> set (chain s p). committed (pools s q) + reserved (pools s q) + w \<le> max_int64)"

lemma tracked_init: "tracked s p 0 0 0 s"
  by (simp add: tracked_def)

lemma tracked_step:
  assumes "tracked s0 p w r c s" and "shifted s p dc dr s'" and "0 \<le> r + dr" and "0 \<le> c + dc"
    and "r + dr + (c + dc) \<le> w'"
  shows "tracked s0 p w' (r + dr) (c + dc) s'"
  using assms shifted_trans [of s0 p c r s dc dr s'] by (simp add: tracked_def)

lemma tracked_mono: "tracked s0 p w r c s \<Longrightarrow> w \<le> w' \<Longrightarrow> tracked s0 p w' r c s"
  by (simp add: tracked_def)

lemma tracked_room:
  assumes "ledger_ok s0" and "p < next_pid s0" and "headroom s0 p W" and tr: "tracked s0 p w r c s"
    and "c + dc \<le> W" and "r + dr \<le> W"
  shows "room s p dc dr"
  unfolding room_def
proof
  have sh: "shifted s0 p c r s" using tr by (simp add: tracked_def)
  fix q assume "q \<in> set (chain s p)"
  then have q: "q \<in> set (chain s0 p)" by (simp add: shifted_chain [OF sh])
  have lt: "q < next_pid s0" by (rule chain_below [OF assms(2) q])
  have "0 \<le> committed (pools s0 q)" "0 \<le> reserved (pools s0 q)"
    using aggregatedD(1) [OF ledger_okD(2) [OF assms(1)] lt] aggregatedD(1) [OF ledger_okD(3) [OF assms(1)] lt]
    by simp_all
  then show "committed (pools s q) + dc \<le> max_int64 \<and> reserved (pools s q) + dr \<le> max_int64"
    using assms(3,5,6) q shifted_sel(6,7) [OF sh, of q] by (auto simp: headroom_def)
qed

lemma tracked_held:
  assumes ok: "ledger_ok s0" "p < next_pid s0" and hr: "headroom s0 p W" and "w \<le> W"
    and tr: "tracked s0 p w r c s"
  shows "ledger_ok s" and "p < next_pid s" and "r \<le> own reserved s p" and "c \<le> own committed s p"
proof -
  have sh: "shifted s0 p c r s" and pos: "0 \<le> c" "0 \<le> r" "r + c \<le> W"
    using tr assms(4) by (auto simp: tracked_def)
  note own = aggregatedD(3) [OF ledger_okD(2) [OF ok(1)] ok(2)] aggregatedD(3) [OF ledger_okD(3) [OF ok(1)] ok(2)]
  have "room s0 p c r"
    using pos by (intro tracked_room [OF ok hr tracked_init]) auto
  with pos own show "ledger_ok s" by (intro shifted_ok [OF ok sh]) auto
  show "p < next_pid s" using ok(2) shifted_next [OF sh] by simp
  show "r \<le> own reserved s p" "c \<le> own committed s p" using shifted_own [OF ok sh, of p] own by simp_all
qed

text \<open>Headroom on the current ledger is room for one operation, and follows the handle.\<close>

lemma headroom_room:
  assumes "ledger_ok s" and "p < next_pid s" and hr: "headroom s p k" and "dc \<le> k" and "dr \<le> k"
  shows "room s p dc dr"
  unfolding room_def
proof
  fix q assume q: "q \<in> set (chain s p)"
  note lt = chain_below [OF assms(2) q]
  have "0 \<le> committed (pools s q)" "0 \<le> reserved (pools s q)"
    using aggregatedD(1) [OF ledger_okD(2) [OF assms(1)] lt] aggregatedD(1) [OF ledger_okD(3) [OF assms(1)] lt]
    by simp_all
  moreover have "committed (pools s q) + reserved (pools s q) + k \<le> max_int64" using hr q by (simp add: headroom_def)
  ultimately show "committed (pools s q) + dc \<le> max_int64 \<and> reserved (pools s q) + dr \<le> max_int64"
    using assms(4,5) by linarith
qed

text \<open>Settling what a handle holds needs no headroom of its own: it is already counted as reserved.\<close>

lemma headroom_settle:
  assumes ok: "ledger_ok s" "p < next_pid s" and hr: "headroom s p k" "0 \<le> k" and "0 \<le> r" "r \<le> own reserved s p"
  shows "room s p r 0"
  unfolding room_def
proof
  fix q assume q: "q \<in> set (chain s p)"
  have "r \<le> reserved (pools s q)"
    using aggregated_chain_mono [OF ledger_okD(3,1) [OF ok(1)] ok(2) q] own_le' [OF ok] assms(6) by linarith
  moreover have "committed (pools s q) + reserved (pools s q) + k \<le> max_int64" using hr q by (simp add: headroom_def)
  moreover have "0 \<le> committed (pools s q)" "0 \<le> reserved (pools s q)" "reserved (pools s q) \<le> max_int64"
    using aggregatedD(1) [OF ledger_okD(2) [OF ok(1)] chain_below [OF ok(2) q]]
      aggregatedD(1,2) [OF ledger_okD(3) [OF ok(1)] chain_below [OF ok(2) q]] by simp_all
  ultimately show "committed (pools s q) + r \<le> max_int64 \<and> reserved (pools s q) + 0 \<le> max_int64"
    using hr(2) by linarith
qed

lemma headroom_move:
  assumes ok: "ledger_ok s" "p < next_pid s" and hr: "headroom s p k"
    and "r \<le> own reserved s p" "c \<le> own committed s p" "0 \<le> r + dr" "0 \<le> c + dc" "dr + dc \<le> k"
  shows "room s p dc dr"
  unfolding room_def
proof
  fix q assume q: "q \<in> set (chain s p)"
  have "r \<le> reserved (pools s q)" "c \<le> committed (pools s q)"
    using aggregated_chain_mono [OF ledger_okD(3,1) [OF ok(1)] ok(2) q] own_le' [OF ok] own_le [OF ok]
      aggregated_chain_mono [OF ledger_okD(2,1) [OF ok(1)] ok(2) q] assms(4,5) by linarith+
  moreover have "committed (pools s q) + reserved (pools s q) + k \<le> max_int64" using hr q by (simp add: headroom_def)
  ultimately show "committed (pools s q) + dc \<le> max_int64 \<and> reserved (pools s q) + dr \<le> max_int64"
    using assms(6-8) by linarith
qed

lemma tracked_headroom:
  assumes hr: "headroom s0 p W" and tr: "tracked s0 p w r c s" and "w + k \<le> W"
  shows "headroom s p k"
proof -
  have sh: "shifted s0 p c r s" and le: "r + c \<le> w" using tr by (auto simp: tracked_def)
  show ?thesis
    unfolding headroom_def
  proof
    fix q assume "q \<in> set (chain s p)"
    then have q: "q \<in> set (chain s0 p)" by (simp add: shifted_chain [OF sh])
    then have "committed (pools s0 q) + reserved (pools s0 q) + W \<le> max_int64" using hr by (simp add: headroom_def)
    then show "committed (pools s q) + reserved (pools s q) + k \<le> max_int64"
      using shifted_sel(6,7) [OF sh, of q] q le assms(3) by simp
  qed
qed

lemma two_level_headroom: "w \<le> max_int64 \<Longrightarrow> headroom two_level 1 w"
  using two_level_ok(3) two_level_pools by (simp add: headroom_def)

end
