(* ===== verification/Settlement.thy ===== *)
theory Settlement
  imports Claims
begin

text \<open>
  The settlement state machine of \<open>pkg/quota/settlement.go\<close>: a handle on a ledger node that is open, then
  committed or released, with every illegal transition an error value. \<open>ReserveWait\<close> waits on the
  queue and is in \<open>Quota_Wait\<close>. The lemmas give each operation as a shift of the ledger that
  matches the change of the handle; the run theorem follows every sequence of operations.
\<close>

datatype State = StateOpen | StateCommitted | StateReleased

record settlement =
  spool :: "pid option"
  sreserved :: int
  scommitted :: int
  sstate :: State

definition State_String :: "State \<Rightarrow> string" where
  "State_String st = (case st of StateOpen \<Rightarrow> ''open'' | StateCommitted \<Rightarrow> ''committed''
     | StateReleased \<Rightarrow> ''released'')"

definition NewSettlement :: "pid option \<Rightarrow> settlement" where
  "NewSettlement p = \<lparr>spool = p, sreserved = 0, scommitted = 0, sstate = StateOpen\<rparr>"

definition requireOpenLocked :: "settlement \<Rightarrow> qerr option" where
  "requireOpenLocked h = (case sstate h of StateOpen \<Rightarrow> None
     | StateCommitted \<Rightarrow> Some ErrSettlementCommitted | StateReleased \<Rightarrow> Some ErrSettlementReleased)"

definition Settlement_Reserve :: "store \<Rightarrow> settlement \<Rightarrow> int \<Rightarrow> qerr option \<times> settlement \<times> store" where
  "Settlement_Reserve s h n = (case requireOpenLocked h of
     Some e \<Rightarrow> (Some e, h, s)
   | None \<Rightarrow> (let amt = nonNeg n in
       if amt = 0 then (None, h, s)
       else case spool h of
         None \<Rightarrow> (Some ErrSettlementNoTarget, h, s)
       | Some p \<Rightarrow> (case reserveUp s p amt of
           (Some e, s1) \<Rightarrow> (Some e, h, s1)
         | (None, s1) \<Rightarrow> (None, h\<lparr>sreserved := wrap64 (sreserved h + amt)\<rparr>, s1))))"

definition Settlement_Reconcile :: "store \<Rightarrow> settlement \<Rightarrow> int \<Rightarrow> qerr option \<times> settlement \<times> store" where
  "Settlement_Reconcile s h actual = (case requireOpenLocked h of
     Some e \<Rightarrow> (Some e, h, s)
   | None \<Rightarrow> (let target = nonNeg actual in
       if target = sreserved h then (None, h, s)
       else case spool h of
         None \<Rightarrow> (Some ErrSettlementNoTarget, h, s)
       | Some p \<Rightarrow>
           (if sreserved h < target then
              (case reserveUp s p (wrap64 (target - sreserved h)) of
                 (Some e, s1) \<Rightarrow> (Some e, h, s1)
               | (None, s1) \<Rightarrow> (None, h\<lparr>sreserved := target\<rparr>, s1))
            else (None, h\<lparr>sreserved := target\<rparr>, releaseReserve s p (wrap64 (sreserved h - target))))))"

definition Settlement_Commit :: "store \<Rightarrow> settlement \<Rightarrow> qerr option \<times> settlement \<times> store" where
  "Settlement_Commit s h = (case sstate h of
     StateCommitted \<Rightarrow> (None, h, s)
   | StateReleased \<Rightarrow> (Some ErrSettlementReleased, h, s)
   | StateOpen \<Rightarrow> (case spool h of
       None \<Rightarrow> (Some ErrSettlementNoTarget, h, s)
     | Some p \<Rightarrow> (let amount = sreserved h in
         (None, h\<lparr>scommitted := amount, sreserved := 0, sstate := StateCommitted\<rparr>,
          commitReservation s p amount amount))))"

definition Settlement_Release :: "store \<Rightarrow> settlement \<Rightarrow> settlement \<times> store" where
  "Settlement_Release s h =
     (if sstate h \<noteq> StateOpen then (h, s)
      else (h\<lparr>sreserved := 0, sstate := StateReleased\<rparr>,
        case spool h of Some p \<Rightarrow> (if 0 < sreserved h then releaseReserve s p (sreserved h) else s)
        | None \<Rightarrow> s))"

section \<open>A run of operations on one handle\<close>

datatype sett_op = OpReserve int | OpReconcile int | OpCommit | OpRelease

fun sett_step :: "store \<Rightarrow> settlement \<Rightarrow> sett_op \<Rightarrow> qerr option \<times> settlement \<times> store" where
  "sett_step s h (OpReserve n) = Settlement_Reserve s h n"
| "sett_step s h (OpReconcile n) = Settlement_Reconcile s h n"
| "sett_step s h OpCommit = Settlement_Commit s h"
| "sett_step s h OpRelease = (None, Settlement_Release s h)"

fun sett_run :: "store \<Rightarrow> settlement \<Rightarrow> sett_op list \<Rightarrow> settlement \<times> store" where
  "sett_run s h [] = (h, s)"
| "sett_run s h (x # xs) = (case sett_step s h x of (e, h1, s1) \<Rightarrow> sett_run s1 h1 xs)"

section \<open>Laws\<close>

text \<open>The handle is held by the ledger: what it reserves is part of its node's own share.\<close>

definition sett_held :: "store \<Rightarrow> settlement \<Rightarrow> bool" where
  "sett_held s h \<longleftrightarrow> ledger_ok s \<and> (case spool h of None \<Rightarrow> sreserved h = 0
     | Some p \<Rightarrow> p < next_pid s \<and> 0 \<le> sreserved h \<and> sreserved h \<le> own reserved s p)"

text \<open>What an operation does to the handle's reserved (\<open>dr\<close>) and settled (\<open>dc\<close>) bytes is what it
  does to the ledger.\<close>

lemma sreserved_le:
  assumes "sett_held s h" and "spool h = Some p"
  shows "sreserved h \<le> reserved (pools s p)" and "sreserved h \<le> max_int64"
proof -
  have p: "ledger_ok s" "p < next_pid s" using assms by (auto simp: sett_held_def)
  show "sreserved h \<le> reserved (pools s p)" using own_le' [OF p] assms by (simp add: sett_held_def)
  with aggregatedD(2) [OF ledger_okD(3) [OF p(1)] p(2)] show "sreserved h \<le> max_int64" by simp
qed

lemma Settlement_Reserve_shift:
  assumes held: "sett_held s h" and p: "spool h = Some p" and room: "room s p 0 (nonNeg n)"
    and step: "Settlement_Reserve s h n = (e, h', s')"
  shows "shifted s p 0 (sreserved h' - sreserved h) s' \<and> spool h' = spool h \<and> sreserved h \<le> sreserved h'
    \<and> sreserved h' \<le> sreserved h + nonNeg n \<and> scommitted h' = scommitted h \<and> sstate h' = sstate h \<and> (e \<noteq> None \<longrightarrow> h' = h \<and> s' = s)"
proof -
  have ok: "ledger_ok s" "p < next_pid s" using held p by (auto simp: sett_held_def)
  have hi: "reserved (pools s p) + nonNeg n \<le> max_int64" using room by (simp add: room_def)
  have wrap: "wrap64 (sreserved h + nonNeg n) = sreserved h + nonNeg n"
    using sreserved_le [OF held p] hi held p by (intro wrap64_nonneg) (auto simp: sett_held_def)
  show ?thesis
    using step p reserveUp_shift [OF ok nonNeg_nonneg room] reserveUp_error [OF ok, of "nonNeg n"] wrap
    by (auto simp: Settlement_Reserve_def Let_def split: option.splits if_splits prod.splits)
qed

lemma Settlement_Reconcile_shift:
  assumes held: "sett_held s h" and p: "spool h = Some p" and room: "room s p 0 (nonNeg n)"
    and step: "Settlement_Reconcile s h n = (e, h', s')"
  shows "shifted s p 0 (sreserved h' - sreserved h) s' \<and> spool h' = spool h \<and> 0 \<le> sreserved h'
    \<and> sreserved h' \<le> max (sreserved h) (nonNeg n) \<and> scommitted h' = scommitted h \<and> sstate h' = sstate h \<and> (e \<noteq> None \<longrightarrow> h' = h \<and> s' = s)"
proof -
  have ok: "ledger_ok s" "p < next_pid s" and pos: "0 \<le> sreserved h"
    using held p by (auto simp: sett_held_def)
  note le = sreserved_le [OF held p]
  have hi: "reserved (pools s p) + nonNeg n \<le> max_int64" using room by (simp add: room_def)
  have nmax: "nonNeg n \<le> max_int64"
    using hi aggregatedD(1) [OF ledger_okD(3) [OF ok(1)] ok(2)] by simp
  have room': "room s p 0 (nonNeg n - sreserved h)" using room pos by (auto simp: room_def)
  show ?thesis
  proof (cases "sreserved h < nonNeg n")
    case True
    then have "wrap64 (nonNeg n - sreserved h) = nonNeg n - sreserved h" "0 \<le> nonNeg n - sreserved h"
      using nmax pos by (auto intro: wrap64_nonneg)
    then show ?thesis
      using step p True pos reserveUp_shift [OF ok _ room'] reserveUp_error [OF ok, of "nonNeg n - sreserved h"]
      by (auto simp: Settlement_Reconcile_def Let_def split: option.splits if_splits prod.splits)
  next
    case False
    then have w: "wrap64 (sreserved h - nonNeg n) = sreserved h - nonNeg n"
      using le pos nonNeg_nonneg [of n] by (intro wrap64_nonneg) linarith+
    have "taken (reserved (pools s p)) (sreserved h - nonNeg n) = sreserved h - nonNeg n"
      using False le(1) nonNeg_nonneg [of n] by (intro taken_all) linarith+
    then have "shifted s p 0 (nonNeg n - sreserved h) (releaseReserve s p (sreserved h - nonNeg n))"
      using releaseReserve_shift [OF ok, of "sreserved h - nonNeg n"] by simp
    then show ?thesis
      using step p False w pos
      by (auto simp: Settlement_Reconcile_def Let_def split: option.splits if_splits)
  qed
qed

lemma Settlement_Commit_shift:
  assumes held: "sett_held s h" and p: "spool h = Some p" and room: "room s p (sreserved h) 0"
    and step: "Settlement_Commit s h = (e, h', s')" and st: "sstate h = StateOpen"
  shows "e = None \<and> shifted s p (sreserved h) (- sreserved h) s' \<and> spool h' = spool h
    \<and> sreserved h' = 0 \<and> scommitted h' = sreserved h \<and> sstate h' = StateCommitted"
proof -
  have ok: "ledger_ok s" "p < next_pid s" and r: "0 \<le> sreserved h" "sreserved h \<le> own reserved s p"
    using held p by (auto simp: sett_held_def)
  show ?thesis
    using step p st commitReservation_shift [OF ok r r(1) room] by (auto simp: Settlement_Commit_def Let_def)
qed

lemma Settlement_Release_shift:
  assumes held: "sett_held s h" and p: "spool h = Some p" and st: "sstate h = StateOpen"
    and step: "Settlement_Release s h = (h', s')"
  shows "shifted s p 0 (- sreserved h) s' \<and> spool h' = spool h \<and> sreserved h' = 0
    \<and> scommitted h' = scommitted h \<and> sstate h' = StateReleased"
proof -
  have ok: "ledger_ok s" "p < next_pid s" and r: "0 \<le> sreserved h"
    using held p by (auto simp: sett_held_def)
  have "taken (reserved (pools s p)) (sreserved h) = sreserved h"
    using r sreserved_le(1) [OF held p] by simp
  then show ?thesis
    using step p st r releaseReserve_shift [OF ok, of "sreserved h"]
    by (auto simp: Settlement_Release_def)
qed

text \<open>The handle's own book-keeping along a run.\<close>

definition sett_wf :: "settlement \<Rightarrow> bool" where
  "sett_wf h \<longleftrightarrow> (sstate h = StateOpen \<longrightarrow> scommitted h = 0) \<and> (sstate h \<noteq> StateOpen \<longrightarrow> sreserved h = 0)
     \<and> (sstate h = StateReleased \<longrightarrow> scommitted h = 0) \<and> 0 \<le> scommitted h"

lemma sett_final_stuck:
  assumes "sstate h \<noteq> StateOpen"
  shows "sett_run s h xs = (h, s)"
  using assms
proof (induction xs)
  case (Cons x xs)
  have "snd (sett_step s h x) = (h, s)"
    using Cons.prems
    by (cases x) (auto simp: Settlement_Reserve_def Settlement_Reconcile_def Settlement_Commit_def
        Settlement_Release_def requireOpenLocked_def split: State.splits)
  with Cons show ?case by (cases "sett_step s h x") auto
qed simp

fun sett_weight :: "sett_op \<Rightarrow> int" where
  "sett_weight (OpReserve n) = nonNeg n"
| "sett_weight (OpReconcile n) = nonNeg n"
| "sett_weight OpCommit = 0"
| "sett_weight OpRelease = 0"

lemma sett_weight_nonneg [simp]: "0 \<le> sett_weight x"
  by (cases x) simp_all

lemma sett_weights_nonneg: "0 \<le> (\<Sum>x\<leftarrow>xs. sett_weight x)"
  by (rule sum_list_nonneg) auto

text \<open>The state of a run from \<open>s\<^sub>0\<close>: the ledger is \<open>s\<^sub>0\<close> shifted by exactly what the handle records.\<close>

definition sett_track :: "store \<Rightarrow> pid \<Rightarrow> int \<Rightarrow> settlement \<Rightarrow> store \<Rightarrow> bool" where
  "sett_track s0 p w h s \<longleftrightarrow> spool h = Some p \<and> sett_wf h \<and> tracked s0 p w (sreserved h) (scommitted h) s"

lemma sett_track_held:
  assumes "ledger_ok s0" "p < next_pid s0" "headroom s0 p W" "w \<le> W" "sett_track s0 p w h s"
  shows "sett_held s h"
  using tracked_held [OF assms(1-4), of "sreserved h" "scommitted h" s] assms(5)
  by (simp add: sett_held_def sett_track_def tracked_def)

text \<open>One operation, on any state of the handle.\<close>

lemma sett_step_shift:
  assumes held: "sett_held s h" and p: "spool h = Some p" and wf: "sett_wf h" and hr: "headroom s p (sett_weight x)"
    and step: "sett_step s h x = (e, h', s')"
  shows "shifted s p (scommitted h' - scommitted h) (sreserved h' - sreserved h) s' \<and> spool h' = Some p \<and> sett_wf h'
    \<and> 0 \<le> sreserved h' \<and> scommitted h \<le> scommitted h'
    \<and> sreserved h' + scommitted h' \<le> sreserved h + scommitted h + sett_weight x"
proof (cases "sstate h = StateOpen")
  case False
  have "h' = h" "s' = s" using sett_final_stuck [OF False, of s "[x]"] step by simp_all
  then show ?thesis using p wf held sett_weight_nonneg [of x] by (auto simp: sett_held_def)
next
  case op: True
  have ok: "ledger_ok s" "p < next_pid s" and r: "0 \<le> sreserved h" "sreserved h \<le> own reserved s p"
    using held p by (auto simp: sett_held_def)
  have c0: "scommitted h = 0" using wf op by (simp add: sett_wf_def)
  note room = headroom_room [OF ok hr]
  show ?thesis
  proof (cases x)
    case (OpReserve n)
    then have "room s p 0 (nonNeg n)" by (intro room) auto
    from Settlement_Reserve_shift [OF held p this] step OpReserve op c0 p r show ?thesis
      by (auto simp: sett_wf_def)
  next
    case (OpReconcile n)
    then have "room s p 0 (nonNeg n)" by (intro room) auto
    note * = Settlement_Reconcile_shift [OF held p this, of e h' s']
    then have "sreserved h' \<le> max (sreserved h) (nonNeg n)" using step OpReconcile by simp
    then have "sreserved h' \<le> sreserved h + nonNeg n" using r(1) nonNeg_nonneg [of n] by linarith
    with * show ?thesis using step OpReconcile op c0 p by (auto simp: sett_wf_def)
  next
    case OpCommit
    have "room s p (sreserved h) 0" by (rule headroom_settle [OF ok hr sett_weight_nonneg r])
    from Settlement_Commit_shift [OF held p this _ op] step OpCommit op c0 p r show ?thesis
      by (auto simp: sett_wf_def)
  next
    case OpRelease
    from Settlement_Release_shift [OF held p op] step OpRelease op c0 p r show ?thesis by (auto simp: sett_wf_def)
  qed
qed

lemma sett_step_track:
  assumes ok: "ledger_ok s0" "p < next_pid s0" and hr: "headroom s0 p W" and w: "w + sett_weight x \<le> W"
    and tr: "sett_track s0 p w h s" and step: "sett_step s h x = (e, h', s')"
  shows "sett_track s0 p (w + sett_weight x) h' s'"
proof -
  have wW: "w \<le> W" using w sett_weight_nonneg [of x] by linarith
  note held = sett_track_held [OF ok hr wW tr]
  from tr have p: "spool h = Some p" and wf: "sett_wf h" and t: "tracked s0 p w (sreserved h) (scommitted h) s"
    by (auto simp: sett_track_def)
  note * = sett_step_shift [OF held p wf tracked_headroom [OF hr t w] step]
  have "0 \<le> scommitted h" "sreserved h + scommitted h \<le> w" using t by (auto simp: tracked_def)
  with tracked_step [OF t, of "scommitted h' - scommitted h" "sreserved h' - sreserved h" s' "w + sett_weight x"] *
  show ?thesis by (simp add: sett_track_def)
qed

lemma sett_run_track:
  assumes ok: "ledger_ok s0" "p < next_pid s0" and hr: "headroom s0 p W"
  shows "sett_track s0 p w h s \<Longrightarrow> w + (\<Sum>x\<leftarrow>xs. sett_weight x) \<le> W \<Longrightarrow> sett_run s h xs = (h', s')
    \<Longrightarrow> sett_track s0 p W h' s'"
proof (induction xs arbitrary: w h s)
  case Nil
  then show ?case by (auto simp: sett_track_def intro: tracked_mono)
next
  case (Cons x xs)
  obtain e h1 s1 where step: "sett_step s h x = (e, h1, s1)" by (cases "sett_step s h x") auto
  have w: "w + sett_weight x \<le> W" using Cons.prems(2) sett_weights_nonneg [of xs] by simp
  from sett_step_track [OF ok hr w Cons.prems(1) step] Cons.IH step Cons.prems(2,3) show ?case
    by (simp add: add.assoc)
qed

section \<open>Properties\<close>

text \<open>C16. Conservation of a settlement: whatever sequence of Reserve, Reconcile, Commit and Release is run
  on a fresh handle, the ledger of its node and of every ancestor ends with exactly the committed
  bytes the handle reports and exactly the reserved bytes it still holds; nothing else in the
  store changes, a released handle leaves the ledger as it was, and a committed one holds no
  reservation.\<close>

theorem settlement_conservation:
  assumes "ledger_ok s" and "p < next_pid s" and "headroom s p (\<Sum>x\<leftarrow>xs. sett_weight x)"
    and "sett_run s (NewSettlement (Some p)) xs = (h, s')"
  shows "shifted s p (scommitted h) (sreserved h) s' \<and> ledger_ok s'
    \<and> (sstate h = StateReleased \<longrightarrow> pools s' = pools s)
    \<and> (sstate h = StateCommitted \<longrightarrow> sreserved h = 0)"
proof -
  let ?W = "\<Sum>x\<leftarrow>xs. sett_weight x"
  have "sett_track s p 0 (NewSettlement (Some p)) s"
    by (simp add: sett_track_def sett_wf_def NewSettlement_def tracked_init)
  from sett_run_track [OF assms(1-3) this _ assms(4)] have tr: "sett_track s p ?W h s'" by simp
  have "ledger_ok s'"
    using sett_track_held [OF assms(1-3) order_refl tr] by (simp add: sett_held_def)
  with tr show ?thesis by (auto simp: sett_track_def sett_wf_def tracked_def dest: shifted_same)
qed

theorem settlement_conservation_witness:
  "case sett_run two_level (NewSettlement (Some 1)) [OpReserve 40, OpReconcile 30, OpCommit, OpRelease] of
     (h, s') \<Rightarrow> sstate h = StateCommitted \<and> shifted two_level 1 30 0 s'"
proof -
  let ?xs = "[OpReserve 40, OpReconcile 30, OpCommit, OpRelease]"
  obtain h s' where run: "sett_run two_level (NewSettlement (Some 1)) ?xs = (h, s')"
    by (cases "sett_run two_level (NewSettlement (Some 1)) ?xs")
  have "sstate (fst (sett_run two_level (NewSettlement (Some 1)) ?xs)) = StateCommitted"
    "scommitted (fst (sett_run two_level (NewSettlement (Some 1)) ?xs)) = 30" by code_simp+
  moreover have "headroom two_level 1 (\<Sum>x\<leftarrow>?xs. sett_weight x)" by (rule two_level_headroom) code_simp
  ultimately show ?thesis
    using settlement_conservation [OF two_level_ok(1) _ _ run] two_level_ok(2) run by auto
qed

end
