(* ===== verification/Accounts.thy ===== *)
theory Accounts
  imports Claims
begin

text \<open>
  The handles that account for data while it is written: \<open>TaskAccount\<close> (\<open>pkg/quota/task_account.go\<close>),
  \<open>QuotaWriter\<close>, \<open>BoundWriter\<close> and \<open>Scope.WriteFileQuota\<close> (\<open>pkg/quota/quota_writer.go\<close>).

  The sink behind a \<open>QuotaWriter\<close> (an \<open>io.Writer\<close>, in production an \<open>*os.File\<close>) is a parameter: a
  function from its state and the bytes to the count written, an error flag and the new state.
  \<open>io.Copy\<close> is the standard library's read-write loop, over the list of chunks the reader
  delivers.
\<close>

section \<open>TaskAccount\<close>

record task_account =
  tscope :: pid
  treserved :: int
  tcommitted :: int

definition placeholderReserve :: int where
  "placeholderReserve = 1073741824"

definition NewTaskAccount :: "store \<Rightarrow> pid \<Rightarrow> int \<Rightarrow> (qerr + task_account) \<times> store" where
  "NewTaskAccount s p estimate = (let est = (if estimate \<le> 0 then placeholderReserve else estimate) in
     case reserveUp s p est of
       (Some e, s1) \<Rightarrow> (Inl e, s1)
     | (None, s1) \<Rightarrow> (Inr \<lparr>tscope = p, treserved = est, tcommitted = 0\<rparr>, s1))"

definition TaskAccount_CommitUp :: "store \<Rightarrow> task_account \<Rightarrow> int \<Rightarrow> qerr option \<times> task_account \<times> store" where
  "TaskAccount_CommitUp s a n =
     (if n \<le> 0 then (None, a, s)
      else let fin = (\<lambda>a1 s1. (None, a1\<lparr>treserved := wrap64 (treserved a1 - n),
                          tcommitted := wrap64 (tcommitted a1 + n)\<rparr>, commitReservation s1 (tscope a) n n))
           in if treserved a < n
              then case reserveUp s (tscope a) (wrap64 (n - treserved a)) of
                (Some e, s1) \<Rightarrow> (Some e, a, s1)
              | (None, s1) \<Rightarrow> fin (a\<lparr>treserved := n\<rparr>) s1
              else fin a s)"

definition releaseReserveLocked :: "store \<Rightarrow> task_account \<Rightarrow> task_account \<times> store" where
  "releaseReserveLocked s a =
     (if treserved a \<le> 0 then (a, s)
      else (a\<lparr>treserved := 0\<rparr>, releaseReserve s (tscope a) (treserved a)))"

definition TaskAccount_ReleaseReserve :: "store \<Rightarrow> task_account \<Rightarrow> task_account \<times> store" where
  "TaskAccount_ReleaseReserve s a = releaseReserveLocked s a"

definition TaskAccount_Release :: "store \<Rightarrow> task_account \<Rightarrow> task_account \<times> store" where
  "TaskAccount_Release s a =
     (if 0 < tcommitted a
      then releaseReserveLocked (ReleaseUsage s (tscope a) (tcommitted a)) (a\<lparr>tcommitted := 0\<rparr>)
      else releaseReserveLocked s a)"

definition TaskAccount_ReleaseCommitted :: "store \<Rightarrow> task_account \<Rightarrow> int \<Rightarrow> task_account \<times> store" where
  "TaskAccount_ReleaseCommitted s a n =
     (if n \<le> 0 \<or> tcommitted a \<le> 0 then (a, s)
      else let m = (if tcommitted a < n then tcommitted a else n)
           in (a\<lparr>tcommitted := wrap64 (tcommitted a - m)\<rparr>, ReleaseUsage s (tscope a) m))"

definition TaskAccount_ReleaseAllCommitted :: "store \<Rightarrow> task_account \<Rightarrow> int \<times> task_account \<times> store" where
  "TaskAccount_ReleaseAllCommitted s a = (let n = tcommitted a in
     if n \<le> 0 then (0, a, s) else (n, a\<lparr>tcommitted := 0\<rparr>, ReleaseUsage s (tscope a) n))"

definition NewTaskAccountReconcile :: "pid \<Rightarrow> task_account" where
  "NewTaskAccountReconcile p = \<lparr>tscope = p, treserved = 0, tcommitted = 0\<rparr>"

definition TaskAccount_AdjustCommitted :: "store \<Rightarrow> task_account \<Rightarrow> int \<Rightarrow> task_account \<times> store" where
  "TaskAccount_AdjustCommitted s a n =
     (if n \<le> 0 \<or> n \<le> tcommitted a then (a, s)
      else (a\<lparr>tcommitted := n\<rparr>, Scope_Adjust s (tscope a) (tcommitted a) n))"

datatype acct_op = AcCommitUp int | AcReleaseReserve | AcRelease | AcReleaseCommitted int
  | AcReleaseAll | AcAdjust int

fun acct_step :: "store \<Rightarrow> task_account \<Rightarrow> acct_op \<Rightarrow> task_account \<times> store" where
  "acct_step s a (AcCommitUp n) = snd (TaskAccount_CommitUp s a n)"
| "acct_step s a AcReleaseReserve = TaskAccount_ReleaseReserve s a"
| "acct_step s a AcRelease = TaskAccount_Release s a"
| "acct_step s a (AcReleaseCommitted n) = TaskAccount_ReleaseCommitted s a n"
| "acct_step s a AcReleaseAll = snd (TaskAccount_ReleaseAllCommitted s a)"
| "acct_step s a (AcAdjust n) = TaskAccount_AdjustCommitted s a n"

fun acct_run :: "store \<Rightarrow> task_account \<Rightarrow> acct_op list \<Rightarrow> task_account \<times> store" where
  "acct_run s a [] = (a, s)"
| "acct_run s a (x # xs) = (case acct_step s a x of (a1, s1) \<Rightarrow> acct_run s1 a1 xs)"

section \<open>QuotaWriter and WriteFileQuota\<close>

record quota_writer =
  wscope :: pid
  wwritten :: int
  wreserved :: int

datatype werr = WQuota qerr | WSink | WShort | WInvalid | WRead

type_synonym ('f, 'b) sink = "'f \<Rightarrow> 'b list \<Rightarrow> int \<times> bool \<times> 'f"

definition newQuotaWriterExact :: "store \<Rightarrow> pid option \<Rightarrow> int \<Rightarrow> (qerr + quota_writer) \<times> store" where
  "newQuotaWriterExact s sc amount = (case sc of
     None \<Rightarrow> (Inl ErrStorageFull, s)
   | Some p \<Rightarrow> (case reserveUp s p amount of
       (Some e, s1) \<Rightarrow> (Inl e, s1)
     | (None, s1) \<Rightarrow> (Inr \<lparr>wscope = p, wwritten = 0, wreserved = amount\<rparr>, s1)))"

definition NewQuotaWriter :: "store \<Rightarrow> pid option \<Rightarrow> int \<Rightarrow> (qerr + quota_writer) \<times> store" where
  "NewQuotaWriter s sc estimate =
     newQuotaWriterExact s sc (if estimate \<le> 0 then placeholderReserve else estimate)"

definition QuotaWriter_Write :: "('f, 'b) sink \<Rightarrow> store \<Rightarrow> quota_writer \<Rightarrow> 'f \<Rightarrow> 'b list
    \<Rightarrow> (int \<times> werr option) \<times> quota_writer \<times> 'f \<times> store" where
  "QuotaWriter_Write snk s w f p = (let amount = int (length p);
      body = (\<lambda>w1 s1. case snk f p of
          (n, True, f1) \<Rightarrow> ((n, Some WSink), w1, f1, s1)
        | (n, False, f1) \<Rightarrow> ((n, None), w1\<lparr>wreserved := wrap64 (wreserved w1 - n),
             wwritten := wrap64 (wwritten w1 + n)\<rparr>, f1, commitReservation s1 (wscope w) n n))
    in if wreserved w < amount
       then case reserveUp s (wscope w) (wrap64 (amount - wreserved w)) of
         (Some e, s1) \<Rightarrow> ((0, Some (WQuota e)), w, f, s1)
       | (None, s1) \<Rightarrow> body (w\<lparr>wreserved := amount\<rparr>) s1
       else body w s)"

definition QuotaWriter_ReleaseReserve :: "store \<Rightarrow> quota_writer \<Rightarrow> quota_writer \<times> store" where
  "QuotaWriter_ReleaseReserve s w =
     (if wreserved w \<le> 0 then (w, s)
      else (w\<lparr>wreserved := 0\<rparr>, releaseReserve s (wscope w) (wreserved w)))"

definition QuotaWriter_Finish :: "store \<Rightarrow> quota_writer \<Rightarrow> bool \<Rightarrow> int \<Rightarrow> quota_writer \<times> store" where
  "QuotaWriter_Finish s w success oldSize = (w\<lparr>wreserved := 0, wwritten := 0\<rparr>,
     if success then ReleaseUsage (releaseReserve s (wscope w) (wreserved w)) (wscope w) oldSize
     else releaseReserve (ReleaseUsage s (wscope w) (wwritten w)) (wscope w) (wreserved w))"

text \<open>\<open>io.Copy\<close> into the writer: the reader delivers \<open>chunks\<close> and then ends, with an error when \<open>rerr\<close>.\<close>

fun io_Copy :: "('f, 'b) sink \<Rightarrow> store \<Rightarrow> quota_writer \<Rightarrow> 'f \<Rightarrow> 'b list list \<Rightarrow> bool \<Rightarrow> int
    \<Rightarrow> (int \<times> werr option) \<times> quota_writer \<times> 'f \<times> store" where
  "io_Copy snk s w f [] rerr written = ((written, if rerr then Some WRead else None), w, f, s)"
| "io_Copy snk s w f (c # cs) rerr written =
     (if c = [] then io_Copy snk s w f cs rerr written
      else case QuotaWriter_Write snk s w f c of
        ((nw, ew), w1, f1, s1) \<Rightarrow>
          (let bad = (nw < 0 \<or> int (length c) < nw); nw1 = (if bad then 0 else nw);
               ew1 = (if bad \<and> ew = None then Some WInvalid else ew)
           in if ew1 \<noteq> None then ((written + nw1, ew1), w1, f1, s1)
              else if int (length c) \<noteq> nw1 then ((written + nw1, Some WShort), w1, f1, s1)
              else io_Copy snk s1 w1 f1 cs rerr (written + nw1)))"

definition WriteFileQuota :: "('f, 'b) sink \<Rightarrow> store \<Rightarrow> pid option \<Rightarrow> 'f \<Rightarrow> int \<Rightarrow> 'b list list \<Rightarrow> bool \<Rightarrow> int
    \<Rightarrow> (int \<times> werr option) \<times> 'f \<times> store" where
  "WriteFileQuota snk s sc f sz chunks rerr oldSize = (case newQuotaWriterExact s sc sz of
     (Inl e, s1) \<Rightarrow> ((0, Some (WQuota e)), f, s1)
   | (Inr w, s1) \<Rightarrow> (case io_Copy snk s1 w f chunks rerr 0 of
       ((n, Some e), w1, f1, s2) \<Rightarrow> ((n, Some e), f1, snd (QuotaWriter_Finish s2 w1 False 0))
     | ((n, None), w1, f1, s2) \<Rightarrow> ((n, None), f1, snd (QuotaWriter_Finish s2 w1 True oldSize))))"

section \<open>BoundWriter\<close>

text \<open>A file is its bytes. \<open>WriteAt\<close> past the end fills the gap with zeros; of no bytes, it does nothing.\<close>

definition writeAt :: "'b::zero list \<Rightarrow> 'b list \<Rightarrow> nat \<Rightarrow> 'b list" where
  "writeAt fc p off = (if p = [] then fc
     else take off fc @ replicate (off - length fc) 0 @ p @ drop (off + length p) fc)"

record bound_writer =
  boffset :: int
  blimit :: int
  bwritten :: int

datatype bwres = BwEOF | BwOk | BwIOErr

definition BoundWriter_Write :: "nat option \<Rightarrow> 'b::zero list \<Rightarrow> bound_writer \<Rightarrow> 'b list
    \<Rightarrow> (int \<times> bwres) \<times> bound_writer \<times> 'b list" where
  "BoundWriter_Write fail fc w p = (let rm = wrap64 (blimit w - bwritten w) in
     if rm \<le> 0 then ((0, BwEOF), w, fc)
     else let p1 = (if rm < int (length p) then take (nat rm) p else p);
              off = wrap64 (boffset w + bwritten w)
          in if off < 0 then ((0, BwIOErr), w, fc)
             else let outp = (case fail of None \<Rightarrow> p1 | Some k \<Rightarrow> take k p1)
                  in ((int (length outp), if fail = None then BwOk else BwIOErr),
                      w\<lparr>bwritten := wrap64 (bwritten w + int (length outp))\<rparr>,
                      writeAt fc outp (nat off)))"

definition NewBoundWriter :: "int \<Rightarrow> int \<Rightarrow> int \<Rightarrow> bound_writer" where
  "NewBoundWriter offset limit written = \<lparr>boffset = offset, blimit = limit, bwritten = written\<rparr>"

text \<open>A sequence of writes, each with its outcome of \<open>WriteAt\<close>; the result lists the bytes each call reported.\<close>

fun bound_run :: "'b::zero list \<Rightarrow> bound_writer \<Rightarrow> (nat option \<times> 'b list) list
    \<Rightarrow> int list \<times> bound_writer \<times> 'b list" where
  "bound_run fc w [] = ([], w, fc)"
| "bound_run fc w ((fl, p) # ps) = (case BoundWriter_Write fl fc w p of
     ((n, _), w1, fc1) \<Rightarrow> (case bound_run fc1 w1 ps of (ns, w2, fc2) \<Rightarrow> (n # ns, w2, fc2)))"

section \<open>Laws of the bound writer\<close>

lemma writeAt_Nil [simp]: "writeAt f [] off = f"
  by (simp add: writeAt_def)

lemma writeAt_writeAt: "writeAt (writeAt f a off) b (off + length a) = writeAt f (a @ b) off"
proof (cases "a = [] \<or> b = []")
  case True
  then show ?thesis by (auto simp: writeAt_def)
next
  case False
  then show ?thesis
    by (cases "off \<le> length f") (auto simp: writeAt_def ac_simps)
qed

lemma writeAt_outside:
  "i < length f \<Longrightarrow> i < off \<or> off + length p \<le> i \<Longrightarrow> writeAt f p off ! i = f ! i"
  by (auto simp: writeAt_def nth_append)

lemma length_writeAt: "length (writeAt f p off) = (if p = [] then length f else max (length f) (off + length p))"
  by (auto simp: writeAt_def)

definition bw_ok :: "bound_writer \<Rightarrow> bool" where
  "bw_ok w \<longleftrightarrow> 0 \<le> boffset w \<and> 0 \<le> bwritten w \<and> bwritten w \<le> blimit w \<and> boffset w + blimit w \<le> max_int64"

lemma BoundWriter_Write_eq:
  assumes ok: "bw_ok w" and step: "BoundWriter_Write fl fc w p = ((n, r), w', fc')"
  shows "0 \<le> n \<and> n \<le> int (length p) \<and> w' = w\<lparr>bwritten := bwritten w + n\<rparr> \<and> bw_ok w'
    \<and> fc' = writeAt fc (take (nat n) p) (nat (boffset w + bwritten w))"
proof -
  have w1: "wrap64 (blimit w - bwritten w) = blimit w - bwritten w" "wrap64 (boffset w + bwritten w) = boffset w + bwritten w"
    using ok by (auto simp: bw_ok_def intro!: wrap64_nonneg)
  let ?m = "min (length p) (nat (blimit w - bwritten w))"
  show ?thesis
  proof (cases "blimit w \<le> bwritten w")
    case True
    with step w1 ok show ?thesis by (auto simp: BoundWriter_Write_def Let_def)
  next
    case False
    define k where "k = (case fl of None \<Rightarrow> ?m | Some j \<Rightarrow> min j ?m)"
    have k: "k \<le> length p" "int k \<le> blimit w - bwritten w" using False by (auto simp: k_def split: option.splits)
    have out: "(case fl of None \<Rightarrow> q | Some j \<Rightarrow> take j q) = take k p"
      if "q = (if blimit w - bwritten w < int (length p) then take (nat (blimit w - bwritten w)) p else p)" for q
      using that by (auto simp: k_def split: option.splits) (auto simp: min_def)
    have "wrap64 (bwritten w + int k) = bwritten w + int k"
      using ok k by (intro wrap64_nonneg) (auto simp: bw_ok_def)
    then show ?thesis
      using step False ok k by (auto simp: BoundWriter_Write_def Let_def w1 out bw_ok_def split: if_splits)
  qed
qed

lemma bound_run_eq:
  assumes "bw_ok w" and "bound_run fc w ps = (ns, w', fc')"
  shows "fc' = writeAt fc (concat (map2 (\<lambda>n (fl, p). take (nat n) p) ns ps)) (nat (boffset w + bwritten w))
    \<and> bw_ok w' \<and> w' = w\<lparr>bwritten := bwritten w + sum_list ns\<rparr>
    \<and> int (length (concat (map2 (\<lambda>n (fl, p). take (nat n) p) ns ps))) = sum_list ns"
  using assms
proof (induction ps arbitrary: fc w ns)
  case (Cons x ps)
  obtain fl p where x: "x = (fl, p)" by (cases x)
  obtain n r w1 f1 where st: "BoundWriter_Write fl fc w p = ((n, r), w1, f1)"
    by (cases "BoundWriter_Write fl fc w p") auto
  obtain ns1 where r1: "bound_run f1 w1 ps = (ns1, w', fc')" and ns: "ns = n # ns1"
    using Cons.prems(2) x st by (auto split: prod.splits)
  note e = BoundWriter_Write_eq [OF Cons.prems(1) st]
  then have off: "nat (boffset w1 + bwritten w1) = nat (boffset w + bwritten w) + length (take (nat n) p)"
    using Cons.prems(1) by (auto simp: bw_ok_def nat_add_distrib)
  from e Cons.IH [OF _ r1] off show ?case
    using writeAt_writeAt [of fc "take (nat n) p"] by (auto simp: ns x)
qed auto

section \<open>Laws of the task account\<close>

definition acct_held :: "store \<Rightarrow> task_account \<Rightarrow> bool" where
  "acct_held s a \<longleftrightarrow> ledger_ok s \<and> tscope a < next_pid s \<and> 0 \<le> treserved a
     \<and> treserved a \<le> own reserved s (tscope a) \<and> 0 \<le> tcommitted a \<and> tcommitted a \<le> own committed s (tscope a)"

text \<open>Bytes held on a node are counters of an \<open>int64\<close>, so the node's counters bound them.\<close>

lemma held_le:
  assumes "ledger_ok s" and "p < next_pid s"
  shows "r \<le> own reserved s p \<Longrightarrow> r \<le> reserved (pools s p) \<and> r \<le> max_int64"
    and "c \<le> own committed s p \<Longrightarrow> c \<le> committed (pools s p) \<and> c \<le> max_int64"
  using own_le [OF assms] own_le' [OF assms] aggregatedD(2) [OF ledger_okD(2) [OF assms(1)] assms(2)]
    aggregatedD(2) [OF ledger_okD(3) [OF assms(1)] assms(2)] by auto

text \<open>Topping a reservation up to \<open>n\<close> and committing all of it.\<close>

lemma topup:
  assumes ok: "ledger_ok s" "p < next_pid s" and r: "0 \<le> r" "r \<le> own reserved s p" "r < n"
    and room: "room s p n n" and res: "reserveUp s p (wrap64 (n - r)) = (None, s1)"
  shows "shifted s p 0 (n - r) s1" and "ledger_ok s1" and "n \<le> own reserved s1 p" and "room s1 p n 0"
proof -
  have n: "n \<le> max_int64"
    using room aggregatedD(1) [OF ledger_okD(3) [OF ok(1)] ok(2)] by (auto simp: room_def dest!: bspec [where x = p])
  then have w: "wrap64 (n - r) = n - r" using r by (intro wrap64_nonneg) auto
  have room': "room s p 0 (n - r)"
    using room r aggregatedD(2) [OF ledger_okD(2) [OF ok(1)] chain_below [OF ok(2)]] by (auto simp: room_def)
  show sh: "shifted s p 0 (n - r) s1"
    using res r by (intro reserveUp_shift [OF ok _ room']) (auto simp: w)
  show "ledger_ok s1"
    using r aggregatedD(3) [OF ledger_okD(2) [OF ok(1)] ok(2)] by (intro shifted_ok [OF ok sh _ _ room']) auto
  show "n \<le> own reserved s1 p" using shifted_own(2) [OF ok sh, of p] r by simp
  show "room s1 p n 0"
    unfolding room_def
  proof
    fix q assume "q \<in> set (chain s1 p)"
    then have q: "q \<in> set (chain s p)" by (simp add: shifted_chain [OF sh])
    then show "committed (pools s1 q) + n \<le> max_int64 \<and> reserved (pools s1 q) + 0 \<le> max_int64"
      using room r shifted_sel(6,7) [OF sh, of q] by (auto simp: room_def)
  qed
qed

lemma commit_all:
  assumes ok: "ledger_ok s" "p < next_pid s" and "0 \<le> n" "n \<le> own reserved s p" and "room s p n 0"
  shows "shifted s p n (- n) (commitReservation s p n n)"
  using commitReservation_shift [OF ok assms(3,4,3,5)] .

lemma TaskAccount_CommitUp_shift:
  assumes held: "acct_held s a" and room: "room s (tscope a) (nonNeg n) (nonNeg n)"
    and step: "TaskAccount_CommitUp s a n = (e, a', s')"
  shows "shifted s (tscope a) (tcommitted a' - tcommitted a) (treserved a' - treserved a) s'
    \<and> tscope a' = tscope a \<and> 0 \<le> treserved a' \<and> tcommitted a \<le> tcommitted a'
    \<and> treserved a' + tcommitted a' \<le> treserved a + tcommitted a + nonNeg n
    \<and> (e \<noteq> None \<longrightarrow> a' = a \<and> s' = s)"
proof (cases "n \<le> 0")
  case True
  then show ?thesis using step held by (auto simp: TaskAccount_CommitUp_def acct_held_def)
next
  case False
  let ?p = "tscope a"
  have ok: "ledger_ok s" "?p < next_pid s" and r: "0 \<le> treserved a" "treserved a \<le> own reserved s ?p"
    and c: "0 \<le> tcommitted a" "tcommitted a \<le> committed (pools s ?p)" "treserved a \<le> max_int64"
    using held held_le by (auto simp: acct_held_def)
  have rm: "room s ?p n n" using room False by simp
  have "committed (pools s ?p) + n \<le> max_int64" "n \<le> max_int64"
    using rm aggregatedD(1) [OF ledger_okD(2) [OF ok(1)] ok(2)] by (auto simp: room_def dest!: bspec [where x = ?p])
  then have w: "wrap64 (tcommitted a + n) = tcommitted a + n"
    "wrap64 (treserved a - n) = treserved a - n" if "n \<le> treserved a"
    using c r False that by (auto intro!: wrap64_nonneg)
  have w1: "wrap64 (tcommitted a + n) = tcommitted a + n"
    using \<open>committed (pools s ?p) + n \<le> max_int64\<close> c False by (intro wrap64_nonneg) auto
  show ?thesis
  proof (cases "treserved a < n")
    case True
    show ?thesis
    proof (cases "reserveUp s ?p (wrap64 (n - treserved a))")
      case (Pair o1 s1)
      show ?thesis
      proof (cases o1)
        case None
        note t = topup [OF ok r True rm, of s1]
        have res: "reserveUp s ?p (wrap64 (n - treserved a)) = (None, s1)" using Pair None by simp
        have p1: "?p < next_pid s1" using ok(2) shifted_next [OF t(1) [OF res]] by simp
        have "shifted s1 ?p n (- n) (commitReservation s1 ?p n n)"
          using False by (intro commit_all [OF t(2) [OF res] p1 _ t(3) [OF res] t(4) [OF res]]) auto
        then have "shifted s ?p n (- treserved a) (commitReservation s1 ?p n n)"
          using shifted_trans [OF t(1) [OF res]] by fastforce
        then show ?thesis
          using step False True res c r w1 by (auto simp: TaskAccount_CommitUp_def Let_def)
      next
        case (Some e1)
        then show ?thesis
          using step False True Pair c r reserveUp_error [OF ok, of "wrap64 (n - treserved a)" e1 s1]
          by (auto simp: TaskAccount_CommitUp_def Let_def)
      qed
    qed
  next
    case ge: False
    have "room s ?p n 0" using rm False by (fastforce simp: room_def)
    then have "shifted s ?p n (- n) (commitReservation s ?p n n)"
      using False ge r by (intro commit_all [OF ok]) auto
    then show ?thesis
      using step False ge c r w by (auto simp: TaskAccount_CommitUp_def Let_def)
  qed
qed

lemma ReleaseUsage_exact:
  assumes "ledger_ok s" and "p < next_pid s" and "0 \<le> n" and "n \<le> own committed s p"
  shows "shifted s p (- n) 0 (ReleaseUsage s p n)"
  using ReleaseUsage_shift [OF assms(1,2), of n] held_le(2) [OF assms(1,2,4)] assms(3) by simp

lemma releaseReserve_exact:
  assumes "ledger_ok s" and "p < next_pid s" and "0 \<le> n" and "n \<le> own reserved s p"
  shows "shifted s p 0 (- n) (releaseReserve s p n)"
  using releaseReserve_shift [OF assms(1,2), of n] held_le(1) [OF assms(1,2,4)] assms(3) by simp

text \<open>A release of held bytes keeps the invariant and the other share.\<close>

lemma release_ok:
  assumes ok: "ledger_ok s" "p < next_pid s" and sh: "shifted s p (- c) (- r) s'"
    and "0 \<le> c" "c \<le> own committed s p" "0 \<le> r" "r \<le> own reserved s p"
  shows "ledger_ok s'" and "p < next_pid s'" and "own reserved s' p = own reserved s p - r"
    and "own committed s' p = own committed s p - c"
proof -
  show "ledger_ok s'"
    using assms by (intro shifted_ok [OF ok sh _ _ room_down [OF ok]]) auto
  show "p < next_pid s'" using ok(2) shifted_next [OF sh] by simp
  show "own reserved s' p = own reserved s p - r" "own committed s' p = own committed s p - c"
    using shifted_own [OF ok sh, of p] by simp_all
qed

lemma releaseReserveLocked_shift:
  assumes "acct_held s a" and "releaseReserveLocked s a = (a', s')"
  shows "shifted s (tscope a) 0 (- treserved a) s' \<and> a' = a\<lparr>treserved := 0\<rparr>"
  using assms releaseReserve_exact [of s "tscope a" "treserved a"]
  by (auto simp: releaseReserveLocked_def acct_held_def split: if_splits)

lemma TaskAccount_Release_shift:
  assumes held: "acct_held s a" and step: "TaskAccount_Release s a = (a', s')"
  shows "shifted s (tscope a) (- tcommitted a) (- treserved a) s' \<and> a' = a\<lparr>treserved := 0, tcommitted := 0\<rparr>"
proof (cases "0 < tcommitted a")
  case True
  let ?p = "tscope a" and ?s1 = "ReleaseUsage s (tscope a) (tcommitted a)"
  have ok: "ledger_ok s" "?p < next_pid s" and c: "0 \<le> tcommitted a" "tcommitted a \<le> own committed s ?p"
    and r: "0 \<le> treserved a" "treserved a \<le> own reserved s ?p" using held by (auto simp: acct_held_def)
  have sh: "shifted s ?p (- tcommitted a) 0 ?s1" by (rule ReleaseUsage_exact [OF ok c])
  have "acct_held ?s1 (a\<lparr>tcommitted := 0\<rparr>)"
    using release_ok [OF ok, of "tcommitted a" 0 ?s1] sh c r by (simp add: acct_held_def)
  from releaseReserveLocked_shift [OF this] step True
  have "shifted ?s1 ?p 0 (- treserved a) s'" "a' = a\<lparr>treserved := 0, tcommitted := 0\<rparr>"
    by (auto simp: TaskAccount_Release_def)
  with shifted_trans [OF sh this(1)] show ?thesis by simp
next
  case False
  then have "tcommitted a = 0" using held by (simp add: acct_held_def)
  with False releaseReserveLocked_shift [OF held] step show ?thesis
    by (auto simp: TaskAccount_Release_def)
qed

lemma TaskAccount_ReleaseCommitted_shift:
  assumes held: "acct_held s a" and step: "TaskAccount_ReleaseCommitted s a n = (a', s')"
  shows "shifted s (tscope a) (- taken (tcommitted a) n) 0 s' \<and> a' = a\<lparr>tcommitted := tcommitted a - taken (tcommitted a) n\<rparr>"
proof (cases "n \<le> 0 \<or> tcommitted a \<le> 0")
  case True
  then have "taken (tcommitted a) n = 0" by (auto simp: taken_def)
  with True step show ?thesis by (simp add: TaskAccount_ReleaseCommitted_def)
next
  case False
  let ?m = "taken (tcommitted a) n"
  have m: "(if tcommitted a < n then tcommitted a else n) = ?m" using False by (auto simp: taken_def)
  have ok: "ledger_ok s" "tscope a < next_pid s" and c: "0 \<le> tcommitted a" "tcommitted a \<le> own committed s (tscope a)"
    using held by (auto simp: acct_held_def)
  note mb = taken_bounds(1) [of "tcommitted a" n] taken_bounds(2) [OF c(1), of n]
  have "wrap64 (tcommitted a - ?m) = tcommitted a - ?m"
    using held_le(2) [OF ok c(2)] mb by (intro wrap64_nonneg) auto
  moreover have "shifted s (tscope a) (- ?m) 0 (ReleaseUsage s (tscope a) ?m)"
    using mb c by (intro ReleaseUsage_exact [OF ok]) auto
  ultimately show ?thesis
    using step False by (auto simp: TaskAccount_ReleaseCommitted_def m Let_def)
qed

lemma TaskAccount_AdjustCommitted_shift:
  assumes held: "acct_held s a" and room: "room s (tscope a) (nonNeg n) 0"
    and step: "TaskAccount_AdjustCommitted s a n = (a', s')"
  shows "shifted s (tscope a) (tcommitted a' - tcommitted a) 0 s' \<and> tscope a' = tscope a
    \<and> treserved a' = treserved a \<and> tcommitted a' = max (tcommitted a) n"
proof (cases "n \<le> 0 \<or> n \<le> tcommitted a")
  case True
  with step held show ?thesis by (auto simp: TaskAccount_AdjustCommitted_def acct_held_def)
next
  case False
  have ok: "ledger_ok s" "tscope a < next_pid s" and c: "0 \<le> tcommitted a" "tcommitted a \<le> own committed s (tscope a)"
    using held by (auto simp: acct_held_def)
  have n: "committed (pools s (tscope a)) + n \<le> max_int64"
    using room False by (auto simp: room_def dest!: bspec [where x = "tscope a"])
  have w: "wrap64 (n - tcommitted a) = n - tcommitted a"
    using False c n aggregatedD(1) [OF ledger_okD(2) [OF ok(1)] ok(2)] by (intro wrap64_nonneg) auto
  have room': "room s (tscope a) (n - tcommitted a) 0" using room False c by (auto simp: room_def)
  have "shifted s (tscope a) (max (n - tcommitted a) (- committed (pools s (tscope a)))) 0
      (Scope_Adjust s (tscope a) (tcommitted a) n)"
    using Scope_Adjust_shift [OF ok, of n "tcommitted a"] room' w by simp
  moreover have "max (n - tcommitted a) (- committed (pools s (tscope a))) = n - tcommitted a"
    using False aggregatedD(1) [OF ledger_okD(2) [OF ok(1)] ok(2)] by simp
  ultimately show ?thesis using step False by (auto simp: TaskAccount_AdjustCommitted_def)
qed

fun acct_weight :: "acct_op \<Rightarrow> int" where
  "acct_weight (AcCommitUp n) = nonNeg n"
| "acct_weight (AcAdjust n) = nonNeg n"
| "acct_weight _ = 0"

lemma acct_weight_nonneg [simp]: "0 \<le> acct_weight x"
  by (cases x) simp_all

lemma acct_weights_nonneg: "0 \<le> (\<Sum>x\<leftarrow>xs. acct_weight x)"
  by (rule sum_list_nonneg) auto

definition acct_track :: "store \<Rightarrow> pid \<Rightarrow> int \<Rightarrow> task_account \<Rightarrow> store \<Rightarrow> bool" where
  "acct_track s0 p w a s \<longleftrightarrow> tscope a = p \<and> tracked s0 p w (treserved a) (tcommitted a) s"

lemma acct_step_shift:
  assumes held: "acct_held s a" and p: "tscope a = p" and hr: "headroom s p (acct_weight x)"
    and step: "acct_step s a x = (a', s')"
  shows "shifted s p (tcommitted a' - tcommitted a) (treserved a' - treserved a) s' \<and> tscope a' = p
    \<and> 0 \<le> treserved a' \<and> 0 \<le> tcommitted a'
    \<and> treserved a' + tcommitted a' \<le> treserved a + tcommitted a + acct_weight x"
proof -
  have ok: "ledger_ok s" "p < next_pid s" and pos: "0 \<le> treserved a" "0 \<le> tcommitted a"
    and own: "tcommitted a \<le> own committed s p" using held p by (auto simp: acct_held_def)
  note room = headroom_room [OF ok hr]
  show ?thesis
  proof (cases x)
    case (AcCommitUp n)
    obtain e where e: "TaskAccount_CommitUp s a n = (e, a', s')"
      using step AcCommitUp by (cases "TaskAccount_CommitUp s a n") auto
    have "room s p (nonNeg n) (nonNeg n)" using AcCommitUp by (intro room) auto
    from TaskAccount_CommitUp_shift [OF held _ e] this p pos AcCommitUp show ?thesis by auto
  next
    case AcReleaseReserve
    with step releaseReserveLocked_shift [OF held] p pos show ?thesis
      by (auto simp: TaskAccount_ReleaseReserve_def)
  next
    case AcRelease
    with step TaskAccount_Release_shift [OF held] p pos show ?thesis by auto
  next
    case (AcReleaseCommitted n)
    with step TaskAccount_ReleaseCommitted_shift [OF held, of n] p pos taken_bounds [of "tcommitted a" n]
    show ?thesis by auto
  next
    case AcReleaseAll
    with step pos p ReleaseUsage_exact [OF ok pos(2) own] show ?thesis
      by (auto simp: TaskAccount_ReleaseAllCommitted_def Let_def split: if_splits)
  next
    case (AcAdjust n)
    have "room s p (nonNeg n) 0" using AcAdjust by (intro room) auto
    with TaskAccount_AdjustCommitted_shift [OF held, of n a' s'] step AcAdjust p
    have *: "shifted s p (tcommitted a' - tcommitted a) 0 s'" "tscope a' = p" "treserved a' = treserved a"
      "tcommitted a' = max (tcommitted a) n" by auto
    have "0 \<le> tcommitted a'" "tcommitted a' \<le> tcommitted a + nonNeg n"
      using pos * by (auto simp: nonNeg_def max_def)
    with * pos AcAdjust show ?thesis by simp
  qed
qed

lemma acct_step_track:
  assumes ok: "ledger_ok s0" "p < next_pid s0" and hr: "headroom s0 p W" and w: "w + acct_weight x \<le> W"
    and tr: "acct_track s0 p w a s" and step: "acct_step s a x = (a', s')"
  shows "acct_track s0 p (w + acct_weight x) a' s'"
proof -
  have wW: "w \<le> W" using w acct_weight_nonneg [of x] by linarith
  from tr have p: "tscope a = p" and t: "tracked s0 p w (treserved a) (tcommitted a) s"
    by (auto simp: acct_track_def)
  have held: "acct_held s a"
    using tracked_held [OF ok hr wW t] t p by (simp add: acct_held_def tracked_def)
  note * = acct_step_shift [OF held p tracked_headroom [OF hr t w] step]
  have "treserved a + tcommitted a \<le> w" using t by (simp add: tracked_def)
  with tracked_step [OF t, of "tcommitted a' - tcommitted a" "treserved a' - treserved a" s' "w + acct_weight x"] *
  show ?thesis by (simp add: acct_track_def)
qed

lemma acct_run_track:
  assumes ok: "ledger_ok s0" "p < next_pid s0" and hr: "headroom s0 p W"
  shows "acct_track s0 p w a s \<Longrightarrow> w + (\<Sum>x\<leftarrow>xs. acct_weight x) \<le> W \<Longrightarrow> acct_run s a xs = (a', s')
    \<Longrightarrow> acct_track s0 p W a' s'"
proof (induction xs arbitrary: w a s)
  case Nil
  then show ?case by (auto simp: acct_track_def intro: tracked_mono)
next
  case (Cons x xs)
  obtain a1 s1 where step: "acct_step s a x = (a1, s1)" by (cases "acct_step s a x") auto
  have w: "w + acct_weight x \<le> W" using Cons.prems(2) acct_weights_nonneg [of xs] by simp
  from acct_step_track [OF ok hr w Cons.prems(1) step] Cons.IH step Cons.prems(2,3) show ?case
    by (simp add: add.assoc)
qed

section \<open>Laws of the quota writer\<close>

text \<open>The contract of \<open>io.Writer\<close>: a call reports between 0 and the offered number of bytes.\<close>

definition sink_ok :: "('f, 'b) sink \<Rightarrow> bool" where
  "sink_ok snk \<longleftrightarrow> (\<forall>f p n e f'. snk f p = (n, e, f') \<longrightarrow> 0 \<le> n \<and> n \<le> int (length p))"

definition wr_held :: "store \<Rightarrow> quota_writer \<Rightarrow> bool" where
  "wr_held s w \<longleftrightarrow> ledger_ok s \<and> wscope w < next_pid s \<and> 0 \<le> wreserved w
     \<and> wreserved w \<le> own reserved s (wscope w) \<and> 0 \<le> wwritten w \<and> wwritten w \<le> own committed s (wscope w)"

text \<open>The part of \<open>Write\<close> after the top-up: the sink is called with \<open>amount \<le> wreserved\<close> in reserve.\<close>

lemma write_body:
  assumes ok: "ledger_ok s" "p < next_pid s" and n: "0 \<le> n" "n \<le> r" "r \<le> own reserved s p"
    and c: "0 \<le> c" "c \<le> own committed s p" and room: "room s p n 0"
  shows "shifted s p n (- n) (commitReservation s p n n)" and "wrap64 (r - n) = r - n" and "wrap64 (c + n) = c + n"
proof -
  show "shifted s p n (- n) (commitReservation s p n n)" using assms by (intro commit_all [OF ok]) auto
  show "wrap64 (r - n) = r - n" using held_le(1) [OF ok n(3)] n by (intro wrap64_nonneg) auto
  have "committed (pools s p) + n \<le> max_int64" using room by (auto simp: room_def dest!: bspec [where x = p])
  then show "wrap64 (c + n) = c + n" using held_le(2) [OF ok c(2)] n c by (intro wrap64_nonneg) auto
qed

lemma QuotaWriter_Write_shift:
  assumes held: "wr_held s w" and snk: "sink_ok snk" and room: "room s (wscope w) (int (length b)) (int (length b))"
    and step: "QuotaWriter_Write snk s w f b = ((n, e), w', f', s')"
  shows "shifted s (wscope w) (wwritten w' - wwritten w) (wreserved w' - wreserved w) s'
    \<and> wscope w' = wscope w \<and> 0 \<le> wreserved w' \<and> wwritten w' = wwritten w + (if e = None then n else 0)
    \<and> 0 \<le> n \<and> n \<le> int (length b)
    \<and> wreserved w' + wwritten w' \<le> wreserved w + wwritten w + int (length b)"
proof -
  let ?p = "wscope w" and ?m = "int (length b)"
  have ok: "ledger_ok s" "?p < next_pid s" and r: "0 \<le> wreserved w" "wreserved w \<le> own reserved s ?p"
    and c: "0 \<le> wwritten w" "wwritten w \<le> own committed s ?p" using held by (auto simp: wr_held_def)
  obtain k err f1 where k: "snk f b = (k, err, f1)" by (cases "snk f b") auto
  have kb: "0 \<le> k" "k \<le> ?m" using snk [unfolded sink_ok_def, rule_format, OF k] by auto
  show ?thesis
  proof (cases "wreserved w < ?m")
    case True
    obtain o1 s1 where Pair: "reserveUp s ?p (wrap64 (?m - wreserved w)) = (o1, s1)"
      by (cases "reserveUp s ?p (wrap64 (?m - wreserved w))")
    show ?thesis
    proof (cases o1)
      case None
      have res: "reserveUp s ?p (wrap64 (?m - wreserved w)) = (None, s1)" using Pair None by simp
      note t = topup [OF ok r True room res]
      have p1: "?p < next_pid s1" using ok(2) shifted_next [OF t(1)] by simp
      have c1: "wwritten w \<le> own committed s1 ?p" using c(2) shifted_own(1) [OF ok t(1), of ?p] by simp
      have "room s1 ?p k 0" using t(4) kb by (auto simp: room_def)
      note wb = write_body [OF t(2) p1 kb t(3) c(1) c1 this]
      show ?thesis
        using step True res k kb r c shifted_trans [OF t(1) wb(1)] wb(2,3) t(1)
        by (cases err) (auto simp: QuotaWriter_Write_def Let_def algebra_simps)
    next
      case (Some e1)
      then show ?thesis
        using step True Pair c r reserveUp_error [OF ok, of "wrap64 (?m - wreserved w)" e1 s1]
        by (auto simp: QuotaWriter_Write_def Let_def)
    qed
  next
    case False
    have "reserved (pools s q) \<le> max_int64" if "q \<in> set (chain s ?p)" for q
      using aggregatedD(2) [OF ledger_okD(3) [OF ok(1)] chain_below [OF ok(2) that]] .
    then have rm: "room s ?p k 0" using room kb by (auto simp: room_def)
    have "k \<le> wreserved w" using False kb by simp
    note wb = write_body [OF ok kb(1) this r(2) c rm]
    show ?thesis
      using step False k kb r c wb
      by (cases err) (auto simp: QuotaWriter_Write_def Let_def algebra_simps)
  qed
qed

definition wr_track :: "store \<Rightarrow> pid \<Rightarrow> int \<Rightarrow> quota_writer \<Rightarrow> store \<Rightarrow> bool" where
  "wr_track s0 p k w s \<longleftrightarrow> wscope w = p \<and> tracked s0 p k (wreserved w) (wwritten w) s"

definition bytes :: "'b list list \<Rightarrow> int" where
  "bytes cs = (\<Sum>c\<leftarrow>cs. int (length c))"

lemma bytes_simps [simp]: "bytes [] = 0" "bytes (c # cs) = int (length c) + bytes cs"
  by (simp_all add: bytes_def)

lemma bytes_nonneg [simp]: "0 \<le> bytes cs"
  by (induction cs) simp_all

lemma wr_track_held:
  assumes "ledger_ok s0" "p < next_pid s0" "headroom s0 p W" "k \<le> W" "wr_track s0 p k w s"
  shows "wr_held s w"
  using tracked_held [OF assms(1-4), of "wreserved w" "wwritten w" s] assms(5)
  by (auto simp: wr_held_def wr_track_def tracked_def)

text \<open>The copy loop keeps the writer tracked; when it ends without an error it has written every
  byte the reader delivered.\<close>

lemma io_Copy_track:
  assumes ok: "ledger_ok s0" "p < next_pid s0" and hr: "headroom s0 p W" and snk: "sink_ok snk"
  shows "wr_track s0 p k w s \<Longrightarrow> k + bytes cs \<le> W \<Longrightarrow> io_Copy snk s w f cs rerr m = ((n, e), w', f', s')
    \<Longrightarrow> wr_track s0 p W w' s' \<and> (e = None \<longrightarrow> n = m + bytes cs \<and> wwritten w' = wwritten w + bytes cs)"
proof (induction cs arbitrary: k w s f m)
  case Nil
  then show ?case by (auto simp: wr_track_def intro: tracked_mono)
next
  case (Cons c cs)
  show ?case
  proof (cases "c = []")
    case True
    with Cons.prems have "k + bytes cs \<le> W" "io_Copy snk s w f cs rerr m = ((n, e), w', f', s')" by simp_all
    from Cons.IH [OF Cons.prems(1) this] True show ?thesis by simp
  next
    case False
    obtain nw ew w1 f1 s1 where wr: "QuotaWriter_Write snk s w f c = ((nw, ew), w1, f1, s1)"
      by (cases "QuotaWriter_Write snk s w f c") auto
    have kW: "k \<le> W" "k + int (length c) \<le> W" using Cons.prems(2) bytes_nonneg [of cs] unfolding bytes_simps by linarith+
    have t: "tracked s0 p k (wreserved w) (wwritten w) s" and p: "wscope w = p"
      using Cons.prems(1) by (auto simp: wr_track_def)
    note held = wr_track_held [OF ok hr kW(1) Cons.prems(1)]
    have "room s p (int (length c)) (int (length c))"
      using t kW by (intro tracked_room [OF ok hr t]) (auto simp: tracked_def)
    from QuotaWriter_Write_shift [OF held snk _ wr] this p
    have *: "shifted s p (wwritten w1 - wwritten w) (wreserved w1 - wreserved w) s1" "wscope w1 = p"
      "0 \<le> wreserved w1" "wwritten w1 = wwritten w + (if ew = None then nw else 0)" "0 \<le> nw" "nw \<le> int (length c)"
      "wreserved w1 + wwritten w1 \<le> wreserved w + wwritten w + int (length c)" by auto
    have tr1: "wr_track s0 p (k + int (length c)) w1 s1"
      using tracked_step [OF t *(1), of "k + int (length c)"] * t by (auto simp: wr_track_def tracked_def)
    then have tr1W: "wr_track s0 p W w1 s1" using kW by (auto simp: wr_track_def intro: tracked_mono)
    show ?thesis
    proof (cases "ew = None \<and> nw = int (length c)")
      case True
      then have "io_Copy snk s1 w1 f1 cs rerr (m + nw) = ((n, e), w', f', s')"
        using Cons.prems(3) False wr by (simp add: Let_def)
      from Cons.IH [OF tr1 _ this] Cons.prems(2) True * show ?thesis by auto
    next
      case stop: False
      then show ?thesis
        using Cons.prems(3) False wr * tr1W by (auto simp: Let_def split: if_splits)
    qed
  qed
qed

lemma QuotaWriter_Finish_False:
  assumes ok: "ledger_ok s0" "p < next_pid s0" "headroom s0 p W" and tr: "wr_track s0 p W w s"
  shows "pools (snd (QuotaWriter_Finish s w False old)) = pools s0"
proof -
  have held: "wr_held s w" by (rule wr_track_held [OF ok order_refl tr])
  then have h: "ledger_ok s" "p < next_pid s" "0 \<le> wreserved w" "wreserved w \<le> own reserved s p"
    "0 \<le> wwritten w" "wwritten w \<le> own committed s p" and p: "wscope w = p"
    and t: "shifted s0 p (wwritten w) (wreserved w) s"
    using tr by (auto simp: wr_held_def wr_track_def tracked_def)
  let ?s1 = "ReleaseUsage s p (wwritten w)"
  have sh1: "shifted s p (- wwritten w) 0 ?s1" by (rule ReleaseUsage_exact [OF h(1,2,5,6)])
  note r1 = release_ok [OF h(1,2), of "wwritten w" 0 ?s1]
  have "shifted ?s1 p 0 (- wreserved w) (releaseReserve ?s1 p (wreserved w))"
    using r1 sh1 h by (intro releaseReserve_exact) auto
  from shifted_trans [OF t shifted_trans [OF sh1 this]] show ?thesis
    by (simp add: QuotaWriter_Finish_def p shifted_same)
qed

lemma QuotaWriter_Finish_True:
  assumes ok: "ledger_ok s0" "p < next_pid s0" "headroom s0 p W" and tr: "wr_track s0 p W w s"
  shows "shifted s0 p (wwritten w - taken (committed (pools s0 p) + wwritten w) (nonNeg old)) 0
    (snd (QuotaWriter_Finish s w True old))"
proof -
  have held: "wr_held s w" by (rule wr_track_held [OF ok order_refl tr])
  then have h: "ledger_ok s" "p < next_pid s" "0 \<le> wreserved w" "wreserved w \<le> own reserved s p" and p: "wscope w = p"
    and t: "shifted s0 p (wwritten w) (wreserved w) s"
    using tr by (auto simp: wr_held_def wr_track_def tracked_def)
  let ?s1 = "releaseReserve s p (wreserved w)"
  have sh1: "shifted s p 0 (- wreserved w) ?s1" by (rule releaseReserve_exact [OF h])
  have r1: "ledger_ok ?s1" "p < next_pid ?s1"
    using release_ok(1,2) [OF h(1,2), of 0 "wreserved w" ?s1] sh1 h(3,4)
      aggregatedD(3) [OF ledger_okD(2) [OF h(1)] h(2)] by auto
  have t1: "shifted s0 p (wwritten w) 0 ?s1" using shifted_trans [OF t sh1] by simp
  have "committed (pools ?s1 p) = committed (pools s0 p) + wwritten w"
    using shifted_sel(6) [OF t1, of p] by simp
  with shifted_trans [OF t1 ReleaseUsage_shift [OF r1, of old]] show ?thesis
    by (simp add: QuotaWriter_Finish_def p)
qed

section \<open>Properties\<close>

text \<open>A task account never leaks and never double-counts: after any sequence of its operations the
  ledger of its scope and of every ancestor has moved by exactly the bytes the account reports as
  committed and as reserved, and \<open>Release\<close> at any point restores the ledger as it was before the
  account was opened.\<close>

theorem task_account_conservation:
  assumes "ledger_ok s" and "p < next_pid s"
    and "headroom s p ((if est \<le> 0 then placeholderReserve else est) + (\<Sum>x\<leftarrow>xs. acct_weight x))"
    and "NewTaskAccount s p est = (Inr a, s1)" and "acct_run s1 a xs = (a', s')"
  shows "shifted s p (tcommitted a') (treserved a') s' \<and> ledger_ok s'
    \<and> pools (snd (TaskAccount_Release s' a')) = pools s"
proof -
  let ?e = "if est \<le> 0 then placeholderReserve else est" and ?W = "\<Sum>x\<leftarrow>xs. acct_weight x"
  have e: "0 \<le> ?e" by (simp add: placeholderReserve_def)
  from assms(4) have res: "reserveUp s p ?e = (None, s1)" and a: "a = \<lparr>tscope = p, treserved = ?e, tcommitted = 0\<rparr>"
    by (auto simp: NewTaskAccount_def Let_def split: prod.splits option.splits)
  have "room s p 0 ?e"
    using acct_weights_nonneg [of xs] e by (intro tracked_room [OF assms(1-3) tracked_init]) auto
  from reserveUp_shift [OF assms(1,2) e this res] have "acct_track s p ?e a s1"
    using e by (simp add: acct_track_def a tracked_def)
  from acct_run_track [OF assms(1-3) this order_refl assms(5)]
  have tr: "acct_track s p (?e + ?W) a' s'" .
  then have t: "tracked s p (?e + ?W) (treserved a') (tcommitted a') s'" and p: "tscope a' = p"
    by (auto simp: acct_track_def)
  note h = tracked_held [OF assms(1-3) order_refl t]
  have "acct_held s' a'" using h t p by (auto simp: acct_held_def tracked_def)
  from TaskAccount_Release_shift [OF this, of "fst (TaskAccount_Release s' a')" "snd (TaskAccount_Release s' a')"]
  have "shifted s' p (- tcommitted a') (- treserved a') (snd (TaskAccount_Release s' a'))" using p by simp
  from shifted_trans [OF _ this, of s "tcommitted a'" "treserved a'"] t h(1) show ?thesis
    by (auto simp: tracked_def dest: shifted_same)
qed

theorem task_account_conservation_witness:
  "case NewTaskAccount two_level 1 20 of (Inr a, s1) \<Rightarrow>
     (case acct_run s1 a [AcCommitUp 30, AcReleaseCommitted 5, AcReleaseReserve] of
        (a', s') \<Rightarrow> tcommitted a' = 25 \<and> shifted two_level 1 25 0 s'
          \<and> pools (snd (TaskAccount_Release s' a')) = pools two_level)
   | _ \<Rightarrow> False"
proof -
  let ?xs = "[AcCommitUp 30, AcReleaseCommitted 5, AcReleaseReserve]"
  have new: "fst (NewTaskAccount two_level 1 20) = Inr \<lparr>tscope = 1, treserved = 20, tcommitted = 0\<rparr>" by code_simp
  then obtain a s1 where a: "NewTaskAccount two_level 1 20 = (Inr a, s1)" by (cases "NewTaskAccount two_level 1 20") auto
  have r: "acct_run s1 a ?xs = acct_run (snd (NewTaskAccount two_level 1 20)) \<lparr>tscope = 1, treserved = 20, tcommitted = 0\<rparr> ?xs"
    using new a by simp
  obtain a' s' where run: "acct_run s1 a ?xs = (a', s')" by (cases "acct_run s1 a ?xs")
  have "fst (acct_run (snd (NewTaskAccount two_level 1 20)) \<lparr>tscope = 1, treserved = 20, tcommitted = 0\<rparr> ?xs)
    = \<lparr>tscope = 1, treserved = 0, tcommitted = 25\<rparr>" by code_simp
  then have "a' = \<lparr>tscope = 1, treserved = 0, tcommitted = 25\<rparr>" using r run by simp
  moreover have "headroom two_level 1 ((if 20 \<le> (0::int) then placeholderReserve else 20) + (\<Sum>x\<leftarrow>?xs. acct_weight x))"
    by (rule two_level_headroom) code_simp
  ultimately show ?thesis
    using task_account_conservation [OF two_level_ok(1) _ _ a run] two_level_ok(2) a run by simp
qed

text \<open>C17. A quota-accounted file write settles exactly: when \<open>WriteFileQuota\<close> reports an error (quota, sink,
  short write or reader), the ledger is what it was before the call; when it succeeds, it has
  written all the bytes the reader delivered, every ancestor's committed bytes grew by that
  count less the released old size, and no reservation is left behind.\<close>

theorem WriteFileQuota_settles:
  assumes "ledger_ok s" and "p < next_pid s" and "0 \<le> sz" and "headroom s p (sz + bytes chunks)"
    and "sink_ok snk" and "WriteFileQuota snk s (Some p) f sz chunks rerr old = ((n, e), f', s')"
  shows "(e \<noteq> None \<longrightarrow> pools s' = pools s)
    \<and> (e = None \<longrightarrow> n = bytes chunks \<and> shifted s p (n - taken (committed (pools s p) + n) (nonNeg old)) 0 s')"
proof (cases "reserveUp s p sz")
  case (Pair o1 s1)
  show ?thesis
  proof (cases o1)
    case (Some e1)
    with Pair assms(6) reserveUp_error [OF assms(1,2), of sz e1 s1] show ?thesis
      by (auto simp: WriteFileQuota_def newQuotaWriterExact_def)
  next
    case None
    let ?w = "\<lparr>wscope = p, wwritten = 0, wreserved = sz\<rparr>"
    have "room s p 0 sz"
      using assms(3) bytes_nonneg [of chunks] by (intro tracked_room [OF assms(1,2,4) tracked_init]) auto
    from reserveUp_shift [OF assms(1-3) this] Pair None have "wr_track s p sz ?w s1"
      using assms(3) by (simp add: wr_track_def tracked_def)
    note copy = io_Copy_track [OF assms(1,2,4,5) this order_refl]
    obtain n1 e1 w1 f1 s2 where c: "io_Copy snk s1 ?w f chunks rerr 0 = ((n1, e1), w1, f1, s2)"
      by (cases "io_Copy snk s1 ?w f chunks rerr 0") auto
    from copy [OF c] have tr: "wr_track s p (sz + bytes chunks) w1 s2"
      and n1: "e1 = None \<longrightarrow> n1 = bytes chunks \<and> wwritten w1 = bytes chunks" by auto
    show ?thesis
      using assms(6) Pair None c n1 QuotaWriter_Finish_False [OF assms(1,2,4) tr, of 0]
        QuotaWriter_Finish_True [OF assms(1,2,4) tr, of old]
      by (cases e1) (auto simp: WriteFileQuota_def newQuotaWriterExact_def)
  qed
qed

theorem WriteFileQuota_settles_witness:
  "case WriteFileQuota (\<lambda>f p. (int (length p), False, f @ p)) two_level (Some 1) [] 3 [[7, 8, 9::nat]] False 0 of
     ((n, e), f', s') \<Rightarrow> n = 3 \<and> e = None \<and> f' = [7, 8, 9] \<and> shifted two_level 1 3 0 s'"
proof -
  let ?snk = "\<lambda>f p. (int (length p), False, f @ p) :: int \<times> bool \<times> nat list"
  let ?r = "WriteFileQuota ?snk two_level (Some 1) [] 3 [[7, 8, 9::nat]] False 0"
  obtain n e f' s' where r: "?r = ((n, e), f', s')" by (cases ?r) auto
  have "fst ?r = (3, None)" "fst (snd ?r) = [7, 8, 9]" by code_simp+
  then have "n = 3" "e = None" "f' = [7, 8, 9]" using r by simp_all
  moreover have "sink_ok ?snk" by (simp add: sink_ok_def)
  moreover have "headroom two_level 1 (3 + bytes [[7, 8, 9::nat]])" by (rule two_level_headroom) simp
  moreover have "taken (committed (pools two_level 1) + 3) (nonNeg 0) = 0" by (simp add: taken_def nonNeg_def)
  ultimately show ?thesis
    using WriteFileQuota_settles [OF two_level_ok(1) _ _ _ _ r] two_level_ok(2) r by simp
qed

text \<open>A chunk writer never touches a neighbouring chunk: any sequence of writes through a \<open>BoundWriter\<close>,
  with any failures of the file underneath, leaves the file as one write of the accepted bytes at
  \<open>offset + written\<close>; those bytes end within \<open>[offset, offset + limit)\<close> and every byte outside it is
  unchanged.\<close>

theorem BoundWriter_confined:
  assumes "bw_ok w" and "bound_run fc w ps = (ns, w', fc')"
  shows "fc' = writeAt fc (concat (map2 (\<lambda>n (fl, p). take (nat n) p) ns ps)) (nat (boffset w + bwritten w))
    \<and> bwritten w' = bwritten w + sum_list ns \<and> bwritten w' \<le> blimit w
    \<and> (\<forall>i < length fc. int i < boffset w \<or> boffset w + blimit w \<le> int i \<longrightarrow> fc' ! i = fc ! i)"
proof -
  let ?d = "concat (map2 (\<lambda>n (fl, p). take (nat n) p) ns ps)"
  note main = bound_run_eq [OF assms]
  then have len: "int (length ?d) \<le> blimit w - bwritten w" "boffset w + bwritten w \<ge> boffset w"
    using assms(1) by (auto simp: bw_ok_def)
  have "fc' ! i = fc ! i" if "i < length fc" "int i < boffset w \<or> boffset w + blimit w \<le> int i" for i
    using main that len assms(1) by (auto simp: bw_ok_def intro!: writeAt_outside)
  with main show ?thesis by (auto simp: bw_ok_def)
qed

theorem BoundWriter_confined_witness:
  "bound_run [9, 9, 9, 9, 9, 9::nat] \<lparr>boffset = 2, blimit = 3, bwritten = 0\<rparr> [(None, [1]), (None, [2, 3, 4])]
    = ([1, 2], \<lparr>boffset = 2, blimit = 3, bwritten = 3\<rparr>, [9, 9, 1, 2, 3, 9])
   \<and> [9, 9, 1, 2, 3, 9] = writeAt [9, 9, 9, 9, 9, 9] [1, 2, 3::nat] 2"
proof -
  have run: "bound_run [9, 9, 9, 9, 9, 9::nat] \<lparr>boffset = 2, blimit = 3, bwritten = 0\<rparr> [(None, [1]), (None, [2, 3, 4])]
    = ([1, 2], \<lparr>boffset = 2, blimit = 3, bwritten = 3\<rparr>, [9, 9, 1, 2, 3, 9])"
    by code_simp
  moreover have "bw_ok \<lparr>boffset = 2, blimit = 3, bwritten = 0\<rparr>" by (simp add: bw_ok_def)
  ultimately show ?thesis using BoundWriter_confined [OF _ run] by simp
qed

end
