(* ===== verification/Quota_System.thy ===== *)
theory Quota_System
  imports Settlement Accounts
begin

text \<open>
  All users of one quota tree together: the ledger and the list of the live handles, with a step
  relation whose rules are the calls of the package, in any order, for any number of handles on
  any nodes. A call is one step: the source locks the layers of a chain one after the other, and
  the intermediate states of a call that another goroutine may see between two layers are not
  modelled. The guards state what the callers owe: a handle's operations stay in \<open>int64\<close>, and
  bytes are taken off the books only where they are on them and no live handle answers for them.
\<close>

datatype handle = HRes reservation | HSett settlement | HAcct task_account | HWr quota_writer

fun claim_of :: "handle \<Rightarrow> pid claim" where
  "claim_of (HRes r) = (rpool r, if rdone r then 0 else ramount r, 0)"
| "claim_of (HSett h) = (case spool h of Some p \<Rightarrow> (p, sreserved h, 0) | None \<Rightarrow> (0, 0, 0))"
| "claim_of (HAcct a) = (tscope a, treserved a, tcommitted a)"
| "claim_of (HWr w) = (wscope w, wreserved w, wwritten w)"

abbreviation claims :: "handle list \<Rightarrow> pid claim list" where
  "claims hs \<equiv> map claim_of hs"

text \<open>Committed bytes of \<open>p\<close> itself that no live handle answers for.\<close>

definition unclaimed :: "store \<Rightarrow> handle list \<Rightarrow> pid \<Rightarrow> int" where
  "unclaimed s hs p = own committed s p - (\<Sum>x\<leftarrow>claims hs. com_at p x)"

inductive qstep :: "store \<times> handle list \<Rightarrow> store \<times> handle list \<Rightarrow> bool" where
  reserve: "p < next_pid s \<Longrightarrow> headroom s p (nonNeg n) \<Longrightarrow> Pool_TryReserve s p n = (Inr r, s')
    \<Longrightarrow> qstep (s, hs) (s', hs @ [HRes r])"
| reserve_full: "p < next_pid s \<Longrightarrow> Pool_TryReserve s p n = (Inl e, s') \<Longrightarrow> qstep (s, hs) (s', hs)"
| commit: "i < length hs \<Longrightarrow> hs ! i = HRes r \<Longrightarrow> headroom s (rpool r) (nonNeg n)
    \<Longrightarrow> Reservation_Commit s r n = (r', s') \<Longrightarrow> qstep (s, hs) (s', hs[i := HRes r'])"
| release: "i < length hs \<Longrightarrow> hs ! i = HRes r \<Longrightarrow> Reservation_Release s r = (r', s')
    \<Longrightarrow> qstep (s, hs) (s', hs[i := HRes r'])"
| settlement: "p < next_pid s \<Longrightarrow> qstep (s, hs) (s, hs @ [HSett (NewSettlement (Some p))])"
| settle: "i < length hs \<Longrightarrow> hs ! i = HSett h \<Longrightarrow> spool h = Some p \<Longrightarrow> headroom s p (sett_weight x)
    \<Longrightarrow> sett_step s h x = (e, h', s') \<Longrightarrow> qstep (s, hs) (s', hs[i := HSett h'])"
| account: "p < next_pid s \<Longrightarrow> headroom s p (if est \<le> 0 then placeholderReserve else est)
    \<Longrightarrow> NewTaskAccount s p est = (Inr a, s') \<Longrightarrow> qstep (s, hs) (s', hs @ [HAcct a])"
| account_op: "i < length hs \<Longrightarrow> hs ! i = HAcct a \<Longrightarrow> headroom s (tscope a) (acct_weight x)
    \<Longrightarrow> acct_step s a x = (a', s') \<Longrightarrow> qstep (s, hs) (s', hs[i := HAcct a'])"
| writer: "p < next_pid s \<Longrightarrow> headroom s p (if est \<le> 0 then placeholderReserve else est)
    \<Longrightarrow> NewQuotaWriter s (Some p) est = (Inr w, s') \<Longrightarrow> qstep (s, hs) (s', hs @ [HWr w])"
| writer_write: "i < length hs \<Longrightarrow> hs ! i = HWr w \<Longrightarrow> headroom s (wscope w) (int (length b)) \<Longrightarrow> sink_ok snk
    \<Longrightarrow> QuotaWriter_Write snk s w f (b :: nat list) = (res, w', f' :: nat list, s') \<Longrightarrow> qstep (s, hs) (s', hs[i := HWr w'])"
| writer_drop: "i < length hs \<Longrightarrow> hs ! i = HWr w \<Longrightarrow> QuotaWriter_ReleaseReserve s w = (w', s')
    \<Longrightarrow> qstep (s, hs) (s', hs[i := HWr w'])"
| writer_finish: "i < length hs \<Longrightarrow> hs ! i = HWr w \<Longrightarrow> QuotaWriter_Finish s w success oldSize = (w', s')
    \<Longrightarrow> (success \<Longrightarrow> nonNeg oldSize \<le> wwritten w + unclaimed s hs (wscope w)) \<Longrightarrow> qstep (s, hs) (s', hs[i := HWr w'])"
| delete: "p < next_pid s \<Longrightarrow> nonNeg n \<le> unclaimed s hs p \<Longrightarrow> qstep (s, hs) (ReleaseUsage s p n, hs)"
| adjust: "p < next_pid s \<Longrightarrow> in64 (nxt - prev) \<Longrightarrow> 0 \<le> unclaimed s hs p + (nxt - prev)
    \<Longrightarrow> headroom s p (nxt - prev) \<Longrightarrow> qstep (s, hs) (Scope_Adjust s p prev nxt, hs)"
| set_max: "p < next_pid s \<Longrightarrow> in64 n \<Longrightarrow> qstep (s, hs) (SetMaxBytes s p n, hs)"
| set_reserve: "p < next_pid s \<Longrightarrow> in64 n \<Longrightarrow> qstep (s, hs) (SetOperationalReserve s p n, hs)"
| child: "p < next_pid s \<Longrightarrow> in64 n \<Longrightarrow> qstep (s, hs) (snd (NewPoolWithParent s p n), hs)"

inductive qreach :: "store \<times> handle list \<Rightarrow> bool" where
  start: "in64 n \<Longrightarrow> qreach (snd (NewPool empty_store n), [])"
| step: "qreach a \<Longrightarrow> qstep a b \<Longrightarrow> qreach b"

text \<open>The invariant: every reserved byte of a node is held by a live handle on it, the committed bytes
  cover what the handles answer for, and the handles' own books are consistent.\<close>

definition handle_ok :: "handle \<Rightarrow> bool" where
  "handle_ok x = (case x of HSett h \<Rightarrow> sett_wf h \<and> spool h \<noteq> None | _ \<Rightarrow> True)"

definition qinv :: "store \<times> handle list \<Rightarrow> bool" where
  "qinv = (\<lambda>(s, hs). quota.backed s (claims hs) \<and> (\<forall>x \<in> set hs. handle_ok x))"

section \<open>Every step keeps the invariant\<close>

lemma backed_set:
  assumes b: "quota.backed s (claims hs)" and i: "i < length hs" "claim_of (hs ! i) = (p, r, c)"
    and x: "claim_of x = (p, r', c')" and sh: "shifted s p dc (r' - r) s'" and pos: "0 \<le> r'" "0 \<le> c'"
    and slack: "c' - c \<le> dc + unclaimed s hs p" and rm: "room s p dc (r' - r)"
  shows "quota.backed s' (claims (hs[i := x]))"
proof -
  have "quota.backed s' ((claims hs)[i := (p, r + (r' - r), c + (c' - c))])"
    using i pos slack by (intro quota.backed_move [OF b _ _ sh _ _ _ rm]) (auto simp: unclaimed_def)
  then show ?thesis using x by (simp add: map_update)
qed

lemma backed_open:
  assumes b: "quota.backed s (claims hs)" and p: "p < next_pid s" and x: "claim_of x = (p, n, 0)"
    and sh: "shifted s p 0 n s'" and "0 \<le> n" and "room s p 0 n"
  shows "quota.backed s' (claims (hs @ [x]))"
proof -
  note ok = quota.backed_inv [OF b]
  have "quota.backed s' (claims hs @ [(p, n, 0)])"
    using aggregatedD(3) [OF ledger_okD(2) [OF ok] p] aggregatedD(3) [OF ledger_okD(3) [OF ok] p]
    by (intro quota.backed_new [OF b p sh assms(5,6)]) auto
  then show ?thesis using x by simp
qed

lemma backed_held:
  assumes "quota.backed s (claims hs)" and "i < length hs" and "claim_of (hs ! i) = (p, r, c)"
  shows "ledger_ok s" "p < next_pid s" "0 \<le> r" "0 \<le> c" "r \<le> own reserved s p" "c \<le> own committed s p"
  using quota.backed_inv [OF assms(1)] quota.backed_claim [OF assms(1), of i p r c] assms(2,3) by simp_all

lemma unclaimed_nonneg:
  "quota.backed s (claims hs) \<Longrightarrow> p < next_pid s \<Longrightarrow> 0 \<le> unclaimed s hs p"
  by (simp add: quota.backed_def unclaimed_def)

text \<open>A change that touches neither the tree nor the counters.\<close>

lemma backed_frame:
  assumes b: "quota.backed s cs" and n: "next_pid s' = next_pid s"
    and f: "\<And>q. parent (pools s' q) = parent (pools s q) \<and> committed (pools s' q) = committed (pools s q)
      \<and> reserved (pools s' q) = reserved (pools s q)" and in64: "\<And>q. q < next_pid s \<Longrightarrow> pool_in64 (pools s' q)"
  shows "quota.backed s' cs"
proof -
  have k: "kids s' = kids s" using n f by (intro kids_cong) auto
  have "parents_below s' = parents_below s" using n f by (intro parents_below_cong) auto
  then have "ledger_ok s'"
    using quota.backed_inv [OF b] n f in64 k by (simp add: ledger_ok_def aggregated_def)
  moreover have "own committed s' = own committed s" "own reserved s' = own reserved s"
    using f k by (auto simp: own_def fun_eq_iff)
  ultimately show ?thesis using b n by (simp add: quota.backed_def)
qed

lemma backed_alloc:
  assumes b: "quota.backed s cs" and "ledger_ok (snd (alloc_pool s pl))" "committed pl = 0" "reserved pl = 0"
  shows "quota.backed (snd (alloc_pool s pl)) cs"
proof -
  note pb = ledger_okD(1) [OF quota.backed_inv [OF b]]
  have none: "\<And>x. x \<in> set cs \<Longrightarrow> res_at (next_pid s) x = 0 \<and> com_at (next_pid s) x = 0"
    using b by (fastforce simp: quota.backed_def res_at_def com_at_def)
  have "(\<Sum>x\<leftarrow>cs. res_at (next_pid s) x) = 0" "(\<Sum>x\<leftarrow>cs. com_at (next_pid s) x) = 0"
    using none by (auto intro!: sum_list_0 simp: cong: map_cong)
  moreover have "next_pid (snd (alloc_pool s pl)) = Suc (next_pid s)" by (simp add: alloc_pool_def)
  ultimately show ?thesis
    using b assms(2) own_alloc [OF pb, of committed pl, OF assms(3)] own_alloc [OF pb, of reserved pl, OF assms(4)]
    by (fastforce simp: quota.backed_def less_Suc_eq)
qed

lemma all_set_update: "(\<forall>x \<in> set hs. P x) \<Longrightarrow> P y \<Longrightarrow> \<forall>x \<in> set (hs[i := y]). P x"
  using set_update_subset_insert [of hs i y] by auto

text \<open>Opening a handle.\<close>

lemma open_reserve:
  assumes b: "quota.backed s (claims hs)" and p: "p < next_pid s" and n: "0 \<le> n" and hr: "headroom s p n"
    and res: "reserveUp s p n = (None, s')" and x: "claim_of x = (p, n, 0)"
  shows "quota.backed s' (claims (hs @ [x]))"
proof -
  note ok = quota.backed_inv [OF b]
  have rm: "room s p 0 n" using n by (intro headroom_room [OF ok p hr]) auto
  show ?thesis by (rule backed_open [OF b p x reserveUp_shift [OF ok p n rm res] n rm])
qed

lemma TryReserve_InrD:
  "Pool_TryReserve s p n = (Inr r, s') \<Longrightarrow> reserveUp s p (nonNeg n) = (None, s') \<and> r = \<lparr>rpool = p, ramount = nonNeg n, rdone = False\<rparr>"
  by (auto simp: Pool_TryReserve_def Let_def split: prod.splits option.splits)

lemma TryReserve_InlD:
  "ledger_ok s \<Longrightarrow> p < next_pid s \<Longrightarrow> Pool_TryReserve s p n = (Inl e, s') \<Longrightarrow> e = ErrStorageFull \<and> s' = s"
  using reserveUp_error [of s p "nonNeg n" e s']
  by (auto simp: Pool_TryReserve_def Let_def split: prod.splits option.splits)

lemma NewTaskAccount_InrD:
  "NewTaskAccount s p est = (Inr a, s') \<Longrightarrow> reserveUp s p (if est \<le> 0 then placeholderReserve else est) = (None, s')
    \<and> a = \<lparr>tscope = p, treserved = (if est \<le> 0 then placeholderReserve else est), tcommitted = 0\<rparr>"
  by (auto simp: NewTaskAccount_def Let_def split: prod.splits option.splits)

lemma NewQuotaWriter_InrD:
  "NewQuotaWriter s (Some p) est = (Inr w, s') \<Longrightarrow> reserveUp s p (if est \<le> 0 then placeholderReserve else est) = (None, s')
    \<and> w = \<lparr>wscope = p, wwritten = 0, wreserved = (if est \<le> 0 then placeholderReserve else est)\<rparr>"
  by (auto simp: NewQuotaWriter_def newQuotaWriterExact_def Let_def split: prod.splits option.splits)

text \<open>Operations on a handle.\<close>

lemma commit_keeps:
  assumes b: "quota.backed s (claims hs)" and i: "i < length hs" "hs ! i = HRes r"
    and hr: "headroom s (rpool r) (nonNeg n)" and step: "Reservation_Commit s r n = (r', s')"
  shows "quota.backed s' (claims (hs[i := HRes r']))"
proof (cases "rdone r")
  case True
  then have "r' = r" "s' = s" "hs[i := HRes r] = hs"
    using step list_update_id [of hs i] i by (auto simp: Reservation_Commit_def)
  then show ?thesis using b by simp
next
  case False
  then have cl: "claim_of (hs ! i) = (rpool r, ramount r, 0)" using i by simp
  note h = backed_held [OF b i(1) cl]
  have rm: "room s (rpool r) (nonNeg n) 0" by (intro headroom_room [OF h(1,2) hr]) auto
  from step False have s': "s' = commitReservation s (rpool r) (ramount r) (nonNeg n)" and r': "r' = r\<lparr>rdone := True\<rparr>"
    by (auto simp: Reservation_Commit_def)
  have sh: "shifted s (rpool r) (nonNeg n) (0 - ramount r) s'"
    using commitReservation_shift [OF h(1,2,3,5) _ rm] by (simp add: s')
  have "room s (rpool r) (nonNeg n) (0 - ramount r)" using rm h(3) by (auto simp: room_def)
  with b i(1) cl sh show ?thesis
    using unclaimed_nonneg [OF b h(2)] add_nonneg_nonneg [OF nonNeg_nonneg unclaimed_nonneg [OF b h(2)]]
    by (intro backed_set [OF b i(1) cl, where r' = 0 and c' = 0 and dc = "nonNeg n"]) (auto simp: r')
qed

lemma release_keeps:
  assumes b: "quota.backed s (claims hs)" and i: "i < length hs" "claim_of (hs ! i) = (p, r, c)"
    and x: "claim_of x = (p, r', c')" and sh: "shifted s p (- dc) (r' - r) s'" and "r' \<le> r" "0 \<le> r'" "0 \<le> dc" "0 \<le> c'"
    and "c' + dc \<le> c + unclaimed s hs p"
  shows "quota.backed s' (claims (hs[i := x]))"
proof -
  note h = backed_held [OF b i]
  have "room s p (- dc) (r' - r)" using assms(6,8) by (intro room_down [OF h(1,2)]) auto
  with assms show ?thesis by (intro backed_set [OF b i x sh]) auto
qed

lemma Reservation_Release_keeps:
  assumes b: "quota.backed s (claims hs)" and i: "i < length hs" "hs ! i = HRes r"
    and step: "Reservation_Release s r = (r', s')"
  shows "quota.backed s' (claims (hs[i := HRes r']))"
proof (cases "rdone r")
  case True
  then have "r' = r" "s' = s" "hs[i := HRes r] = hs"
    using step list_update_id [of hs i] i by (auto simp: Reservation_Release_def)
  then show ?thesis using b by simp
next
  case False
  then have cl: "claim_of (hs ! i) = (rpool r, ramount r, 0)" using i by simp
  note h = backed_held [OF b i(1) cl]
  have "shifted s (rpool r) (- 0) (0 - ramount r) s'"
    using step False releaseReserve_exact [OF h(1,2,3,5)] by (auto simp: Reservation_Release_def releaseReserve_def)
  then show ?thesis
    using step False h unclaimed_nonneg [OF b h(2)]
    by (intro release_keeps [OF b i(1) cl, where r' = 0 and c' = 0 and dc = 0]) (auto simp: Reservation_Release_def)
qed

lemma settle_keeps:
  assumes b: "quota.backed s (claims hs)" and i: "i < length hs" "hs ! i = HSett h" and p: "spool h = Some p"
    and wf: "sett_wf h" and hr: "headroom s p (sett_weight x)" and step: "sett_step s h x = (e, h', s')"
  shows "quota.backed s' (claims (hs[i := HSett h'])) \<and> handle_ok (HSett h')"
proof -
  have cl: "claim_of (hs ! i) = (p, sreserved h, 0)" using i p by simp
  note h = backed_held [OF b i(1) cl]
  have held: "sett_held s h" using h p by (simp add: sett_held_def)
  note * = sett_step_shift [OF held p wf hr step]
  have "room s p (scommitted h' - scommitted h) (sreserved h' - sreserved h)"
    using * h(6) by (intro headroom_move [OF h(1,2) hr h(5,6)]) auto
  then have "quota.backed s' (claims (hs[i := HSett h']))"
    using * unclaimed_nonneg [OF b h(2)]
    by (intro backed_set [OF b i(1) cl, where r' = "sreserved h'" and c' = 0 and dc = "scommitted h' - scommitted h"]) auto
  with * show ?thesis by (simp add: handle_ok_def)
qed

lemma account_keeps:
  assumes b: "quota.backed s (claims hs)" and i: "i < length hs" "hs ! i = HAcct a"
    and hr: "headroom s (tscope a) (acct_weight x)" and step: "acct_step s a x = (a', s')"
  shows "quota.backed s' (claims (hs[i := HAcct a']))"
proof -
  have cl: "claim_of (hs ! i) = (tscope a, treserved a, tcommitted a)" using i by simp
  note h = backed_held [OF b i(1) cl]
  have "acct_held s a" using h by (simp add: acct_held_def)
  note * = acct_step_shift [OF this refl hr step]
  have "room s (tscope a) (tcommitted a' - tcommitted a) (treserved a' - treserved a)"
    using * by (intro headroom_move [OF h(1,2) hr h(5,6)]) auto
  with * show ?thesis
    using unclaimed_nonneg [OF b h(2)]
    by (intro backed_set [OF b i(1) cl, where r' = "treserved a'" and c' = "tcommitted a'" and dc = "tcommitted a' - tcommitted a"]) auto
qed

lemma write_keeps:
  assumes b: "quota.backed s (claims hs)" and i: "i < length hs" "hs ! i = HWr w" and snk: "sink_ok snk"
    and hr: "headroom s (wscope w) (int (length bs))" and step: "QuotaWriter_Write snk s w f bs = ((n, e), w', f', s')"
  shows "quota.backed s' (claims (hs[i := HWr w']))"
proof -
  have cl: "claim_of (hs ! i) = (wscope w, wreserved w, wwritten w)" using i by simp
  note h = backed_held [OF b i(1) cl]
  have held: "wr_held s w" using h by (simp add: wr_held_def)
  have "room s (wscope w) (int (length bs)) (int (length bs))" by (intro headroom_room [OF h(1,2) hr]) auto
  note * = QuotaWriter_Write_shift [OF held snk this step]
  have "0 \<le> wwritten w'" using * h(4) by (cases e) auto
  moreover have "room s (wscope w) (wwritten w' - wwritten w) (wreserved w' - wreserved w)"
    using * \<open>0 \<le> wwritten w'\<close> by (intro headroom_move [OF h(1,2) hr h(5,6)]) auto
  ultimately show ?thesis
    using * unclaimed_nonneg [OF b h(2)]
    by (intro backed_set [OF b i(1) cl, where r' = "wreserved w'" and c' = "wwritten w'" and dc = "wwritten w' - wwritten w"]) auto
qed

lemma Finish_shift:
  assumes held: "wr_held s w" and old: "success \<Longrightarrow> nonNeg old \<le> own committed s (wscope w)"
  shows "shifted s (wscope w) (- (if success then nonNeg old else wwritten w)) (0 - wreserved w)
    (snd (QuotaWriter_Finish s w success old))"
proof -
  let ?p = "wscope w"
  have ok: "ledger_ok s" "?p < next_pid s" and r: "0 \<le> wreserved w" "wreserved w \<le> own reserved s ?p"
    and c: "0 \<le> wwritten w" "wwritten w \<le> own committed s ?p" using held by (auto simp: wr_held_def)
  show ?thesis
  proof (cases success)
    case True
    let ?s = "releaseReserve s ?p (wreserved w)"
    have sh: "shifted s ?p (- 0) (- wreserved w) ?s" using releaseReserve_exact [OF ok r] by simp
    have pos: "0 \<le> own committed s ?p" using aggregatedD(3) [OF ledger_okD(2) [OF ok(1)] ok(2)] .
    note k = release_ok [OF ok sh order_refl pos r]
    have "shifted ?s ?p (- nonNeg old) 0 (ReleaseUsage ?s ?p (nonNeg old))"
      using old [OF True] k by (intro ReleaseUsage_exact [OF k(1,2)]) auto
    moreover have "ReleaseUsage ?s ?p (nonNeg old) = ReleaseUsage ?s ?p old" by (simp add: ReleaseUsage_def)
    ultimately show ?thesis using shifted_trans [OF sh] True by (fastforce simp: QuotaWriter_Finish_def)
  next
    case False
    let ?s = "ReleaseUsage s ?p (wwritten w)"
    have sh: "shifted s ?p (- wwritten w) (- 0) ?s" using ReleaseUsage_exact [OF ok c] by simp
    have pos: "0 \<le> own reserved s ?p" using aggregatedD(3) [OF ledger_okD(3) [OF ok(1)] ok(2)] .
    note k = release_ok [OF ok sh c order_refl pos]
    have "shifted ?s ?p 0 (- wreserved w) (releaseReserve ?s ?p (wreserved w))"
      using r k by (intro releaseReserve_exact [OF k(1,2)]) auto
    from shifted_trans [OF sh this] show ?thesis using False by (simp add: QuotaWriter_Finish_def)
  qed
qed

lemma finish_keeps:
  assumes b: "quota.backed s (claims hs)" and i: "i < length hs" "hs ! i = HWr w"
    and old: "success \<Longrightarrow> nonNeg old \<le> wwritten w + unclaimed s hs (wscope w)"
    and step: "QuotaWriter_Finish s w success old = (w', s')"
  shows "quota.backed s' (claims (hs[i := HWr w']))"
proof -
  have cl: "claim_of (hs ! i) = (wscope w, wreserved w, wwritten w)" using i by simp
  note h = backed_held [OF b i(1) cl]
  have "wwritten w \<le> (\<Sum>x\<leftarrow>claims hs. com_at (wscope w) x)"
    using quota.backed_claim(6) [OF b, of i] i cl by simp
  then have "success \<Longrightarrow> nonNeg old \<le> own committed s (wscope w)" using old by (simp add: unclaimed_def)
  then have "shifted s (wscope w) (- (if success then nonNeg old else wwritten w)) (0 - wreserved w)
    (snd (QuotaWriter_Finish s w success old))"
    using h by (intro Finish_shift) (auto simp: wr_held_def)
  moreover have "claim_of (HWr w') = (wscope w, 0, 0)" using step by (auto simp: QuotaWriter_Finish_def)
  ultimately show ?thesis
    using step h old unclaimed_nonneg [OF b h(2)]
    by (intro release_keeps [OF b i(1) cl, where r' = 0 and c' = 0 and dc = "if success then nonNeg old else wwritten w"]) auto
qed

lemma drop_keeps:
  assumes b: "quota.backed s (claims hs)" and i: "i < length hs" "hs ! i = HWr w"
    and step: "QuotaWriter_ReleaseReserve s w = (w', s')"
  shows "quota.backed s' (claims (hs[i := HWr w']))"
proof -
  have cl: "claim_of (hs ! i) = (wscope w, wreserved w, wwritten w)" using i by simp
  note h = backed_held [OF b i(1) cl]
  have "shifted s (wscope w) (- 0) (0 - wreserved w) s'" "claim_of (HWr w') = (wscope w, 0, wwritten w)"
    using step h(3) releaseReserve_exact [OF h(1,2,3,5)] by (auto simp: QuotaWriter_ReleaseReserve_def split: if_splits)
  then show ?thesis using h unclaimed_nonneg [OF b h(2)] by (intro release_keeps [OF b i(1) cl, where r' = 0 and c' = "wwritten w" and dc = 0]) auto
qed

lemma delete_keeps:
  assumes b: "quota.backed s (claims hs)" and p: "p < next_pid s" and n: "nonNeg n \<le> unclaimed s hs p"
  shows "quota.backed (ReleaseUsage s p n) (claims hs)"
proof -
  note ok = quota.backed_inv [OF b]
  have "0 \<le> (\<Sum>x\<leftarrow>claims hs. com_at p x)"
    using b by (intro sum_list_nonneg) (fastforce simp: quota.backed_def com_at_def)
  then have le: "nonNeg n \<le> own committed s p" using n by (simp add: unclaimed_def)
  have "shifted s p (- nonNeg n) 0 (ReleaseUsage s p n)"
    using ReleaseUsage_exact [OF ok p _ le] by (simp add: ReleaseUsage_def)
  then show ?thesis
    using n aggregatedD(3) [OF ledger_okD(3) [OF ok] p]
    by (intro quota.backed_outside [OF b p]) (auto simp: unclaimed_def intro: room_down [OF ok p])
qed

lemma adjust_keeps:
  assumes b: "quota.backed s (claims hs)" and p: "p < next_pid s" and d: "in64 (nxt - prev)"
    and n: "0 \<le> unclaimed s hs p + (nxt - prev)" and hr: "headroom s p (nxt - prev)"
  shows "quota.backed (Scope_Adjust s p prev nxt) (claims hs)"
proof -
  note ok = quota.backed_inv [OF b]
  let ?d = "nxt - prev"
  have "0 \<le> (\<Sum>x\<leftarrow>claims hs. com_at p x)"
    using b by (intro sum_list_nonneg) (fastforce simp: quota.backed_def com_at_def)
  then have "- own committed s p \<le> ?d" using n by (simp add: unclaimed_def)
  then have m: "max ?d (- committed (pools s p)) = ?d" using own_le [OF ok p] by simp
  have "0 \<le> own reserved s p" by (rule aggregatedD(3) [OF ledger_okD(3) [OF ok] p])
  then have rm: "room s p ?d 0"
    using hr aggregatedD(1,2) [OF ledger_okD(3) [OF ok] chain_below [OF p]] by (fastforce simp: room_def headroom_def)
  have "shifted s p ?d 0 (Scope_Adjust s p prev nxt)"
    using Scope_Adjust_shift [OF ok p, of nxt prev] rm by (simp add: wrap64_id [OF d] m)
  then show ?thesis
    using n \<open>0 \<le> own reserved s p\<close> rm by (intro quota.backed_outside [OF b p]) (auto simp: unclaimed_def)
qed

lemma limit_keeps:
  assumes b: "quota.backed s cs" and n: "in64 n"
  shows "quota.backed (SetMaxBytes s p n) cs" and "quota.backed (SetOperationalReserve s p n) cs"
proof -
  have p64: "pool_in64 (pools s q)" if "q < next_pid s" for q
    using ledger_okD(4) [OF quota.backed_inv [OF b] that] .
  show "quota.backed (SetMaxBytes s p n) cs"
    using p64 n by (intro backed_frame [OF b]) (auto simp: SetMaxBytes_def withWaitLock_def Let_def pool_in64_def)
  show "quota.backed (SetOperationalReserve s p n) cs"
    using p64 n by (intro backed_frame [OF b])
      (auto simp: SetOperationalReserve_def withWaitLock_def Let_def pool_in64_def in64_def)
qed

lemma child_keeps:
  "quota.backed s cs \<Longrightarrow> p < next_pid s \<Longrightarrow> in64 n \<Longrightarrow> quota.backed (snd (NewPoolWithParent s p n)) cs"
  using NewPoolWithParent_ok [of s p n] quota.backed_inv [of s cs]
  by (auto simp: NewPoolWithParent_def intro!: backed_alloc)

lemma handle_ok_simps [simp]:
  "handle_ok (HRes r)" "handle_ok (HAcct a)" "handle_ok (HWr w)"
  "handle_ok (HSett h) = (sett_wf h \<and> spool h \<noteq> None)"
  by (simp_all add: handle_ok_def)

lemma qinv_set:
  "qinv (s, hs) \<Longrightarrow> (quota.backed s (claims hs) \<Longrightarrow> quota.backed s' (claims (hs[i := x])) \<and> handle_ok x)
    \<Longrightarrow> qinv (s', hs[i := x])"
  unfolding qinv_def prod.case by (metis all_set_update)

lemma qinv_add:
  "qinv (s, hs) \<Longrightarrow> (quota.backed s (claims hs) \<Longrightarrow> quota.backed s' (claims (hs @ [x])) \<and> handle_ok x)
    \<Longrightarrow> qinv (s', hs @ [x])"
  unfolding qinv_def prod.case by simp

lemma qstep_keeps: "qstep a b \<Longrightarrow> qinv a \<Longrightarrow> qinv b"
proof (induction rule: qstep.induct)
  case (reserve p s n r s' hs)
  with TryReserve_InrD [OF reserve(3)] show ?case
    by (auto simp: qinv_def handle_ok_def simp del: map_append intro!: open_reserve [of s hs p "nonNeg n"])
next
  case (reserve_full p s n e s' hs)
  then show ?case using TryReserve_InlD [OF _ reserve_full(1,2)] quota.backed_inv by (fastforce simp: qinv_def)
next
  case (commit i hs r s n r' s')
  then show ?case
    using commit_keeps [OF _ commit(1-4)] by (auto intro: qinv_set)
next
  case (release i hs r s r' s')
  then show ?case
    using Reservation_Release_keeps [OF _ release(1-3)] by (auto intro: qinv_set)
next
  case (settlement p s hs)
  then have "quota.backed s (claims (hs @ [HSett (NewSettlement (Some p))]))"
    using headroom_room [of s p 0 0 0] quota.backed_inv [of s "claims hs"]
    by (intro backed_open [where n = 0 and p = p]) (auto simp: qinv_def NewSettlement_def intro: room_down)
  with settlement show ?case by (auto simp: qinv_def handle_ok_def sett_wf_def NewSettlement_def)
next
  case (settle i hs h p s x e h' s')
  then have "handle_ok (hs ! i)" unfolding qinv_def prod.case by (metis nth_mem)
  then have "handle_ok (HSett h)" using settle(2) by simp
  with settle settle_keeps [OF _ settle(1-3) _ settle(4,5)] show ?case
    by (auto intro: qinv_set)
next
  case (account p s est a s' hs)
  with NewTaskAccount_InrD [OF account(3)] show ?case
    by (auto simp: qinv_def handle_ok_def placeholderReserve_def simp del: map_append split: if_splits
        intro!: open_reserve [of s hs p "if est \<le> 0 then placeholderReserve else est"])
next
  case (account_op i hs a s x a' s')
  then show ?case
    using account_keeps [OF _ account_op(1-4)] by (auto intro: qinv_set)
next
  case (writer p s est w s' hs)
  with NewQuotaWriter_InrD [OF writer(3)] show ?case
    by (auto simp: qinv_def handle_ok_def placeholderReserve_def simp del: map_append split: if_splits
        intro!: open_reserve [of s hs p "if est \<le> 0 then placeholderReserve else est"])
next
  case (writer_write i hs w s b snk f res w' f' s')
  obtain n e where "res = (n, e)" by (cases res)
  with writer_write write_keeps [OF _ writer_write(1,2,4,3), of f n e w' f' s'] show ?case
    by (auto intro: qinv_set)
next
  case (writer_drop i hs w s w' s')
  then show ?case
    using drop_keeps [OF _ writer_drop(1-3)] by (auto intro: qinv_set)
next
  case (writer_finish i hs w s success oldSize w' s')
  then show ?case
    using finish_keeps [OF _ writer_finish(1,2,4,3)] by (auto intro: qinv_set)
next
  case (delete p s n hs)
  then show ?case using delete_keeps by (auto simp: qinv_def)
next
  case (adjust p s nxt prev hs)
  then show ?case using adjust_keeps by (auto simp: qinv_def)
next
  case (set_max p s n hs)
  then show ?case using limit_keeps(1) by (auto simp: qinv_def)
next
  case (set_reserve p s n hs)
  then show ?case using limit_keeps(2) by (auto simp: qinv_def)
next
  case (child p s n hs)
  then show ?case using child_keeps by (auto simp: qinv_def)
qed

lemma qreach_inv: "qreach a \<Longrightarrow> qinv a"
proof (induction rule: qreach.induct)
  case (start n)
  let ?s = "snd (NewPool empty_store n)"
  have "ledger_ok ?s" using NewPool_ok [OF empty_store_ok start] .
  moreover have "kids ?s p = {}" for p
    by (auto simp: kids_def NewPool_def alloc_pool_def empty_store_def mk_pool_def)
  ultimately show ?case
    by (auto simp: qinv_def quota.backed_def own_def NewPool_def alloc_pool_def empty_store_def mk_pool_def)
next
  case (step a b)
  then show ?case using qstep_keeps by blast
qed

text \<open>A tree with no own reservation anywhere has none at all: from the leaves up.\<close>

lemma own_zero:
  assumes "parents_below s" and "\<And>q. q < next_pid s \<Longrightarrow> own f s q = 0"
  shows "p < next_pid s \<Longrightarrow> f (pools s p) = 0"
proof (induction "next_pid s - p" arbitrary: p rule: less_induct)
  case less
  have "f (pools s c) = 0" if "c \<in> kids s p" for c
  proof (rule less.hyps)
    show c: "c < next_pid s" using that by (simp add: kids_def)
    show "next_pid s - c < next_pid s - p" using kids_above [OF assms(1) that] c less.prems by simp
  qed
  then have "(\<Sum>c\<in>kids s p. f (pools s c)) = 0" by (intro sum.neutral) simp
  then show ?case using assms(2) [OF less.prems] by (simp add: own_def)
qed

lemma two_level_reach: "qreach (two_level, [])"
proof -
  have "qstep (snd (NewPool empty_store 100), []) (two_level, [])"
    unfolding two_level_def by (rule qstep.child) (simp_all add: NewPool_def alloc_pool_def in64_def)
  then show ?thesis by (rule qreach.step [OF qreach.start, rotated]) (simp add: in64_def)
qed

section \<open>Properties\<close>



text \<open>C7. No reservation leaks: in every reachable state in which all handles are settled (each
  reservation committed or released, each settlement, account and writer holding none), no node
  of the tree has a reserved byte left.\<close>

theorem quota_no_leak:
  assumes "qreach (s, hs)" and "\<And>x. x \<in> set hs \<Longrightarrow> fst (snd (claim_of x)) = 0" and "p < next_pid s"
  shows "reserved (pools s p) = 0"
proof (rule own_zero [OF _ _ assms(3)])
  have b: "quota.backed s (claims hs)" using qreach_inv [OF assms(1)] by (simp add: qinv_def)
  show "parents_below s" by (rule ledger_okD(1) [OF quota.backed_inv [OF b]])
  fix q assume "q < next_pid s"
  moreover have "res_at q (claim_of x) = 0" if "x \<in> set hs" for x
    using assms(2) [OF that] by (cases "claim_of x") (auto simp: res_at_def)
  then have "map (res_at q \<circ> claim_of) hs = map (\<lambda>_. 0) hs" by simp
  then have "(\<Sum>x\<leftarrow>claims hs. res_at q x) = 0" by (metis map_map sum_list_0)
  ultimately show "own reserved s q = 0" using b by (simp add: quota.backed_def)
qed

theorem quota_no_leak_witness:
  "case Pool_TryReserve two_level 1 40 of (Inr r, s) \<Rightarrow>
     reserved (pools s 0) = 40 \<and> reserved (pools (snd (Reservation_Commit s r 25)) 0) = 0 | _ \<Rightarrow> False"
proof -
  let ?r = "\<lparr>rpool = 1, ramount = 40, rdone = False\<rparr>"
  have "fst (Pool_TryReserve two_level 1 40) = Inr ?r" by code_simp
  then obtain s where tr: "Pool_TryReserve two_level 1 40 = (Inr ?r, s)"
    by (cases "Pool_TryReserve two_level 1 40") auto
  have s40: "reserved (pools (snd (Pool_TryReserve two_level 1 40)) 0) = 40" by code_simp
  have "qstep (two_level, []) (s, [] @ [HRes ?r])"
    using two_level_ok(2) by (intro qstep.reserve [OF _ _ tr] two_level_headroom) (auto simp: nonNeg_def)
  then have re: "qreach (s, [HRes ?r])" using qreach.step [OF two_level_reach] by simp
  have n: "next_pid s = 2"
    using TryReserve_InrD [OF tr] two_level_ok(2) by (auto simp: reserveUp_def split: prod.splits)
  have ok: "ledger_ok two_level" "1 < next_pid two_level" using two_level_ok by simp_all
  have sh: "shifted two_level 1 0 40 s"
    using TryReserve_InrD [OF tr] headroom_room [OF ok two_level_headroom, of 40 0 40]
    by (intro reserveUp_shift [OF ok]) (auto simp: nonNeg_def)
  have "tracked two_level 1 40 40 0 s" using sh by (simp add: tracked_def)
  then have hr: "headroom s 1 25" by (intro tracked_headroom [OF two_level_headroom [of 65]]) auto
  obtain r' s' where c: "Reservation_Commit s ?r 25 = (r', s')" by (cases "Reservation_Commit s ?r 25")
  have "qstep (s, [HRes ?r]) (s', [HRes ?r][0 := HRes r'])"
    using hr by (intro qstep.commit [OF _ _ _ c]) (auto simp: nonNeg_def)
  then have re': "qreach (s', [HRes r'])" using qreach.step [OF re] by simp
  have r': "rdone r'" "s' = commitReservation s 1 40 25" using c by (auto simp: Reservation_Commit_def nonNeg_def)
  have "0 < next_pid s'" using r'(2) n by (simp add: commitReservation_def withWaitLock_def commitUp_def Let_def)
  then have "reserved (pools s' 0) = 0" using quota_no_leak [OF re', of 0] r'(1) by simp
  with tr c s40 show ?thesis by simp
qed

end
