(* ===== verification/Reserve_Spec.thy ===== *)
theory Reserve_Spec
  imports Quota_System
begin

text \<open>
  What the ledger promises to one caller: the exact outcome of \<open>TryReserve\<close> in terms of the
  mathematical sums (where no counter leaves \<open>int64\<close>), the life of a reservation, the
  side-effect-free probe, the clamped releases, and the outcome of a reservation whose sum
  does leave \<open>int64\<close>.
\<close>

section \<open>Abstract specification\<close>

text \<open>A layer can take \<open>n\<close> more bytes: it is unlimited, or they fit below the limit less the operational
  reserve.\<close>

definition fits :: "pool \<Rightarrow> int \<Rightarrow> bool" where
  "fits pl n \<longleftrightarrow> 0 < maxBytes pl \<longrightarrow> committed pl + reserved pl + n \<le> usableLocked pl"

lemma over_limit_fits:
  assumes ok: "ledger_ok s" "p < next_pid s" and q: "q \<in> set (chain s p)" and n: "0 \<le> n" and hr: "headroom s p n"
  shows "over_limit (pools s q) n \<longleftrightarrow> \<not> fits (pools s q) n"
proof -
  have "0 \<le> committed (pools s q)" "0 \<le> reserved (pools s q)"
    using aggregatedD(1) [OF ledger_okD(2) [OF ok(1)] chain_below [OF ok(2) q]]
      aggregatedD(1) [OF ledger_okD(3) [OF ok(1)] chain_below [OF ok(2) q]] by simp_all
  moreover have "committed (pools s q) + reserved (pools s q) + n \<le> max_int64"
    using hr q by (simp add: headroom_def)
  ultimately have "wrap64 (wrap64 (committed (pools s q) + reserved (pools s q)) + n)
      = committed (pools s q) + reserved (pools s q) + n" using n by (simp add: wrap64_nonneg)
  then show ?thesis by (auto simp: over_limit_def fits_def)
qed

lemma reserveUp_spec:
  assumes ok: "ledger_ok s" "p < next_pid s" and n: "0 \<le> n" and hr: "headroom s p n"
  shows "reserveUp s p n = (if \<forall>q \<in> set (chain s p). fits (pools s q) n then (None, walk (add_reserved n) p s)
    else (Some ErrStorageFull, s))"
  using over_limit_fits [OF ok _ n hr] by (auto simp: reserveUp_eq [OF ok])

section \<open>Properties\<close>



text \<open>C15. The life of a reservation: a release gives the ledger back as it was before \<open>TryReserve\<close>; a
  commit of \<open>actual\<close> bytes leaves exactly \<open>actual\<close> more committed bytes on every layer and none of
  the reservation; and a second settlement of the same handle, whichever the two are, changes
  nothing.\<close>

theorem reservation_lifecycle:
  assumes "ledger_ok s" and "p < next_pid s" and "headroom s p (nonNeg n + nonNeg actual)"
    and "Pool_TryReserve s p n = (Inr r, s1)"
    and "Reservation_Commit s1 r actual = (rc, sc)" and "Reservation_Release s1 r = (rr, sr)"
  shows "pools sr = pools s \<and> shifted s p (nonNeg actual) 0 sc
    \<and> Reservation_Commit sc rc m = (rc, sc) \<and> Reservation_Release sc rc = (rc, sc)
    \<and> Reservation_Commit sr rr m = (rr, sr) \<and> Reservation_Release sr rr = (rr, sr)"
proof -
  from TryReserve_InrD [OF assms(4)] have res: "reserveUp s p (nonNeg n) = (None, s1)"
    and r: "r = \<lparr>rpool = p, ramount = nonNeg n, rdone = False\<rparr>" by auto
  have "room s p 0 (nonNeg n)" by (intro headroom_room [OF assms(1-3)]) auto
  then have sh: "shifted s p 0 (nonNeg n) s1" using res by (intro reserveUp_shift [OF assms(1,2)]) auto
  have tr: "tracked s p (nonNeg n) (nonNeg n) 0 s1" using sh by (simp add: tracked_def)
  note h = tracked_held [OF assms(1-3) _ tr]
  have ok1: "ledger_ok s1" "p < next_pid s1" and own: "nonNeg n \<le> own reserved s1 p" using h by auto
  have "headroom s1 p (nonNeg actual)" by (rule tracked_headroom [OF assms(3) tr]) simp
  then have rm: "room s1 p (nonNeg actual) 0" by (intro headroom_room [OF ok1]) auto
  have "shifted s1 p (nonNeg actual) (- nonNeg n) sc"
    using assms(5) commitReservation_shift [OF ok1 _ own _ rm] by (auto simp: Reservation_Commit_def r)
  from shifted_trans [OF sh this] have c: "shifted s p (nonNeg actual) 0 sc" by simp
  have "shifted s1 p 0 (- nonNeg n) sr"
    using assms(6) releaseReserve_exact [OF ok1 _ own] by (auto simp: Reservation_Release_def releaseReserve_def r)
  from shifted_trans [OF sh this] have "pools sr = pools s" by (auto dest: shifted_same)
  with c assms(5,6) show ?thesis by (auto simp: Reservation_Commit_def Reservation_Release_def r)
qed

theorem reservation_lifecycle_witness:
  "case Pool_TryReserve two_level 1 40 of (Inr r, s1) \<Rightarrow>
     pools (snd (Reservation_Release s1 r)) = pools two_level
     \<and> shifted two_level 1 25 0 (snd (Reservation_Commit s1 r 25)) | _ \<Rightarrow> False"
proof -
  have "fst (Pool_TryReserve two_level 1 40) = Inr \<lparr>rpool = 1, ramount = 40, rdone = False\<rparr>" by code_simp
  then obtain r s1 where tr: "Pool_TryReserve two_level 1 40 = (Inr r, s1)"
    by (cases "Pool_TryReserve two_level 1 40") auto
  obtain rc sc rr sr where c: "Reservation_Commit s1 r 25 = (rc, sc)" "Reservation_Release s1 r = (rr, sr)"
    by (cases "Reservation_Commit s1 r 25"; cases "Reservation_Release s1 r")
  show ?thesis
    using reservation_lifecycle [OF two_level_ok(1) _ two_level_headroom tr c] two_level_ok(2) tr c
    by (simp add: nonNeg_def)
qed

text \<open>The probe answers what \<open>TryReserve\<close> would and leaves every counter of the ledger unchanged.\<close>

theorem ProbeReserve_pure:
  assumes "ledger_ok s" and "p < next_pid s" and "headroom s p (nonNeg n)"
  shows "pools (snd (ProbeReserve s p n)) = pools s
    \<and> (fst (ProbeReserve s p n) = None \<longleftrightarrow> n \<le> 0 \<or> (\<forall>q \<in> set (chain s p). fits (pools s q) n))"
proof (cases "n \<le> 0")
  case True
  then show ?thesis by (simp add: ProbeReserve_def)
next
  case False
  then have n: "nonNeg n = n" "0 \<le> n" by (simp_all add: nonNeg_def)
  show ?thesis
  proof (cases "\<forall>q \<in> set (chain s p). fits (pools s q) n")
    case True
    let ?s1 = "walk (add_reserved n) p s"
    have res: "reserveUp s p n = (None, ?s1)" using reserveUp_spec [OF assms(1,2) n(2)] assms(3) True by (simp add: n)
    have "room s p 0 n" using n by (intro headroom_room [OF assms]) auto
    then have sh: "shifted s p 0 n ?s1" using res n by (intro reserveUp_shift [OF assms(1,2)]) auto
    have tr: "tracked s p n n 0 ?s1" using sh n by (simp add: tracked_def)
    have h: "ledger_ok ?s1" "p < next_pid ?s1" "n \<le> own reserved ?s1 p"
      using tracked_held [OF assms _ tr] n(1) by auto
    have "shifted ?s1 p 0 (- n) (releaseReserve ?s1 p n)" by (rule releaseReserve_exact [OF h(1,2) n(2) h(3)])
    from shifted_trans [OF sh this] have "pools (releaseReserve ?s1 p n) = pools s" by (auto dest: shifted_same)
    with False True res n show ?thesis
      by (simp add: ProbeReserve_def Scope_TryReserve_def Reservation_Release_def releaseReserve_def)
  next
    case no: False
    have "reserveUp s p n = (Some ErrStorageFull, s)"
      using reserveUp_spec [OF assms(1,2) n(2)] assms(3) no by (simp add: n)
    with False no n show ?thesis by (simp add: ProbeReserve_def Scope_TryReserve_def)
  qed
qed

theorem ProbeReserve_pure_witness:
  "fst (ProbeReserve two_level 1 60) = None \<and> pools (snd (ProbeReserve two_level 1 60)) = pools two_level
   \<and> fst (ProbeReserve two_level 1 61) \<noteq> None"
proof -
  have ok: "ledger_ok two_level" "1 < next_pid two_level" using two_level_ok by simp_all
  show ?thesis
    using ProbeReserve_pure [OF ok two_level_headroom, of 60] ProbeReserve_pure [OF ok two_level_headroom, of 61]
    by (simp add: two_level_eval fits_def usableLocked_def nonNeg_def wrap64_def)
qed

text \<open>The releases are clamped at the node they are called on and uniform above it: a release of more
  than the node records takes off what it records, from the node and from each of its ancestors
  alike, and never drives a counter below zero; an adjustment by a negative difference
  behaves the same, one by a positive difference adds it on every layer.\<close>

theorem releases_clamped:
  assumes "ledger_ok s" and "p < next_pid s" and "in64 (nxt - prev)" and "room s p (nxt - prev) 0"
  shows "shifted s p (- min (nonNeg n) (committed (pools s p))) 0 (ReleaseUsage s p n)
    \<and> shifted s p (- min (nonNeg n) (committed (pools s p))) 0 (ReleaseCommitted s p n)
    \<and> shifted s p 0 (- min (nonNeg n) (reserved (pools s p))) (releaseReserve s p n)
    \<and> shifted s p (max (nxt - prev) (- committed (pools s p))) 0 (Pool_Adjust s p prev nxt)
    \<and> (\<forall>q \<in> set (chain s p). min (nonNeg n) (committed (pools s p)) \<le> committed (pools s q)
        \<and> min (nonNeg n) (reserved (pools s p)) \<le> reserved (pools s q))"
proof -
  have c0: "0 \<le> committed (pools s p)" "0 \<le> reserved (pools s p)"
    using aggregatedD(1) [OF ledger_okD(2) [OF assms(1)] assms(2)]
      aggregatedD(1) [OF ledger_okD(3) [OF assms(1)] assms(2)] by simp_all
  then have t: "taken (committed (pools s p)) (nonNeg n) = min (nonNeg n) (committed (pools s p))"
    "taken (reserved (pools s p)) n = min (nonNeg n) (reserved (pools s p))"
    by (auto simp: taken_def nonNeg_def)
  have up: "min (nonNeg n) (committed (pools s p)) \<le> committed (pools s q)"
    "min (nonNeg n) (reserved (pools s p)) \<le> reserved (pools s q)" if "q \<in> set (chain s p)" for q
    using aggregated_chain_mono [OF ledger_okD(2,1) [OF assms(1)] assms(2) that]
      aggregated_chain_mono [OF ledger_okD(3,1) [OF assms(1)] assms(2) that] by linarith+
  show ?thesis
    using ReleaseUsage_shift [OF assms(1,2), of n] releaseReserve_shift [OF assms(1,2), of n] up
      Scope_Adjust_shift [OF assms(1,2), of nxt prev] assms(4)
    by (simp add: t ReleaseCommitted_def ReleaseUsage_def Pool_Adjust_def Scope_Adjust_def wrap64_id [OF assms(3)])
qed

theorem releases_clamped_witness:
  "shifted two_level 1 0 0 (ReleaseUsage two_level 1 7) \<and> shifted two_level 1 5 0 (Pool_Adjust two_level 1 3 8)"
  using releases_clamped [OF two_level_ok(1), of 1 8 3 7] two_level_ok(2)
  by (simp add: in64_def room_def two_level_eval nonNeg_def)

text \<open>The limit check overflows: on a tree in which every limited layer of the chain already
  counts at least one byte, \<open>TryReserve\<close> of the largest \<open>int64\<close> is granted whatever the limits
  are, because the sum it compares with the limit wraps to a negative number.\<close>

theorem TryReserve_overflow_accepted:
  assumes "ledger_ok s" and "p < next_pid s"
    and "\<And>q. q \<in> set (chain s p) \<Longrightarrow> 1 \<le> committed (pools s q) + reserved (pools s q)
      \<and> committed (pools s q) + reserved (pools s q) \<le> max_int64"
  shows "\<exists>s'. Pool_TryReserve s p max_int64 = (Inr \<lparr>rpool = p, ramount = max_int64, rdone = False\<rparr>, s')"
proof -
  have "\<not> over_limit (pools s q) max_int64" if "q \<in> set (chain s p)" for q
    using assms(3) [OF that] wrap64_over [of "committed (pools s q) + reserved (pools s q) + max_int64"]
    by (simp add: over_limit_def usableLocked_def)
  then have "fst (reserveUp s p max_int64) = None" by (simp add: reserveUp_eq [OF assms(1,2)])
  then show ?thesis by (cases "reserveUp s p max_int64") (auto simp: Pool_TryReserve_def nonNeg_def)
qed

theorem TryReserve_overflow_accepted_witness:
  "\<exists>s'. Pool_TryReserve (Scope_Adjust two_level 1 0 1) 1 max_int64
    = (Inr \<lparr>rpool = 1, ramount = max_int64, rdone = False\<rparr>, s')"
proof -
  let ?s = "Scope_Adjust two_level 1 0 1"
  have ok: "ledger_ok two_level" "1 < next_pid two_level" using two_level_ok by simp_all
  have w: "wrap64 (1 - 0) = 1" by (simp add: wrap64_def)
  have rm: "room two_level 1 1 0" using headroom_room [OF ok two_level_headroom, of 1 1 0] by simp
  have sh: "shifted two_level 1 1 0 ?s"
    using Scope_Adjust_shift [OF ok, of 1 0] rm unfolding w by (simp add: two_level_eval)
  have "qstep (two_level, []) (?s, [])"
    using ok by (intro qstep.adjust two_level_headroom)
      (auto simp: in64_def unclaimed_def aggregatedD(3) [OF ledger_okD(2)])
  from qreach_inv [OF qreach.step [OF two_level_reach this]] have "quota.backed ?s []" by (simp add: qinv_def)
  from quota.backed_inv [OF this] have "ledger_ok ?s" "1 < next_pid ?s" using shifted_next [OF sh] ok by simp_all
  then show ?thesis
    using shifted_sel(6,7) [OF sh] shifted_chain [OF sh]
    by (intro TryReserve_overflow_accepted) (auto simp: two_level_eval)
qed

end
