(* ===== verification/Waitq.thy ===== *)
theory Waitq
  imports Prelude "HOL-Library.Product_Lexorder" "HOL-Library.List_Lexorder" "HOL-Library.Char_ord"
begin

text \<open>
  The generic wait queue of \<open>pkg/waitq/waitq.go\<close>. A \<open>Resource\<close> is a record of its methods over the state
  \<open>'s\<close> of the world the resources live in; a request names a group of resources and an amount. A
  waiter's channel has capacity one, so it holds a wake-up token or none: \<open>chans\<close>, by the waiter's sequence
  number, which identifies the waiter (a goroutine keeps its channel after \<open>Close\<close> emptied the queue). Time
  is an argument. The blocking part of \<open>Acquire\<close> is \<open>waitAcquire\<close> over the list of what the \<open>select\<close> of the
  source receives, each event after an arbitrary action of the other goroutines.
\<close>

section \<open>Data\<close>

datatype wqerr = ErrInsufficient | ErrQueueFull | ErrTooLarge | ErrTimeout | ErrClosed | CtxErr
  | BadN | EmptyGroup | OtherErr

record 's resource =
  rname :: string
  rcap :: "'s \<Rightarrow> int"
  rused :: "'s \<Rightarrow> int"
  rtry :: "'s \<Rightarrow> int \<Rightarrow> wqerr option \<times> 's"
  rrel :: "'s \<Rightarrow> int \<Rightarrow> 's"

record 's request =
  qgroup :: "'s resource list"
  qN :: int
  qpriority :: int
  qtimeout :: int

record 's waiter =
  wreq :: "'s request"
  wseq :: nat
  wenq :: int

record wqstats =
  stWaiting :: nat
  stMaxWaiting :: nat
  stAcquired :: nat
  stTimedOut :: nat
  stCanceled :: nat
  stQueueFull :: nat
  stTooLarge :: nat
  stTotalWait :: int

record 's wqueue =
  waiters :: "'s waiter list"
  qseq :: nat
  stats :: wqstats
  closed :: bool
  chans :: "nat \<Rightarrow> bool"
  defaultWait :: int
  maxWaiters :: int
  ageBoost :: int

definition New :: "int \<Rightarrow> int \<Rightarrow> int \<Rightarrow> 's wqueue" where
  "New dw mw ab = \<lparr>waiters = [], qseq = 0,
     stats = \<lparr>stWaiting = 0, stMaxWaiting = 0, stAcquired = 0, stTimedOut = 0, stCanceled = 0, stQueueFull = 0,
       stTooLarge = 0, stTotalWait = 0\<rparr>,
     closed = False, chans = (\<lambda>_. False), defaultWait = dw, maxWaiters = mw, ageBoost = ab\<rparr>"

text \<open>A lease lists what was acquired; \<open>once\<close> is the flag.\<close>

record 's lease =
  lgot :: "('s resource \<times> int) list"
  ldone :: bool

definition release_back :: "'s \<Rightarrow> ('s resource \<times> int) list \<Rightarrow> 's" where
  "release_back s got = foldl (\<lambda>s (r, n). rrel r s n) s (rev got)"

definition Lease_Release :: "'s \<Rightarrow> 's lease \<Rightarrow> 's lease \<times> 's" where
  "Lease_Release s l = (if ldone l then (l, s) else (l\<lparr>ldone := True\<rparr>, release_back s (lgot l)))"

definition Lease_N :: "'s lease \<Rightarrow> int" where
  "Lease_N l = (case lgot l of [] \<Rightarrow> 0 | (r, n) # _ \<Rightarrow> n)"

section \<open>Operations\<close>

definition canNeverFit :: "'s \<Rightarrow> 's request \<Rightarrow> wqerr option" where
  "canNeverFit s req = (if \<exists>r \<in> set (qgroup req). 0 < rcap r s \<and> rcap r s < qN req then Some ErrTooLarge else None)"

fun tryAll_loop :: "'s \<Rightarrow> 's resource list \<Rightarrow> int \<Rightarrow> ('s resource \<times> int) list \<Rightarrow> (wqerr + 's lease) \<times> 's" where
  "tryAll_loop s [] n got = (Inr \<lparr>lgot = got, ldone = False\<rparr>, s)"
| "tryAll_loop s (r # rs) n got = (case rtry r s n of
     (Some e, s1) \<Rightarrow> (Inl e, release_back s1 got)
   | (None, s1) \<Rightarrow> tryAll_loop s1 rs n (got @ [(r, n)]))"

definition tryAll :: "'s \<Rightarrow> 's request \<Rightarrow> (wqerr + 's lease) \<times> 's" where
  "tryAll s req = tryAll_loop s (qgroup req) (qN req) []"

definition effectivePriority :: "int \<Rightarrow> 's wqueue \<Rightarrow> 's waiter \<Rightarrow> int" where
  "effectivePriority now q w =
     (if 0 < ageBoost q \<and> ageBoost q \<le> now - wenq w then qpriority (wreq w) + 1 else qpriority (wreq w))"

definition sortWaiters :: "int \<Rightarrow> 's wqueue \<Rightarrow> 's wqueue" where
  "sortWaiters now q = q\<lparr>waiters := sort_key (\<lambda>w. (- effectivePriority now q w, wseq w)) (waiters q)\<rparr>"

definition enqueue :: "int \<Rightarrow> 's wqueue \<Rightarrow> 's request \<Rightarrow> (wqerr + 's waiter) \<times> 's wqueue" where
  "enqueue now q req =
     (if closed q then (Inl ErrClosed, q)
      else if 0 < maxWaiters q \<and> maxWaiters q \<le> int (length (waiters q))
      then (Inl ErrQueueFull, q\<lparr>stats := (stats q)\<lparr>stQueueFull := Suc (stQueueFull (stats q))\<rparr>\<rparr>)
      else let k = Suc (qseq q); w = \<lparr>wreq = req, wseq = k, wenq = now\<rparr>;
               q1 = sortWaiters now (q\<lparr>waiters := waiters q @ [w], qseq := k, chans := (chans q)(k := False)\<rparr>);
               l = length (waiters q1)
           in (Inr w, q1\<lparr>stats := (stats q1)\<lparr>stWaiting := l, stMaxWaiting := max l (stMaxWaiting (stats q1))\<rparr>\<rparr>))"

fun remove_waiter :: "nat \<Rightarrow> 's waiter list \<Rightarrow> 's waiter list" where
  "remove_waiter k [] = []"
| "remove_waiter k (w # ws) = (if wseq w = k then ws else w # remove_waiter k ws)"

definition dequeue :: "'s wqueue \<Rightarrow> nat \<Rightarrow> 's wqueue" where
  "dequeue q k =
     (if \<exists>w \<in> set (waiters q). wseq w = k
      then q\<lparr>waiters := remove_waiter k (waiters q),
             stats := (stats q)\<lparr>stWaiting := length (remove_waiter k (waiters q))\<rparr>\<rparr>
      else q)"

definition canSatisfy :: "'s \<Rightarrow> 's waiter \<Rightarrow> bool" where
  "canSatisfy s w \<longleftrightarrow> (\<forall>r \<in> set (qgroup (wreq w)). \<not> (0 < rcap r s \<and> wrap64 (rcap r s - rused r s) < qN (wreq w)))"

definition groupHas :: "'s resource list \<Rightarrow> string \<Rightarrow> bool" where
  "groupHas g nm \<longleftrightarrow> (\<exists>r \<in> set g. rname r = nm)"

definition send :: "'s wqueue \<Rightarrow> nat \<Rightarrow> 's wqueue" where
  "send q k = q\<lparr>chans := (chans q)(k := True)\<rparr>"

fun notify_scan :: "'s \<Rightarrow> string \<Rightarrow> 's waiter list \<Rightarrow> 's wqueue \<Rightarrow> 's wqueue" where
  "notify_scan s nm [] q = q"
| "notify_scan s nm (w # ws) q =
     (if \<not> groupHas (qgroup (wreq w)) nm then notify_scan s nm ws q
      else if \<not> canSatisfy s w then notify_scan s nm ws q
      else send q (wseq w))"

definition Notify :: "'s \<Rightarrow> int \<Rightarrow> 's wqueue \<Rightarrow> 's resource \<Rightarrow> 's wqueue" where
  "Notify s now q res = (if closed q then q
     else let q1 = sortWaiters now q in notify_scan s (rname res) (waiters q1) q1)"

definition NotifyAll :: "'s \<Rightarrow> int \<Rightarrow> 's wqueue \<Rightarrow> 's wqueue" where
  "NotifyAll s now q = (if closed q then q
     else let q1 = sortWaiters now q
          in foldl (\<lambda>q w. if canSatisfy s w then send q (wseq w) else q) q1 (waiters q1))"

definition Waiting :: "'s wqueue \<Rightarrow> nat" where
  "Waiting q = length (waiters q)"

definition Close :: "'s wqueue \<Rightarrow> 's wqueue" where
  "Close q = (if closed q then q
     else foldl (\<lambda>q w. send q (wseq w))
       (q\<lparr>closed := True, waiters := [], stats := (stats q)\<lparr>stWaiting := 0\<rparr>\<rparr>) (waiters q))"

section \<open>Acquire\<close>

datatype 's entered = Refused wqerr | Granted "'s lease" | Waits "'s waiter"

definition sort_group :: "'s request \<Rightarrow> 's request" where
  "sort_group req = req\<lparr>qgroup := sort_key rname (qgroup req)\<rparr>"

text \<open>The part of \<open>AcquireUnder\<close> up to the wait: the fast attempt and the enqueueing, under the caller's lock.\<close>

definition AcquireUnder :: "'s \<Rightarrow> int \<Rightarrow> 's wqueue \<Rightarrow> 's request \<Rightarrow> 's entered \<times> 's \<times> 's wqueue" where
  "AcquireUnder s now q req0 =
     (if qN req0 \<le> 0 then (Refused BadN, s, q)
      else if qgroup req0 = [] then (Refused EmptyGroup, s, q)
      else let req = sort_group req0 in
        case canNeverFit s req of
          Some e \<Rightarrow> (Refused e, s, q\<lparr>stats := (stats q)\<lparr>stTooLarge := Suc (stTooLarge (stats q))\<rparr>\<rparr>)
        | None \<Rightarrow> (case tryAll s req of
            (Inr l, s1) \<Rightarrow> (Granted l, s1, q\<lparr>stats := (stats q)\<lparr>stAcquired := Suc (stAcquired (stats q))\<rparr>\<rparr>)
          | (Inl e, s1) \<Rightarrow> (if e \<noteq> ErrInsufficient then (Refused e, s1, q)
              else case enqueue now q req of
                (Inl e2, q1) \<Rightarrow> (Refused e2, s1, q1)
              | (Inr w, q1) \<Rightarrow> (Waits w, s1, q1))))"

datatype wevent = EvWake | EvTimeout | EvCancel

text \<open>One round of the \<open>select\<close>: \<open>None\<close> when the waiter goes on waiting. A wake-up needs the token; a
  timer runs only when the timeout is positive.\<close>

definition wait_round :: "'s \<Rightarrow> int \<Rightarrow> 's wqueue \<Rightarrow> 's waiter \<Rightarrow> int \<Rightarrow> int \<Rightarrow> wevent
    \<Rightarrow> (wqerr + 's lease) option \<times> 's \<times> 's wqueue" where
  "wait_round s now q w timeout start ev = (case ev of
     EvWake \<Rightarrow>
       (if \<not> chans q (wseq w) then (None, s, q)
        else let q0 = q\<lparr>chans := (chans q)(wseq w := False)\<rparr> in
          case tryAll s (wreq w) of
            (Inr l, s1) \<Rightarrow> (let q1 = dequeue q0 (wseq w) in
              (Some (Inr l), s1, q1\<lparr>stats := (stats q1)\<lparr>stAcquired := Suc (stAcquired (stats q1)),
                 stTotalWait := stTotalWait (stats q1) + (now - start)\<rparr>\<rparr>))
          | (Inl e, s1) \<Rightarrow>
              (if e \<noteq> ErrInsufficient then (Some (Inl e), s1, dequeue q0 (wseq w))
               else if closed q0 then (Some (Inl ErrClosed), s1, dequeue q0 (wseq w))
               else (None, s1, q0)))
   | EvTimeout \<Rightarrow>
       (if timeout \<le> 0 then (None, s, q)
        else let q1 = dequeue q (wseq w) in
          (Some (Inl ErrTimeout), s, q1\<lparr>stats := (stats q1)\<lparr>stTimedOut := Suc (stTimedOut (stats q1))\<rparr>\<rparr>))
   | EvCancel \<Rightarrow>
       (let q1 = dequeue q (wseq w) in
          (Some (Inl CtxErr), s, q1\<lparr>stats := (stats q1)\<lparr>stCanceled := Suc (stCanceled (stats q1))\<rparr>\<rparr>)))"

definition wait_timeout :: "'s wqueue \<Rightarrow> 's request \<Rightarrow> int" where
  "wait_timeout q req = (if qtimeout req = 0 then defaultWait q else qtimeout req)"

fun waitAcquire :: "'s \<Rightarrow> 's wqueue \<Rightarrow> 's waiter \<Rightarrow> int \<Rightarrow> int
    \<Rightarrow> (('s \<times> 's wqueue \<Rightarrow> 's \<times> 's wqueue) \<times> int \<times> wevent) list \<Rightarrow> (wqerr + 's lease) option \<times> 's \<times> 's wqueue" where
  "waitAcquire s q w timeout start [] = (None, s, q)"
| "waitAcquire s q w timeout start ((env, now, ev) # evs) = (case env (s, q) of
     (s0, q0) \<Rightarrow> (case wait_round s0 now q0 w timeout start ev of
       (Some res, s1, q1) \<Rightarrow> (Some res, s1, q1)
     | (None, s1, q1) \<Rightarrow> waitAcquire s1 q1 w timeout start evs))"

section \<open>The queue invariant\<close>

definition wq_ok :: "'s wqueue \<Rightarrow> bool" where
  "wq_ok q \<longleftrightarrow> distinct (map wseq (waiters q)) \<and> (\<forall>w \<in> set (waiters q). wseq w \<le> qseq q)
     \<and> (0 < maxWaiters q \<longrightarrow> int (length (waiters q)) \<le> maxWaiters q)
     \<and> stWaiting (stats q) = length (waiters q) \<and> stWaiting (stats q) \<le> stMaxWaiting (stats q)
     \<and> (closed q \<longrightarrow> waiters q = [])"

lemma sortWaiters_sel [simp]:
  "set (waiters (sortWaiters now q)) = set (waiters q)" "length (waiters (sortWaiters now q)) = length (waiters q)"
  "qseq (sortWaiters now q) = qseq q" "stats (sortWaiters now q) = stats q" "closed (sortWaiters now q) = closed q"
  "chans (sortWaiters now q) = chans q" "maxWaiters (sortWaiters now q) = maxWaiters q"
  "ageBoost (sortWaiters now q) = ageBoost q" "defaultWait (sortWaiters now q) = defaultWait q"
  by (simp_all add: sortWaiters_def)

lemma sortWaiters_distinct [simp]:
  "distinct (map wseq (waiters (sortWaiters now q))) = distinct (map wseq (waiters q))"
  by (simp add: sortWaiters_def distinct_map)

lemma sortWaiters_Nil [simp]: "waiters (sortWaiters now q) = [] \<longleftrightarrow> waiters q = []"
  unfolding length_0_conv [symmetric] by simp

lemma sortWaiters_ok [simp]: "wq_ok (sortWaiters now q) = wq_ok q"
  by (simp add: wq_ok_def)

lemma send_sel [simp]:
  "waiters (send q k) = waiters q" "qseq (send q k) = qseq q" "stats (send q k) = stats q" "closed (send q k) = closed q"
  "maxWaiters (send q k) = maxWaiters q" "ageBoost (send q k) = ageBoost q" "chans (send q k) = (chans q)(k := True)"
  by (simp_all add: send_def)

lemma send_ok [simp]: "wq_ok (send q k) = wq_ok q"
  by (simp add: wq_ok_def)

lemma effectivePriority_cong: "ageBoost q' = ageBoost q \<Longrightarrow> effectivePriority now q' = effectivePriority now q"
  by (simp add: effectivePriority_def fun_eq_iff)

text \<open>The queue order: higher effective priority first, then first come first served.\<close>

definition precedes :: "int \<Rightarrow> 's wqueue \<Rightarrow> 's waiter \<Rightarrow> 's waiter \<Rightarrow> bool" where
  "precedes now q v w \<longleftrightarrow> effectivePriority now q w < effectivePriority now q v
     \<or> (effectivePriority now q w = effectivePriority now q v \<and> wseq v \<le> wseq w)"

lemma sortWaiters_sorted: "sorted_wrt (precedes now q) (waiters (sortWaiters now q))"
proof -
  have "sorted_wrt (\<lambda>v w. (- effectivePriority now q v, wseq v) \<le> (- effectivePriority now q w, wseq w))
      (waiters (sortWaiters now q))"
    using sorted_sort_key [of "\<lambda>w. (- effectivePriority now q w, wseq w)" "waiters q"]
    by (simp add: sortWaiters_def sorted_map)
  then show ?thesis by (rule sorted_wrt_mono_rel [rotated]) (auto simp: precedes_def)
qed

lemma foldl_send:
  "chans (foldl (\<lambda>q w. if P w then send q (wseq w) else q) q ws) k
     = (chans q k \<or> (\<exists>w \<in> set ws. P w \<and> wseq w = k))"
  "waiters (foldl (\<lambda>q w. if P w then send q (wseq w) else q) q ws) = waiters q"
  "wq_ok (foldl (\<lambda>q w. if P w then send q (wseq w) else q) q ws) = wq_ok q"
  "closed (foldl (\<lambda>q w. if P w then send q (wseq w) else q) q ws) = closed q"
  "qseq (foldl (\<lambda>q w. if P w then send q (wseq w) else q) q ws) = qseq q"
  by (induction ws arbitrary: q) auto

lemma NotifyAll_sel:
  "chans (NotifyAll s now q) k = (chans q k \<or> (\<not> closed q \<and> (\<exists>w \<in> set (waiters q). canSatisfy s w \<and> wseq w = k)))"
  "set (waiters (NotifyAll s now q)) = set (waiters q)" "wq_ok (NotifyAll s now q) = wq_ok q"
  "closed (NotifyAll s now q) = closed q" "qseq (NotifyAll s now q) = qseq q"
  by (simp_all add: NotifyAll_def Let_def foldl_send)

lemma notify_scan_sel:
  "waiters (notify_scan s nm ws q) = waiters q" "closed (notify_scan s nm ws q) = closed q"
  "qseq (notify_scan s nm ws q) = qseq q" "wq_ok (notify_scan s nm ws q) = wq_ok q"
  by (induction ws) simp_all

lemma notify_scan_first:
  assumes "sorted_wrt P ws" and "\<And>w. P w w"
  shows "(\<forall>w \<in> set ws. groupHas (qgroup (wreq w)) nm \<longrightarrow> \<not> canSatisfy s w) \<and> chans (notify_scan s nm ws q) = chans q
    \<or> (\<exists>w \<in> set ws. groupHas (qgroup (wreq w)) nm \<and> canSatisfy s w \<and> chans (notify_scan s nm ws q) = (chans q)(wseq w := True)
      \<and> (\<forall>v \<in> set ws. groupHas (qgroup (wreq v)) nm \<and> canSatisfy s v \<longrightarrow> P w v))"
  using assms(1)
proof (induction ws)
  case (Cons w ws)
  show ?case
  proof (cases "groupHas (qgroup (wreq w)) nm \<and> canSatisfy s w")
    case True
    then show ?thesis using Cons.prems assms(2) by auto
  next
    case False
    then have "notify_scan s nm (w # ws) q = notify_scan s nm ws q" by auto
    with Cons False show ?thesis by auto
  qed
qed simp

lemma remove_waiter_props:
  "set (remove_waiter k ws) \<subseteq> set ws" "length (remove_waiter k ws) \<le> length ws"
  "distinct (map wseq ws) \<Longrightarrow> set (remove_waiter k ws) = {w \<in> set ws. wseq w \<noteq> k}"
  "distinct (map wseq ws) \<Longrightarrow> distinct (map wseq (remove_waiter k ws))"
proof -
  show sub: "set (remove_waiter k ws) \<subseteq> set ws" for ws by (induction ws) auto
  show "length (remove_waiter k ws) \<le> length ws" by (induction ws) auto
  show "distinct (map wseq ws) \<Longrightarrow> set (remove_waiter k ws) = {w \<in> set ws. wseq w \<noteq> k}"
    by (induction ws) (auto simp: image_iff)
  show "distinct (map wseq ws) \<Longrightarrow> distinct (map wseq (remove_waiter k ws))"
    using sub by (induction ws) auto
qed

lemma dequeue_ok:
  assumes "wq_ok q"
  shows "wq_ok (dequeue q k)" and "set (waiters (dequeue q k)) = {w \<in> set (waiters q). wseq w \<noteq> k}"
    and "chans (dequeue q k) = chans q" and "closed (dequeue q k) = closed q" and "qseq (dequeue q k) = qseq q"
proof -
  have d: "distinct (map wseq (waiters q))" using assms by (simp add: wq_ok_def)
  show "set (waiters (dequeue q k)) = {w \<in> set (waiters q). wseq w \<noteq> k}"
    using remove_waiter_props(3) [OF d] by (auto simp: dequeue_def)
  show "wq_ok (dequeue q k)"
    using assms remove_waiter_props(1,2) [of k "waiters q"] remove_waiter_props(4) [OF d, of k]
    by (auto simp: dequeue_def wq_ok_def)
  show "chans (dequeue q k) = chans q" "closed (dequeue q k) = closed q" "qseq (dequeue q k) = qseq q"
    by (simp_all add: dequeue_def)
qed

lemma enqueue_ok:
  assumes ok: "wq_ok q" and e: "enqueue now q req = (Inr w, q')"
  shows "wq_ok q'" and "set (waiters q') = insert w (set (waiters q))" and "w = \<lparr>wreq = req, wseq = Suc (qseq q), wenq = now\<rparr>"
    and "qseq q' = Suc (qseq q)" and "chans q' = (chans q)(Suc (qseq q) := False)" and "\<not> closed q'" and "\<not> closed q"
    and "sorted_wrt (precedes now q') (waiters q')"
proof -
  let ?w = "\<lparr>wreq = req, wseq = Suc (qseq q), wenq = now\<rparr>"
  let ?q = "q\<lparr>waiters := waiters q @ [?w], qseq := Suc (qseq q), chans := (chans q)(Suc (qseq q) := False)\<rparr>"
  from e have nc: "\<not> closed q" and sp: "\<not> (0 < maxWaiters q \<and> maxWaiters q \<le> int (length (waiters q)))" and w: "w = ?w"
    and q': "q' = (sortWaiters now ?q)\<lparr>stats := (stats q)\<lparr>stWaiting := Suc (length (waiters q)),
      stMaxWaiting := max (Suc (length (waiters q))) (stMaxWaiting (stats q))\<rparr>\<rparr>"
    by (auto simp: enqueue_def Let_def split: if_splits)
  show "w = ?w" by (rule w)
  have new: "Suc (qseq q) \<notin> wseq ` set (waiters q)" using ok by (auto simp: wq_ok_def)
  have "wq_ok ((sortWaiters now ?q)\<lparr>stats := (stats q)\<lparr>stWaiting := Suc (length (waiters q)),
      stMaxWaiting := max (Suc (length (waiters q))) (stMaxWaiting (stats q))\<rparr>\<rparr>)"
    unfolding wq_ok_def using ok nc sp new by (auto simp: wq_ok_def)
  then show "wq_ok q'" by (simp add: q')
  show "set (waiters q') = insert w (set (waiters q))" "qseq q' = Suc (qseq q)"
    "chans q' = (chans q)(Suc (qseq q) := False)" "\<not> closed q'" "\<not> closed q" using nc by (simp_all add: q' w)
  have "effectivePriority now q' = effectivePriority now ?q" by (rule effectivePriority_cong) (simp add: q')
  then have "precedes now q' = precedes now ?q" by (simp add: precedes_def fun_eq_iff)
  then show "sorted_wrt (precedes now q') (waiters q')" using sortWaiters_sorted [of now ?q] by (simp add: q')
qed

lemma Close_sel:
  assumes "wq_ok q"
  shows "waiters (Close q) = []" "closed (Close q)" "wq_ok (Close q)"
    "chans (Close q) k = (chans q k \<or> (\<exists>w \<in> set (waiters q). wseq w = k))" "qseq (Close q) = qseq q"
  using foldl_send [of "\<lambda>_. True" "q\<lparr>closed := True, waiters := [], stats := (stats q)\<lparr>stWaiting := 0\<rparr>\<rparr>" "waiters q"] assms
  by (auto simp: Close_def wq_ok_def)

section \<open>Group acquisition\<close>

text \<open>What the \<open>Resource\<close> interface asks of an implementation: a failed attempt changes nothing, a release right
  after an acquisition undoes it.\<close>

definition lifo :: "'s resource \<Rightarrow> bool" where
  "lifo r \<longleftrightarrow> (\<forall>s n. (case rtry r s n of (Some e, s') \<Rightarrow> s' = s | (None, s') \<Rightarrow> rrel r s' n = s))"

lemma lifoD:
  assumes "lifo r"
  shows "rtry r s n = (Some e, s') \<Longrightarrow> s' = s" and "rtry r s n = (None, s') \<Longrightarrow> rrel r s' n = s"
  using assms by (auto simp: lifo_def split: prod.splits option.splits)

lemma release_back_snoc: "release_back s (got @ [(r, n)]) = release_back (rrel r s n) got"
  by (simp add: release_back_def)

lemma tryAll_loop_spec:
  assumes "\<forall>r \<in> set rs. lifo r" and "tryAll_loop s rs n got = (res, s')"
  shows "case res of Inl e \<Rightarrow> s' = release_back s got
    | Inr l \<Rightarrow> lgot l = got @ map (\<lambda>r. (r, n)) rs \<and> \<not> ldone l \<and> release_back s' (lgot l) = release_back s got"
  using assms
proof (induction rs arbitrary: s got)
  case (Cons r rs)
  obtain o1 s1 where t: "rtry r s n = (o1, s1)" by (cases "rtry r s n")
  have l: "lifo r" using Cons.prems(1) by simp
  show ?case
  proof (cases o1)
    case None
    then have "tryAll_loop s1 rs n (got @ [(r, n)]) = (res, s')" using Cons.prems(2) t by simp
    from Cons.IH [OF _ this] Cons.prems(1) lifoD(2) [OF l] t None show ?thesis
      by (auto simp: release_back_snoc split: sum.splits)
  next
    case (Some e)
    then show ?thesis using Cons.prems(2) t lifoD(1) [OF l, of s n e s1] by auto
  qed
qed auto

section \<open>Histories of a queue\<close>

text \<open>Every call on a queue, in any order, on any state of the resources.\<close>

inductive wq_reach :: "'s wqueue \<Rightarrow> bool" where
  new: "wq_reach (New dw mw ab)"
| acquire: "wq_reach q \<Longrightarrow> AcquireUnder s now q req = (res, s', q') \<Longrightarrow> wq_reach q'"
| round: "wq_reach q \<Longrightarrow> wait_round s now q w timeout start ev = (res, s', q') \<Longrightarrow> wq_reach q'"
| notify: "wq_reach q \<Longrightarrow> wq_reach (Notify s now q r)"
| notify_all: "wq_reach q \<Longrightarrow> wq_reach (NotifyAll s now q)"
| close: "wq_reach q \<Longrightarrow> wq_reach (Close q)"

lemma wq_ok_stats:
  "wq_ok q \<Longrightarrow> stWaiting st = stWaiting (stats q) \<Longrightarrow> stMaxWaiting st = stMaxWaiting (stats q) \<Longrightarrow> wq_ok (q\<lparr>stats := st\<rparr>)"
  by (simp add: wq_ok_def)

lemma enqueue_keeps: "wq_ok q \<Longrightarrow> enqueue now q req = (res, q') \<Longrightarrow> wq_ok q'"
  using enqueue_ok(1) [of q now req] by (cases res) (auto simp: enqueue_def Let_def split: if_splits intro: wq_ok_stats)

lemma AcquireUnder_keeps:
  assumes "wq_ok q" and "AcquireUnder s now q req = (res, s', q')"
  shows "wq_ok q'"
proof -
  consider "q' = q" | "q' = q\<lparr>stats := (stats q)\<lparr>stTooLarge := Suc (stTooLarge (stats q))\<rparr>\<rparr>"
    | "q' = q\<lparr>stats := (stats q)\<lparr>stAcquired := Suc (stAcquired (stats q))\<rparr>\<rparr>"
    | e where "enqueue now q (sort_group req) = (e, q')"
    using assms(2) by (auto simp: AcquireUnder_def Let_def split: if_splits option.splits prod.splits sum.splits)
  then show ?thesis using assms(1) enqueue_keeps by cases (auto intro: wq_ok_stats)
qed

lemma wait_round_keeps:
  assumes "wq_ok q" and "wait_round s now q w timeout start ev = (res, s', q')"
  shows "wq_ok q'"
proof -
  let ?q0 = "q\<lparr>chans := (chans q)(wseq w := False)\<rparr>"
  have ok0: "wq_ok ?q0" using assms(1) by (simp add: wq_ok_def)
  note d = dequeue_ok(1) [OF assms(1), of "wseq w"] dequeue_ok(1) [OF ok0, of "wseq w"]
  show ?thesis
    using assms ok0 d
    by (cases ev) (auto simp: wait_round_def Let_def split: if_splits prod.splits sum.splits intro: wq_ok_stats)
qed

lemma wq_reach_ok: "wq_reach q \<Longrightarrow> wq_ok q"
proof (induction rule: wq_reach.induct)
  case (new dw mw ab)
  show ?case by (simp add: New_def wq_ok_def)
next
  case (notify q s now r)
  then show ?case by (simp add: Notify_def Let_def notify_scan_sel)
qed (auto intro: AcquireUnder_keeps wait_round_keeps simp: NotifyAll_sel Close_sel)

section \<open>Properties\<close>

text \<open>Acquiring a group is all-or-nothing: an attempt that fails at any member leaves the resources as they
  were, and one that succeeds holds every member once and gives everything back on its first
  \<open>Release\<close>, nothing on the second.\<close>

theorem tryAll_atomic:
  assumes "\<forall>r \<in> set (qgroup req). lifo r" and "tryAll s req = (res, s')"
  shows "case res of Inl e \<Rightarrow> s' = s
    | Inr l \<Rightarrow> map fst (lgot l) = qgroup req \<and> (\<forall>l1 s1. Lease_Release s' l = (l1, s1) \<longrightarrow> s1 = s \<and> Lease_Release s1 l1 = (l1, s1))"
  using tryAll_loop_spec [OF assms(1), of s "qN req" "[]" res s'] assms(2)
  by (auto simp: tryAll_def Lease_Release_def release_back_def comp_def split: sum.splits)

definition slots :: "string \<Rightarrow> int \<Rightarrow> int resource" where
  "slots nm cap = \<lparr>rname = nm, rcap = (\<lambda>_. cap), rused = (\<lambda>s. s),
     rtry = (\<lambda>s n. if s + n \<le> cap then (None, s + n) else (Some ErrInsufficient, s)), rrel = (\<lambda>s n. s - n)\<rparr>"

lemma slots_lifo: "lifo (slots nm cap)"
  by (simp add: lifo_def slots_def)

theorem tryAll_atomic_witness:
  "case tryAll 0 \<lparr>qgroup = [slots ''a'' 5, slots ''b'' 4], qN = 3, qpriority = 1, qtimeout = 0\<rparr> of
     (Inl e, s') \<Rightarrow> s' = 0 | (Inr l, s') \<Rightarrow> False"
proof -
  let ?req = "\<lparr>qgroup = [slots ''a'' 5, slots ''b'' 4], qN = 3, qpriority = 1, qtimeout = 0\<rparr>"
  obtain e s' where r: "tryAll 0 ?req = (Inl e, s')"
    by (simp add: tryAll_def slots_def release_back_def)
  from tryAll_atomic [OF _ r] show ?thesis using r by (simp add: slots_lifo)
qed

text \<open>The queue is bounded and its books are right in every history: waiters have distinct sequence numbers,
  their count never exceeds \<open>MaxWaiters\<close> when it is set, the statistics report the count, and a closed
  queue is empty.\<close>

theorem queue_bounded:
  assumes "wq_reach q"
  shows "distinct (map wseq (waiters q)) \<and> (0 < maxWaiters q \<longrightarrow> int (Waiting q) \<le> maxWaiters q)
    \<and> stWaiting (stats q) = Waiting q \<and> stWaiting (stats q) \<le> stMaxWaiting (stats q) \<and> (closed q \<longrightarrow> Waiting q = 0)"
  using wq_reach_ok [OF assms] by (auto simp: wq_ok_def Waiting_def)

definition slot_req :: "int \<Rightarrow> int \<Rightarrow> int request" where
  "slot_req cap n = \<lparr>qgroup = [slots ''slots'' cap], qN = n, qpriority = 1, qtimeout = 0\<rparr>"

text \<open>Two waiters of one slot each, on a resource of two slots, both taken.\<close>

definition two_waiters :: "int wqueue" where
  "two_waiters = snd (snd (AcquireUnder 2 0 (snd (snd (AcquireUnder 2 0 (New 30 2 0) (slot_req 2 1)))) (slot_req 2 1)))"

lemma two_waiters_reach: "wq_reach two_waiters"
proof -
  have step: "wq_reach (snd (snd (AcquireUnder s now q req)))" if "wq_reach q" for s now req and q :: "int wqueue"
    by (cases "AcquireUnder s now q req") (auto intro: wq_reach.acquire [OF that])
  show ?thesis unfolding two_waiters_def by (intro step wq_reach.new)
qed

theorem queue_bounded_witness:
  "Waiting two_waiters = 2 \<and> stWaiting (stats two_waiters) = Waiting two_waiters
   \<and> fst (AcquireUnder 2 0 two_waiters (slot_req 2 1)) = Refused ErrQueueFull"
proof -
  have "Waiting two_waiters = 2"
    "(case fst (AcquireUnder 2 0 two_waiters (slot_req 2 1)) of Refused e \<Rightarrow> e = ErrQueueFull | _ \<Rightarrow> False)" by code_simp+
  with queue_bounded [OF two_waiters_reach] show ?thesis
    by (cases "fst (AcquireUnder 2 0 two_waiters (slot_req 2 1))") auto
qed

text \<open>Wake-ups are exact: \<open>NotifyAll\<close> leaves a token with precisely the waiters that had one or whose request
  the free amounts can satisfy; \<open>Notify\<close> leaves at most one new token, with the waiter of
  highest effective priority and earliest arrival among those that wait for the resource and can be satisfied,
  and none when there is no such waiter.\<close>

theorem wakeups_exact:
  assumes "\<not> closed q"
  shows "(\<forall>k. chans (NotifyAll s now q) k \<longleftrightarrow> chans q k \<or> (\<exists>w \<in> set (waiters q). canSatisfy s w \<and> wseq w = k))
    \<and> ((\<forall>w \<in> set (waiters q). groupHas (qgroup (wreq w)) (rname r) \<longrightarrow> \<not> canSatisfy s w) \<and> chans (Notify s now q r) = chans q
      \<or> (\<exists>w \<in> set (waiters q). groupHas (qgroup (wreq w)) (rname r) \<and> canSatisfy s w
          \<and> chans (Notify s now q r) = (chans q)(wseq w := True)
          \<and> (\<forall>v \<in> set (waiters q). groupHas (qgroup (wreq v)) (rname r) \<and> canSatisfy s v \<longrightarrow> precedes now q w v)))"
proof -
  have "precedes now q w w" for w by (simp add: precedes_def)
  from notify_scan_first [of "precedes now q" "waiters (sortWaiters now q)", OF sortWaiters_sorted this, of "rname r" s "sortWaiters now q"]
  show ?thesis
    using assms by (simp add: NotifyAll_sel Notify_def Let_def)
qed

theorem wakeups_exact_witness:
  "chans (NotifyAll 1 0 two_waiters) 1 \<and> chans (NotifyAll 1 0 two_waiters) 2 \<and> \<not> chans (NotifyAll 2 0 two_waiters) 1
   \<and> chans (Notify 1 0 two_waiters (slots ''slots'' 2)) = (chans two_waiters)(1 := True)"
proof -
  have w: "map wseq (waiters two_waiters) = [1, 2]" "list_all (canSatisfy 1) (waiters two_waiters)"
    "\<not> list_ex (canSatisfy 2) (waiters two_waiters)"
    "list_all (\<lambda>w. groupHas (qgroup (wreq w)) ''slots'') (waiters two_waiters)" "\<not> closed two_waiters"
    "\<not> chans two_waiters 1" "list_all (\<lambda>w. effectivePriority 0 two_waiters w = 1) (waiters two_waiters)" by code_simp+
  then obtain v w where ws: "waiters two_waiters = [v, w]" "wseq v = 1" "wseq w = 2" by auto
  have nm: "rname (slots ''slots'' 2) = ''slots''" by (simp add: slots_def)
  show ?thesis
    using wakeups_exact [OF w(5), of 1 0 "slots ''slots'' 2"] wakeups_exact [OF w(5), of 2 0 "slots ''slots'' 2"] w(2-4,6,7)
    by (simp add: ws nm precedes_def)
qed

text \<open>\<open>Notify\<close> can lose a wake-up: with two waiters of one slot each, two releases each followed by \<open>Notify\<close> wake
  only the first waiter (the second call finds its token still pending and stops); when that
  waiter has taken its slot, the other slot is free and the second waiter has no token.\<close>

lemma Notify_coalesces:
  "let q1 = Notify 1 0 two_waiters (slots ''slots'' 2); q2 = Notify 0 0 q1 (slots ''slots'' 2);
       (res, s3, q3) = wait_round 0 0 q2 \<lparr>wreq = slot_req 2 1, wseq = 1, wenq = 0\<rparr> 30 0 EvWake
   in s3 = 1 \<and> map wseq (waiters q3) = [2] \<and> \<not> chans q3 2 \<and> list_all (canSatisfy s3) (waiters q3)"
proof -
  have "fst (snd (wait_round 0 0 (Notify 0 0 (Notify 1 0 two_waiters (slots ''slots'' 2)) (slots ''slots'' 2))
      \<lparr>wreq = slot_req 2 1, wseq = 1, wenq = 0\<rparr> 30 0 EvWake)) = 1"
    "(case wait_round 0 0 (Notify 0 0 (Notify 1 0 two_waiters (slots ''slots'' 2)) (slots ''slots'' 2))
      \<lparr>wreq = slot_req 2 1, wseq = 1, wenq = 0\<rparr> 30 0 EvWake of (res, s3, q3) \<Rightarrow>
        map wseq (waiters q3) = [2] \<and> \<not> chans q3 2 \<and> list_all (canSatisfy 1) (waiters q3))" by code_simp+
  then show ?thesis by (auto simp: Let_def)
qed

end
