(* ===== verification/Wakeups.thy ===== *)
theory Wakeups
  imports Waitq
begin

text \<open>
  Waiters and releasers together: the concurrent use of one wait queue by goroutines that acquire through it, use
  resources past it, and release. The fast attempt and the enqueueing are one step (both run under
  the lock that \<open>AcquireUnder\<close> is given); a release changes the resources under the same lock and calls \<open>NotifyAll\<close>
  only after it, so a state also counts the notifications still to come. The locale \<open>wakeable\<close> states what a
  resource adapter promises; for any such adapter a waiter that sleeps without a token, with no
  notification on its way, could not have been served.
\<close>

type_synonym 's room_state = "'s \<times> 's wqueue \<times> nat"

inductive wstep :: "'s resource set \<Rightarrow> ('s \<Rightarrow> 's resource \<Rightarrow> int \<Rightarrow> bool) \<Rightarrow> ('s \<Rightarrow> 's \<Rightarrow> bool) \<Rightarrow> ('s \<Rightarrow> bool)
    \<Rightarrow> 's room_state \<Rightarrow> 's room_state \<Rightarrow> bool"
  for R safe uses ok where
  enter: "qgroup req = [r] \<Longrightarrow> r \<in> R \<Longrightarrow> safe s r (qN req) \<Longrightarrow> AcquireUnder s now q req = (res, s', q')
    \<Longrightarrow> wstep R safe uses ok (s, q, k) (s', q', k)"
| round: "w \<in> set (waiters q) \<or> closed q \<Longrightarrow> qgroup (wreq w) = [r] \<Longrightarrow> r \<in> R \<Longrightarrow> 0 < qN (wreq w) \<Longrightarrow> safe s r (qN (wreq w))
    \<Longrightarrow> wait_round s now q w timeout start ev = (res, s', q') \<Longrightarrow> wstep R safe uses ok (s, q, k) (s', q', k)"
| consume: "uses s s' \<Longrightarrow> wstep R safe uses ok (s, q, k) (s', q, k)"
| free: "ok s' \<Longrightarrow> wstep R safe uses ok (s, q, k) (s', q, Suc k)"
| notify_all: "wstep R safe uses ok (s, q, Suc k) (s, NotifyAll s now q, k)"
| close: "wstep R safe uses ok (s, q, k) (s, Close q, k)"

inductive wreach :: "'s resource set \<Rightarrow> ('s \<Rightarrow> 's resource \<Rightarrow> int \<Rightarrow> bool) \<Rightarrow> ('s \<Rightarrow> 's \<Rightarrow> bool) \<Rightarrow> ('s \<Rightarrow> bool)
    \<Rightarrow> 's room_state \<Rightarrow> bool"
  for R safe uses ok where
  start: "ok s \<Longrightarrow> wreach R safe uses ok (s, New dw mw ab, 0)"
| step: "wreach R safe uses ok a \<Longrightarrow> wstep R safe uses ok a b \<Longrightarrow> wreach R safe uses ok b"

lemma tryAll_single:
  assumes "qgroup req = [r]" and "rtry r s (qN req) = (e, s1)"
  shows "tryAll s req = (case e of None \<Rightarrow> Inr \<lparr>lgot = [(r, qN req)], ldone = False\<rparr> | Some x \<Rightarrow> Inl x, s1)"
  using assms by (auto simp: tryAll_def release_back_def split: option.splits)

lemma sort_group_single: "qgroup req = [r] \<Longrightarrow> sort_group req = req"
  by (simp add: sort_group_def)

lemma AcquireUnder_single:
  assumes g: "qgroup req = [r]"
  shows "AcquireUnder s now q req =
     (if qN req \<le> 0 then (Refused BadN, s, q)
      else case canNeverFit s req of
          Some e \<Rightarrow> (Refused e, s, q\<lparr>stats := (stats q)\<lparr>stTooLarge := Suc (stTooLarge (stats q))\<rparr>\<rparr>)
        | None \<Rightarrow> (case rtry r s (qN req) of
            (None, s1) \<Rightarrow> (Granted \<lparr>lgot = [(r, qN req)], ldone = False\<rparr>, s1,
               q\<lparr>stats := (stats q)\<lparr>stAcquired := Suc (stAcquired (stats q))\<rparr>\<rparr>)
          | (Some e, s1) \<Rightarrow> (if e \<noteq> ErrInsufficient then (Refused e, s1, q)
              else case enqueue now q req of
                (Inl e2, q1) \<Rightarrow> (Refused e2, s1, q1)
              | (Inr w, q1) \<Rightarrow> (Waits w, s1, q1))))"
  unfolding AcquireUnder_def Let_def sort_group_single [OF g]
  using g by (auto simp: tryAll_def release_back_def split: option.splits prod.splits)

lemma AcquireUnder_waits:
  assumes "qgroup req = [r]" and "AcquireUnder s now q req = (Waits x, s', q')"
  shows "0 < qN req" and "enqueue now q req = (Inr x, q')" and "rtry r s (qN req) = (Some ErrInsufficient, s')"
  using assms(2) by (auto simp: AcquireUnder_single [OF assms(1)] split: if_splits option.splits prod.splits sum.splits)

text \<open>A round that finds no token touches neither the resources nor the tokens; one that does is the retry.\<close>

lemma wait_round_idle:
  assumes "wait_round s now q w timeout start ev = (res, s', q')" and "\<not> (ev = EvWake \<and> chans q (wseq w))"
  shows "s' = s \<and> (waiters q' = waiters q \<or> waiters q' = waiters (dequeue q (wseq w))) \<and> chans q' = chans q"
proof (cases ev)
  case EvWake
  then show ?thesis using assms by (simp add: wait_round_def)
next
  case EvTimeout
  then show ?thesis using assms by (simp add: wait_round_def Let_def dequeue_def split: if_splits) auto
next
  case EvCancel
  then show ?thesis using assms by (simp add: wait_round_def Let_def dequeue_def split: if_splits) auto
qed

lemma wait_round_retry:
  assumes "wait_round s now q w timeout start EvWake = (res, s', q')" and "chans q (wseq w)"
    and "qgroup (wreq w) = [r]" and "rtry r s (qN (wreq w)) = (e, s1)"
  shows "s' = s1 \<and> chans q' = (chans q)(wseq w := False)
    \<and> (waiters q' = waiters q \<and> e = Some ErrInsufficient \<or> waiters q' = waiters (dequeue (q\<lparr>chans := (chans q)(wseq w := False)\<rparr>) (wseq w)))"
  using assms(1,2) tryAll_single [OF assms(3,4)]
  by (simp add: wait_round_def Let_def dequeue_def split: option.splits if_splits) auto

locale wakeable =
  fixes R :: "'s resource set" and safe :: "'s \<Rightarrow> 's resource \<Rightarrow> int \<Rightarrow> bool" and uses :: "'s \<Rightarrow> 's \<Rightarrow> bool"
    and ok :: "'s \<Rightarrow> bool" and fits :: "'s \<Rightarrow> 's resource \<Rightarrow> int \<Rightarrow> bool"
  assumes try_exact: "r \<in> R \<Longrightarrow> ok s \<Longrightarrow> safe s r n \<Longrightarrow> 0 < n \<Longrightarrow> rtry r s n = (e, s')
      \<Longrightarrow> (e = None \<longleftrightarrow> fits s r n) \<and> (e \<noteq> None \<longrightarrow> e = Some ErrInsufficient \<and> s' = s) \<and> ok s'"
    and take_harder: "r \<in> R \<Longrightarrow> ok s \<Longrightarrow> safe s r n \<Longrightarrow> 0 < n \<Longrightarrow> rtry r s n = (None, s') \<Longrightarrow> r' \<in> R
      \<Longrightarrow> fits s' r' m \<Longrightarrow> fits s r' m"
    and unsat: "r \<in> R \<Longrightarrow> ok s \<Longrightarrow> 0 < n \<Longrightarrow> 0 < rcap r s \<Longrightarrow> wrap64 (rcap r s - rused r s) < n \<Longrightarrow> \<not> fits s r n"
    and uses_harder: "uses s s' \<Longrightarrow> ok s \<Longrightarrow> ok s' \<and> (\<forall>r \<in> R. \<forall>m. fits s' r m \<longrightarrow> fits s r m)"
begin

definition hopeless :: "'s \<Rightarrow> 's waiter \<Rightarrow> bool" where
  "hopeless s w \<longleftrightarrow> (\<exists>r \<in> R. qgroup (wreq w) = [r] \<and> \<not> fits s r (qN (wreq w)))"

definition sound :: "'s room_state \<Rightarrow> bool" where
  "sound = (\<lambda>(s, q, k). ok s \<and> wq_ok q
     \<and> (\<forall>w \<in> set (waiters q). 0 < qN (wreq w) \<and> (\<exists>r \<in> R. qgroup (wreq w) = [r]))
     \<and> (k = 0 \<longrightarrow> (\<forall>w \<in> set (waiters q). \<not> chans q (wseq w) \<longrightarrow> hopeless s w)))"

lemma soundI:
  assumes "ok s" and "wq_ok q" and "\<And>w. w \<in> set (waiters q) \<Longrightarrow> 0 < qN (wreq w) \<and> (\<exists>r \<in> R. qgroup (wreq w) = [r])"
    and "\<And>w. k = 0 \<Longrightarrow> w \<in> set (waiters q) \<Longrightarrow> \<not> chans q (wseq w) \<Longrightarrow> hopeless s w"
  shows "sound (s, q, k)"
  using assms by (simp add: sound_def)

lemma soundD:
  assumes "sound (s, q, k)"
  shows "ok s" and "wq_ok q" and "w \<in> set (waiters q) \<Longrightarrow> 0 < qN (wreq w) \<and> (\<exists>r \<in> R. qgroup (wreq w) = [r])"
    and "k = 0 \<Longrightarrow> w \<in> set (waiters q) \<Longrightarrow> \<not> chans q (wseq w) \<Longrightarrow> hopeless s w"
  using assms by (auto simp: sound_def)

lemma hopeless_harder:
  "hopeless s w \<Longrightarrow> (\<And>r. r \<in> R \<Longrightarrow> fits s' r (qN (wreq w)) \<Longrightarrow> fits s r (qN (wreq w))) \<Longrightarrow> hopeless s' w"
  by (auto simp: hopeless_def)

lemma unsatisfiable_hopeless:
  assumes "ok s" and "0 < qN (wreq w)" and "\<exists>r \<in> R. qgroup (wreq w) = [r]" and "\<not> canSatisfy s w"
  shows "hopeless s w"
  using assms unsat by (auto simp: hopeless_def canSatisfy_def)

lemma acquired_sound:
  assumes "sound (s, q, k)" and "r \<in> R" "safe s r n" "0 < n" "rtry r s n = (None, s')"
    and "wq_ok q'" and "set (waiters q') \<subseteq> set (waiters q)" and "\<And>w. w \<in> set (waiters q') \<Longrightarrow> chans q' (wseq w) = chans q (wseq w)"
  shows "sound (s', q', k)"
proof (rule soundI)
  show "ok s'" using try_exact [OF assms(2) soundD(1) [OF assms(1)] assms(3-5)] by simp
  show "wq_ok q'" by (rule assms(6))
  fix w assume w: "w \<in> set (waiters q')"
  then have wq: "w \<in> set (waiters q)" using assms(7) by auto
  then show "0 < qN (wreq w) \<and> (\<exists>r \<in> R. qgroup (wreq w) = [r])" using soundD(3) [OF assms(1)] by simp
  assume "k = 0" "\<not> chans q' (wseq w)"
  then have "hopeless s w" using soundD(4) [OF assms(1) _ wq] assms(8) [OF w] by simp
  then show "hopeless s' w"
    using take_harder [OF assms(2) soundD(1) [OF assms(1)] assms(3-5)] by (rule hopeless_harder)
qed

lemma same_sound:
  assumes "sound (s, q, k)" and "wq_ok q'" and "set (waiters q') \<subseteq> set (waiters q)"
    and "\<And>w. w \<in> set (waiters q') \<Longrightarrow> chans q (wseq w) \<Longrightarrow> chans q' (wseq w) \<or> hopeless s w"
  shows "sound (s, q', k)"
  using assms soundD [OF assms(1)] by (intro soundI) blast+

lemma enter_sound:
  assumes so: "sound (s, q, k)" and g: "qgroup req = [r]" and r: "r \<in> R" and sf: "safe s r (qN req)"
    and a: "AcquireUnder s now q req = (res, s', q')"
  shows "sound (s', q', k)"
proof -
  have okq: "wq_ok q'" by (rule AcquireUnder_keeps [OF soundD(2) [OF so] a])
  obtain e s1 where t: "rtry r s (qN req) = (e, s1)" by (cases "rtry r s (qN req)")
  show ?thesis
  proof (cases "0 < qN req \<and> canNeverFit s req = None")
    case False
    then have "s' = s" "waiters q' = waiters q" "chans q' = chans q"
      using a by (auto simp: AcquireUnder_single [OF g] split: option.splits if_splits)
    then show ?thesis using same_sound [OF so okq] by simp
  next
    case True
    note ex = try_exact [OF r soundD(1) [OF so] sf _ t]
    show ?thesis
    proof (cases e)
      case None
      then have "s' = s1" "waiters q' = waiters q" "chans q' = chans q"
        using a True t by (auto simp: AcquireUnder_single [OF g])
      then show ?thesis using acquired_sound [OF so r sf _ _ okq] t None True by simp
    next
      case (Some x)
      then have x: "x = ErrInsufficient" "s1 = s" "\<not> fits s r (qN req)" using ex True by auto
      obtain en q1 where en: "enqueue now q req = (en, q1)" by (cases "enqueue now q req")
      have s': "s' = s" "q' = q1"
        using a True t Some x en by (auto simp: AcquireUnder_single [OF g] split: sum.splits)
      show ?thesis
      proof (cases en)
        case (Inl e2)
        then have "waiters q1 = waiters q" "chans q1 = chans q"
          using en by (auto simp: enqueue_def Let_def split: if_splits)
        then show ?thesis using same_sound [OF so okq] s' by simp
      next
        case (Inr w)
        note eo = enqueue_ok [OF soundD(2) [OF so] en [unfolded Inr]]
        have "hopeless s w" using x(3) r g by (auto simp: hopeless_def eo(3))
        moreover have "wseq v \<noteq> Suc (qseq q)" if "v \<in> set (waiters q)" for v
          using soundD(2) [OF so] that by (auto simp: wq_ok_def)
        ultimately show ?thesis
          unfolding s' using soundD [OF so] True g r eo
          by (intro soundI) (auto simp: eo(2,5) split: if_splits)
      qed
    qed
  qed
qed

lemma round_sound:
  assumes so: "sound (s, q, k)" and w: "w \<in> set (waiters q) \<or> closed q" and g: "qgroup (wreq w) = [r]" and r: "r \<in> R"
    and n: "0 < qN (wreq w)" and sf: "safe s r (qN (wreq w))"
    and a: "wait_round s now q w timeout start ev = (res, s', q')"
  shows "sound (s', q', k)"
proof -
  note okq' = wait_round_keeps [OF soundD(2) [OF so] a]
  let ?q0 = "q\<lparr>chans := (chans q)(wseq w := False)\<rparr>"
  have ok0: "wq_ok ?q0" using soundD(2) [OF so] by (simp add: wq_ok_def)
  note deq = dequeue_ok [OF soundD(2) [OF so], of "wseq w"] and deq0 = dequeue_ok [OF ok0, of "wseq w"]
  obtain e s1 where t: "rtry r s (qN (wreq w)) = (e, s1)" by (cases "rtry r s (qN (wreq w))")
  note ex = try_exact [OF r soundD(1) [OF so] sf n t]
  show ?thesis
  proof (cases "ev = EvWake \<and> chans q (wseq w)")
    case False
    note idle = wait_round_idle [OF a False]
    have "set (waiters (dequeue q (wseq w))) \<subseteq> set (waiters q)" unfolding deq(2) by blast
    moreover have q': "s' = s" "chans q' = chans q" "waiters q' = waiters q \<or> waiters q' = waiters (dequeue q (wseq w))"
      using idle by blast+
    ultimately have sub: "set (waiters q') \<subseteq> set (waiters q)" by (elim disjE) simp_all
    show ?thesis unfolding q'(1) by (rule same_sound [OF so okq' sub]) (simp add: q'(2))
  next
    case True
    from a True have "wait_round s now q w timeout start EvWake = (res, s', q')" "chans q (wseq w)" by simp_all
    note rt = wait_round_retry [OF this g t]
    have d0: "set (waiters (dequeue ?q0 (wseq w))) = {v \<in> set (waiters q). wseq v \<noteq> wseq w}" unfolding deq0(2) by simp
    show ?thesis
    proof (cases e)
      case None
      then have q': "s' = s1" "waiters q' = waiters (dequeue ?q0 (wseq w))" "chans q' = (chans q)(wseq w := False)"
        using rt by simp_all
      have t': "rtry r s (qN (wreq w)) = (None, s1)" using t None by simp
      show ?thesis
        unfolding q'(1)
      proof (rule acquired_sound [OF so r sf n t' okq'])
        show "set (waiters q') \<subseteq> set (waiters q)" unfolding q'(2) d0 by blast
        show "\<And>v. v \<in> set (waiters q') \<Longrightarrow> chans q' (wseq v) = chans q (wseq v)" unfolding q'(2) d0 by (simp add: q'(3))
      qed
    next
      case (Some x)
      then have x: "x = ErrInsufficient" "s1 = s" "\<not> fits s r (qN (wreq w))" using ex by auto
      have q': "s' = s" "chans q' = (chans q)(wseq w := False)" using rt x(2) by blast+
      have sub: "set (waiters q') \<subseteq> set (waiters q)" using rt d0 by (metis (no_types, lifting) mem_Collect_eq order_refl subsetI)
      have mine: "hopeless s v" if "v \<in> set (waiters q)" "wseq v = wseq w" for v
      proof -
        have "\<not> closed q" using that(1) soundD(2) [OF so] by (auto simp: wq_ok_def)
        then have "w \<in> set (waiters q)" using w by blast
        moreover have "distinct (map wseq (waiters q))" using soundD(2) [OF so] by (simp add: wq_ok_def)
        ultimately have "v = w" using that by (simp add: distinct_map inj_on_def)
        then show ?thesis using x(3) r g unfolding hopeless_def by blast
      qed
      show ?thesis
        unfolding q'(1)
      proof (rule same_sound [OF so okq' sub])
        fix v assume "v \<in> set (waiters q')" "chans q (wseq v)"
        then show "chans q' (wseq v) \<or> hopeless s v" using mine sub q'(2) by (cases "wseq v = wseq w") auto
      qed
    qed
  qed
qed

lemma notify_sound:
  assumes so: "sound (s, q, Suc k)"
  shows "sound (s, NotifyAll s now q, k)"
proof (rule soundI)
  show "ok s" "wq_ok (NotifyAll s now q)" using soundD [OF so] by (simp_all add: NotifyAll_sel)
  fix w assume w: "w \<in> set (waiters (NotifyAll s now q))"
  then have wq: "w \<in> set (waiters q)" by (simp add: NotifyAll_sel)
  then show wf: "0 < qN (wreq w) \<and> (\<exists>r \<in> R. qgroup (wreq w) = [r])" using soundD(3) [OF so] by simp
  assume "\<not> chans (NotifyAll s now q) (wseq w)"
  moreover have "\<not> closed q" using wq soundD(2) [OF so] by (auto simp: wq_ok_def)
  ultimately have "\<not> canSatisfy s w" using wq by (auto simp: NotifyAll_sel)
  then show "hopeless s w" using unsatisfiable_hopeless [OF soundD(1) [OF so]] wf by blast
qed

lemma wstep_sound: "wstep R safe uses ok a b \<Longrightarrow> sound a \<Longrightarrow> sound b"
proof (induction rule: wstep.induct)
  case (consume s s' q k)
  note h = uses_harder [OF consume(1) soundD(1) [OF consume(2)]]
  then show ?case
    using soundD [OF consume(2)] by (intro soundI) (auto, metis hopeless_harder)
next
  case (close s q k)
  then show ?case using Close_sel [OF soundD(2) [OF close]] soundD(1) [OF close] by (intro soundI) auto
next
  case (free s' s q k)
  then show ?case using soundD [OF free(2)] by (intro soundI) auto
qed (blast intro: enter_sound round_sound notify_sound)+

theorem wreach_sound: "wreach R safe uses ok a \<Longrightarrow> sound a"
proof (induction rule: wreach.induct)
  case (start s dw mw ab)
  then show ?case by (intro soundI) (auto simp: New_def wq_ok_def)
next
  case (step a b)
  then show ?case by (blast intro: wstep_sound)
qed

end

end
