(* ===== verification/Quota_Wait.thy ===== *)
theory Quota_Wait
  imports Reserve_Spec Wakeups
begin

text \<open>
  Waiting for quota: the adapters of \<open>pkg/quota/waitq_adapter.go\<close> that make a ledger node a resource of the wait
  queue, \<open>WaitReserve\<close> of \<open>pkg/quota/wait.go\<close>, \<open>Settlement.ReserveWait\<close> and the staging tracker. The state of the
  resources is the ledger and the reservations parked per holder. The counters that only feed metrics
  (\<open>waitRounds\<close>) are left out.
\<close>

record world =
  ledger :: store
  holders :: "pid \<Rightarrow> string \<Rightarrow> reservation option"

section \<open>The adapter\<close>

definition waitqPath :: "store \<Rightarrow> pid \<Rightarrow> string" where
  "waitqPath s p = (if path (pools s p) = [] then ''root'' else path (pools s p))"

fun limits_loop :: "store \<Rightarrow> pid list \<Rightarrow> bool \<Rightarrow> int \<Rightarrow> int \<Rightarrow> bool \<times> int \<times> int" where
  "limits_loop s [] fst_seen limit free = (fst_seen, limit, free)"
| "limits_loop s (p # ps) fst_seen limit free =
     (let lim = usableLocked (pools s p);
          avail = wrap64 (wrap64 (lim - committed (pools s p)) - reserved (pools s p))
      in if lim \<le> 0 then limits_loop s ps fst_seen limit free
         else limits_loop s ps False (if fst_seen \<or> lim < limit then lim else limit)
                (if fst_seen \<or> avail < free then avail else free))"

definition waitqLimits :: "store \<Rightarrow> pid \<Rightarrow> int \<times> int" where
  "waitqLimits s p = (case limits_loop s (chain s p) True 0 0 of
     (fst_seen, limit, free) \<Rightarrow> (if fst_seen then (0, 0) else (limit, if free < 0 then 0 else free)))"

definition reserveForHolder :: "world \<Rightarrow> pid \<Rightarrow> string \<Rightarrow> int \<Rightarrow> (qerr + reservation) \<times> world" where
  "reserveForHolder w p h n = (case Scope_TryReserve (ledger w) p n of
     (Inl e, s1) \<Rightarrow> (Inl e, w\<lparr>ledger := s1\<rparr>)
   | (Inr r, s1) \<Rightarrow> (Inr r, w\<lparr>ledger := s1, holders := (holders w)(p := (holders w p)(h := Some r))\<rparr>))"

definition dropHolder :: "world \<Rightarrow> pid \<Rightarrow> string \<Rightarrow> bool \<Rightarrow> reservation option \<times> world" where
  "dropHolder w p h release = (let res = holders w p h;
      w1 = w\<lparr>holders := (holders w)(p := (holders w p)(h := None))\<rparr>
    in case res of
         None \<Rightarrow> (None, w1)
       | Some r \<Rightarrow> (if release then (case Reservation_Release (ledger w1) r of (r1, s1) \<Rightarrow> (Some r1, w1\<lparr>ledger := s1\<rparr>))
                    else (Some r, w1)))"

text \<open>Names are fixed at construction: the path of a node never changes.\<close>

definition poolResource :: "string \<Rightarrow> pid \<Rightarrow> string \<Rightarrow> world resource" where
  "poolResource pth p h = \<lparr>
     rname = ''quota:'' @ pth,
     rcap = (\<lambda>w. fst (waitqLimits (ledger w) p)),
     rused = (\<lambda>w. wrap64 (fst (waitqLimits (ledger w) p) - snd (waitqLimits (ledger w) p))),
     rtry = (\<lambda>w n. case reserveForHolder w p h n of
        (Inl e, w1) \<Rightarrow> (Some (if e = ErrStorageFull then ErrInsufficient else OtherErr), w1)
      | (Inr r, w1) \<Rightarrow> (None, w1)),
     rrel = (\<lambda>w n. snd (dropHolder w p h True))\<rparr>"

definition stagingResource :: "string \<Rightarrow> pid \<Rightarrow> world resource" where
  "stagingResource pth p = \<lparr>
     rname = ''staging:'' @ pth,
     rcap = (\<lambda>w. fst (waitqLimits (ledger w) p)),
     rused = (\<lambda>w. wrap64 (fst (waitqLimits (ledger w) p) - snd (waitqLimits (ledger w) p))),
     rtry = (\<lambda>w n. case Scope_TryReserve (ledger w) p n of
        (Inl e, s1) \<Rightarrow> (Some (if e = ErrStorageFull then ErrInsufficient else OtherErr), w\<lparr>ledger := s1\<rparr>)
      | (Inr r, s1) \<Rightarrow> (None, w\<lparr>ledger := snd (Reservation_Commit s1 r n)\<rparr>)),
     rrel = (\<lambda>w n. w\<lparr>ledger := ReleaseUsage (ledger w) p n\<rparr>)\<rparr>"

section \<open>WaitReserve\<close>

definition DefaultWaitTimeout :: int where
  "DefaultWaitTimeout = 30000000000"

definition wait_error :: "wqerr \<Rightarrow> qerr" where
  "wait_error e = (case e of ErrTooLarge \<Rightarrow> ErrTooLargeFull | ErrTimeout \<Rightarrow> ErrWaitTimeout
     | ErrQueueFull \<Rightarrow> ErrQueueFullFull | CtxErr \<Rightarrow> ErrCanceled | _ \<Rightarrow> ErrOther)"

text \<open>After the queue returned: on error the parked reservation is dropped and released, on success it is taken.\<close>

definition wait_finish :: "world \<Rightarrow> pid \<Rightarrow> string \<Rightarrow> wqerr + world lease \<Rightarrow> (qerr + reservation) \<times> world" where
  "wait_finish w p h res = (case res of
     Inl e \<Rightarrow> (Inl (wait_error e), snd (dropHolder w p h True))
   | Inr l \<Rightarrow> (case dropHolder w p h False of
       (Some r, w1) \<Rightarrow> (Inr r, w1)
     | (None, w1) \<Rightarrow> (Inl ErrOther, w1)))"

type_synonym wait_events = "((world \<times> world wqueue \<Rightarrow> world \<times> world wqueue) \<times> int \<times> wevent) list"

definition wait_request :: "store \<Rightarrow> pid \<Rightarrow> string \<Rightarrow> int \<Rightarrow> int \<Rightarrow> world request" where
  "wait_request s p h n timeout = \<lparr>qgroup = [poolResource (waitqPath s p) p h], qN = n, qpriority = 1,
     qtimeout = (if timeout \<le> 0 then DefaultWaitTimeout else timeout)\<rparr>"

text \<open>\<open>None\<close>: still waiting after the listed events.\<close>

definition WaitReserve :: "world \<Rightarrow> int \<Rightarrow> world wqueue \<Rightarrow> pid \<Rightarrow> string \<Rightarrow> int \<Rightarrow> int \<Rightarrow> wait_events
    \<Rightarrow> (qerr + reservation) option \<times> world \<times> world wqueue" where
  "WaitReserve w now q p h n timeout evs =
     (if n \<le> 0 then (case Scope_TryReserve (ledger w) p n of (r, s1) \<Rightarrow> (Some r, w\<lparr>ledger := s1\<rparr>, q))
      else if \<not> queue (pools (ledger w) (rootPool (ledger w) p)) then (Some (Inl ErrNoQueue), w, q)
      else let req = wait_request (ledger w) p h n timeout in
        case AcquireUnder w now q req of
          (Refused e, w1, q1) \<Rightarrow> (case wait_finish w1 p h (Inl e) of (r, w2) \<Rightarrow> (Some r, w2, q1))
        | (Granted l, w1, q1) \<Rightarrow> (case wait_finish w1 p h (Inr l) of (r, w2) \<Rightarrow> (Some r, w2, q1))
        | (Waits x, w1, q1) \<Rightarrow> (case waitAcquire w1 q1 x (wait_timeout q1 req) now evs of
            (None, w2, q2) \<Rightarrow> (None, w2, q2)
          | (Some res, w2, q2) \<Rightarrow> (case wait_finish w2 p h res of (r, w3) \<Rightarrow> (Some r, w3, q2))))"

text \<open>\<open>ReserveWait\<close>: the handle is not locked while waiting, so \<open>later\<close> gives what it has become by then.\<close>

definition Settlement_ReserveWait :: "world \<Rightarrow> int \<Rightarrow> world wqueue \<Rightarrow> settlement \<Rightarrow> (settlement \<Rightarrow> settlement)
    \<Rightarrow> string \<Rightarrow> int \<Rightarrow> int \<Rightarrow> wait_events \<Rightarrow> qerr option option \<times> settlement \<times> world \<times> world wqueue" where
  "Settlement_ReserveWait w now q sh later h n timeout evs = (case requireOpenLocked sh of
     Some e \<Rightarrow> (Some (Some e), sh, w, q)
   | None \<Rightarrow> (let amt = nonNeg n in
       if amt = 0 then (Some None, sh, w, q)
       else case spool sh of
         None \<Rightarrow> (Some (Some ErrSettlementNoTarget), sh, w, q)
       | Some p \<Rightarrow> (case WaitReserve w now q p h amt timeout evs of
           (None, w1, q1) \<Rightarrow> (None, later sh, w1, q1)
         | (Some (Inl e), w1, q1) \<Rightarrow> (Some (Some e), later sh, w1, q1)
         | (Some (Inr r), w1, q1) \<Rightarrow> (let sh1 = later sh in case requireOpenLocked sh1 of
             None \<Rightarrow> (Some None, sh1\<lparr>sreserved := wrap64 (sreserved sh1 + amt)\<rparr>, w1, q1)
           | Some e \<Rightarrow> (Some (Some e), sh1, w1\<lparr>ledger := snd (Reservation_Release (ledger w1) r)\<rparr>, q1)))))"

section \<open>Staging tracker\<close>

definition stagingWaitTimeout :: int where
  "stagingWaitTimeout = 5000000000"

definition staging_request :: "store \<Rightarrow> pid \<Rightarrow> int \<Rightarrow> int \<Rightarrow> world request" where
  "staging_request s p sz waitTimeout = \<lparr>qgroup = [stagingResource (waitqPath s p) p], qN = sz, qpriority = 1,
     qtimeout = (if waitTimeout \<le> 0 then stagingWaitTimeout else waitTimeout)\<rparr>"

definition Staging_ReserveUsage :: "world \<Rightarrow> int \<Rightarrow> world wqueue \<Rightarrow> pid \<Rightarrow> int \<Rightarrow> int \<Rightarrow> wait_events
    \<Rightarrow> wqerr option option \<times> world \<times> world wqueue" where
  "Staging_ReserveUsage w now q p waitTimeout sz evs =
     (if sz \<le> 0 then (Some None, w, q)
      else let req = staging_request (ledger w) p sz waitTimeout in
        case AcquireUnder w now q req of
          (Refused e, w1, q1) \<Rightarrow> (Some (Some e), w1, q1)
        | (Granted l, w1, q1) \<Rightarrow> (Some None, w1, q1)
        | (Waits x, w1, q1) \<Rightarrow> (case waitAcquire w1 q1 x (wait_timeout q1 req) now evs of
            (None, w2, q2) \<Rightarrow> (None, w2, q2)
          | (Some (Inl e), w2, q2) \<Rightarrow> (Some (Some e), w2, q2)
          | (Some (Inr l), w2, q2) \<Rightarrow> (Some None, w2, q2)))"

definition Staging_ReleaseUsage :: "world \<Rightarrow> int \<Rightarrow> world wqueue \<Rightarrow> pid \<Rightarrow> int \<Rightarrow> world \<times> world wqueue" where
  "Staging_ReleaseUsage w now q p sz =
     (if sz \<le> 0 then (w, q)
      else let w1 = w\<lparr>ledger := ReleaseUsage (ledger w) p sz\<rparr> in (w1, NotifyAll w1 now q))"

section \<open>The adapters keep the contract of the queue\<close>

definition node_fits :: "store \<Rightarrow> pid \<Rightarrow> int \<Rightarrow> bool" where
  "node_fits s p n \<longleftrightarrow> (\<forall>q \<in> set (chain s p). fits (pools s q) n)"

text \<open>Ledgers whose counters, also summed, are \<open>int64\<close>.\<close>

definition wok :: "world \<Rightarrow> bool" where
  "wok w \<longleftrightarrow> ledger_ok (ledger w)
     \<and> (\<forall>p < next_pid (ledger w). committed (pools (ledger w) p) + reserved (pools (ledger w) p) \<le> max_int64)"

lemma limits_loop_free:
  assumes "limits_loop s ps b l f = (b', l', f')" and "\<not> b'"
  shows "\<not> b \<and> f' = f \<or> (\<exists>q \<in> set ps. 0 < usableLocked (pools s q)
    \<and> f' = wrap64 (wrap64 (usableLocked (pools s q) - committed (pools s q)) - reserved (pools s q)))"
  using assms
proof (induction ps arbitrary: b l f)
  case (Cons p ps)
  show ?case
  proof (cases "usableLocked (pools s p) \<le> 0")
    case True
    with Cons.prems(1) have "limits_loop s ps b l f = (b', l', f')" by (simp add: Let_def)
    from Cons.IH [OF this Cons.prems(2)] show ?thesis by auto
  next
    case False
    let ?lim = "usableLocked (pools s p)" and ?av = "wrap64 (wrap64 (usableLocked (pools s p) - committed (pools s p)) - reserved (pools s p))"
    have "limits_loop s ps False (if b \<or> ?lim < l then ?lim else l) (if b \<or> ?av < f then ?av else f) = (b', l', f')"
      using Cons.prems(1) unfolding limits_loop.simps Let_def if_not_P [OF False] .
    from Cons.IH [OF this Cons.prems(2)] False show ?thesis by (auto split: if_splits)
  qed
qed simp

lemma wrap64_free:
  assumes "0 \<le> free" "free \<le> max_int64" "0 \<le> limit" "limit \<le> max_int64"
  shows "wrap64 (limit - wrap64 (limit - free)) = free"
proof -
  have "wrap64 (limit - free) = limit - free" using assms by (intro wrap64_id) (auto simp: in64_def)
  then show ?thesis using assms by (simp add: wrap64_nonneg)
qed

lemma usable_le:
  assumes "pool_in64 pl"
  shows "usableLocked pl \<le> max_int64"
  using wrap64_in64 [of "maxBytes pl - oreserve pl"] by (auto simp: usableLocked_def in64_def)

text \<open>When the adapter reports too little free, the reservation does not fit.\<close>

lemma limits_unsat:
  assumes ok: "wok w" and p: "p < next_pid (ledger w)" and n: "0 < n" and cap: "0 < fst (waitqLimits (ledger w) p)"
    and lt: "wrap64 (fst (waitqLimits (ledger w) p) - wrap64 (fst (waitqLimits (ledger w) p) - snd (waitqLimits (ledger w) p))) < n"
  shows "\<not> node_fits (ledger w) p n"
proof -
  let ?s = "ledger w"
  obtain b l f where ll: "limits_loop ?s (chain ?s p) True 0 0 = (b, l, f)" by (cases "limits_loop ?s (chain ?s p) True 0 0") auto
  have nb: "\<not> b" using cap ll by (auto simp: waitqLimits_def)
  then obtain q where q: "q \<in> set (chain ?s p)" and u: "0 < usableLocked (pools ?s q)"
    and f: "f = wrap64 (wrap64 (usableLocked (pools ?s q) - committed (pools ?s q)) - reserved (pools ?s q))"
    using limits_loop_free [OF ll] by auto
  have lq: "q < next_pid ?s" by (rule chain_below [OF p q])
  have lok: "ledger_ok ?s" using ok by (simp add: wok_def)
  have c: "0 \<le> committed (pools ?s q)" "0 \<le> reserved (pools ?s q)" "committed (pools ?s q) + reserved (pools ?s q) \<le> max_int64"
    using aggregatedD(1) [OF ledger_okD(2) [OF lok] lq] aggregatedD(1) [OF ledger_okD(3) [OF lok] lq] ok lq by (auto simp: wok_def)
  have um: "usableLocked (pools ?s q) \<le> max_int64" by (rule usable_le [OF ledger_okD(4) [OF lok lq]])
  have f': "f = usableLocked (pools ?s q) - committed (pools ?s q) - reserved (pools ?s q)"
  proof -
    have "in64 (usableLocked (pools ?s q) - committed (pools ?s q) - reserved (pools ?s q))"
      using c u um by (simp add: in64_def)
    then show ?thesis unfolding f by (simp add: wrap64_id)
  qed
  have "l \<le> max_int64"
  proof -
    have "limits_loop ?s ps b0 l0 f0 = (b, l, f) \<Longrightarrow> l0 \<le> max_int64 \<Longrightarrow> (\<And>x. x \<in> set ps \<Longrightarrow> usableLocked (pools ?s x) \<le> max_int64)
        \<Longrightarrow> l \<le> max_int64" for ps b0 l0 f0
      by (induction ps arbitrary: b0 l0 f0) (auto simp: Let_def split: if_splits)
    from this [OF ll] show ?thesis using usable_le ledger_ok_chain_in64 [OF lok p] by simp
  qed
  then have "wrap64 (l - wrap64 (l - (if f < 0 then 0 else f))) = (if f < 0 then 0 else f)"
    using cap ll nb f' c u um by (intro wrap64_free) (auto simp: waitqLimits_def)
  then have "(if f < 0 then 0 else f) < n" using lt ll nb by (simp add: waitqLimits_def)
  then have "usableLocked (pools ?s q) < committed (pools ?s q) + reserved (pools ?s q) + n"
    using f' n by (auto split: if_splits)
  moreover have "0 < maxBytes (pools ?s q)" using u by (auto simp: usableLocked_def split: if_splits)
  ultimately show ?thesis using q by (auto simp: node_fits_def fits_def)
qed

text \<open>A resource on node \<open>p\<close>: its limits are those of the chain, and an attempt takes \<open>n\<close> bytes of the chain when they
  fit, and nothing when they do not.\<close>

definition node_resource :: "world resource \<Rightarrow> pid \<Rightarrow> bool" where
  "node_resource r p \<longleftrightarrow> (\<forall>w. rcap r w = fst (waitqLimits (ledger w) p)
       \<and> rused r w = wrap64 (fst (waitqLimits (ledger w) p) - snd (waitqLimits (ledger w) p)))
     \<and> (\<forall>w n. wok w \<and> p < next_pid (ledger w) \<and> headroom (ledger w) p n \<and> 0 < n \<longrightarrow>
         (case rtry r w n of
            (None, w') \<Rightarrow> node_fits (ledger w) p n \<and> wok w' \<and> (\<exists>dc dr. shifted (ledger w) p dc dr (ledger w') \<and> 0 \<le> dc + dr)
          | (Some e, w') \<Rightarrow> \<not> node_fits (ledger w) p n \<and> e = ErrInsufficient \<and> w' = w))"

lemma Scope_TryReserve_spec:
  assumes "ledger_ok s" "p < next_pid s" "0 \<le> n" "headroom s p n"
  shows "if node_fits s p n
    then \<exists>s1. Scope_TryReserve s p n = (Inr \<lparr>rpool = p, ramount = n, rdone = False\<rparr>, s1) \<and> shifted s p 0 n s1
    else Scope_TryReserve s p n = (Inl ErrStorageFull, s)"
proof -
  have n: "nonNeg n = n" using assms(3) by simp
  have rm: "room s p 0 n" using assms(3) by (intro headroom_room [OF assms(1,2,4)]) auto
  show ?thesis
  proof (cases "node_fits s p n")
    case True
    then have res: "reserveUp s p n = (None, walk (add_reserved n) p s)"
      using reserveUp_spec [OF assms] by (simp add: node_fits_def)
    from reserveUp_shift [OF assms(1-3) rm res] res True show ?thesis by (simp add: Scope_TryReserve_def n)
  next
    case False
    then have "reserveUp s p n = (Some ErrStorageFull, s)" using reserveUp_spec [OF assms] by (auto simp: node_fits_def)
    with False show ?thesis by (simp add: Scope_TryReserve_def n)
  qed
qed

text \<open>A shift by a handle that holds \<open>r\<close> and \<open>c\<close> more bytes keeps the sums in range.\<close>

lemma tracked_wok:
  assumes ok: "wok w" and p: "p < next_pid (ledger w)" and hr: "headroom (ledger w) p n"
    and tr: "tracked (ledger w) p n r c s'" and w': "ledger w' = s'"
  shows "wok w'"
proof -
  have lok: "ledger_ok (ledger w)" using ok by (simp add: wok_def)
  have sh: "shifted (ledger w) p c r s'" and le: "r + c \<le> n" using tr by (auto simp: tracked_def)
  have "ledger_ok s'" by (rule tracked_held(1) [OF lok p hr order_refl tr])
  moreover have "committed (pools s' q) + reserved (pools s' q) \<le> max_int64" if q: "q < next_pid s'" for q
  proof -
    have qn: "q < next_pid (ledger w)" using q shifted_next [OF sh] by simp
    show ?thesis
      using shifted_sel(6,7) [OF sh, of q] hr le ok qn
      by (cases "q \<in> set (chain (ledger w) p)") (auto simp: headroom_def wok_def)
  qed
  ultimately show ?thesis by (simp add: wok_def w')
qed

lemma poolResource_node: "node_resource (poolResource pth p h) p"
proof -
  have "case rtry (poolResource pth p h) w n of
            (None, w') \<Rightarrow> node_fits (ledger w) p n \<and> wok w' \<and> (\<exists>dc dr. shifted (ledger w) p dc dr (ledger w') \<and> 0 \<le> dc + dr)
          | (Some e, w') \<Rightarrow> \<not> node_fits (ledger w) p n \<and> e = ErrInsufficient \<and> w' = w"
    if ok: "wok w" and p: "p < next_pid (ledger w)" and hr: "headroom (ledger w) p n" and n: "0 < n" for w n
  proof -
    have lok: "ledger_ok (ledger w)" using ok by (simp add: wok_def)
    note spec = Scope_TryReserve_spec [OF lok p _ hr]
    show ?thesis
    proof (cases "node_fits (ledger w) p n")
      case True
      then obtain s1 where t: "Scope_TryReserve (ledger w) p n = (Inr \<lparr>rpool = p, ramount = n, rdone = False\<rparr>, s1)"
        and sh: "shifted (ledger w) p 0 n s1" using spec n by auto
      have tr: "tracked (ledger w) p n n 0 s1" using sh n by (simp add: tracked_def)
      have "wok w'" if "ledger w' = s1" for w' by (rule tracked_wok [OF ok p hr tr that])
      moreover have "\<exists>dc dr. shifted (ledger w) p dc dr s1 \<and> 0 \<le> dc + dr" using sh n by force
      ultimately show ?thesis using True t by (simp add: poolResource_def reserveForHolder_def)
    next
      case False
      then show ?thesis using spec n by (simp add: poolResource_def reserveForHolder_def)
    qed
  qed
  then show ?thesis unfolding node_resource_def by (simp add: poolResource_def)
qed

text \<open>Reserving and at once committing the same amount.\<close>

lemma reserve_commit_shift:
  assumes ok: "ledger_ok s" "p < next_pid s" and n: "0 \<le> n" and hr: "headroom s p n" and sh: "shifted s p 0 n s1"
  shows "shifted s p n 0 (snd (Reservation_Commit s1 \<lparr>rpool = p, ramount = n, rdone = False\<rparr> n))"
proof -
  have tr: "tracked s p n n 0 s1" using sh n by (simp add: tracked_def)
  note h = tracked_held [OF ok hr order_refl tr]
  have "headroom s1 p 0" by (rule tracked_headroom [OF hr tr]) simp
  from headroom_settle [OF h(1,2) this order_refl n h(3)] have "room s1 p n 0" .
  from commit_all [OF h(1,2) n h(3) this] have "shifted s1 p n (- n) (commitReservation s1 p n n)" .
  from shifted_trans [OF sh this] n show ?thesis by (simp add: Reservation_Commit_def)
qed

lemma stagingResource_node: "node_resource (stagingResource pth p) p"
proof -
  have "case rtry (stagingResource pth p) w n of
            (None, w') \<Rightarrow> node_fits (ledger w) p n \<and> wok w' \<and> (\<exists>dc dr. shifted (ledger w) p dc dr (ledger w') \<and> 0 \<le> dc + dr)
          | (Some e, w') \<Rightarrow> \<not> node_fits (ledger w) p n \<and> e = ErrInsufficient \<and> w' = w"
    if ok: "wok w" and p: "p < next_pid (ledger w)" and hr: "headroom (ledger w) p n" and n: "0 < n" for w n
  proof -
    have lok: "ledger_ok (ledger w)" using ok by (simp add: wok_def)
    note spec = Scope_TryReserve_spec [OF lok p _ hr]
    show ?thesis
    proof (cases "node_fits (ledger w) p n")
      case True
      let ?r = "\<lparr>rpool = p, ramount = n, rdone = False\<rparr>"
      obtain s1 where t: "Scope_TryReserve (ledger w) p n = (Inr ?r, s1)"
        and sh: "shifted (ledger w) p 0 n s1" using spec n True by auto
      have sc: "shifted (ledger w) p n 0 (snd (Reservation_Commit s1 ?r n))"
        using n by (intro reserve_commit_shift [OF lok p _ hr sh]) simp
      have tr: "tracked (ledger w) p n 0 n (snd (Reservation_Commit s1 ?r n))" using sc n by (simp add: tracked_def)
      have "wok w'" if "ledger w' = snd (Reservation_Commit s1 ?r n)" for w' by (rule tracked_wok [OF ok p hr tr that])
      moreover have "\<exists>dc dr. shifted (ledger w) p dc dr (snd (Reservation_Commit s1 ?r n)) \<and> 0 \<le> dc + dr" using sc n by force
      ultimately show ?thesis using True t by (simp add: stagingResource_def)
    next
      case False
      then show ?thesis using spec n by (simp add: stagingResource_def)
    qed
  qed
  then show ?thesis unfolding node_resource_def by (simp add: stagingResource_def)
qed

definition quota_resources :: "world resource set" where
  "quota_resources = {r. \<exists>p. node_resource r p}"

definition qsafe :: "world \<Rightarrow> world resource \<Rightarrow> int \<Rightarrow> bool" where
  "qsafe w r n \<longleftrightarrow> (\<forall>p. node_resource r p \<longrightarrow> p < next_pid (ledger w) \<and> headroom (ledger w) p n)"

definition qfits :: "world \<Rightarrow> world resource \<Rightarrow> int \<Rightarrow> bool" where
  "qfits w r n \<longleftrightarrow> (\<exists>p. node_resource r p \<and> p < next_pid (ledger w) \<and> node_fits (ledger w) p n)"

text \<open>Calls that only take from the ledger: a shift that does not lower the total of any layer.\<close>

definition quses :: "world \<Rightarrow> world \<Rightarrow> bool" where
  "quses w w' \<longleftrightarrow> wok w' \<and> (\<exists>p dc dr. shifted (ledger w) p dc dr (ledger w') \<and> 0 \<le> dc + dr)"

lemma node_fits_harder:
  assumes sh: "shifted s p dc dr s'" and "0 \<le> dc + dr" and "node_fits s' q m"
  shows "node_fits s q m"
proof -
  have "fits (pools s x) m" if "fits (pools s' x) m" for x
    using that assms(2) shifted_sel(2,5,6,7) [OF sh, of x] by (auto simp: fits_def split: if_splits)
  then show ?thesis using assms(3) shifted_chain [OF sh] by (simp add: node_fits_def)
qed

lemma node_try:
  assumes "node_resource r p" "wok w" "p < next_pid (ledger w)" "headroom (ledger w) p n" "0 < n" "rtry r w n = (e, w')"
  shows "case e of None \<Rightarrow> node_fits (ledger w) p n \<and> wok w' \<and> (\<exists>dc dr. shifted (ledger w) p dc dr (ledger w') \<and> 0 \<le> dc + dr)
    | Some x \<Rightarrow> \<not> node_fits (ledger w) p n \<and> x = ErrInsufficient \<and> w' = w"
proof -
  have "case rtry r w n of
            (None, w') \<Rightarrow> node_fits (ledger w) p n \<and> wok w' \<and> (\<exists>dc dr. shifted (ledger w) p dc dr (ledger w') \<and> 0 \<le> dc + dr)
          | (Some e, w') \<Rightarrow> \<not> node_fits (ledger w) p n \<and> e = ErrInsufficient \<and> w' = w"
    by (rule assms(1) [unfolded node_resource_def, THEN conjunct2, rule_format, of w n]) (simp add: assms(2-5))
  then show ?thesis unfolding assms(6) by (cases e) simp_all
qed

interpretation quota_room: wakeable quota_resources qsafe quses wok qfits
proof unfold_locales
  fix r w n e w'
  assume a: "r \<in> quota_resources" "wok w" "qsafe w r n" "0 < n" "rtry r w n = (e, w')"
  then obtain p where p: "node_resource r p" "p < next_pid (ledger w)" "headroom (ledger w) p n"
    by (auto simp: quota_resources_def qsafe_def)
  note law = node_try [OF _ a(2) _ _ a(4,5)]
  show "(e = None \<longleftrightarrow> qfits w r n) \<and> (e \<noteq> None \<longrightarrow> e = Some ErrInsufficient \<and> w' = w) \<and> wok w'"
  proof (cases e)
    case None
    then show ?thesis using law [OF p] p by (auto simp: qfits_def)
  next
    case (Some x)
    have "\<not> qfits w r n"
    proof
      assume "qfits w r n"
      then obtain p' where p': "node_resource r p'" "node_fits (ledger w) p' n" by (auto simp: qfits_def)
      then show False using law [OF p'(1)] a(3) Some by (auto simp: qsafe_def)
    qed
    then show ?thesis using law [OF p] Some a(2) by auto
  qed
next
  fix r w n w' r' m
  assume a: "r \<in> quota_resources" "wok w" "qsafe w r n" "0 < n" "rtry r w n = (None, w')" "r' \<in> quota_resources" "qfits w' r' m"
  then obtain p where p: "node_resource r p" "p < next_pid (ledger w)" "headroom (ledger w) p n"
    by (auto simp: quota_resources_def qsafe_def)
  from node_try [OF p(1) a(2) p(2,3) a(4,5)]
  obtain dc dr where sh: "shifted (ledger w) p dc dr (ledger w')" "0 \<le> dc + dr" by auto
  then show "qfits w r' m" using a(7) node_fits_harder [OF sh] shifted_next [OF sh(1)] by (auto simp: qfits_def)
next
  fix r w n
  assume "r \<in> quota_resources" "wok w" "0 < (n::int)" "0 < rcap r w" "wrap64 (rcap r w - rused r w) < n"
  then show "\<not> qfits w r n" using limits_unsat [of w _ n] by (auto simp: qfits_def node_resource_def)
next
  fix w w'
  assume u: "quses w w'" "wok w"
  then obtain p dc dr where sh: "shifted (ledger w) p dc dr (ledger w')" "0 \<le> dc + dr" by (auto simp: quses_def)
  then show "wok w' \<and> (\<forall>r \<in> quota_resources. \<forall>m. qfits w' r m \<longrightarrow> qfits w r m)"
    using u node_fits_harder [OF sh] shifted_next [OF sh(1)] by (auto simp: qfits_def quses_def)
qed

text \<open>A resource determines its node: two nodes with different limits tell them apart.\<close>

lemma node_resource_unique:
  assumes "node_resource r p" and "node_resource r p'"
  shows "p = p'"
proof (rule ccontr)
  assume ne: "p \<noteq> p'"
  define s where "s = \<lparr>pools = (\<lambda>q. mk_pool (if q = p then 1 else 2) None [] True), next_pid = 0, wakes = []\<rparr>"
  have ch: "chain s q = [q]" for q by (simp add: chain_def s_def anc_None)
  have "fst (waitqLimits s p) = 1" "fst (waitqLimits s p') = 2"
    using ne unfolding waitqLimits_def ch by (simp_all add: s_def usableLocked_def wrap64_def Let_def)
  moreover have "rcap r \<lparr>ledger = s, holders = (\<lambda>_ _. None)\<rparr> = fst (waitqLimits s p)"
    "rcap r \<lparr>ledger = s, holders = (\<lambda>_ _. None)\<rparr> = fst (waitqLimits s p')"
    using assms unfolding node_resource_def by (metis select_convs(1))+
  ultimately show False by simp
qed

lemma qsafeI: "node_resource r p \<Longrightarrow> p < next_pid (ledger w) \<Longrightarrow> headroom (ledger w) p n \<Longrightarrow> qsafe w r n"
  using node_resource_unique by (auto simp: qsafe_def)

section \<open>Properties\<close>


text \<open>The two-level tree with 50 of the child's 60 bytes reserved.\<close>

definition full_world :: world where
  "full_world = \<lparr>ledger = snd (Pool_TryReserve two_level 1 50), holders = (\<lambda>_ _. None)\<rparr>"

lemma full_world:
  "shifted two_level 1 0 50 (ledger full_world)" "next_pid (ledger full_world) = 2" "wok full_world"
  "k \<le> 1000 \<Longrightarrow> headroom (ledger full_world) 1 k" "chain (ledger full_world) 1 = [1, 0]"
proof -
  have ok: "ledger_ok two_level" "1 < next_pid two_level" using two_level_ok by simp_all
  have "fst (Pool_TryReserve two_level 1 50) = Inr \<lparr>rpool = 1, ramount = 50, rdone = False\<rparr>" by code_simp
  then obtain s where tr: "Pool_TryReserve two_level 1 50 = (Inr \<lparr>rpool = 1, ramount = 50, rdone = False\<rparr>, s)"
    by (cases "Pool_TryReserve two_level 1 50") auto
  have rm: "room two_level 1 0 50" using headroom_room [OF ok two_level_headroom, of 50 0 50] by simp
  show sh: "shifted two_level 1 0 50 (ledger full_world)"
  proof -
    have "ledger full_world = s" using tr by (simp add: full_world_def)
    moreover have "reserveUp two_level 1 50 = (None, s)" using TryReserve_InrD [OF tr] by (simp add: nonNeg_def)
    ultimately show ?thesis using reserveUp_shift [OF ok _ rm] by simp
  qed
  then have t: "tracked two_level 1 50 50 0 (ledger full_world)" by (simp add: tracked_def)
  show "next_pid (ledger full_world) = 2" using shifted_next [OF sh] two_level_ok(2) by simp
  show "chain (ledger full_world) 1 = [1, 0]" using shifted_chain [OF sh] two_level_ok(3) by simp
  show "k \<le> 1000 \<Longrightarrow> headroom (ledger full_world) 1 k"
    by (rule tracked_headroom [OF two_level_headroom [of 1050] t]) auto
  let ?w = "\<lparr>ledger = two_level, holders = (\<lambda>_ _. None)\<rparr>"
  have "wok ?w" using two_level_ok two_level_pools by (auto simp: wok_def less_2_cases_iff)
  moreover have "headroom (ledger ?w) 1 50" using two_level_headroom [of 50] by simp
  moreover have "1 < next_pid (ledger ?w)" "tracked (ledger ?w) 1 50 50 0 (ledger full_world)" using ok t by simp_all
  ultimately show "wok full_world" using tracked_wok by blast
qed


lemma limits_loop_limit:
  assumes "limits_loop s ps b l f = (b', l', f')"
  shows "(b' \<longleftrightarrow> b \<and> (\<forall>q \<in> set ps. usableLocked (pools s q) \<le> 0))
    \<and> (\<not> b' \<longrightarrow> (\<forall>q \<in> set ps. 0 < usableLocked (pools s q) \<longrightarrow> l' \<le> usableLocked (pools s q)) \<and> (\<not> b \<longrightarrow> l' \<le> l)
      \<and> (\<not> b \<and> l' = l \<or> (\<exists>q \<in> set ps. 0 < usableLocked (pools s q) \<and> l' = usableLocked (pools s q))))"
  using assms
proof (induction ps arbitrary: b l f)
  case (Cons p ps)
  show ?case
  proof (cases "usableLocked (pools s p) \<le> 0")
    case True
    with Cons.prems(1) have "limits_loop s ps b l f = (b', l', f')" by (simp add: Let_def)
    from Cons.IH [OF this] True show ?thesis by auto
  next
    case False
    let ?lim = "usableLocked (pools s p)" and ?av = "wrap64 (wrap64 (usableLocked (pools s p) - committed (pools s p)) - reserved (pools s p))"
    have "limits_loop s ps False (if b \<or> ?lim < l then ?lim else l) (if b \<or> ?av < f then ?av else f) = (b', l', f')"
      using Cons.prems(1) unfolding limits_loop.simps Let_def if_not_P [OF False] .
    from Cons.IH [OF this] False show ?thesis by (auto split: if_splits)
  qed
qed simp

text \<open>The capacity is the tightest positive usable limit of the chain, or 0 when there is none.\<close>

lemma waitq_capacity:
  shows "0 < fst (waitqLimits s p) \<longrightarrow> (\<forall>q \<in> set (chain s p). 0 < usableLocked (pools s q) \<longrightarrow> fst (waitqLimits s p) \<le> usableLocked (pools s q))
      \<and> (\<exists>q \<in> set (chain s p). 0 < usableLocked (pools s q) \<and> fst (waitqLimits s p) = usableLocked (pools s q))"
    and "(\<exists>q \<in> set (chain s p). 0 < usableLocked (pools s q)) \<longrightarrow> 0 < fst (waitqLimits s p)"
proof -
  obtain b l f where ll: "limits_loop s (chain s p) True 0 0 = (b, l, f)" by (cases "limits_loop s (chain s p) True 0 0") auto
  note lim = limits_loop_limit [OF ll]
  have w: "fst (waitqLimits s p) = (if b then 0 else l)" using ll by (simp add: waitqLimits_def)
  show "0 < fst (waitqLimits s p) \<longrightarrow> (\<forall>q \<in> set (chain s p). 0 < usableLocked (pools s q) \<longrightarrow> fst (waitqLimits s p) \<le> usableLocked (pools s q))
      \<and> (\<exists>q \<in> set (chain s p). 0 < usableLocked (pools s q) \<and> fst (waitqLimits s p) = usableLocked (pools s q))"
  proof (cases b)
    case True
    then show ?thesis using w by simp
  next
    case False
    then show ?thesis using lim unfolding w by auto
  qed
  show "(\<exists>q \<in> set (chain s p). 0 < usableLocked (pools s q)) \<longrightarrow> 0 < fst (waitqLimits s p)"
  proof (cases b)
    case True
    then have "\<forall>q \<in> set (chain s p). usableLocked (pools s q) \<le> 0" using lim by blast
    then show ?thesis by (auto simp: not_less [symmetric])
  next
    case False
    then obtain q where "0 < usableLocked (pools s q)" "l = usableLocked (pools s q)" using lim by blast
    then show ?thesis using False w by simp
  qed
qed

lemma capacity_never_fits:
  "canNeverFit w (wait_request s p h n t) = None \<longleftrightarrow> \<not> (0 < fst (waitqLimits (ledger w) p) \<and> fst (waitqLimits (ledger w) p) < n)"
  by (auto simp: canNeverFit_def wait_request_def poolResource_def)

lemma fits_capacity:
  assumes ok: "wok w" and p: "p < next_pid (ledger w)" and "node_fits (ledger w) p n"
  shows "\<not> (0 < fst (waitqLimits (ledger w) p) \<and> fst (waitqLimits (ledger w) p) < n)"
proof
  assume a: "0 < fst (waitqLimits (ledger w) p) \<and> fst (waitqLimits (ledger w) p) < n"
  then obtain q where q: "q \<in> set (chain (ledger w) p)" "0 < usableLocked (pools (ledger w) q)" "usableLocked (pools (ledger w) q) < n"
    using waitq_capacity(1) [of "ledger w" p] by auto
  have lok: "ledger_ok (ledger w)" using ok by (simp add: wok_def)
  have "0 \<le> committed (pools (ledger w) q)" "0 \<le> reserved (pools (ledger w) q)"
    using aggregatedD(1) [OF ledger_okD(2) [OF lok] chain_below [OF p q(1)]]
      aggregatedD(1) [OF ledger_okD(3) [OF lok] chain_below [OF p q(1)]] by auto
  moreover have "0 < maxBytes (pools (ledger w) q)" using q(2) by (auto simp: usableLocked_def split: if_splits)
  moreover have "fits (pools (ledger w) q) n" using assms(3) q(1) by (simp add: node_fits_def)
  ultimately show False using q(3) by (simp add: fits_def)
qed

text \<open>\<open>WaitReserve\<close> does not wait when it need not: if the bytes fit now it returns at once exactly what \<open>TryReserve\<close>
  grants, takes the parked reservation over, and leaves the queue without a new waiter; if some layer's
  positive usable limit is smaller than the request it fails at once as too large, with the ledger
  and the queue untouched; in every other case the request is queued.\<close>

theorem WaitReserve_fast:
  assumes "wok w" and "p < next_pid (ledger w)" and "0 < n" and "headroom (ledger w) p n"
    and "queue (pools (ledger w) (rootPool (ledger w) p))" and "holders w p h = None"
    and "\<not> closed q" and "maxWaiters q \<le> 0"
    and "WaitReserve w now q p h n timeout [] = (res, w', q')"
  shows "if node_fits (ledger w) p n
    then res = Some (Inr \<lparr>rpool = p, ramount = n, rdone = False\<rparr>) \<and> shifted (ledger w) p 0 n (ledger w')
      \<and> holders w' = holders w \<and> waiters q' = waiters q
    else if \<exists>c \<in> set (chain (ledger w) p). 0 < usableLocked (pools (ledger w) c) \<and> usableLocked (pools (ledger w) c) < n
    then res = Some (Inl ErrTooLargeFull) \<and> w' = w \<and> waiters q' = waiters q
    else res = None \<and> w' = w \<and> (\<exists>x. set (waiters q') = insert x (set (waiters q)) \<and> qN (wreq x) = n)"
proof -
  let ?req = "wait_request (ledger w) p h n timeout" and ?r = "poolResource (waitqPath (ledger w) p) p h"
  have lok: "ledger_ok (ledger w)" using assms(1) by (simp add: wok_def)
  have g: "qgroup ?req = [?r]" "qN ?req = n" by (simp_all add: wait_request_def)
  note spec = Scope_TryReserve_spec [OF lok assms(2) _ assms(4)]
  have hol: "(holders w)(p := (holders w p)(h := None)) = holders w" using assms(6) by (auto simp: fun_eq_iff)
  have un: "WaitReserve w now q p h n timeout [] = (case AcquireUnder w now q ?req of
          (Refused e, w1, q1) \<Rightarrow> (case wait_finish w1 p h (Inl e) of (r, w2) \<Rightarrow> (Some r, w2, q1))
        | (Granted l, w1, q1) \<Rightarrow> (case wait_finish w1 p h (Inr l) of (r, w2) \<Rightarrow> (Some r, w2, q1))
        | (Waits x, w1, q1) \<Rightarrow> (None, w1, q1))"
    unfolding WaitReserve_def Let_def using assms(3,5) by (auto split: prod.splits entered.splits)
  show ?thesis
  proof (cases "node_fits (ledger w) p n")
    case True
    then obtain s1 where t: "Scope_TryReserve (ledger w) p n = (Inr \<lparr>rpool = p, ramount = n, rdone = False\<rparr>, s1)"
      and sh: "shifted (ledger w) p 0 n s1" using spec assms(3) by auto
    have "canNeverFit w ?req = None" using fits_capacity [OF assms(1,2) True] capacity_never_fits by blast
    moreover have "rtry ?r w n = (None, w\<lparr>ledger := s1, holders := (holders w)(p := (holders w p)(h := Some \<lparr>rpool = p, ramount = n, rdone = False\<rparr>))\<rparr>)"
      using t by (simp add: poolResource_def reserveForHolder_def)
    ultimately show ?thesis
      using assms(9) True sh assms(3) hol unfolding un AcquireUnder_single [OF g(1)] g(2)
      by (auto simp: wait_finish_def dropHolder_def Let_def)
  next
    case False
    then have t: "rtry ?r w n = (Some ErrInsufficient, w)"
      using spec assms(3) by (simp add: poolResource_def reserveForHolder_def)
    show ?thesis
    proof (cases "\<exists>c \<in> set (chain (ledger w) p). 0 < usableLocked (pools (ledger w) c) \<and> usableLocked (pools (ledger w) c) < n")
      case True
      then have "canNeverFit w ?req \<noteq> None"
        using waitq_capacity [of "ledger w" p] capacity_never_fits [of w "ledger w" p h n timeout] by fastforce
      then have "canNeverFit w ?req = Some ErrTooLarge" by (auto simp: canNeverFit_def split: if_splits)
      then show ?thesis
        using assms(9) False True assms(3) hol unfolding un AcquireUnder_single [OF g(1)] g(2)
        by (auto simp: wait_finish_def wait_error_def dropHolder_def Let_def assms(6))
    next
      case no: False
      then have cn: "canNeverFit w ?req = None"
        using waitq_capacity(1) [of "ledger w" p] capacity_never_fits [of w "ledger w" p h n timeout] by fastforce
      obtain x q1 where en: "enqueue now q ?req = (Inr x, q1)" and x: "wreq x = ?req" "set (waiters q1) = insert x (set (waiters q))"
        using assms(7,8) by (auto simp: enqueue_def Let_def)
      have "res = None" "w' = w" "q' = q1"
        using assms(9) t cn en assms(3) unfolding un AcquireUnder_single [OF g(1)] g(2) by auto
      then show ?thesis using False no x g(2) by auto
    qed
  qed
qed

theorem WaitReserve_fast_witness:
  "case WaitReserve full_world 0 (New 30 0 30) 1 ''h'' 20 0 [] of
     (res, w', q') \<Rightarrow> if node_fits (ledger full_world) 1 20
       then res = Some (Inr \<lparr>rpool = 1, ramount = 20, rdone = False\<rparr>)
       else if \<exists>c \<in> set (chain (ledger full_world) 1). 0 < usableLocked (pools (ledger full_world) c) \<and> usableLocked (pools (ledger full_world) c) < 20
       then res = Some (Inl ErrTooLargeFull)
       else res = None \<and> w' = full_world \<and> (\<exists>x. set (waiters q') = {x} \<and> qN (wreq x) = 20)"
proof -
  let ?q = "New 30 0 30 :: world wqueue"
  obtain res w' q' where r: "WaitReserve full_world 0 ?q 1 ''h'' 20 0 [] = (res, w', q')"
    by (cases "WaitReserve full_world 0 ?q 1 ''h'' 20 0 []") auto
  have "queue (pools (ledger full_world) (rootPool (ledger full_world) 1))" by code_simp
  moreover have "holders full_world 1 ''h'' = None" "\<not> closed ?q" "maxWaiters ?q \<le> 0" "waiters ?q = []"
    by (simp_all add: full_world_def New_def)
  ultimately show ?thesis
    using WaitReserve_fast [OF full_world(3) _ _ full_world(4) _ _ _ _ r] full_world(2) unfolding r by (auto split: if_splits)
qed

end
