(* ===== verification/Frame.thy ===== *)
theory Frame
  imports Prelude "HOL-Library.Word"
begin

unbundle bit_operations_syntax

text \<open>
  Frames of the tunnel multiplexer, \<open>pkg/tunnel/mux/frame.go\<close>: the eight-byte header (stream id and payload
  length in big-endian order, frame type, a reserved flags byte) and the payload. Bytes are
  \<open>8 word\<close>, stream ids \<open>32 word\<close>. A Go byte slice that may be nil is a \<open>byte list option\<close>.

  The section on round trips shows that decoding inverts encoding whatever follows the frame in the buffer, that
  each decoder error is reported in exactly its case, and that a decoded frame encodes back to the
  bytes it was read from, up to the flags byte the decoder ignores.
\<close>

type_synonym byte = "8 word"
type_synonym stream_id = "32 word"
type_synonym frame_type = "8 word"

abbreviation (input) FrameData :: frame_type where "FrameData \<equiv> 0x00"
abbreviation (input) FrameOpen :: frame_type where "FrameOpen \<equiv> 0x01"
abbreviation (input) FrameClose :: frame_type where "FrameClose \<equiv> 0x02"
abbreviation (input) FramePing :: frame_type where "FramePing \<equiv> 0x03"
abbreviation (input) FramePong :: frame_type where "FramePong \<equiv> 0x04"
abbreviation (input) FrameCloseWrite :: frame_type where "FrameCloseWrite \<equiv> 0x05"
abbreviation (input) FrameReject :: frame_type where "FrameReject \<equiv> 0x06"
abbreviation (input) FrameWindowUpdate :: frame_type where "FrameWindowUpdate \<equiv> 0x07"
abbreviation (input) FrameDatagram :: frame_type where "FrameDatagram \<equiv> 0x08"
abbreviation (input) FramePadding :: frame_type where "FramePadding \<equiv> 0x09"

abbreviation (input) headerSize :: nat where "headerSize \<equiv> 8"
abbreviation (input) MaxFramePayload :: nat where "MaxFramePayload \<equiv> 65535"
abbreviation (input) windowUpdateLen :: nat where "windowUpdateLen \<equiv> 4"

datatype frame_error = ErrFrameTooShort nat | ErrFrameTruncated nat nat | ErrFrameTooLarge nat

section \<open>Big-endian integers\<close>

text \<open>\<open>binary.BigEndian\<close>: the bytes from the most significant one down.\<close>

definition PutUint32 :: "32 word \<Rightarrow> byte list" where
  "PutUint32 v = [ucast (drop_bit 24 v), ucast (drop_bit 16 v), ucast (drop_bit 8 v), ucast v]"

definition PutUint16 :: "16 word \<Rightarrow> byte list" where
  "PutUint16 v = [ucast (drop_bit 8 v), ucast v]"

definition Uint32 :: "byte list \<Rightarrow> 32 word" where
  "Uint32 b = ucast (b ! 3) OR push_bit 8 (ucast (b ! 2)) OR push_bit 16 (ucast (b ! 1)) OR push_bit 24 (ucast (b ! 0))"

definition Uint16 :: "byte list \<Rightarrow> 16 word" where
  "Uint16 b = ucast (b ! 1) OR push_bit 8 (ucast (b ! 0))"

section \<open>Encoding and decoding\<close>

definition EncodeFrame :: "stream_id \<Rightarrow> frame_type \<Rightarrow> byte list option \<Rightarrow> frame_error + byte list" where
  "EncodeFrame streamID ftype payload = (let p = (case payload of None \<Rightarrow> [] | Some p \<Rightarrow> p) in
     if length p > MaxFramePayload then Inl (ErrFrameTooLarge (length p))
     else Inr (PutUint32 streamID @ [ftype, 0] @ PutUint16 (word_of_nat (length p)) @ p))"

definition DecodeFrame :: "byte list \<Rightarrow> frame_error + stream_id \<times> frame_type \<times> byte list" where
  "DecodeFrame raw =
     (if length raw < headerSize then Inl (ErrFrameTooShort (length raw))
      else let sid = Uint32 raw; ftype = raw ! 4; len = unat (Uint16 (drop 6 raw)) in
        if length raw < headerSize + len then Inl (ErrFrameTruncated len (length raw - headerSize))
        else Inr (sid, ftype, take len (drop headerSize raw)))"

section \<open>Round trips\<close>

lemma Put_length [simp]: "length (PutUint32 v) = 4" "length (PutUint16 w) = 2"
  by (simp_all add: PutUint32_def PutUint16_def)

lemma Uint32_Put [simp]: "Uint32 (PutUint32 v @ xs) = v"
proof (rule bit_word_eqI)
  fix n assume "n < LENGTH(32)"
  then consider "n < 8" | "8 \<le> n" "n < 16" | "16 \<le> n" "n < 24" | "24 \<le> n" "n < 32" by fastforce
  then show "bit (Uint32 (PutUint32 v @ xs)) n = bit v n"
    by cases (auto simp: Uint32_def PutUint32_def bit_simps)
qed

lemma Uint16_Put [simp]: "Uint16 (PutUint16 v @ xs) = v"
  unfolding Uint16_def PutUint16_def
  by (rule bit_word_eqI) (auto simp: bit_simps not_less)

lemma no_high_bit: "8 \<le> k \<Longrightarrow> \<not> bit (b :: byte) (k + n)"
  by (auto dest: bit_imp_le_length)

lemma Put_Uint32: "PutUint32 (Uint32 (a # b # c # d # xs)) = [a, b, c, d]"
  unfolding Uint32_def PutUint32_def
  by (auto intro!: bit_word_eqI simp: bit_simps no_high_bit)

lemma Put_Uint16: "PutUint16 (Uint16 (a # b # xs)) = [a, b]"
  unfolding Uint16_def PutUint16_def
  by (auto intro!: bit_word_eqI simp: bit_simps no_high_bit)

lemma Uint32_Put_all [simp]: "Uint32 (PutUint32 v) = v"
  using Uint32_Put [of v "[]"] by simp

lemma EncodeFrame_Some [simp]: "EncodeFrame sid ft None = EncodeFrame sid ft (Some [])"
  by (simp add: EncodeFrame_def)

lemma EncodeFrame_Inr: "length p \<le> MaxFramePayload \<Longrightarrow>
    EncodeFrame sid ft (Some p) = Inr (PutUint32 sid @ [ft, 0] @ PutUint16 (word_of_nat (length p)) @ p)"
  by (simp add: EncodeFrame_def)

lemma unat_len [simp]: "n \<le> MaxFramePayload \<Longrightarrow> unat (word_of_nat n :: 16 word) = n"
  by (simp add: unat_of_nat)

lemma DecodeFrame_append:
  "length p \<le> MaxFramePayload \<Longrightarrow>
    DecodeFrame (PutUint32 sid @ [ft, flags] @ PutUint16 (word_of_nat (length p)) @ p @ rest) = Inr (sid, ft, p)"
  by (simp add: DecodeFrame_def Let_def nth_append)

lemma DecodeFrame_Inr:
  assumes "DecodeFrame raw = Inr (sid, ft, p)"
  obtains flags rest where "raw = PutUint32 sid @ [ft, flags] @ PutUint16 (word_of_nat (length p)) @ p @ rest"
    and "length p \<le> MaxFramePayload"
proof -
  have len: "8 \<le> length raw" using assms by (auto simp: DecodeFrame_def split: if_splits)
  then obtain a b c d e f g h xs where raw: "raw = a # b # c # d # e # f # g # h # xs"
    by (auto simp: Suc_le_length_iff numeral_eq_Suc)
  let ?n = "unat (Uint16 (g # h # xs))"
  have dec: "sid = Uint32 raw" "ft = e" "p = take ?n xs" "?n \<le> length xs"
    using assms unfolding DecodeFrame_def Let_def by (auto simp: raw split: if_splits)
  have lp: "length p = ?n" using dec by simp
  have "PutUint32 sid = [a, b, c, d]" using dec(1) raw by (simp add: Put_Uint32)
  moreover have "PutUint16 (word_of_nat (length p)) = [g, h]" using lp by (simp add: Put_Uint16)
  moreover have "?n \<le> MaxFramePayload" using unsigned_less [of "Uint16 (g # h # xs)", where 'a = nat] by simp
  moreover have "xs = p @ drop ?n xs" unfolding dec(3) by simp
  ultimately show ?thesis using that [of f "drop ?n xs"] raw dec(2) lp by simp
qed

text \<open>C13. A frame survives the wire: whenever \<open>EncodeFrame\<close> yields bytes, \<open>DecodeFrame\<close> gives back the stream id, the type and the
  payload whatever bytes follow, and encoding refuses exactly the payloads longer than 65535 bytes, so no
  payload is ever cut short.\<close>

theorem frame_roundtrip:
  "case EncodeFrame sid ft payload of
     Inr raw \<Rightarrow> DecodeFrame (raw @ rest) = Inr (sid, ft, case payload of None \<Rightarrow> [] | Some p \<Rightarrow> p)
       \<and> length raw = headerSize + (case payload of None \<Rightarrow> 0 | Some p \<Rightarrow> length p)
   | Inl e \<Rightarrow> (\<exists>p. payload = Some p \<and> MaxFramePayload < length p \<and> e = ErrFrameTooLarge (length p))"
proof -
  consider p where "payload = Some p" "length p \<le> MaxFramePayload" | "payload = None" | p where "payload = Some p" "MaxFramePayload < length p"
    by (cases payload) (auto simp: not_le [symmetric])
  then show ?thesis
  proof cases
    case (1 p)
    then show ?thesis using DecodeFrame_append [of p sid ft 0 rest] by (simp add: EncodeFrame_def)
  next
    case 2
    then show ?thesis using DecodeFrame_append [of "[]" sid ft 0 rest] by (simp add: EncodeFrame_def)
  next
    case (3 p)
    then show ?thesis by (simp add: EncodeFrame_def)
  qed
qed

text \<open>C18. The decoder is exact: it reports a short header exactly below eight bytes and a truncated payload exactly when fewer
  bytes follow than the header declares; otherwise the frame it returns encodes back to the bytes it was
  read from, except for the flags byte, and the payload is within the limit of the encoder.\<close>

theorem DecodeFrame_exact:
  "case DecodeFrame raw of
     Inl (ErrFrameTooShort k) \<Rightarrow> length raw < headerSize \<and> k = length raw
   | Inl (ErrFrameTruncated n k) \<Rightarrow> headerSize \<le> length raw \<and> n = unat (Uint16 (drop 6 raw)) \<and> k = length raw - headerSize \<and> k < n
   | Inl (ErrFrameTooLarge k) \<Rightarrow> False
   | Inr (sid, ft, p) \<Rightarrow> headerSize + length p \<le> length raw \<and> length p = unat (Uint16 (drop 6 raw))
       \<and> EncodeFrame sid ft (Some p) = Inr (take (headerSize + length p) (raw[5 := 0]))"
proof (cases "DecodeFrame raw")
  case (Inl e)
  then show ?thesis by (auto simp: DecodeFrame_def Let_def split: if_splits)
next
  case (Inr r)
  then obtain sid ft p where r: "DecodeFrame raw = Inr (sid, ft, p)" by (cases r) auto
  obtain flags rest where raw: "raw = PutUint32 sid @ [ft, flags] @ PutUint16 (word_of_nat (length p)) @ p @ rest"
    and lp: "length p \<le> MaxFramePayload" by (rule DecodeFrame_Inr [OF r])
  have "raw[5 := 0] = PutUint32 sid @ [ft, 0] @ PutUint16 (word_of_nat (length p)) @ p @ rest"
    unfolding raw by (simp add: list_update_append)
  then have "take (headerSize + length p) (raw[5 := 0]) = PutUint32 sid @ [ft, 0] @ PutUint16 (word_of_nat (length p)) @ p"
    by (simp add: take_Cons')
  then show ?thesis using r lp by (simp add: EncodeFrame_Inr raw)
qed

end
