(* ===== verification/Mux_Stream.thy ===== *)
theory Mux_Stream
  imports Frame
begin

text \<open>
  The receive side of one multiplexed stream, \<open>pkg/tunnel/mux/stream.go\<close>: frames arrive from the read loop by
  \<open>pushFrame\<close> and go to a channel of 64 frames, or, once that is full, to an overflow array with a
  consumed prefix that is compacted from time to time; the reader takes them by \<open>tryPull\<close>. An EOF mark is
  a nil slice, here \<open>None\<close>. The functions of this theory touch one stream only; what they do to the
  multiplexer (abort, credit, counters) is in \<open>Mux_Table\<close>.

  The locale \<open>frame_fifo\<close> states what the read loop and the reader need of the two queues: together they
  are one first-in first-out queue. Its interpretation on the code's functions is the refinement proof, and
  the invariant \<open>stream_ok\<close> bounds both queues and the backing array.
\<close>

section \<open>32-bit signed integers\<close>

definition wrap32 :: "int \<Rightarrow> int" where
  "wrap32 x = (x + 2147483648) mod 4294967296 - 2147483648"

abbreviation (input) max_int32 :: int where
  "max_int32 \<equiv> 2147483647"

lemma wrap32_id [i64_simps]: "- 2147483648 \<le> x \<Longrightarrow> x \<le> max_int32 \<Longrightarrow> wrap32 x = x"
  by (simp add: wrap32_def)

section \<open>The stream\<close>

abbreviation (input) DefaultWindowSize :: int where "DefaultWindowSize \<equiv> 65536"
abbreviation (input) pendingOverflowLimit :: int where "pendingOverflowLimit \<equiv> 131071"
abbreviation (input) pendingEntryLimit :: nat where "pendingEntryLimit \<equiv> 65538"
abbreviation (input) pendingCompactOff :: nat where "pendingCompactOff \<equiv> 4096"
abbreviation (input) dataChCap :: nat where "dataChCap \<equiv> 64"
abbreviation (input) windowUpdateChCap :: nat where "windowUpdateChCap \<equiv> 8"

type_synonym payload = "byte list option"

record stream =
  sid :: stream_id
  rBuf :: "byte list"
  rOff :: nat
  lastActivity :: int
  dataCh :: "payload list"
  sdone :: bool
  buffered :: int
  pending :: "payload list"
  pendingOff :: nat
  pendingEOF :: bool
  windowSize :: int
  windowUpdateCh :: nat
  pendingWindowUpdate :: int
  rejected :: bool

definition newStream :: "int \<Rightarrow> stream_id \<Rightarrow> stream" where
  "newStream now i = \<lparr>sid = i, rBuf = [], rOff = 0, lastActivity = now, dataCh = [], sdone = False, buffered = 0,
     pending = [], pendingOff = 0, pendingEOF = False, windowSize = DefaultWindowSize, windowUpdateCh = 0,
     pendingWindowUpdate = 0, rejected = False\<rparr>"

definition touch :: "int \<Rightarrow> stream \<Rightarrow> stream" where
  "touch now s = s\<lparr>lastActivity := now\<rparr>"

definition closeChannels :: "stream \<Rightarrow> stream" where
  "closeChannels s = s\<lparr>sdone := True\<rparr>"

definition reject :: "stream \<Rightarrow> stream" where
  "reject s = closeChannels (s\<lparr>rejected := True\<rparr>)"

definition takePendingWindowUpdate :: "stream \<Rightarrow> int \<times> stream" where
  "takePendingWindowUpdate s =
     (if pendingWindowUpdate s \<le> 0 then (0, s) else (pendingWindowUpdate s, s\<lparr>pendingWindowUpdate := 0\<rparr>))"

section \<open>Delivery\<close>

definition appendPendingLocked :: "stream \<Rightarrow> payload \<Rightarrow> bool \<times> stream" where
  "appendPendingLocked s p =
     (if p = None \<and> pendingEOF s then (True, s)
      else if p \<noteq> None \<and> length (pending s) - pendingOff s \<ge> pendingEntryLimit then (False, s)
      else let s = (if p = None then s\<lparr>pendingEOF := True\<rparr> else s);
               s = s\<lparr>pending := pending s @ [p]\<rparr>
           in case p of None \<Rightarrow> (True, s)
              | Some d \<Rightarrow> (True, s\<lparr>buffered := wrap64 (buffered s + int (length d))\<rparr>))"

text \<open>What \<open>pushFrame\<close> did with the frame: dropped on a finished stream, queued on the channel or spilled to
  the overflow array, or found a violation of the flow-control window, upon which its caller
  aborts the stream.\<close>

datatype pushed = Dropped | Queued | Spilled | Violation

definition push_pending :: "stream \<Rightarrow> payload \<Rightarrow> pushed \<times> stream" where
  "push_pending s p = (case appendPendingLocked s p of (ok, s) \<Rightarrow> (if ok then Spilled else Violation, s))"

definition exceeds_window :: "stream \<Rightarrow> payload \<Rightarrow> bool" where
  "exceeds_window s p = (case p of None \<Rightarrow> False | Some d \<Rightarrow> wrap64 (buffered s + int (length d)) > pendingOverflowLimit)"

definition push_stream :: "stream \<Rightarrow> payload \<Rightarrow> pushed \<times> stream" where
  "push_stream s p =
     (if sdone s then (Dropped, s)
      else if exceeds_window s p then (Violation, s)
      else if pendingOff s < length (pending s) then push_pending s p
      else if length (dataCh s) < dataChCap then
        (Queued, case p of None \<Rightarrow> s\<lparr>dataCh := dataCh s @ [p]\<rparr>
           | Some d \<Rightarrow> s\<lparr>dataCh := dataCh s @ [p], buffered := wrap64 (buffered s + int (length d))\<rparr>)
      else push_pending s p)"

datatype pull = PullNone | PullData "byte list" | PullEOF

definition pulled :: "payload \<Rightarrow> pull" where
  "pulled p = (case p of None \<Rightarrow> PullEOF | Some d \<Rightarrow> PullData d)"

definition tryPull :: "stream \<Rightarrow> pull \<times> stream" where
  "tryPull s = (case dataCh s of
      p # ps \<Rightarrow> (pulled p, s\<lparr>dataCh := ps\<rparr>)
    | [] \<Rightarrow>
        if pendingOff s \<ge> length (pending s) then (PullNone, s)
        else let p = pending s ! pendingOff s;
                 s = s\<lparr>pending := (pending s)[pendingOff s := None], pendingOff := Suc (pendingOff s)\<rparr>;
                 s = (if p = None then s\<lparr>pendingEOF := False\<rparr> else s);
                 s = (if pendingOff s = length (pending s) then s\<lparr>pending := [], pendingOff := 0\<rparr>
                      else if pendingOff s \<ge> pendingCompactOff then s\<lparr>pending := drop (pendingOff s) (pending s), pendingOff := 0\<rparr>
                      else s)
             in (pulled p, s))"

datatype read_error = StreamRejected | ConnClosed

definition rejectedOrClosedErr :: "stream \<Rightarrow> read_error" where
  "rejectedOrClosedErr s = (if rejected s then StreamRejected else ConnClosed)"

text \<open>\<open>waitForData\<close> blocks in a \<open>select\<close> on the channel and on \<open>done\<close>; \<open>None\<close> is a state in which neither is ready. When both
  are ready the branch for \<open>done\<close> drains the queues first, so both branches take the same frame.\<close>

definition waitForData :: "stream \<Rightarrow> (read_error + pull) option \<times> stream" where
  "waitForData s = (case dataCh s of
      p # ps \<Rightarrow> (Some (Inr (pulled p)), s\<lparr>dataCh := ps\<rparr>)
    | [] \<Rightarrow> if sdone s then (case tryPull s of
                (PullNone, s) \<Rightarrow> (Some (Inl (rejectedOrClosedErr s)), s)
              | (k, s) \<Rightarrow> (Some (Inr k), s))
            else (None, s))"

section \<open>The two queues as one\<close>

definition live :: "stream \<Rightarrow> payload list" where
  "live s = drop (pendingOff s) (pending s)"

definition frames :: "stream \<Rightarrow> payload list" where
  "frames s = dataCh s @ live s"

fun frame_bytes :: "payload list \<Rightarrow> byte list" where
  "frame_bytes [] = []"
| "frame_bytes (None # ps) = frame_bytes ps"
| "frame_bytes (Some d # ps) = d @ frame_bytes ps"

lemma frame_bytes_append [simp]: "frame_bytes (ps @ qs) = frame_bytes ps @ frame_bytes qs"
  by (induction ps rule: frame_bytes.induct) auto

text \<open>The queue part of the invariant, and the account of bytes: what is buffered is what the two queues and
  the unread rest of the current frame hold.\<close>

definition queue_ok :: "stream \<Rightarrow> bool" where
  "queue_ok s \<longleftrightarrow> length (dataCh s) \<le> dataChCap
     \<and> (pendingOff s < length (pending s) \<or> pending s = [] \<and> pendingOff s = 0)
     \<and> pendingOff s < pendingCompactOff
     \<and> (pendingEOF s \<longleftrightarrow> None \<in> set (live s))
     \<and> length (live s) \<le> pendingEntryLimit + (if pendingEOF s then 1 else 0)
     \<and> length (filter (\<lambda>p. p = None) (live s)) \<le> 1"

definition unread :: "stream \<Rightarrow> byte list" where
  "unread s = drop (rOff s) (rBuf s) @ frame_bytes (frames s)"

definition stream_ok :: "stream \<Rightarrow> bool" where
  "stream_ok s \<longleftrightarrow> queue_ok s \<and> rOff s \<le> length (rBuf s) \<and> buffered s = int (length (unread s)) \<and> buffered s \<le> pendingOverflowLimit"

lemma newStream_ok [simp]: "stream_ok (newStream now i)"
  by (simp add: newStream_def stream_ok_def queue_ok_def unread_def frames_def live_def)

lemma live_Nil: "queue_ok s \<Longrightarrow> (live s = []) \<longleftrightarrow> \<not> pendingOff s < length (pending s)"
  by (auto simp: queue_ok_def live_def)

text \<open>Fields the queue does not depend on.\<close>

lemma queue_frame [simp]:
  "live (s\<lparr>sdone := b\<rparr>) = live s" "live (s\<lparr>rejected := b\<rparr>) = live s" "live (s\<lparr>lastActivity := t\<rparr>) = live s"
  "live (s\<lparr>rBuf := d\<rparr>) = live s" "live (s\<lparr>rOff := k\<rparr>) = live s" "live (s\<lparr>buffered := x\<rparr>) = live s"
  "live (s\<lparr>windowSize := x\<rparr>) = live s" "live (s\<lparr>windowUpdateCh := k\<rparr>) = live s"
  "live (s\<lparr>pendingWindowUpdate := x\<rparr>) = live s" "live (s\<lparr>dataCh := ps\<rparr>) = live s" "live (s\<lparr>pendingEOF := b\<rparr>) = live s"
  by (simp_all add: live_def)

lemma live_snoc: "pendingOff s \<le> length (pending s) \<Longrightarrow> live (s\<lparr>pending := pending s @ [p]\<rparr>) = live s @ [p]"
  by (simp add: live_def)

definition absorbs :: "stream \<Rightarrow> payload \<Rightarrow> bool" where
  "absorbs s p \<longleftrightarrow> p = None \<and> None \<in> set (live s)"

lemma filter_None [simp]: "None \<notin> set ps \<Longrightarrow> filter (\<lambda>p. p = None) ps = []"
  by (auto simp: filter_empty_conv) (metis option.exhaust)

lemma appendPending_spec:
  assumes ok: "queue_ok s" and a: "appendPendingLocked s p = (b, s')"
  shows "if b then queue_ok s' \<and> frames s' = (if absorbs s p then frames s else frames s @ [p])
           \<and> buffered s' = (case p of None \<Rightarrow> buffered s | Some d \<Rightarrow> wrap64 (buffered s + int (length d)))
         else s' = s \<and> p \<noteq> None \<and> pendingEntryLimit \<le> length (live s)"
proof -
  have le: "pendingOff s \<le> length (pending s)" using ok by (auto simp: queue_ok_def)
  show ?thesis
  proof (cases p)
    case None
    then show ?thesis
      using ok a le by (cases "pendingEOF s")
        (auto simp: appendPendingLocked_def absorbs_def queue_ok_def frames_def live_def)
  next
    case (Some d)
    then show ?thesis
      using ok a le by (cases "pendingEOF s")
        (auto simp: appendPendingLocked_def absorbs_def queue_ok_def frames_def live_def split: if_splits)
  qed
qed

lemma appendPending_frame:
  "appendPendingLocked s p = (b, s') \<Longrightarrow> rBuf s' = rBuf s \<and> rOff s' = rOff s \<and> dataCh s' = dataCh s"
  by (auto simp: appendPendingLocked_def Let_def split: if_splits option.splits)

text \<open>The bytes of a frame taken off the queue count as buffered until the reader has consumed them, so the
  queues are only part of the account.\<close>

definition held_ok :: "stream \<Rightarrow> bool" where
  "held_ok s \<longleftrightarrow> queue_ok s \<and> 0 \<le> buffered s \<and> buffered s \<le> pendingOverflowLimit"

definition frame_valid :: "payload \<Rightarrow> bool" where
  "frame_valid p \<longleftrightarrow> (case p of None \<Rightarrow> True | Some d \<Rightarrow> length d \<le> MaxFramePayload)"

abbreviation frame_len :: "payload \<Rightarrow> int" where
  "frame_len p \<equiv> int (length (frame_bytes [p]))"

definition put_result :: "stream \<Rightarrow> payload \<Rightarrow> stream \<Rightarrow> bool" where
  "put_result s p s' \<longleftrightarrow> held_ok s' \<and> frames s' = (if absorbs s p then frames s else frames s @ [p])
     \<and> buffered s' = buffered s + frame_len p \<and> rBuf s' = rBuf s \<and> rOff s' = rOff s"

lemma exceeds_window_iff: "held_ok s \<Longrightarrow> frame_valid p \<Longrightarrow> exceeds_window s p \<longleftrightarrow> pendingOverflowLimit < buffered s + frame_len p"
  by (cases p) (auto simp: exceeds_window_def held_ok_def frame_valid_def wrap64_nonneg)

lemma push_pending_spec:
  assumes ok: "held_ok s" and a: "push_pending s p = (r, s')" and fit: "\<not> exceeds_window s p" and v: "frame_valid p"
  shows "r = Spilled \<and> put_result s p s' \<or> r = Violation \<and> s' = s \<and> p \<noteq> None \<and> pendingEntryLimit \<le> length (live s)"
proof -
  obtain b where b: "appendPendingLocked s p = (b, s')" and r: "r = (if b then Spilled else Violation)"
    using a by (auto simp: push_pending_def split: prod.splits)
  have q: "queue_ok s" using ok by (simp add: held_ok_def)
  have "b \<Longrightarrow> buffered s' = buffered s + frame_len p"
    using appendPending_spec [OF q b] ok v by (cases p) (auto simp: held_ok_def frame_valid_def wrap64_nonneg)
  then show ?thesis
    using appendPending_spec [OF q b] appendPending_frame [OF b] r ok fit [unfolded exceeds_window_iff [OF ok v]]
    by (cases b) (simp_all add: put_result_def held_ok_def)
qed

lemma push_stream_cases:
  obtains "sdone s" "push_stream s p = (Dropped, s)" | "\<not> sdone s" "exceeds_window s p" "push_stream s p = (Violation, s)"
  | "\<not> sdone s" "\<not> exceeds_window s p" "push_stream s p = push_pending s p"
  | "\<not> sdone s" "\<not> exceeds_window s p" "\<not> pendingOff s < length (pending s)" "length (dataCh s) < dataChCap"
  by (cases "pendingOff s < length (pending s)"; cases "length (dataCh s) < dataChCap") (auto simp: push_stream_def)

text \<open>A frame is dropped only on a finished stream and refused only when the window or the number of entries is exceeded.\<close>

lemma push_stream_spec:
  assumes ok: "held_ok s" and a: "push_stream s p = (r, s')" and v: "frame_valid p"
  shows "(r = Queued \<or> r = Spilled) \<and> \<not> sdone s \<and> put_result s p s' \<or> r = Dropped \<and> sdone s \<and> s' = s
    \<or> r = Violation \<and> \<not> sdone s \<and> s' = s
      \<and> (pendingOverflowLimit < buffered s + frame_len p \<or> p \<noteq> None \<and> pendingEntryLimit \<le> length (live s))"
proof (cases rule: push_stream_cases [of s p])
  case 2
  then show ?thesis using a exceeds_window_iff [OF ok v] by simp
next
  case 3
  then show ?thesis using a push_pending_spec [OF ok _ 3(2) v, of r s'] by auto
next
  case 4
  have "live s = []" using 4(3) ok by (simp add: live_Nil held_ok_def)
  moreover have "wrap64 (buffered s + frame_len p) = buffered s + frame_len p"
    using ok v by (intro wrap64_nonneg) (cases p; auto simp: held_ok_def frame_valid_def)+
  ultimately have "r = Queued \<and> put_result s p s'"
    using 4 a ok exceeds_window_iff [OF ok v]
    by (cases p) (auto simp: push_stream_def put_result_def held_ok_def queue_ok_def frames_def absorbs_def)
  then show ?thesis using 4(1) by simp
qed (use a in simp)

lemma stream_ok_held: "stream_ok s \<Longrightarrow> held_ok s"
  by (auto simp: stream_ok_def held_ok_def)

lemma put_result_ok: "stream_ok s \<Longrightarrow> put_result s p s' \<Longrightarrow> stream_ok s'"
  by (cases p) (auto simp: stream_ok_def put_result_def held_ok_def unread_def absorbs_def)

lemma push_stream_ok: "stream_ok s \<Longrightarrow> push_stream s p = (r, s') \<Longrightarrow> frame_valid p \<Longrightarrow> stream_ok s'"
  using push_stream_spec [OF stream_ok_held] put_result_ok by blast

lemma tryPull_pending:
  assumes "dataCh s = []" and "pendingOff s < length (pending s)" and "queue_ok s" and "tryPull s = (k, s')"
  shows "queue_ok s' \<and> (\<exists>p. k = pulled p \<and> live s = p # live s') \<and> dataCh s' = []"
proof -
  let ?i = "pendingOff s" and ?ps = "pending s"
  have lv: "live s = ?ps ! ?i # drop (Suc ?i) ?ps" using assms(2) by (simp add: live_def Cons_nth_drop_Suc)
  have l': "live s' = drop (Suc ?i) ?ps" and k: "k = pulled (?ps ! ?i)" and d: "dataCh s' = []"
    and e: "pendingEOF s' = (pendingEOF s \<and> ?ps ! ?i \<noteq> None)"
    using assms(1,2,4) by (auto simp: tryPull_def Let_def live_def split: if_splits)
  have o: "pendingOff s' < length (pending s') \<or> pending s' = [] \<and> pendingOff s' = 0" "pendingOff s' < pendingCompactOff"
    using assms(1,2,4) by (auto simp: tryPull_def Let_def split: if_splits)
  have "pendingEOF s' \<longleftrightarrow> None \<in> set (live s')"
    using assms(3) e l' lv by (auto simp: queue_ok_def filter_empty_conv split: if_splits)
  then have "queue_ok s'" using assms(3) o d l' lv e by (auto simp: queue_ok_def split: if_splits)
  then show ?thesis using k lv l' d by auto
qed

lemma tryPull_frame:
  "tryPull s = (k, s') \<Longrightarrow> rBuf s' = rBuf s \<and> rOff s' = rOff s \<and> buffered s' = buffered s \<and> sdone s' = sdone s \<and> rejected s' = rejected s
     \<and> sid s' = sid s \<and> windowSize s' = windowSize s \<and> pendingWindowUpdate s' = pendingWindowUpdate s \<and> windowUpdateCh s' = windowUpdateCh s
     \<and> lastActivity s' = lastActivity s"
  by (auto simp: tryPull_def Let_def split: if_splits list.splits)

lemma tryPull_spec:
  assumes ok: "queue_ok s" and a: "tryPull s = (k, s')"
  shows "queue_ok s' \<and> (case frames s of [] \<Rightarrow> k = PullNone \<and> s' = s | p # ps \<Rightarrow> k = pulled p \<and> frames s' = ps)"
proof (cases "dataCh s")
  case (Cons p ps)
  then show ?thesis using assms by (auto simp: tryPull_def frames_def queue_ok_def)
next
  case Nil
  show ?thesis
  proof (cases "pendingOff s < length (pending s)")
    case True
    from tryPull_pending [OF Nil True ok a] Nil show ?thesis by (auto simp: frames_def)
  next
    case False
    then show ?thesis using a Nil ok live_Nil [OF ok] by (auto simp: tryPull_def frames_def)
  qed
qed

section \<open>First in, first out\<close>

text \<open>A history of \<open>put\<close> (\<open>Some\<close>) and \<open>get\<close> (\<open>None\<close>) calls, with the frames taken in and given out.\<close>

fun history :: "('s \<Rightarrow> 'f \<Rightarrow> bool \<times> 's) \<Rightarrow> ('s \<Rightarrow> 'f \<Rightarrow> bool) \<Rightarrow> ('s \<Rightarrow> 'f option \<times> 's) \<Rightarrow> 's \<Rightarrow> 'f option list \<Rightarrow> 'f list \<times> 'f list \<times> 's" where
  "history put absorb get s [] = ([], [], s)"
| "history put absorb get s (Some f # ops) = (case put s f of (b, s1) \<Rightarrow> case history put absorb get s1 ops of (ins, outs, s2) \<Rightarrow>
     (if b \<and> \<not> absorb s f then f # ins else ins, outs, s2))"
| "history put absorb get s (None # ops) = (case get s of (r, s1) \<Rightarrow> case history put absorb get s1 ops of (ins, outs, s2) \<Rightarrow>
     (ins, case r of None \<Rightarrow> outs | Some f \<Rightarrow> f # outs, s2))"

text \<open>What the two ends of a frame queue rely on: \<open>put\<close> appends, unless it refuses or absorbs the frame, and \<open>get\<close>
  takes the oldest frame, or reports an empty queue.\<close>

locale frame_fifo =
  fixes inv :: "'s \<Rightarrow> bool" and content :: "'s \<Rightarrow> 'f list" and valid :: "'f \<Rightarrow> bool"
    and put :: "'s \<Rightarrow> 'f \<Rightarrow> bool \<times> 's" and absorb :: "'s \<Rightarrow> 'f \<Rightarrow> bool" and get :: "'s \<Rightarrow> 'f option \<times> 's"
  assumes put_content: "inv s \<Longrightarrow> valid f \<Longrightarrow> put s f = (b, s') \<Longrightarrow>
      inv s' \<and> content s' = (if b \<and> \<not> absorb s f then content s @ [f] else content s)"
    and get_content: "inv s \<Longrightarrow> get s = (r, s') \<Longrightarrow>
      inv s' \<and> (case r of None \<Rightarrow> content s = [] \<and> content s' = [] | Some f \<Rightarrow> content s = f # content s')"
begin

lemma history_fifo:
  assumes "inv s" and "list_all (case_option True valid) ops" and "history put absorb get s ops = (ins, outs, s')"
  shows "inv s' \<and> content s @ ins = outs @ content s'"
  using assms
proof (induction ops arbitrary: s ins outs)
  case (Cons a ops)
  show ?case
  proof (cases a)
    case (Some f)
    obtain b s1 where p: "put s f = (b, s1)" by (cases "put s f")
    obtain i o1 s2 where h: "history put absorb get s1 ops = (i, o1, s2)" by (cases "history put absorb get s1 ops") auto
    have e: "s2 = s'" "outs = o1" "ins = (if b \<and> \<not> absorb s f then f # i else i)"
      using Cons.prems(3) Some p h by auto
    have v: "valid f" using Cons.prems(2) Some by simp
    note pc = put_content [OF Cons.prems(1) v p]
    from Cons.IH [OF _ _ h [unfolded e(1)]] pc Cons.prems(2) have "inv s' \<and> content s1 @ i = o1 @ content s'" by simp
    then show ?thesis using pc e by (auto split: if_splits)
  next
    case None
    obtain r s1 where p: "get s = (r, s1)" by (cases "get s")
    obtain i o1 s2 where h: "history put absorb get s1 ops = (i, o1, s2)" by (cases "history put absorb get s1 ops") auto
    have e: "s2 = s'" "ins = i" "outs = (case r of None \<Rightarrow> o1 | Some f \<Rightarrow> f # o1)"
      using Cons.prems(3) None p h by auto
    note gc = get_content [OF Cons.prems(1) p]
    from Cons.IH [OF _ _ h [unfolded e(1)]] gc Cons.prems(2) have "inv s' \<and> content s1 @ i = o1 @ content s'" by simp
    then show ?thesis using gc e by (auto split: option.splits)
  qed
qed simp

end

definition put_frame :: "stream \<Rightarrow> payload \<Rightarrow> bool \<times> stream" where
  "put_frame s p = (case push_stream s p of (r, s') \<Rightarrow> (r = Queued \<or> r = Spilled, s'))"

definition get_frame :: "stream \<Rightarrow> payload option \<times> stream" where
  "get_frame s = (case tryPull s of (k, s') \<Rightarrow>
     (case k of PullNone \<Rightarrow> None | PullEOF \<Rightarrow> Some None | PullData d \<Rightarrow> Some (Some d), s'))"

lemma pulled_frame [simp]:
  "(case pulled p of PullNone \<Rightarrow> None | PullEOF \<Rightarrow> Some None | PullData d \<Rightarrow> Some (Some d)) = Some p" "pulled p \<noteq> PullNone"
  by (cases p; simp add: pulled_def)+

interpretation stream_queue: frame_fifo held_ok frames frame_valid put_frame absorbs get_frame
proof
  fix s f b and s' :: stream
  assume ok: "held_ok s" and v: "frame_valid f" and p: "put_frame s f = (b, s')"
  obtain r where r: "push_stream s f = (r, s')" "b \<longleftrightarrow> r = Queued \<or> r = Spilled"
    using p by (auto simp: put_frame_def split: prod.splits)
  from push_stream_spec [OF ok r(1) v] show "held_ok s' \<and> frames s' = (if b \<and> \<not> absorbs s f then frames s @ [f] else frames s)"
    using r(2) ok by (auto simp: put_result_def)
next
  fix s r and s' :: stream
  assume ok: "held_ok s" and g: "get_frame s = (r, s')"
  obtain k where k: "tryPull s = (k, s')"
    and r: "r = (case k of PullNone \<Rightarrow> None | PullEOF \<Rightarrow> Some None | PullData d \<Rightarrow> Some (Some d))"
    using g by (auto simp: get_frame_def split: prod.splits)
  have q: "queue_ok s" using ok by (simp add: held_ok_def)
  from tryPull_spec [OF q k] tryPull_frame [OF k]
  show "held_ok s' \<and> (case r of None \<Rightarrow> frames s = [] \<and> frames s' = [] | Some f \<Rightarrow> frames s = f # frames s')"
    using r ok by (auto simp: held_ok_def split: list.splits)
qed

text \<open>C11. The channel and the overflow array are one queue: over any history of \<open>pushFrame\<close> and \<open>tryPull\<close> calls on a new stream,
  the frames pulled followed by those still queued are exactly the accepted frames in the order
  of arrival; nothing is reordered, lost or duplicated by spilling or by compacting the array. (A second EOF mark is
  absorbed while one is in the overflow array.)\<close>

theorem stream_fifo:
  assumes "list_all (case_option True frame_valid) ops"
    and "history put_frame absorbs get_frame (newStream now i) ops = (accepted, delivered, s')"
  shows "accepted = delivered @ frames s'"
proof -
  have "held_ok (newStream now i)" by (rule stream_ok_held) simp
  from stream_queue.history_fifo [OF this assms] show ?thesis
    by (simp add: newStream_def frames_def live_def)
qed

theorem stream_fifo_witness:
  "let ops = [Some (Some [1]), Some (Some [2, 3]), None, Some None, None]
   in case history put_frame absorbs get_frame (newStream 0 1) ops of (accepted, delivered, s') \<Rightarrow>
         accepted = delivered @ frames s' \<and> delivered = [Some [1], Some [2, 3]] \<and> accepted = [Some [1], Some [2, 3], None]"
proof -
  let ?ops = "[Some (Some [1]), Some (Some [2, 3 :: byte]), None, Some None, None]"
  let ?h = "history put_frame absorbs get_frame (newStream 0 1) ?ops"
  have v: "list_all (case_option True frame_valid) ?ops" by (simp add: frame_valid_def)
  have n: "fst ?h = [Some [1], Some [2, 3], None]" "fst (snd ?h) = [Some [1], Some [2, 3]]" by code_simp+
  obtain a d s where h: "?h = (a, d, s)" by (cases ?h) auto
  from stream_fifo [OF v h] show ?thesis using n unfolding Let_def h by simp
qed

end
