(* ===== verification/Mux.thy ===== *)
theory Mux
  imports Mux_Stream
begin

text \<open>
  The stream multiplexer, \<open>pkg/tunnel/mux\<close>: the stream table, opening and closing, the frame handlers of
  the read loop, the write loop with its retransmission queue, window credits, heartbeats and datagrams.
  Stream objects live in a heap \<open>objs\<close>, because the code holds pointers to them after they have left the
  table and compares them by identity.

  The connection is a parameter: \<open>net k\<close> is the outcome of the \<open>k\<close>-th \<open>Send\<close>, and \<open>wire\<close> records the frames
  sent. Channels are lists with the capacities of the code; a call that would block returns
  \<open>None\<close>. \<open>go m.Close()\<close> sets \<open>closeRequested\<close>, and \<open>run_requested_close\<close> is the goroutine it starts. A loop over
  the stream map takes the order of its keys as an argument.
\<close>

datatype counter = cFramesReceived | cFramesSent | cErrors | cStreamsRejected | cStreamsRejectedAccCh | cStreamsRejectedMaxStr
  | cPaddingReceived | cPaddingSent | cPingsSent | cPongsReceived | cPongsSent | cPongsCoalesced | cPongsDropped | cRecvRetries
  | cOpened | cClosed | cBytesRead | cBytesWritten | cStreamErrors | cActive | cMaxActive
  | cSpills | cWindowViolations | cRetransmits | cRetransmitQueueFull | cRetransmitExhausted | cLastRTTNanos

datatype role = RoleDialer | RoleListener

datatype conn_error = SendConnClosed | SendFailed

record writeMsg =
  mStreamID :: stream_id
  mData :: payload
  isRaw :: bool
  datagram :: bool
  pong :: bool

record retransmitEntry =
  rFrame :: "byte list"
  retries :: nat
  deadline :: int

record mux =
  mrole :: role
  objs :: "nat \<Rightarrow> stream"
  next_obj :: nat
  streams :: "stream_id \<Rightarrow> nat option"
  nextID :: stream_id
  acceptCh :: "nat list"
  acceptCap :: nat
  writeCh :: "writeMsg list"
  mdone :: bool
  closeRequested :: bool
  connClosed :: bool
  datagramHandler :: bool
  datagrams :: "(32 word \<times> byte list) list"
  activeStreams :: int
  maxStreams :: int
  lastPongNano :: int
  pingSentAtNano :: int
  pendingPong :: bool
  retransmitQ :: "retransmitEntry list"
  metrics :: "counter \<Rightarrow> int"
  wire :: "byte list list"
  attempts :: nat

abbreviation (input) defaultWriteChCap :: nat where "defaultWriteChCap \<equiv> 256"
abbreviation (input) maxRetransmitQ :: nat where "maxRetransmitQ \<equiv> 256"
abbreviation (input) maxRetries :: nat where "maxRetries \<equiv> 5"
abbreviation (input) retryBaseDelay :: int where "retryBaseDelay \<equiv> 100000000"
abbreviation (input) retryMaxDelay :: int where "retryMaxDelay \<equiv> 3000000000"

section \<open>Counters, heap and channels\<close>

definition add_metric :: "counter \<Rightarrow> int \<Rightarrow> mux \<Rightarrow> mux" where
  "add_metric c n m = m\<lparr>metrics := (metrics m)(c := wrap64 (metrics m c + n))\<rparr>"

abbreviation bump :: "counter \<Rightarrow> mux \<Rightarrow> mux" where
  "bump c \<equiv> add_metric c 1"

definition upd_obj :: "nat \<Rightarrow> (stream \<Rightarrow> stream) \<Rightarrow> mux \<Rightarrow> mux" where
  "upd_obj a f m = m\<lparr>objs := (objs m)(a := f (objs m a))\<rparr>"

definition raw_msg :: "stream_id \<Rightarrow> byte list \<Rightarrow> writeMsg" where
  "raw_msg i f = \<lparr>mStreamID = i, mData = Some f, isRaw = True, datagram = False, pong = False\<rparr>"

definition stream_msg :: "stream_id \<Rightarrow> payload \<Rightarrow> writeMsg" where
  "stream_msg i p = \<lparr>mStreamID = i, mData = p, isRaw = False, datagram = False, pong = False\<rparr>"

text \<open>A send on \<open>writeCh\<close> that does not block.\<close>

definition offer :: "writeMsg \<Rightarrow> mux \<Rightarrow> bool \<times> mux" where
  "offer msg m = (if length (writeCh m) < defaultWriteChCap then (True, m\<lparr>writeCh := writeCh m @ [msg]\<rparr>) else (False, m))"

definition conn_send :: "(nat \<Rightarrow> conn_error option) \<Rightarrow> byte list \<Rightarrow> mux \<Rightarrow> conn_error option \<times> mux" where
  "conn_send net f m = (case net (attempts m) of
      None \<Rightarrow> (None, m\<lparr>wire := wire m @ [f], attempts := Suc (attempts m)\<rparr>)
    | Some e \<Rightarrow> (Some e, m\<lparr>attempts := Suc (attempts m)\<rparr>))"

section \<open>Construction and the stream table\<close>

definition WithMaxStreams :: "int \<Rightarrow> mux \<Rightarrow> mux" where
  "WithMaxStreams n m = m\<lparr>maxStreams := wrap32 n\<rparr>"

definition WithAcceptChSize :: "nat \<Rightarrow> mux \<Rightarrow> mux" where
  "WithAcceptChSize n m = m\<lparr>acceptCh := [], acceptCap := n\<rparr>"

definition NewWithOpts :: "int \<Rightarrow> role \<Rightarrow> (mux \<Rightarrow> mux) list \<Rightarrow> mux" where
  "NewWithOpts now r opts = (let m = foldl (\<lambda>m opt. opt m)
     \<lparr>mrole = r, objs = (\<lambda>_. newStream now 0), next_obj = 0, streams = Map.empty, nextID = 0, acceptCh = [], acceptCap = 64,
      writeCh = [], mdone = False, closeRequested = False, connClosed = False, datagramHandler = False, datagrams = [],
      activeStreams = 0, maxStreams = 0, lastPongNano = 0, pingSentAtNano = 0, pendingPong = False, retransmitQ = [],
      metrics = (\<lambda>_. 0), wire = [], attempts = 0\<rparr> opts
     in m\<lparr>metrics := (\<lambda>_. 0), lastPongNano := now, nextID := (if r = RoleDialer then 1 else nextID m)\<rparr>)"

definition streamActiveOpened :: "mux \<Rightarrow> mux" where
  "streamActiveOpened m = (let m = bump cActive m in
     m\<lparr>metrics := (metrics m)(cMaxActive := max (metrics m cMaxActive) (metrics m cActive))\<rparr>)"

definition streamActiveClosed :: "mux \<Rightarrow> mux" where
  "streamActiveClosed m = add_metric cActive (- 1) m"

definition add_active :: "int \<Rightarrow> mux \<Rightarrow> mux" where
  "add_active n m = m\<lparr>activeStreams := wrap32 (activeStreams m + n)\<rparr>"

definition removeStream :: "stream_id \<Rightarrow> bool \<Rightarrow> mux \<Rightarrow> mux" where
  "removeStream i closeCh m = (case streams m i of None \<Rightarrow> m
    | Some a \<Rightarrow> let m = m\<lparr>streams := (streams m)(i := None)\<rparr> in
        if closeCh then upd_obj a closeChannels (streamActiveClosed (add_active (- 1) m)) else m)"

definition removeStreamIf :: "stream_id \<Rightarrow> nat \<Rightarrow> bool \<Rightarrow> mux \<Rightarrow> bool \<times> mux" where
  "removeStreamIf i a closeCh m =
     (if streams m i = Some a then
        let m = m\<lparr>streams := (streams m)(i := None)\<rparr> in
        (True, if closeCh then upd_obj a closeChannels (streamActiveClosed (add_active (- 1) m)) else m)
      else (False, m))"

definition Stream_Abort :: "nat \<Rightarrow> mux \<Rightarrow> mux" where
  "Stream_Abort a m = upd_obj a closeChannels (snd (removeStreamIf (sid (objs m a)) a True m))"

definition alloc_stream :: "int \<Rightarrow> stream_id \<Rightarrow> mux \<Rightarrow> nat \<times> mux" where
  "alloc_stream now i m = (next_obj m,
     m\<lparr>objs := (objs m)(next_obj m := newStream now i), next_obj := Suc (next_obj m), streams := (streams m)(i \<mapsto> next_obj m)\<rparr>)"

datatype open_error = OpenClosed | ErrMaxStreams | ErrStreamIDExhausted | OpenEncode frame_error | OpenSend conn_error

definition Mux_Open :: "(nat \<Rightarrow> conn_error option) \<Rightarrow> int \<Rightarrow> mux \<Rightarrow> (open_error + nat) \<times> mux" where
  "Mux_Open net now m =
     (if mdone m then (Inl OpenClosed, bump cStreamErrors m)
      else if maxStreams m > 0 \<and> activeStreams m \<ge> maxStreams m then (Inl ErrMaxStreams, bump cStreamErrors m)
      else if nextID m \<ge> 4294967293 then (Inl ErrStreamIDExhausted, bump cStreamErrors m)
      else let i = nextID m; m = m\<lparr>nextID := nextID m + 2\<rparr> in
        case alloc_stream now i m of (a, m) \<Rightarrow>
        (case EncodeFrame i FrameOpen None of
           Inl e \<Rightarrow> (Inl (OpenEncode e), bump cStreamErrors (m\<lparr>streams := (streams m)(i := None)\<rparr>))
         | Inr frame \<Rightarrow> (case conn_send net frame m of
             (Some e, m) \<Rightarrow> (Inl (OpenSend e), bump cStreamErrors (m\<lparr>streams := (streams m)(i := None)\<rparr>))
           | (None, m) \<Rightarrow> (Inr a, streamActiveOpened (bump cOpened (add_active 1 m))))))"

definition Mux_Accept :: "mux \<Rightarrow> (unit + nat) option \<times> mux" where
  "Mux_Accept m = (case acceptCh m of a # as \<Rightarrow> (Some (Inr a), m\<lparr>acceptCh := as\<rparr>)
    | [] \<Rightarrow> (if mdone m then Some (Inl ()) else None, m))"

fun close_all :: "stream_id list \<Rightarrow> mux \<Rightarrow> mux" where
  "close_all [] m = m"
| "close_all (i # ids) m = close_all ids (case streams m i of None \<Rightarrow> m
     | Some a \<Rightarrow> upd_obj a closeChannels (m\<lparr>streams := (streams m)(i := None)\<rparr>))"

definition Mux_Close :: "stream_id list \<Rightarrow> mux \<Rightarrow> mux" where
  "Mux_Close ids m = (if mdone m then m else (close_all ids (m\<lparr>mdone := True\<rparr>))\<lparr>connClosed := True\<rparr>)"

definition run_requested_close :: "stream_id list \<Rightarrow> mux \<Rightarrow> mux" where
  "run_requested_close ids m = (if closeRequested m then Mux_Close ids (m\<lparr>closeRequested := False\<rparr>) else m)"

definition rejectStream :: "stream_id \<Rightarrow> bool \<Rightarrow> mux \<Rightarrow> mux" where
  "rejectStream i acceptChFull m =
     (case EncodeFrame i FrameReject (Some [if acceptChFull then 0x01 else 0x02]) of
        Inl _ \<Rightarrow> bump cStreamErrors m
      | Inr frame \<Rightarrow> snd (offer (raw_msg i frame) m))"

section \<open>Window credit\<close>

definition trySendWindowUpdate :: "stream_id \<Rightarrow> int \<Rightarrow> mux \<Rightarrow> bool \<times> mux" where
  "trySendWindowUpdate i n m = (case EncodeFrame i FrameWindowUpdate (Some (PutUint32 (word_of_int n))) of
      Inl _ \<Rightarrow> (True, m)
    | Inr frame \<Rightarrow> if mdone m then (True, m) else offer (raw_msg i frame) m)"

definition add_pending_credit :: "int \<Rightarrow> stream \<Rightarrow> stream" where
  "add_pending_credit n s = s\<lparr>pendingWindowUpdate := wrap32 (pendingWindowUpdate s + n)\<rparr>"

definition sendWindowUpdateUnsafe :: "nat \<Rightarrow> int \<Rightarrow> mux \<Rightarrow> mux" where
  "sendWindowUpdateUnsafe a n m =
     (if n \<le> 0 then m
      else case trySendWindowUpdate (sid (objs m a)) n m of
        (True, m) \<Rightarrow> m
      | (False, m) \<Rightarrow> upd_obj a (add_pending_credit n) m)"

fun flush_streams :: "nat list \<Rightarrow> mux \<Rightarrow> mux" where
  "flush_streams [] m = m"
| "flush_streams (a # as) m = flush_streams as (case takePendingWindowUpdate (objs m a) of (n, s) \<Rightarrow>
     let m = upd_obj a (\<lambda>_. s) m in
     if n \<le> 0 then m
     else case trySendWindowUpdate (sid s) n m of
       (True, m) \<Rightarrow> m
     | (False, m) \<Rightarrow> upd_obj a (add_pending_credit n) m)"

definition flushPendingWindowUpdates :: "stream_id list \<Rightarrow> mux \<Rightarrow> mux" where
  "flushPendingWindowUpdates ids m =
     flush_streams (filter (\<lambda>a. pendingWindowUpdate (objs m a) > 0) (List.map_filter (streams m) ids)) m"

section \<open>Stream operations\<close>

definition pushFrame :: "nat \<Rightarrow> payload \<Rightarrow> mux \<Rightarrow> mux" where
  "pushFrame a p m = (case push_stream (objs m a) p of (r, s) \<Rightarrow>
     let spilled = (r = Spilled \<and> p \<noteq> None); m = upd_obj a (\<lambda>_. s) m in
     if r = Violation then Stream_Abort a (bump cWindowViolations m)
     else if spilled then bump cSpills m
     else m)"

datatype read_state = RReady | RBlocked | REOF | RFail read_error

lemma tryPull_fewer:
  assumes "tryPull s = (k, s')" and "k \<noteq> PullNone"
  shows "length (frames s') < length (frames s)"
  using assms by (auto simp: tryPull_def frames_def live_def Let_def split: list.splits if_splits)

lemma waitForData_fewer:
  assumes "waitForData s = (Some (Inr k), s')"
  shows "length (frames s') < length (frames s)"
proof (cases "dataCh s")
  case (Cons p ps)
  then show ?thesis using assms by (auto simp: waitForData_def frames_def)
next
  case Nil
  then have "tryPull s = (k, s')" "k \<noteq> PullNone"
    using assms by (auto simp: waitForData_def split: if_splits prod.splits pull.splits)
  then show ?thesis by (rule tryPull_fewer)
qed

text \<open>The next frame for the reader: from the queues, else by waiting.\<close>

definition next_frame :: "stream \<Rightarrow> (read_error + pull) option \<times> stream" where
  "next_frame s = (case tryPull s of (PullNone, s) \<Rightarrow> waitForData s | (k, s) \<Rightarrow> (Some (Inr k), s))"

lemma next_frame_fewer:
  assumes "next_frame s = (Some (Inr k), s')"
  shows "length (frames s') < length (frames s)"
proof (cases "tryPull s")
  case (Pair r s1)
  show ?thesis
  proof (cases "r = PullNone")
    case True
    have "length (frames s1) \<le> length (frames s)"
      using Pair True by (auto simp: tryPull_def pulled_def Let_def split: list.splits if_splits option.splits)
    then show ?thesis using assms Pair True waitForData_fewer [of s1 k s'] by (simp add: next_frame_def)
  next
    case False
    then show ?thesis using assms Pair tryPull_fewer [OF Pair False] by (auto simp: next_frame_def split: pull.splits)
  qed
qed

lemma frames_cong [simp]:
  "frames (s\<lparr>rBuf := d\<rparr>) = frames s" "frames (s\<lparr>rOff := k\<rparr>) = frames s" "frames (s\<lparr>buffered := x\<rparr>) = frames s"
  "frames (s\<lparr>sdone := b\<rparr>) = frames s" "frames (s\<lparr>rejected := b\<rparr>) = frames s" "frames (s\<lparr>lastActivity := t\<rparr>) = frames s"
  "frames (s\<lparr>windowSize := x\<rparr>) = frames s" "frames (s\<lparr>windowUpdateCh := k\<rparr>) = frames s"
  "frames (s\<lparr>pendingWindowUpdate := x\<rparr>) = frames s"
  by (simp_all add: frames_def)

lemma objs_upd [heap_simps]: "objs (upd_obj a f m) b = (if b = a then f (objs m a) else objs m b)"
  by (simp add: upd_obj_def)

lemma objs_same [heap_simps]:
  "objs (add_metric c n m) = objs m" "objs (snd (offer msg m)) = objs m" "objs (add_active n m) = objs m"
  "objs (streamActiveOpened m) = objs m" "objs (streamActiveClosed m) = objs m" "objs (snd (conn_send net f m)) = objs m"
  "objs (snd (trySendWindowUpdate i n m)) = objs m"
  by (simp_all add: add_metric_def offer_def add_active_def streamActiveOpened_def streamActiveClosed_def conn_send_def
      trySendWindowUpdate_def Let_def split: option.splits sum.splits)

lemma sendWindowUpdate_objs [heap_simps]:
  "objs (sendWindowUpdateUnsafe a n m) b = objs m b \<or>
    b = a \<and> objs (sendWindowUpdateUnsafe a n m) b = add_pending_credit n (objs m a)"
  using objs_same(7) [of "sid (objs m a)" n m]
  by (auto simp: sendWindowUpdateUnsafe_def objs_upd split: prod.splits bool.splits)

lemma sendWindowUpdate_frames [simp]: "frames (objs (sendWindowUpdateUnsafe a n m) b) = frames (objs m b)"
  using sendWindowUpdate_objs [of a n m b] by (auto simp: add_pending_credit_def)

text \<open>The loop of \<open>Read\<close>: take frames until one has bytes, with a credit for each.\<close>

function read_fill :: "nat \<Rightarrow> mux \<Rightarrow> read_state \<times> mux" where
  "read_fill a m = (let s = objs m a in
     if rOff s < length (rBuf s) then (RReady, m)
     else case next_frame s of
       (None, s) \<Rightarrow> (RBlocked, upd_obj a (\<lambda>_. s) m)
     | (Some (Inl e), s) \<Rightarrow> (RFail e, upd_obj a (\<lambda>_. s) m)
     | (Some (Inr (PullData d)), s) \<Rightarrow>
         read_fill a (sendWindowUpdateUnsafe a (wrap32 (int (length d))) (upd_obj a (\<lambda>_. s\<lparr>rBuf := d, rOff := 0\<rparr>) m))
     | (Some (Inr _), s) \<Rightarrow> (REOF, upd_obj a (\<lambda>_. s) m))"
  by auto
termination
  by (relation "measure (\<lambda>(a, m). length (frames (objs m a)))") (auto simp: heap_simps dest!: next_frame_fewer sym [of "(_, _)"])

declare read_fill.simps [simp del]

datatype read_result = ReadErr read_error | ReadEOF | ReadBytes "byte list"

text \<open>The application takes \<open>n\<close> bytes of the current frame.\<close>

definition consume :: "nat \<Rightarrow> stream \<Rightarrow> stream" where
  "consume n s = s\<lparr>rOff := rOff s + n, buffered := wrap64 (buffered s - int n)\<rparr>"

definition Stream_Read :: "int \<Rightarrow> nat \<Rightarrow> nat \<Rightarrow> mux \<Rightarrow> read_result option \<times> mux" where
  "Stream_Read now a k m =
     (if rejected (objs m a) then (Some (ReadErr StreamRejected), m)
      else case read_fill a (upd_obj a (touch now) m) of
        (RBlocked, m) \<Rightarrow> (None, m)
      | (RFail e, m) \<Rightarrow> (Some (ReadErr e), m)
      | (REOF, m) \<Rightarrow> (Some ReadEOF, m)
      | (RReady, m) \<Rightarrow> let s = objs m a; d = take k (drop (rOff s) (rBuf s)) in
          (Some (ReadBytes d), add_metric cBytesRead (int (length d)) (upd_obj a (consume (length d)) m)))"

definition write_len :: "int \<Rightarrow> byte list \<Rightarrow> int" where
  "write_len ws p = (let n = int (length p); n = (if wrap32 n > ws then ws else n) in if n > int MaxFramePayload then int MaxFramePayload else n)"

definition Stream_Write :: "int \<Rightarrow> nat \<Rightarrow> byte list \<Rightarrow> mux \<Rightarrow> (read_error + int) option \<times> mux" where
  "Stream_Write now a p m =
     (if rejected (objs m a) then (Some (Inl StreamRejected), m)
      else if p = [] then (Some (Inr 0), m)
      else let m = upd_obj a (touch now) m; s = objs m a in
        if sdone s then (Some (Inl (rejectedOrClosedErr s)), m)
        else if windowSize s \<le> 0 then (None, upd_obj a (\<lambda>s. s\<lparr>windowUpdateCh := 0\<rparr>) m)
        else let n = write_len (windowSize s) p in
          case offer (stream_msg (sid s) (Some (take (nat n) p))) m of
            (False, m) \<Rightarrow> (None, m)
          | (True, m) \<Rightarrow> (Some (Inr n), add_metric cBytesWritten n
               (upd_obj a (\<lambda>s. s\<lparr>windowSize := wrap32 (windowSize s - wrap32 n)\<rparr>) m)))"

text \<open>\<open>CloseWrite\<close> and \<open>Close\<close>: a \<open>select\<close> between \<open>writeCh\<close> and \<open>done\<close>. When both are ready Go may take either; the argument
  \<open>pick\<close> is its choice.\<close>

definition send_or_done :: "bool \<Rightarrow> nat \<Rightarrow> payload \<Rightarrow> mux \<Rightarrow> (read_error + unit) option \<times> mux" where
  "send_or_done pick a p m =
     (if sdone (objs m a) \<and> (pick \<or> \<not> length (writeCh m) < defaultWriteChCap) then (Some (Inl ConnClosed), m)
      else case offer (stream_msg (sid (objs m a)) p) m of (True, m) \<Rightarrow> (Some (Inr ()), m) | (False, m) \<Rightarrow> (None, m))"

definition Stream_CloseWrite :: "bool \<Rightarrow> nat \<Rightarrow> mux \<Rightarrow> (read_error + unit) option \<times> mux" where
  "Stream_CloseWrite pick a m = send_or_done pick a None m"

definition Stream_Close :: "bool \<Rightarrow> nat \<Rightarrow> mux \<Rightarrow> (read_error + unit) option \<times> mux" where
  "Stream_Close pick a m = send_or_done pick a (Some []) m"

section \<open>Frame handlers\<close>

definition trySendPong :: "mux \<Rightarrow> bool \<times> mux" where
  "trySendPong m = (case EncodeFrame 0 FramePong None of
      Inl _ \<Rightarrow> (True, m)
    | Inr frame \<Rightarrow> if mdone m then (True, m)
        else offer \<lparr>mStreamID = 0, mData = Some frame, isRaw = True, datagram = False, pong = True\<rparr> m)"

definition flushPendingPong :: "mux \<Rightarrow> mux" where
  "flushPendingPong m = (if \<not> pendingPong m then m
     else case trySendPong (m\<lparr>pendingPong := False\<rparr>) of (True, m) \<Rightarrow> m | (False, m) \<Rightarrow> m\<lparr>pendingPong := True\<rparr>)"

definition handleDatagramFrame :: "byte list \<Rightarrow> mux \<Rightarrow> mux" where
  "handleDatagramFrame payload m =
     (if length payload < 4 then bump cErrors m
      else if datagramHandler m then m\<lparr>datagrams := datagrams m @ [(Uint32 (take 4 payload), drop 4 payload)]\<rparr>
      else m)"

definition handleDataFrame :: "stream_id \<Rightarrow> byte list \<Rightarrow> mux \<Rightarrow> mux" where
  "handleDataFrame i payload m = (case streams m i of None \<Rightarrow> m | Some a \<Rightarrow> pushFrame a (Some payload) m)"

definition handleOpenFrame :: "int \<Rightarrow> stream_id \<Rightarrow> mux \<Rightarrow> mux" where
  "handleOpenFrame now i m =
     (if streams m i \<noteq> None then m
      else if maxStreams m > 0 \<and> activeStreams m \<ge> maxStreams m then
        bump cStreamsRejectedMaxStr (bump cStreamsRejected (rejectStream i False m))
      else case alloc_stream now i m of (a, m) \<Rightarrow>
        if length (acceptCh m) < acceptCap m then
          streamActiveOpened (bump cOpened (add_active 1 (m\<lparr>acceptCh := acceptCh m @ [a]\<rparr>)))
        else let m = bump cStreamsRejectedAccCh (bump cStreamsRejected (rejectStream i True m)) in
          upd_obj a reject (m\<lparr>streams := (streams m)(i := None)\<rparr>))"

definition handleRejectFrame :: "stream_id \<Rightarrow> mux \<Rightarrow> mux" where
  "handleRejectFrame i m = bump cStreamsRejected (case streams m i of None \<Rightarrow> m
     | Some a \<Rightarrow> upd_obj a reject (streamActiveClosed (add_active (- 1) (m\<lparr>streams := (streams m)(i := None)\<rparr>))))"

definition handleCloseFrame :: "stream_id \<Rightarrow> mux \<Rightarrow> mux" where
  "handleCloseFrame i m = bump cClosed (removeStream i True m)"

definition handleCloseWriteFrame :: "stream_id \<Rightarrow> mux \<Rightarrow> mux" where
  "handleCloseWriteFrame i m = (case streams m i of None \<Rightarrow> m | Some a \<Rightarrow> pushFrame a None m)"

definition handlePaddingFrame :: "mux \<Rightarrow> mux" where
  "handlePaddingFrame m = bump cPaddingReceived m"

definition handlePingFrame :: "mux \<Rightarrow> mux" where
  "handlePingFrame m = (case trySendPong m of (True, m) \<Rightarrow> m | (False, m) \<Rightarrow> bump cPongsCoalesced (m\<lparr>pendingPong := True\<rparr>))"

definition handlePongFrame :: "int \<Rightarrow> mux \<Rightarrow> mux" where
  "handlePongFrame now m = (let m = bump cPongsReceived (m\<lparr>lastPongNano := now\<rparr>); sent = pingSentAtNano m; m = m\<lparr>pingSentAtNano := 0\<rparr> in
     if sent \<noteq> 0 then m\<lparr>metrics := (metrics m)(cLastRTTNanos := wrap64 (now - sent))\<rparr> else m)"

definition credit :: "int \<Rightarrow> stream \<Rightarrow> stream" where
  "credit n s = s\<lparr>windowSize := wrap32 (windowSize s + n), windowUpdateCh := min windowUpdateChCap (Suc (windowUpdateCh s))\<rparr>"

definition handleWindowUpdateFrame :: "stream_id \<Rightarrow> byte list \<Rightarrow> mux \<Rightarrow> mux" where
  "handleWindowUpdateFrame i payload m =
     (if length payload < windowUpdateLen then bump cErrors m
      else case streams m i of None \<Rightarrow> m
        | Some a \<Rightarrow> let delta = sint (Uint32 (take windowUpdateLen payload)) in
            if delta \<le> 0 then bump cErrors m else upd_obj a (credit delta) m)"

definition handleFrame :: "int \<Rightarrow> byte list \<Rightarrow> mux \<Rightarrow> mux" where
  "handleFrame now raw m = (let m = bump cFramesReceived m in
     case DecodeFrame raw of
       Inl _ \<Rightarrow> bump cErrors m
     | Inr (i, ft, p) \<Rightarrow>
         if ft = FrameData then handleDataFrame i p m
         else if ft = FrameOpen then handleOpenFrame now i m
         else if ft = FrameReject then handleRejectFrame i m
         else if ft = FrameClose then handleCloseFrame i m
         else if ft = FrameCloseWrite then handleCloseWriteFrame i m
         else if ft = FramePing then handlePingFrame m
         else if ft = FramePadding then handlePaddingFrame m
         else if ft = FramePong then handlePongFrame now m
         else if ft = FrameWindowUpdate then handleWindowUpdateFrame i p m
         else if ft = FrameDatagram then handleDatagramFrame p m
         else bump cErrors m)"

section \<open>Datagrams\<close>

abbreviation (input) MaxDatagramPayload :: nat where "MaxDatagramPayload \<equiv> 65531"

datatype datagram_error = ErrDatagramTooLarge | ErrMuxClosed | ErrDatagramDrop

text \<open>When the channel has room and the multiplexer is closed, both branches of the \<open>select\<close> are ready; \<open>pick\<close> chooses
  the one for \<open>done\<close>.\<close>

definition SendDatagram :: "bool \<Rightarrow> 32 word \<Rightarrow> byte list \<Rightarrow> mux \<Rightarrow> datagram_error option \<times> mux" where
  "SendDatagram pick flow d m =
     (if length d > MaxDatagramPayload then (Some ErrDatagramTooLarge, m)
      else case EncodeFrame 0 FrameDatagram (Some (PutUint32 flow @ d)) of
        Inl _ \<Rightarrow> (Some ErrDatagramTooLarge, m)
      | Inr frame \<Rightarrow>
          if mdone m \<and> (pick \<or> \<not> length (writeCh m) < defaultWriteChCap) then (Some ErrMuxClosed, m)
          else case offer \<lparr>mStreamID = 0, mData = Some frame, isRaw = True, datagram = True, pong = False\<rparr> m of
            (True, m) \<Rightarrow> (None, m)
          | (False, m) \<Rightarrow> (Some ErrDatagramDrop, m))"

definition SetDatagramHandler :: "bool \<Rightarrow> mux \<Rightarrow> mux" where
  "SetDatagramHandler h m = m\<lparr>datagramHandler := h\<rparr>"

section \<open>The write loop\<close>

definition backoffDuration :: "nat \<Rightarrow> int" where
  "backoffDuration n = min (push_bit (min (n - 1) 5) retryBaseDelay) retryMaxDelay"

definition request_close :: "mux \<Rightarrow> mux" where
  "request_close m = m\<lparr>closeRequested := True\<rparr>"

definition enqueueRetransmit :: "int \<Rightarrow> byte list \<Rightarrow> nat \<Rightarrow> mux \<Rightarrow> mux" where
  "enqueueRetransmit now f n m =
     (if length (retransmitQ m) \<ge> maxRetransmitQ then request_close (bump cErrors (bump cRetransmitQueueFull m))
      else m\<lparr>retransmitQ := retransmitQ m @ [\<lparr>rFrame = f, retries = n, deadline = now + retryBaseDelay\<rparr>]\<rparr>)"

text \<open>One pass over the queue; \<open>None\<close> is the early return when an entry has used up its retries, which leaves the
  queue as it was.\<close>

fun scan_entries :: "(nat \<Rightarrow> conn_error option) \<Rightarrow> int \<Rightarrow> retransmitEntry list \<Rightarrow> retransmitEntry list \<Rightarrow> mux
    \<Rightarrow> retransmitEntry list option \<times> mux" where
  "scan_entries net now [] remaining m = (Some remaining, m)"
| "scan_entries net now (e # es) remaining m =
     (if deadline e > now then scan_entries net now es (remaining @ [e]) m
      else case conn_send net (rFrame e) m of
        (None, m) \<Rightarrow> scan_entries net now es remaining (bump cRetransmits m)
      | (Some _, m) \<Rightarrow>
          let n = Suc (retries e) in
          if n \<ge> maxRetries then (None, request_close (bump cErrors (bump cRetransmitExhausted m)))
          else scan_entries net now es (remaining @ [e\<lparr>retries := n, deadline := now + backoffDuration n\<rparr>]) m)"

definition scanRetransmitQ :: "(nat \<Rightarrow> conn_error option) \<Rightarrow> int \<Rightarrow> mux \<Rightarrow> mux" where
  "scanRetransmitQ net now m = (case scan_entries net now (retransmitQ m) [] m of
      (Some es, m) \<Rightarrow> m\<lparr>retransmitQ := es\<rparr>
    | (None, m) \<Rightarrow> m)"

definition sendRawFrame :: "(nat \<Rightarrow> conn_error option) \<Rightarrow> stream_id list \<Rightarrow> writeMsg \<Rightarrow> mux \<Rightarrow> mux" where
  "sendRawFrame net ids msg m = (case conn_send net (case mData msg of None \<Rightarrow> [] | Some d \<Rightarrow> d) m of
      (Some _, m) \<Rightarrow> if datagram msg then bump cErrors m
        else if pong msg then bump cPongsDropped m
        else Mux_Close ids (bump cErrors m)
    | (None, m) \<Rightarrow> if pong msg then bump cPongsSent m else m)"

definition Mux_encodeFrame :: "writeMsg \<Rightarrow> mux \<Rightarrow> byte list option \<times> mux" where
  "Mux_encodeFrame msg m = (case mData msg of
      None \<Rightarrow> (case EncodeFrame (mStreamID msg) FrameCloseWrite None of Inl _ \<Rightarrow> (None, m) | Inr f \<Rightarrow> (Some f, m))
    | Some [] \<Rightarrow> (case EncodeFrame (mStreamID msg) FrameClose None of Inl _ \<Rightarrow> (None, m) | Inr f \<Rightarrow> (Some f, m))
    | Some d \<Rightarrow> (case EncodeFrame (mStreamID msg) FrameData (Some d) of
        Inl _ \<Rightarrow> (None, request_close (bump cErrors m)) | Inr f \<Rightarrow> (Some f, m)))"

definition sendDataFrame :: "(nat \<Rightarrow> conn_error option) \<Rightarrow> int \<Rightarrow> byte list \<Rightarrow> mux \<Rightarrow> mux" where
  "sendDataFrame net now f m = (case conn_send net f m of
      (Some SendConnClosed, m) \<Rightarrow> request_close (bump cErrors m)
    | (Some SendFailed, m) \<Rightarrow> enqueueRetransmit now f 0 m
    | (None, m) \<Rightarrow> m)"

definition sendCloseFrame :: "(nat \<Rightarrow> conn_error option) \<Rightarrow> stream_id list \<Rightarrow> writeMsg \<Rightarrow> byte list \<Rightarrow> mux \<Rightarrow> mux" where
  "sendCloseFrame net ids msg f m = (case conn_send net f m of
      (Some _, m) \<Rightarrow> Mux_Close ids (bump cErrors m)
    | (None, m) \<Rightarrow> if mData msg = Some [] then removeStream (mStreamID msg) True m else m)"

definition sendFrame :: "(nat \<Rightarrow> conn_error option) \<Rightarrow> int \<Rightarrow> stream_id list \<Rightarrow> writeMsg \<Rightarrow> mux \<Rightarrow> mux" where
  "sendFrame net now ids msg m = (let m = bump cFramesSent m in
     if isRaw msg then sendRawFrame net ids msg m
     else case Mux_encodeFrame msg m of
       (None, m) \<Rightarrow> m
     | (Some f, m) \<Rightarrow> (case mData msg of
           Some (b # bs) \<Rightarrow> sendDataFrame net now f m
         | _ \<Rightarrow> sendCloseFrame net ids msg f m))"

text \<open>One round of \<open>writeLoop\<close>: a message from the channel, or a tick of its timer, then a scan of the retransmission
  queue. \<open>tick\<close> is the choice of the \<open>select\<close>; \<open>None\<close> is a round that has to wait.\<close>

definition writeLoop_round :: "(nat \<Rightarrow> conn_error option) \<Rightarrow> int \<Rightarrow> stream_id list \<Rightarrow> bool \<Rightarrow> mux \<Rightarrow> mux option" where
  "writeLoop_round net now ids tick m =
     (if mdone m then None
      else if tick then Some (scanRetransmitQ net now (flushPendingPong (flushPendingWindowUpdates ids m)))
      else case writeCh m of [] \<Rightarrow> None
        | msg # msgs \<Rightarrow> Some (scanRetransmitQ net now (sendFrame net now ids msg (m\<lparr>writeCh := msgs\<rparr>))))"

section \<open>The read loop and the timers\<close>

datatype received = RecvFrame "byte list" | RecvCanceled | RecvClosed | RecvFailed

abbreviation (input) maxRecvRetries :: nat where "maxRecvRetries \<equiv> 5"

text \<open>One round of \<open>readLoop\<close> with the outcome of \<open>Receive\<close>; the counter of consecutive failures is \<open>None\<close> when
  the loop ends.\<close>

definition readLoop_round :: "int \<Rightarrow> stream_id list \<Rightarrow> received \<Rightarrow> nat \<Rightarrow> mux \<Rightarrow> nat option \<times> mux" where
  "readLoop_round now ids r n m = (case r of
      RecvCanceled \<Rightarrow> (None, m)
    | RecvFrame raw \<Rightarrow> (Some 0, handleFrame now raw m)
    | RecvClosed \<Rightarrow> (None, Mux_Close ids (bump cErrors m))
    | RecvFailed \<Rightarrow> if n \<ge> maxRecvRetries then (None, Mux_Close ids (bump cErrors m))
        else let m = bump cRecvRetries m in (if mdone m then None else Some (Suc n), m))"

definition pingLoop_tick :: "(nat \<Rightarrow> conn_error option) \<Rightarrow> int \<Rightarrow> stream_id list \<Rightarrow> mux \<Rightarrow> bool \<times> mux" where
  "pingLoop_tick net now ids m =
     (if mdone m then (False, m)
      else case EncodeFrame 0 FramePing None of Inl _ \<Rightarrow> (True, m)
        | Inr f \<Rightarrow> (case conn_send net f ((bump cPingsSent m)\<lparr>pingSentAtNano := now\<rparr>) of
            (Some _, m) \<Rightarrow> (False, Mux_Close ids (bump cErrors m))
          | (None, m) \<Rightarrow> if now - lastPongNano m > 90000000000 then (False, Mux_Close ids (bump cErrors m)) else (True, m)))"

definition paddingLoop_tick :: "(nat \<Rightarrow> conn_error option) \<Rightarrow> mux \<Rightarrow> bool \<times> mux" where
  "paddingLoop_tick net m =
     (if mdone m then (False, m)
      else case EncodeFrame 0 FramePadding None of Inl _ \<Rightarrow> (True, m)
        | Inr f \<Rightarrow> (case conn_send net f m of
            (Some _, m) \<Rightarrow> (False, bump cErrors m)
          | (None, m) \<Rightarrow> (True, bump cPaddingSent m)))"

end
