(* ===== verification/Mux_Table.thy ===== *)
theory Mux_Table
  imports Mux
begin

text \<open>
  Invariants of the multiplexer over all interleavings of its calls: \<open>tab_ok\<close> relates the stream table, the
  stream objects and the counters, \<open>res_ok\<close> bounds every queue. \<open>mux_step\<close> is one call of the application, one round of
  a loop or one frame from the peer; each call is one step.
\<close>

section \<open>Bounded resources\<close>

definition res_ok :: "mux \<Rightarrow> bool" where
  "res_ok m \<longleftrightarrow> (\<forall>a. stream_ok (objs m a)) \<and> length (writeCh m) \<le> defaultWriteChCap \<and> length (acceptCh m) \<le> acceptCap m
     \<and> length (retransmitQ m) \<le> maxRetransmitQ \<and> (\<forall>e \<in> set (retransmitQ m). retries e < maxRetries)"

lemma stream_ok_same:
  assumes "stream_ok s" and "queue_ok s \<longleftrightarrow> queue_ok s'" and "unread s' = unread s" and "buffered s' = buffered s"
    and "rOff s' \<le> length (rBuf s')"
  shows "stream_ok s'"
  using assms by (simp add: stream_ok_def)

lemma stream_ok_updates [simp]:
  "stream_ok (s\<lparr>lastActivity := t\<rparr>) = stream_ok s" "stream_ok (s\<lparr>sdone := b\<rparr>) = stream_ok s" "stream_ok (s\<lparr>rejected := b\<rparr>) = stream_ok s"
  "stream_ok (s\<lparr>windowSize := x\<rparr>) = stream_ok s" "stream_ok (s\<lparr>windowUpdateCh := k\<rparr>) = stream_ok s"
  "stream_ok (s\<lparr>pendingWindowUpdate := x\<rparr>) = stream_ok s"
  by (simp_all add: stream_ok_def queue_ok_def unread_def)

lemma stream_ok_ops [simp]:
  "stream_ok (touch now s) = stream_ok s" "stream_ok (closeChannels s) = stream_ok s" "stream_ok (reject s) = stream_ok s"
  "stream_ok (credit n s) = stream_ok s" "stream_ok (add_pending_credit n s) = stream_ok s"
  by (simp_all add: touch_def closeChannels_def reject_def credit_def add_pending_credit_def)

lemma takePending_ok: "takePendingWindowUpdate s = (n, s') \<Longrightarrow> stream_ok s' = stream_ok s"
  by (auto simp: takePendingWindowUpdate_def split: if_splits)

named_theorems res_intros \<open>operations that keep the resource bounds\<close>

lemma res_ok_upd [res_intros]: "res_ok m \<Longrightarrow> (stream_ok (objs m a) \<Longrightarrow> stream_ok (f (objs m a))) \<Longrightarrow> res_ok (upd_obj a f m)"
  by (simp add: res_ok_def upd_obj_def)

lemma res_ok_prims [simp]:
  "res_ok (add_metric c n m) = res_ok m" "res_ok (add_active n m) = res_ok m" "res_ok (streamActiveOpened m) = res_ok m"
  "res_ok (streamActiveClosed m) = res_ok m" "res_ok (m\<lparr>streams := t\<rparr>) = res_ok m" "res_ok (request_close m) = res_ok m"
  "res_ok (m\<lparr>pendingPong := b\<rparr>) = res_ok m" "res_ok (m\<lparr>mdone := b\<rparr>) = res_ok m" "res_ok (m\<lparr>connClosed := b\<rparr>) = res_ok m"
  "res_ok (m\<lparr>metrics := f\<rparr>) = res_ok m" "res_ok (m\<lparr>lastPongNano := t'\<rparr>) = res_ok m" "res_ok (m\<lparr>pingSentAtNano := t'\<rparr>) = res_ok m"
  "res_ok (m\<lparr>datagrams := ds\<rparr>) = res_ok m" "res_ok (m\<lparr>nextID := i\<rparr>) = res_ok m" "res_ok (m\<lparr>closeRequested := b\<rparr>) = res_ok m"
  "res_ok (m\<lparr>datagramHandler := b\<rparr>) = res_ok m"
  by (simp_all add: res_ok_def add_metric_def add_active_def streamActiveOpened_def streamActiveClosed_def request_close_def Let_def)

lemma res_ok_offer [res_intros]: "res_ok m \<Longrightarrow> res_ok (snd (offer msg m))"
  by (auto simp: offer_def res_ok_def)

lemma res_ok_send [res_intros]: "res_ok m \<Longrightarrow> res_ok (snd (conn_send net f m))"
  by (auto simp: conn_send_def res_ok_def split: option.splits)

lemma res_ok_pairs:
  "offer msg m = (b, m') \<Longrightarrow> res_ok m \<Longrightarrow> res_ok m'" "conn_send net f m = (e, m') \<Longrightarrow> res_ok m \<Longrightarrow> res_ok m'"
  using res_ok_offer [of m msg] res_ok_send [of m net f] by auto

lemma res_ok_removeStream [res_intros]: "res_ok m \<Longrightarrow> res_ok (removeStream i b m)"
  by (auto simp: removeStream_def Let_def intro!: res_ok_upd split: option.splits)

lemma res_ok_removeStreamIf [res_intros]: "res_ok m \<Longrightarrow> res_ok (snd (removeStreamIf i a b m))"
  by (auto simp: removeStreamIf_def Let_def intro!: res_ok_upd)

lemma res_ok_Abort [res_intros]: "res_ok m \<Longrightarrow> res_ok (Stream_Abort a m)"
  by (auto simp: Stream_Abort_def intro!: res_ok_upd res_ok_removeStreamIf)

lemma res_ok_alloc: "res_ok m \<Longrightarrow> alloc_stream now i m = (a, m') \<Longrightarrow> res_ok m'"
  by (auto simp: alloc_stream_def res_ok_def)

lemma res_ok_close_all [res_intros]: "res_ok m \<Longrightarrow> res_ok (close_all ids m)"
proof (induction ids arbitrary: m)
  case (Cons i ids)
  then show ?case by (cases "streams m i") (auto intro!: Cons.IH res_ok_upd)
qed simp

lemma res_ok_Close [res_intros]: "res_ok m \<Longrightarrow> res_ok (Mux_Close ids m)"
  by (auto simp: Mux_Close_def intro!: res_ok_close_all)

lemma res_ok_rejectStream [res_intros]: "res_ok m \<Longrightarrow> res_ok (rejectStream i b m)"
  by (auto simp: rejectStream_def intro!: res_ok_offer split: sum.splits)

lemma EncodeFrame_short [simp]: "length p \<le> MaxFramePayload \<Longrightarrow> EncodeFrame i ft (Some p) \<noteq> Inl e"
  by (simp add: EncodeFrame_def)

text \<open>The three outcomes of \<open>Open\<close>.\<close>

lemma Mux_Open_cases:
  assumes "Mux_Open net now m = (r, m')"
  obtains (refused) e where "r = Inl e" "m' = bump cStreamErrors m"
  | (failed) e f m1 where "\<not> mdone m" "nextID m < 4294967293" "r = Inl (OpenSend e)"
      "conn_send net f (snd (alloc_stream now (nextID m) (m\<lparr>nextID := nextID m + 2\<rparr>))) = (Some e, m1)"
      "m' = bump cStreamErrors (m1\<lparr>streams := (streams m1)(nextID m := None)\<rparr>)"
  | (opened) f m1 where "\<not> mdone m" "nextID m < 4294967293" "r = Inr (next_obj m)"
      "\<not> (maxStreams m > 0 \<and> activeStreams m \<ge> maxStreams m)"
      "conn_send net f (snd (alloc_stream now (nextID m) (m\<lparr>nextID := nextID m + 2\<rparr>))) = (None, m1)"
      "m' = streamActiveOpened (bump cOpened (add_active 1 m1))"
proof (cases "mdone m \<or> maxStreams m > 0 \<and> activeStreams m \<ge> maxStreams m \<or> nextID m \<ge> 4294967293")
  case True
  then show ?thesis using assms refused by (auto simp: Mux_Open_def split: if_splits)
next
  case False
  let ?m1 = "snd (alloc_stream now (nextID m) (m\<lparr>nextID := nextID m + 2\<rparr>))"
  obtain f where f: "EncodeFrame (nextID m) FrameOpen None = Inr f" by (simp add: EncodeFrame_def)
  obtain e m1 where c: "conn_send net f ?m1 = (e, m1)" by (cases "conn_send net f ?m1")
  have "Mux_Open net now m = (case e of None \<Rightarrow> (Inr (next_obj m), streamActiveOpened (bump cOpened (add_active 1 m1)))
      | Some e \<Rightarrow> (Inl (OpenSend e), bump cStreamErrors (m1\<lparr>streams := (streams m1)(nextID m := None)\<rparr>)))"
    using False f c by (auto simp: Mux_Open_def Let_def alloc_stream_def split: option.splits)
  then show ?thesis using assms False c failed opened by (cases e) (auto simp: not_le)
qed

lemma res_ok_Open:
  assumes "res_ok m" and "Mux_Open net now m = (r, m')"
  shows "res_ok m'"
proof -
  have "res_ok (snd (alloc_stream now (nextID m) (m\<lparr>nextID := nextID m + 2\<rparr>)))"
    using assms(1) by (auto simp: alloc_stream_def res_ok_def)
  then show ?thesis using assms(1)
    by (cases rule: Mux_Open_cases [OF assms(2)]) (auto dest: res_ok_pairs(2))
qed

lemma res_ok_window [res_intros]: "res_ok m \<Longrightarrow> res_ok (snd (trySendWindowUpdate i n m))"
  by (auto simp: trySendWindowUpdate_def intro!: res_ok_offer split: sum.splits)

lemma res_ok_sendWindowUpdate [res_intros]: "res_ok m \<Longrightarrow> res_ok (sendWindowUpdateUnsafe a n m)"
  using res_ok_window [of m "sid (objs m a)" n]
  by (auto simp: sendWindowUpdateUnsafe_def intro!: res_ok_upd split: prod.splits bool.splits)

lemma res_ok_flush_streams [res_intros]: "res_ok m \<Longrightarrow> res_ok (flush_streams as m)"
proof (induction as arbitrary: m)
  case (Cons a as)
  obtain n s where t: "takePendingWindowUpdate (objs m a) = (n, s)" by (cases "takePendingWindowUpdate (objs m a)")
  have u: "res_ok (upd_obj a (\<lambda>_. s) m)" using Cons.prems takePending_ok [OF t] by (intro res_ok_upd) auto
  show ?case using u res_ok_window [OF u, of "sid s" n] t
    by (auto simp: Let_def intro!: Cons.IH res_ok_upd split: prod.splits bool.splits)
qed simp

lemma res_ok_flush [res_intros]: "res_ok m \<Longrightarrow> res_ok (flushPendingWindowUpdates ids m)"
  by (simp add: flushPendingWindowUpdates_def res_ok_flush_streams)

section \<open>Reading\<close>

lemma queue_ok_fields [simp]:
  "queue_ok (s\<lparr>rBuf := d\<rparr>) = queue_ok s" "queue_ok (s\<lparr>rOff := k\<rparr>) = queue_ok s" "queue_ok (s\<lparr>buffered := x\<rparr>) = queue_ok s"
  by (simp_all add: queue_ok_def)

definition other_fields :: "stream \<Rightarrow> stream_id \<times> byte list \<times> nat \<times> int \<times> bool \<times> int \<times> int \<times> nat \<times> int \<times> bool" where
  "other_fields s = (sid s, rBuf s, rOff s, lastActivity s, sdone s, buffered s, windowSize s, windowUpdateCh s, pendingWindowUpdate s, rejected s)"

lemma tryPull_other: "tryPull s = (k, s') \<Longrightarrow> other_fields s' = other_fields s"
  using tryPull_frame [of s k s'] by (simp add: other_fields_def)

lemma next_frame_spec:
  assumes ok: "queue_ok s" and a: "next_frame s = (r, s')"
  shows "queue_ok s' \<and> other_fields s' = other_fields s \<and> (case frames s of
      [] \<Rightarrow> s' = s \<and> r = (if sdone s then Some (Inl (rejectedOrClosedErr s)) else None)
    | p # ps \<Rightarrow> r = Some (Inr (pulled p)) \<and> frames s' = ps)"
proof -
  obtain k s1 where t: "tryPull s = (k, s1)" by (cases "tryPull s")
  note sp = tryPull_spec [OF ok t] and fr = tryPull_other [OF t]
  show ?thesis
  proof (cases "frames s")
    case Nil
    then have "k = PullNone" "s1 = s" "dataCh s = []" using sp by (auto simp: frames_def)
    then show ?thesis using a t Nil ok by (auto simp: next_frame_def waitForData_def)
  next
    case (Cons p ps)
    then have "k = pulled p" "frames s1 = ps" "queue_ok s1" using sp by auto
    then show ?thesis using a t Cons fr by (cases p) (auto simp: next_frame_def pulled_def)
  qed
qed

lemma other_fieldsD:
  "other_fields s' = other_fields s \<Longrightarrow> rBuf s' = rBuf s \<and> rOff s' = rOff s \<and> buffered s' = buffered s \<and> sid s' = sid s
    \<and> sdone s' = sdone s \<and> rejected s' = rejected s \<and> windowSize s' = windowSize s \<and> pendingWindowUpdate s' = pendingWindowUpdate s"
  by (simp add: other_fields_def)

lemma next_frame_ok:
  assumes ok: "stream_ok s" and "\<not> rOff s < length (rBuf s)" and a: "next_frame s = (r, s')"
  shows "if \<exists>d. r = Some (Inr (PullData d)) then stream_ok (s'\<lparr>rBuf := case r of Some (Inr (PullData d)) \<Rightarrow> d | _ \<Rightarrow> [], rOff := 0\<rparr>) else stream_ok s'"
proof -
  have q: "queue_ok s" and b: "buffered s = int (length (unread s))" "buffered s \<le> pendingOverflowLimit" "rOff s \<le> length (rBuf s)"
    using ok by (auto simp: stream_ok_def)
  have u: "unread s = frame_bytes (frames s)" using assms(2) by (simp add: unread_def)
  note sp = next_frame_spec [OF q a]
  show ?thesis
  proof (cases "frames s")
    case Nil
    then show ?thesis using sp ok by auto
  next
    case (Cons p ps)
    then show ?thesis using sp b u other_fieldsD [of s' s]
      by (cases p) (auto simp: pulled_def stream_ok_def unread_def)
  qed
qed

lemma read_fill_cases:
  obtains (ready) "rOff (objs m a) < length (rBuf (objs m a))" "read_fill a m = (RReady, m)"
  | (stop) r s' st where "\<not> rOff (objs m a) < length (rBuf (objs m a))" "next_frame (objs m a) = (r, s')" "\<nexists>d. r = Some (Inr (PullData d))"
      "st = RBlocked \<and> r = None \<or> st = REOF \<and> r \<noteq> None \<or> (\<exists>e. st = RFail e \<and> r = Some (Inl e))" "read_fill a m = (st, upd_obj a (\<lambda>_. s') m)"
  | (more) d s' where "\<not> rOff (objs m a) < length (rBuf (objs m a))" "next_frame (objs m a) = (Some (Inr (PullData d)), s')"
      "read_fill a m = read_fill a (sendWindowUpdateUnsafe a (wrap32 (int (length d))) (upd_obj a (\<lambda>_. s'\<lparr>rBuf := d, rOff := 0\<rparr>) m))"
proof (cases "rOff (objs m a) < length (rBuf (objs m a))")
  case True
  then have "read_fill a m = (RReady, m)" by (subst read_fill.simps) simp
  then show ?thesis using ready True by blast
next
  case False
  obtain r s' where n: "next_frame (objs m a) = (r, s')" by (cases "next_frame (objs m a)")
  show ?thesis
  proof (cases "\<exists>d. r = Some (Inr (PullData d))")
    case True
    then obtain d where d: "r = Some (Inr (PullData d))" by blast
    have "read_fill a m = read_fill a (sendWindowUpdateUnsafe a (wrap32 (int (length d))) (upd_obj a (\<lambda>_. s'\<lparr>rBuf := d, rOff := 0\<rparr>) m))"
      using False n d by (subst read_fill.simps) simp
    then show ?thesis using more False n d by blast
  next
    case no: False
    have "\<exists>st. (st = RBlocked \<and> r = None \<or> st = REOF \<and> r \<noteq> None \<or> (\<exists>e. st = RFail e \<and> r = Some (Inl e))) \<and> read_fill a m = (st, upd_obj a (\<lambda>_. s') m)"
      using False n no by (subst read_fill.simps) (auto split: option.splits sum.splits pull.splits)
    then show ?thesis using stop False n no by blast
  qed
qed

lemma res_ok_read_fill: "res_ok m \<Longrightarrow> read_fill a m = (r, m') \<Longrightarrow> res_ok m'"
proof (induction a m arbitrary: r m' rule: read_fill.induct)
  case (1 a m)
  have ok: "stream_ok (objs m a)" using "1.prems"(1) by (simp add: res_ok_def)
  show ?case
  proof (cases rule: read_fill_cases [of m a])
    case ready
    then show ?thesis using "1.prems" by simp
  next
    case (stop q s' st)
    then show ?thesis using "1.prems" next_frame_ok [OF ok stop(1,2)] by (auto intro!: res_ok_upd)
  next
    case (more d s')
    have "res_ok (sendWindowUpdateUnsafe a (wrap32 (int (length d))) (upd_obj a (\<lambda>_. s'\<lparr>rBuf := d, rOff := 0\<rparr>) m))"
      using "1.prems"(1) next_frame_ok [OF ok more(1,2)] by (intro res_intros) auto
    then show ?thesis using "1.IH" [OF refl more(1) more(2)[symmetric] refl refl refl] "1.prems"(2) more(3) by simp
  qed
qed

lemma read_fill_ready: "read_fill a m = (RReady, m') \<Longrightarrow> rOff (objs m' a) < length (rBuf (objs m' a))"
proof (induction a m arbitrary: m' rule: read_fill.induct)
  case (1 a m)
  show ?case
  proof (cases rule: read_fill_cases [of m a])
    case (more d s')
    then show ?thesis using "1.IH" [OF refl more(1) more(2)[symmetric] refl refl refl] "1.prems" by simp
  qed (use "1.prems" in auto)
qed

lemma consume_ok:
  assumes "stream_ok s" and "rOff s + k \<le> length (rBuf s)"
  shows "stream_ok (consume k s)" "unread s = take k (drop (rOff s) (rBuf s)) @ unread (consume k s)"
proof -
  show u: "unread s = take k (drop (rOff s) (rBuf s)) @ unread (consume k s)"
    using append_take_drop_id [of k "drop (rOff s) (rBuf s)"] by (simp add: consume_def unread_def add.commute flip: append_assoc)
  have "int k \<le> buffered s" using assms by (auto simp: stream_ok_def unread_def)
  moreover have "buffered s \<le> pendingOverflowLimit" using assms(1) by (simp add: stream_ok_def)
  ultimately have "wrap64 (buffered s - int k) = buffered s - int k" by (intro wrap64_nonneg) auto
  then show "stream_ok (consume k s)"
    using assms u by (auto simp: stream_ok_def consume_def unread_def min_def)
qed

text \<open>The outcomes of \<open>Read\<close>.\<close>

lemma Stream_Read_cases:
  assumes "Stream_Read now a k m = (r, m')"
  obtains (rejected) "r = Some (ReadErr StreamRejected)" "rejected (objs m a)" "m' = m"
  | (stopped) st where "\<not> rejected (objs m a)" "read_fill a (upd_obj a (touch now) m) = (st, m')" "st \<noteq> RReady"
      "r = (case st of RBlocked \<Rightarrow> None | RFail e \<Rightarrow> Some (ReadErr e) | _ \<Rightarrow> Some ReadEOF)"
  | (bytes) m1 d where "\<not> rejected (objs m a)" "read_fill a (upd_obj a (touch now) m) = (RReady, m1)"
      "d = take k (drop (rOff (objs m1 a)) (rBuf (objs m1 a)))" "r = Some (ReadBytes d)"
      "m' = add_metric cBytesRead (int (length d)) (upd_obj a (consume (length d)) m1)"
      "rOff (objs m1 a) + length d \<le> length (rBuf (objs m1 a))"
proof (cases "rejected (objs m a)")
  case True
  then have "r = Some (ReadErr StreamRejected)" "m' = m" using assms by (simp_all add: Stream_Read_def)
  then show ?thesis using rejected True by blast
next
  case False
  obtain st m1 where f: "read_fill a (upd_obj a (touch now) m) = (st, m1)" by (cases "read_fill a (upd_obj a (touch now) m)")
  show ?thesis
  proof (cases "st = RReady")
    case True
    let ?d = "take k (drop (rOff (objs m1 a)) (rBuf (objs m1 a)))"
    have "rOff (objs m1 a) < length (rBuf (objs m1 a))" using read_fill_ready f True by simp
    then have le: "rOff (objs m1 a) + length ?d \<le> length (rBuf (objs m1 a))" by simp
    have "r = Some (ReadBytes ?d)" "m' = add_metric cBytesRead (int (length ?d)) (upd_obj a (consume (length ?d)) m1)"
      using assms unfolding Stream_Read_def f if_not_P [OF False] True by (simp_all add: Let_def)
    then show ?thesis by (intro bytes [OF False f [unfolded True] refl _ _ le])
  next
    case no: False
    have "m1 = m'" "r = (case st of RBlocked \<Rightarrow> None | RFail e \<Rightarrow> Some (ReadErr e) | _ \<Rightarrow> Some ReadEOF)"
      using assms no unfolding Stream_Read_def f if_not_P [OF False] by (cases st; simp)+
    then show ?thesis by (intro stopped [OF False _ no]) (simp_all add: f)
  qed
qed

lemma res_ok_Read: "res_ok m \<Longrightarrow> Stream_Read now a k m = (r, m') \<Longrightarrow> res_ok m'"
proof -
  assume ok: "res_ok m" and r: "Stream_Read now a k m = (r, m')"
  have t: "res_ok (upd_obj a (touch now) m)" using ok by (intro res_ok_upd) auto
  show ?thesis
  proof (cases rule: Stream_Read_cases [OF r, case_names rejected stopped bytes])
    case (bytes m1 d)
    have m1: "res_ok m1" using res_ok_read_fill [OF t bytes(2)] .
    then show ?thesis using bytes consume_ok(1) [of "objs m1 a" "length d"] by (auto intro!: res_ok_upd)
  qed (use ok t res_ok_read_fill in auto)
qed

lemma res_ok_Write: "res_ok m \<Longrightarrow> Stream_Write now a p m = (r, m') \<Longrightarrow> res_ok m'"
proof -
  assume ok: "res_ok m" and w: "Stream_Write now a p m = (r, m')"
  have t: "res_ok (upd_obj a (touch now) m)" using ok by (intro res_ok_upd) auto
  show ?thesis using w ok t
    by (auto simp: Stream_Write_def Let_def intro!: res_ok_upd dest: res_ok_pairs(1) split: if_splits prod.splits bool.splits)
qed

lemma res_ok_send_or_done: "res_ok m \<Longrightarrow> send_or_done pick a p m = (r, m') \<Longrightarrow> res_ok m'"
  by (auto simp: send_or_done_def dest: res_ok_pairs(1) split: if_splits prod.splits bool.splits)

section \<open>Handlers and loops keep the bounds\<close>

lemma res_ok_push [res_intros]:
  assumes "res_ok m" and "frame_valid p"
  shows "res_ok (pushFrame a p m)"
proof -
  obtain r s where r: "push_stream (objs m a) p = (r, s)" by (cases "push_stream (objs m a) p")
  have "stream_ok s" using assms push_stream_ok [OF _ r] by (simp add: res_ok_def)
  then have "res_ok (upd_obj a (\<lambda>_. s) m)" using assms(1) by (intro res_ok_upd) auto
  then show ?thesis using r by (auto simp: pushFrame_def Let_def intro!: res_ok_Abort)
qed

lemma res_ok_pong: "trySendPong m = (b, m') \<Longrightarrow> res_ok m \<Longrightarrow> res_ok m'"
  by (auto simp: trySendPong_def dest: res_ok_pairs(1) split: sum.splits if_splits)

lemma res_ok_flushPong [res_intros]: "res_ok m \<Longrightarrow> res_ok (flushPendingPong m)"
  by (auto simp: flushPendingPong_def dest!: res_ok_pong split: prod.splits bool.splits)

lemma res_ok_handleOpen [res_intros]: "res_ok m \<Longrightarrow> res_ok (handleOpenFrame now i m)"
proof -
  assume ok: "res_ok m"
  obtain a m1 where a: "alloc_stream now i m = (a, m1)" by (cases "alloc_stream now i m")
  have m1: "res_ok m1" by (rule res_ok_alloc [OF ok a])
  then have "length (acceptCh m1) < acceptCap m1 \<Longrightarrow> res_ok (m1\<lparr>acceptCh := acceptCh m1 @ [a]\<rparr>)" by (simp add: res_ok_def)
  then show ?thesis using ok a m1 res_ok_rejectStream [OF ok, of i False] res_ok_rejectStream [OF m1, of i True]
    by (auto simp: handleOpenFrame_def Let_def intro!: res_ok_upd)
qed

lemma DecodeFrame_valid: "DecodeFrame raw = Inr (i, ft, p) \<Longrightarrow> frame_valid (Some p)"
  by (elim DecodeFrame_Inr) (simp add: frame_valid_def)

lemma res_ok_handlers [res_intros]:
  assumes "res_ok m"
  shows "frame_valid (Some p) \<Longrightarrow> res_ok (handleDataFrame i p m)" "res_ok (handleRejectFrame i m)" "res_ok (handleCloseFrame i m)"
    "res_ok (handleCloseWriteFrame i m)" "res_ok (handlePingFrame m)" "res_ok (handlePaddingFrame m)" "res_ok (handlePongFrame now m)"
    "res_ok (handleWindowUpdateFrame i p m)" "res_ok (handleDatagramFrame p m)"
  using assms
  by (auto simp: handleDataFrame_def handleRejectFrame_def handleCloseFrame_def handleCloseWriteFrame_def handlePingFrame_def
      handlePaddingFrame_def handlePongFrame_def handleWindowUpdateFrame_def handleDatagramFrame_def frame_valid_def Let_def
      intro!: res_intros dest!: res_ok_pong split: option.splits prod.splits bool.splits)

lemma res_ok_handleFrame: "res_ok m \<Longrightarrow> res_ok (handleFrame now raw m)"
  using DecodeFrame_valid [of raw]
  by (auto simp: handleFrame_def Let_def intro!: res_ok_handlers res_ok_handleOpen split: sum.splits)

lemma res_ok_scan:
  assumes "res_ok m" and "scan_entries net now es rem m = (r, m')" and "\<forall>e \<in> set (es @ rem). retries e < maxRetries"
  shows "res_ok m' \<and> (case r of None \<Rightarrow> True | Some q \<Rightarrow> length q \<le> length es + length rem \<and> (\<forall>e \<in> set q. retries e < maxRetries))"
  using assms
proof (induction net now es rem m arbitrary: r m' rule: scan_entries.induct)
  case (2 net now e es rem m)
  obtain x m1 where c: "conn_send net (rFrame e) m = (x, m1)" by (cases "conn_send net (rFrame e) m")
  have m1: "res_ok m1" using c "2.prems"(1) by (rule res_ok_pairs(2))
  show ?case
  proof (cases "deadline e > now")
    case True
    then show ?thesis using "2.IH"(1) [OF True] "2.prems" by (force split: option.splits)
  next
    case le: False
    show ?thesis
    proof (cases x)
      case None
      then show ?thesis using "2.IH"(2) [OF le c [symmetric] None] "2.prems" le c m1 by (force split: option.splits)
    next
      case (Some y)
      then show ?thesis using "2.IH"(3) [OF le c [symmetric] Some refl] "2.prems" le c m1
        by (cases "Suc (retries e) \<ge> maxRetries") (force simp: Let_def split: option.splits)+
    qed
  qed
qed auto

lemma res_ok_scanQ [res_intros]: "res_ok m \<Longrightarrow> res_ok (scanRetransmitQ net now m)"
proof -
  assume ok: "res_ok m"
  obtain r m1 where s: "scan_entries net now (retransmitQ m) [] m = (r, m1)" by (cases "scan_entries net now (retransmitQ m) [] m")
  have "\<forall>e \<in> set (retransmitQ m @ []). retries e < maxRetries" "length (retransmitQ m) \<le> maxRetransmitQ" using ok by (auto simp: res_ok_def)
  with res_ok_scan [OF ok s] s show ?thesis by (auto simp: scanRetransmitQ_def res_ok_def split: option.splits)
qed

lemma res_ok_sendRaw: "res_ok m \<Longrightarrow> res_ok (sendRawFrame net ids msg m)"
  by (auto simp: sendRawFrame_def intro!: res_ok_Close dest: res_ok_pairs(2) split: prod.splits option.splits)

lemma res_ok_sendData: "res_ok m \<Longrightarrow> res_ok (sendDataFrame net now f m)"
proof -
  assume ok: "res_ok m"
  obtain e m1 where c: "conn_send net f m = (e, m1)" by (cases "conn_send net f m")
  have "res_ok m1" by (rule res_ok_pairs(2) [OF c ok])
  moreover from this have "res_ok (enqueueRetransmit now f 0 m1)" by (auto simp: enqueueRetransmit_def res_ok_def request_close_def add_metric_def)
  ultimately show ?thesis using c by (auto simp: sendDataFrame_def split: option.splits conn_error.splits)
qed

lemma res_ok_sendClose: "res_ok m \<Longrightarrow> res_ok (sendCloseFrame net ids msg f m)"
  by (auto simp: sendCloseFrame_def intro!: res_ok_Close res_ok_removeStream dest: res_ok_pairs(2) split: prod.splits option.splits)

lemma Mux_encodeFrame_cases:
  assumes "Mux_encodeFrame msg m = (r, m')"
  obtains f where "r = Some f" "m' = m" | "r = None" "m' = request_close (bump cErrors m)" "\<exists>d. mData msg = Some d \<and> MaxFramePayload < length d"
  using assms by (auto simp: Mux_encodeFrame_def EncodeFrame_def Let_def split: option.splits list.splits if_splits)

lemma res_ok_sendFrame: "res_ok m \<Longrightarrow> res_ok (sendFrame net now ids msg m)"
proof -
  assume ok: "res_ok m"
  obtain r m1 where e: "Mux_encodeFrame msg (bump cFramesSent m) = (r, m1)" by (cases "Mux_encodeFrame msg (bump cFramesSent m)")
  have m1: "res_ok m1" using ok by (cases rule: Mux_encodeFrame_cases [OF e]) auto
  show ?thesis using ok e m1 res_ok_sendRaw [of "bump cFramesSent m"] res_ok_sendData [OF m1] res_ok_sendClose [OF m1]
    by (auto simp: sendFrame_def Let_def split: option.splits list.splits)
qed

lemma res_ok_writeLoop: "res_ok m \<Longrightarrow> writeLoop_round net now ids tick m = Some m' \<Longrightarrow> res_ok m'"
proof -
  assume ok: "res_ok m" and w: "writeLoop_round net now ids tick m = Some m'"
  have "writeCh m = msg # msgs \<Longrightarrow> res_ok (m\<lparr>writeCh := msgs\<rparr>)" for msg msgs using ok by (simp add: res_ok_def)
  then show ?thesis using ok w
    by (auto simp: writeLoop_round_def intro!: res_intros res_ok_sendFrame split: if_splits list.splits)
qed

section \<open>The stream table\<close>

definition tab_ok :: "mux \<Rightarrow> bool" where
  "tab_ok m \<longleftrightarrow> (\<forall>i a. streams m i = Some a \<longrightarrow> a < next_obj m \<and> sid (objs m a) = i \<and> \<not> sdone (objs m a) \<and> \<not> rejected (objs m a))
     \<and> (\<not> mdone m \<longrightarrow> activeStreams m = wrap32 (int (card (dom (streams m)))) \<and> metrics m cActive = int (card (dom (streams m))))
     \<and> (\<forall>i \<in> dom (streams m). even (unat i) = even (unat (nextID m)) \<longrightarrow> i < nextID m)
     \<and> maxStreams m \<le> max_int32 \<and> (\<not> mdone m \<and> 0 < maxStreams m \<longrightarrow> int (card (dom (streams m))) \<le> maxStreams m)"

text \<open>Everything the table invariant looks at.\<close>

definition tview :: "mux \<Rightarrow> (stream_id \<Rightarrow> nat option) \<times> nat \<times> stream_id \<times> int \<times> int \<times> bool \<times> int \<times> (nat \<Rightarrow> stream_id \<times> bool \<times> bool)" where
  "tview m = (streams m, next_obj m, nextID m, activeStreams m, metrics m cActive, mdone m, maxStreams m, \<lambda>a. (sid (objs m a), sdone (objs m a), rejected (objs m a)))"

lemma tab_ok_view: "tview m' = tview m \<Longrightarrow> tab_ok m \<Longrightarrow> tab_ok m'"
proof -
  assume v: "tview m' = tview m" and ok: "tab_ok m"
  have "streams m' = streams m" "\<And>a. sid (objs m' a) = sid (objs m a) \<and> sdone (objs m' a) = sdone (objs m a) \<and> rejected (objs m' a) = rejected (objs m a)"
    using v by (auto simp: tview_def fun_eq_iff)
  then show ?thesis using v ok by (simp add: tab_ok_def tview_def)
qed

definition keeps_id :: "(stream \<Rightarrow> stream) \<Rightarrow> bool" where
  "keeps_id f \<longleftrightarrow> (\<forall>s. sid (f s) = sid s \<and> sdone (f s) = sdone s \<and> rejected (f s) = rejected s)"

lemma keeps_id_ops [simp]:
  "keeps_id (touch now)" "keeps_id (credit n)" "keeps_id (add_pending_credit n)" "keeps_id (consume k)"
  "keeps_id (\<lambda>s. s\<lparr>windowUpdateCh := j\<rparr>)" "keeps_id (\<lambda>s. s\<lparr>windowSize := g s\<rparr>)"
  by (simp_all add: keeps_id_def touch_def credit_def add_pending_credit_def consume_def)

lemma tview_upd [simp]: "keeps_id f \<Longrightarrow> tview (upd_obj a f m) = tview m"
  by (auto simp: tview_def upd_obj_def keeps_id_def fun_eq_iff)

lemma tview_const: "sid s = sid (objs m a) \<Longrightarrow> sdone s = sdone (objs m a) \<Longrightarrow> rejected s = rejected (objs m a) \<Longrightarrow> tview (upd_obj a (\<lambda>_. s) m) = tview m"
  by (auto simp: tview_def upd_obj_def fun_eq_iff)

lemma tview_prims [simp]:
  "c \<noteq> cActive \<Longrightarrow> tview (add_metric c n m) = tview m" "tview (request_close m) = tview m"
  "tview (m\<lparr>pendingPong := b\<rparr>) = tview m" "tview (m\<lparr>connClosed := b\<rparr>) = tview m" "tview (m\<lparr>lastPongNano := t'\<rparr>) = tview m"
  "tview (m\<lparr>pingSentAtNano := t'\<rparr>) = tview m" "tview (m\<lparr>datagrams := ds\<rparr>) = tview m" "tview (m\<lparr>closeRequested := b\<rparr>) = tview m"
  "tview (m\<lparr>datagramHandler := b\<rparr>) = tview m" "tview (m\<lparr>writeCh := ms\<rparr>) = tview m" "tview (m\<lparr>acceptCh := as\<rparr>) = tview m"
  "tview (m\<lparr>retransmitQ := q\<rparr>) = tview m" "tview (snd (offer msg m)) = tview m" "tview (snd (conn_send net f m)) = tview m"
  by (simp_all add: tview_def add_metric_def request_close_def offer_def conn_send_def split: option.splits)

lemma tview_pairs:
  "offer msg m = (b, m') \<Longrightarrow> tview m' = tview m" "conn_send net f m = (e, m') \<Longrightarrow> tview m' = tview m"
  using tview_prims(13) [of msg m] tview_prims(14) [of net f m] by auto

lemma tview_window: "trySendWindowUpdate i n m = (b, m') \<Longrightarrow> tview m' = tview m"
  by (auto simp: trySendWindowUpdate_def dest: tview_pairs split: sum.splits if_splits)

lemma tview_sendWindowUpdate [simp]: "tview (sendWindowUpdateUnsafe a n m) = tview m"
  by (auto simp: sendWindowUpdateUnsafe_def dest: tview_window split: prod.splits bool.splits)

lemma tview_flush_streams [simp]: "tview (flush_streams as m) = tview m"
proof (induction as arbitrary: m)
  case (Cons a as)
  obtain n s where t: "takePendingWindowUpdate (objs m a) = (n, s)" by (cases "takePendingWindowUpdate (objs m a)")
  have u: "tview (upd_obj a (\<lambda>_. s) m) = tview m" using t by (intro tview_const) (auto simp: takePendingWindowUpdate_def split: if_splits)
  show ?case using t u by (auto simp: Let_def Cons.IH dest: tview_window split: prod.splits bool.splits)
qed simp

lemma tview_flush [simp]: "tview (flushPendingWindowUpdates ids m) = tview m"
  by (simp add: flushPendingWindowUpdates_def)

lemma next_frame_id:
  assumes "next_frame s = (r, s')"
  shows "sid s' = sid s \<and> sdone s' = sdone s \<and> rejected s' = rejected s"
proof -
  obtain k s1 where t: "tryPull s = (k, s1)" by (cases "tryPull s")
  obtain k2 s2 where t2: "tryPull s1 = (k2, s2)" by (cases "tryPull s1")
  have "s' = s1 \<or> s' = s2 \<or> (\<exists>ps. s' = s1\<lparr>dataCh := ps\<rparr>)"
    using assms t t2 by (auto simp: next_frame_def waitForData_def split: pull.splits list.splits if_splits)
  then show ?thesis using tryPull_frame [OF t] tryPull_frame [OF t2] by auto
qed

lemma tview_read_fill: "read_fill a m = (r, m') \<Longrightarrow> tview m' = tview m"
proof (induction a m arbitrary: r m' rule: read_fill.induct)
  case (1 a m)
  show ?case
  proof (cases rule: read_fill_cases [of m a])
    case ready
    then show ?thesis using "1.prems" by simp
  next
    case (stop q s' st)
    have "tview (upd_obj a (\<lambda>_. s') m) = tview m" using next_frame_id [OF stop(2)] by (intro tview_const) auto
    then show ?thesis using "1.prems" stop(5) by simp
  next
    case (more d s')
    have "tview (upd_obj a (\<lambda>_. s'\<lparr>rBuf := d, rOff := 0\<rparr>) m) = tview m"
      using next_frame_id [OF more(2)] by (intro tview_const) auto
    then show ?thesis using "1.IH" [OF refl more(1) more(2)[symmetric] refl refl refl] "1.prems" more(3) by simp
  qed
qed

lemma tview_Read: "Stream_Read now a k m = (r, m') \<Longrightarrow> tview m' = tview m"
proof -
  assume r: "Stream_Read now a k m = (r, m')"
  show ?thesis
  proof (cases rule: Stream_Read_cases [OF r, case_names rejected stopped bytes])
    case (bytes m1 d)
    then show ?thesis using tview_read_fill [OF bytes(2)] by simp
  qed (use tview_read_fill in force)+
qed

lemma tview_Write: "Stream_Write now a p m = (r, m') \<Longrightarrow> tview m' = tview m"
  using tview_upd [OF keeps_id_ops(1), of a now m]
  by (auto simp: Stream_Write_def Let_def dest!: tview_pairs split: if_splits prod.splits bool.splits)

lemma tview_send_or_done: "send_or_done pick a p m = (r, m') \<Longrightarrow> tview m' = tview m"
  by (auto simp: send_or_done_def dest: tview_pairs split: if_splits prod.splits bool.splits)

lemma tview_pong: "trySendPong m = (b, m') \<Longrightarrow> tview m' = tview m"
  by (auto simp: trySendPong_def dest: tview_pairs split: sum.splits if_splits)

lemma tview_flushPong [simp]: "tview (flushPendingPong m) = tview m"
  by (auto simp: flushPendingPong_def dest!: tview_pong split: prod.splits bool.splits)

lemma tview_rejectStream [simp]: "tview (rejectStream i b m) = tview m"
  by (auto simp: rejectStream_def split: sum.splits)

lemma tview_scan: "scan_entries net now es rem m = (r, m') \<Longrightarrow> tview m' = tview m"
proof (induction net now es rem m arbitrary: r m' rule: scan_entries.induct)
  case (2 net now e es rem m)
  obtain x m1 where c: "conn_send net (rFrame e) m = (x, m1)" by (cases "conn_send net (rFrame e) m")
  note m1 = tview_pairs(2) [OF c]
  show ?case
  proof (cases "deadline e > now")
    case True
    then show ?thesis using "2.IH"(1) [OF True] "2.prems" by simp
  next
    case le: False
    show ?thesis
    proof (cases x)
      case None
      then show ?thesis using "2.IH"(2) [OF le c [symmetric] None] "2.prems" le c m1 by simp
    next
      case (Some y)
      then show ?thesis using "2.IH"(3) [OF le c [symmetric] Some refl] "2.prems" le c m1
        by (cases "Suc (retries e) \<ge> maxRetries") (auto simp: Let_def)
    qed
  qed
qed simp

lemma tview_scanQ [simp]: "tview (scanRetransmitQ net now m) = tview m"
  by (auto simp: scanRetransmitQ_def dest: tview_scan split: prod.splits option.splits)

section \<open>Registering and removing streams\<close>

lemma wrap32_add [simp]: "wrap32 (wrap32 x + y) = wrap32 (x + y)"
proof -
  have "((x + 2147483648) mod 4294967296 + y) mod 4294967296 = (x + y + 2147483648) mod (4294967296::int)"
    by (simp add: mod_simps) (simp add: algebra_simps)
  then show ?thesis by (simp add: wrap32_def algebra_simps)
qed

lemma card_dom_le: "card (dom (t :: stream_id \<Rightarrow> nat option)) \<le> 4294967296"
  using card_mono [of UNIV "dom t"] by (simp add: card_word)

lemma wrap64_card [simp]: "wrap64 (int (card (dom (t :: stream_id \<Rightarrow> nat option))) + 1) = int (card (dom t)) + 1"
  "wrap64 (int (card (dom t)) - 1) = int (card (dom t)) - 1"
  using card_dom_le [of t] by (auto intro!: wrap64_id simp: in64_def)

text \<open>Taking entry \<open>i\<close> out of the table and ending its stream by \<open>f\<close>.\<close>

definition forget :: "stream_id \<Rightarrow> nat \<Rightarrow> (stream \<Rightarrow> stream) \<Rightarrow> mux \<Rightarrow> mux" where
  "forget i a f m = upd_obj a f (streamActiveClosed (add_active (- 1) (m\<lparr>streams := (streams m)(i := None)\<rparr>)))"

lemma tab_ok_D:
  assumes "tab_ok m" and "streams m i = Some a"
  shows "a < next_obj m" "sid (objs m a) = i" "\<not> sdone (objs m a)" "\<not> rejected (objs m a)"
  using assms by (auto simp: tab_ok_def)

lemma card_drop: "t i = Some a \<Longrightarrow> int (card (dom ((t :: stream_id \<Rightarrow> nat option)(i := None)))) = int (card (dom t)) - 1"
proof -
  assume "t i = Some a"
  then have "card (dom t) > 0" "card (dom t - {i}) = card (dom t) - 1"
    using card_Diff_singleton [of i "dom t"] by (auto simp: card_gt_0_iff dom_def)
  then show ?thesis by simp
qed

lemma tab_ok_forget:
  assumes ok: "tab_ok m" and r: "streams m i = Some a"
  shows "tab_ok (forget i a f m)"
proof -
  have ne: "b \<noteq> a" if "streams m j = Some b" "j \<noteq> i" for j b
    using tab_ok_D(2) [OF ok r] tab_ok_D(2) [OF ok that(1)] that(2) by auto
  show ?thesis
    unfolding tab_ok_def
  proof (intro conjI allI impI ballI)
    fix j b assume "streams (forget i a f m) j = Some b"
    then have j: "streams m j = Some b" "j \<noteq> i"
      by (auto simp: forget_def upd_obj_def streamActiveClosed_def add_metric_def add_active_def split: if_splits)
    show "b < next_obj (forget i a f m)" "sid (objs (forget i a f m) b) = j" "\<not> sdone (objs (forget i a f m) b)"
      "\<not> rejected (objs (forget i a f m) b)"
      using tab_ok_D [OF ok j(1)] ne [OF j] by (auto simp: forget_def upd_obj_def streamActiveClosed_def add_metric_def add_active_def)
  next
    assume "\<not> mdone (forget i a f m)"
    then have c: "activeStreams m = wrap32 (int (card (dom (streams m))))" "metrics m cActive = int (card (dom (streams m)))"
      using ok by (auto simp: tab_ok_def forget_def upd_obj_def streamActiveClosed_def add_metric_def add_active_def)
    have st: "streams (forget i a f m) = (streams m)(i := None)"
      by (simp add: forget_def upd_obj_def streamActiveClosed_def add_metric_def add_active_def)
    show "activeStreams (forget i a f m) = wrap32 (int (card (dom (streams (forget i a f m)))))"
      "metrics (forget i a f m) cActive = int (card (dom (streams (forget i a f m))))"
      unfolding st card_drop [of "streams m", OF r]
      using c wrap32_add [of _ "- 1"] by (simp_all add: forget_def upd_obj_def streamActiveClosed_def add_metric_def add_active_def)
  next
    fix j assume "j \<in> dom (streams (forget i a f m))" "even (unat j) = even (unat (nextID (forget i a f m)))"
    then show "j < nextID (forget i a f m)"
      using ok by (auto simp: tab_ok_def forget_def upd_obj_def streamActiveClosed_def add_metric_def add_active_def split: if_splits)
  next
    show "maxStreams (forget i a f m) \<le> max_int32"
      using ok by (simp add: tab_ok_def forget_def upd_obj_def streamActiveClosed_def add_metric_def add_active_def)
  next
    assume "\<not> mdone (forget i a f m) \<and> 0 < maxStreams (forget i a f m)"
    moreover have "streams (forget i a f m) = (streams m)(i := None)"
      by (simp add: forget_def upd_obj_def streamActiveClosed_def add_metric_def add_active_def)
    ultimately show "int (card (dom (streams (forget i a f m)))) \<le> maxStreams (forget i a f m)"
      using ok card_drop [of "streams m", OF r]
      by (auto simp: tab_ok_def forget_def upd_obj_def streamActiveClosed_def add_metric_def add_active_def)
  qed
qed

lemma removeStream_alt: "removeStream i True m = (case streams m i of None \<Rightarrow> m | Some a \<Rightarrow> forget i a closeChannels m)"
  by (auto simp: removeStream_def forget_def Let_def split: option.splits)

lemma tab_ok_removeStream: "tab_ok m \<Longrightarrow> tab_ok (removeStream i True m)"
  by (auto simp: removeStream_alt tab_ok_forget split: option.splits)

lemma tab_ok_upd_unregistered:
  assumes "tab_ok m" and "\<And>i. streams m i \<noteq> Some a"
  shows "tab_ok (upd_obj a f m)"
proof -
  have "b \<noteq> a" if "streams m i = Some b" for i b using assms(2) that by auto
  then show ?thesis using assms(1) by (simp add: tab_ok_def upd_obj_def)
qed

lemma tab_ok_Abort:
  assumes ok: "tab_ok m"
  shows "tab_ok (Stream_Abort a m)"
proof (cases "streams m (sid (objs m a)) = Some a")
  case True
  have "upd_obj a closeChannels (forget i a closeChannels m) = forget i a closeChannels m" for i
    by (simp add: forget_def upd_obj_def closeChannels_def)
  then have "Stream_Abort a m = forget (sid (objs m a)) a closeChannels m"
    using True by (simp add: Stream_Abort_def removeStreamIf_def forget_def Let_def)
  then show ?thesis using tab_ok_forget [OF ok True] by simp
next
  case False
  have "streams m i \<noteq> Some a" for i using False tab_ok_D(2) [OF ok, of i a] by auto
  then show ?thesis using False tab_ok_upd_unregistered [OF ok] by (simp add: Stream_Abort_def removeStreamIf_def)
qed

lemma push_stream_id: "push_stream s p = (r, s') \<Longrightarrow> sid s' = sid s \<and> sdone s' = sdone s \<and> rejected s' = rejected s"
  by (auto simp: push_stream_def push_pending_def appendPendingLocked_def Let_def split: if_splits option.splits prod.splits)

lemma tab_ok_push:
  assumes "tab_ok m"
  shows "tab_ok (pushFrame a p m)"
proof -
  obtain r s where r: "push_stream (objs m a) p = (r, s)" by (cases "push_stream (objs m a) p")
  have v: "tview (upd_obj a (\<lambda>_. s) m) = tview m" using push_stream_id [OF r] by (intro tview_const) auto
  then have "tab_ok (upd_obj a (\<lambda>_. s) m)" "tab_ok (bump cWindowViolations (upd_obj a (\<lambda>_. s) m))" "tab_ok (bump cSpills (upd_obj a (\<lambda>_. s) m))"
    by (auto intro: tab_ok_view [OF _ assms])
  then show ?thesis using r by (auto simp: pushFrame_def Let_def intro: tab_ok_Abort)
qed

text \<open>A new entry under an id that is not in use.\<close>

definition register :: "stream_id \<Rightarrow> mux \<Rightarrow> mux \<Rightarrow> bool" where
  "register i m m' \<longleftrightarrow> streams m' = (streams m)(i \<mapsto> next_obj m) \<and> next_obj m' = Suc (next_obj m)
     \<and> sid (objs m' (next_obj m)) = i \<and> \<not> sdone (objs m' (next_obj m)) \<and> \<not> rejected (objs m' (next_obj m))
     \<and> (\<forall>a < next_obj m. objs m' a = objs m a) \<and> mdone m' = mdone m \<and> maxStreams m' = maxStreams m
     \<and> \<not> (maxStreams m > 0 \<and> activeStreams m \<ge> maxStreams m)
     \<and> activeStreams m' = wrap32 (activeStreams m + 1) \<and> metrics m' cActive = wrap64 (metrics m cActive + 1)"

lemma tab_ok_register:
  assumes ok: "tab_ok m" and reg: "register i m m'" and free: "streams m i = None"
    and ids: "\<And>j. j \<in> insert i (dom (streams m)) \<Longrightarrow> even (unat j) = even (unat (nextID m')) \<Longrightarrow> j < nextID m'"
  shows "tab_ok m'"
proof -
  have card: "int (card (dom (streams m'))) = int (card (dom (streams m))) + 1"
    using reg free by (simp add: register_def domIff)
  show ?thesis
  unfolding tab_ok_def
proof (intro conjI allI impI ballI)
  fix j b assume "streams m' j = Some b"
  then consider "j = i" "b = next_obj m" | "j \<noteq> i" "streams m j = Some b" using reg by (auto simp: register_def split: if_splits)
  then show "b < next_obj m'" "sid (objs m' b) = j" "\<not> sdone (objs m' b)" "\<not> rejected (objs m' b)"
    using reg tab_ok_D [OF ok, of j b] by (cases; auto simp: register_def)+
next
  assume "\<not> mdone m'"
  with card show "activeStreams m' = wrap32 (int (card (dom (streams m'))))" "metrics m' cActive = int (card (dom (streams m')))"
    using ok reg by (auto simp: register_def tab_ok_def)
next
  fix j assume "j \<in> dom (streams m')" "even (unat j) = even (unat (nextID m'))"
  then show "j < nextID m'" using ids [of j] reg by (auto simp: register_def)
next
  show "maxStreams m' \<le> max_int32" using ok reg by (simp add: tab_ok_def register_def)
next
  assume a: "\<not> mdone m' \<and> 0 < maxStreams m'"
  then have "int (card (dom (streams m))) \<le> maxStreams m" "maxStreams m \<le> max_int32" "activeStreams m = wrap32 (int (card (dom (streams m))))"
    using ok reg by (auto simp: tab_ok_def register_def)
  moreover from this have "activeStreams m = int (card (dom (streams m)))" by (simp add: wrap32_id)
  ultimately show "int (card (dom (streams m'))) \<le> maxStreams m'" using card a reg by (auto simp: register_def)
qed
qed

lemma nextID_free: "tab_ok m \<Longrightarrow> streams m (nextID m) = None"
  by (cases "streams m (nextID m)") (auto simp: tab_ok_def dom_def)

lemma nextID_grows:
  assumes "i < (4294967293 :: stream_id)"
  shows "i < i + 2 \<and> (even (unat (i + 2)) \<longleftrightarrow> even (unat i))"
proof -
  have "unat i < 4294967293" using assms by (simp add: word_less_nat_alt)
  then have "unat (i + 2) = unat i + 2" by (simp add: unat_word_ariths)
  then show ?thesis by (simp add: word_less_nat_alt)
qed

lemma tab_ok_Open:
  assumes ok: "tab_ok m" and o: "Mux_Open net now m = (r, m')"
  shows "tab_ok m'"
proof -
  let ?i = "nextID m" and ?m0 = "snd (alloc_stream now (nextID m) (m\<lparr>nextID := nextID m + 2\<rparr>))"
  note free = nextID_free [OF ok] and grow = nextID_grows [of ?i]
  have ids: "j < ?i + 2" if "?i < 4294967293" "j \<in> insert ?i (dom (streams m))" "even (unat j) = even (unat (?i + 2))" for j
    using ok that grow by (auto simp: tab_ok_def intro: less_trans)
  have bump: "tab_ok (bump cStreamErrors m)" by (rule tab_ok_view [OF _ ok]) simp
  show ?thesis
  proof (cases rule: Mux_Open_cases [OF o, case_names refused failed opened])
    case (refused e)
    then show ?thesis using bump by simp
  next
    case (failed e f m1)
    have "streams m1 = (streams m)(?i \<mapsto> next_obj m)" "next_obj m1 = Suc (next_obj m)" "activeStreams m1 = activeStreams m" "mdone m1 = mdone m"
      "metrics m1 = metrics m" "nextID m1 = ?i + 2" "maxStreams m1 = maxStreams m" "\<And>b. b < next_obj m \<Longrightarrow> objs m1 b = objs m b"
      using failed(4) by (auto simp: alloc_stream_def conn_send_def split: option.splits)
    moreover have "(streams m)(?i := None) = streams m" using free by auto
    ultimately show ?thesis using ok ids [OF failed(2)] tab_ok_D(1) [OF ok] unfolding failed(5)
      by (auto simp: tab_ok_def add_metric_def less_Suc_eq)
  next
    case (opened f m1)
    have "register ?i m m'" "nextID m' = ?i + 2"
      using opened(4,5) unfolding opened(6)
      by (auto simp: register_def alloc_stream_def conn_send_def add_metric_def add_active_def streamActiveOpened_def newStream_def Let_def split: option.splits)
    then show ?thesis using tab_ok_register [OF ok _ free] ids [OF opened(2)] by auto
  qed
qed

lemma tab_ok_handleOpen:
  assumes ok: "tab_ok m" and par: "even (unat i) \<noteq> even (unat (nextID m))"
  shows "tab_ok (handleOpenFrame now i m)"
proof -
  let ?a = "next_obj m" and ?m1 = "snd (alloc_stream now i m)"
  consider (known) "handleOpenFrame now i m = m"
    | (full) "handleOpenFrame now i m = bump cStreamsRejectedMaxStr (bump cStreamsRejected (rejectStream i False m))"
    | (new) "streams m i = None" "\<not> (maxStreams m > 0 \<and> activeStreams m \<ge> maxStreams m)" "handleOpenFrame now i m = streamActiveOpened (bump cOpened (add_active 1 (?m1\<lparr>acceptCh := acceptCh ?m1 @ [?a]\<rparr>)))"
    | (busy) m2 where "streams m i = None" "m2 = bump cStreamsRejectedAccCh (bump cStreamsRejected (rejectStream i True ?m1))"
        "handleOpenFrame now i m = upd_obj ?a reject (m2\<lparr>streams := (streams m2)(i := None)\<rparr>)"
    by (cases "streams m i"; cases "maxStreams m > 0 \<and> activeStreams m \<ge> maxStreams m"; cases "length (acceptCh m) < acceptCap m")
      (auto simp: handleOpenFrame_def alloc_stream_def Let_def)
  then show ?thesis
  proof cases
    case known
    then show ?thesis using ok by simp
  next
    case full
    then show ?thesis by (auto intro: tab_ok_view [OF _ ok])
  next
    case new
    have reg: "register i m (handleOpenFrame now i m)" and id: "nextID (handleOpenFrame now i m) = nextID m"
      using new(2) unfolding new(3) by (auto simp: register_def alloc_stream_def add_metric_def add_active_def streamActiveOpened_def newStream_def Let_def)
    have "\<forall>j \<in> dom (streams m). even (unat j) = even (unat (nextID m)) \<longrightarrow> j < nextID m" using ok by (simp add: tab_ok_def)
    then show ?thesis using par id by (intro tab_ok_register [OF ok reg new(1)]) auto
  next
    case (busy m2)
    have v: "tview m2 = tview ?m1" unfolding busy(2) by simp
    have "(streams m)(i := None) = streams m" using busy(1) by auto
    with v have s2: "(streams m2)(i := None) = streams m" by (simp add: tview_def alloc_stream_def)
    have f: "next_obj m2 = Suc ?a" "maxStreams m2 = maxStreams m" "activeStreams m2 = activeStreams m" "mdone m2 = mdone m" "metrics m2 cActive = metrics m cActive" "nextID m2 = nextID m"
      "\<And>b. b < ?a \<Longrightarrow> sid (objs m2 b) = sid (objs m b) \<and> sdone (objs m2 b) = sdone (objs m b) \<and> rejected (objs m2 b) = rejected (objs m b)"
      using v by (auto simp: tview_def alloc_stream_def fun_eq_iff split: if_splits)
    then show ?thesis unfolding busy(3) s2 using ok tab_ok_D(1) [OF ok]
      by (auto simp: tab_ok_def upd_obj_def less_Suc_eq)
  qed
qed

lemma tab_ok_handleReject: "tab_ok m \<Longrightarrow> tab_ok (handleRejectFrame i m)"
proof -
  assume ok: "tab_ok m"
  have "handleRejectFrame i m = bump cStreamsRejected (case streams m i of None \<Rightarrow> m | Some a \<Rightarrow> forget i a reject m)"
    by (auto simp: handleRejectFrame_def forget_def split: option.splits)
  moreover have "tab_ok (case streams m i of None \<Rightarrow> m | Some a \<Rightarrow> forget i a reject m)"
    using ok tab_ok_forget [OF ok] by (auto split: option.splits)
  ultimately show ?thesis by (auto intro: tab_ok_view)
qed

lemma tab_ok_handleClose: "tab_ok m \<Longrightarrow> tab_ok (handleCloseFrame i m)"
  using tab_ok_view [OF _ tab_ok_removeStream [of m i], of "handleCloseFrame i m"] by (simp add: handleCloseFrame_def)

text \<open>Which ids are for the peer to open: those of the other parity.\<close>

definition peer_opens :: "mux \<Rightarrow> byte list \<Rightarrow> bool" where
  "peer_opens m raw = (case DecodeFrame raw of
     Inr (i, ft, _) \<Rightarrow> ft = FrameOpen \<longrightarrow> even (unat i) \<noteq> even (unat (nextID m)) | Inl _ \<Rightarrow> True)"

lemma tview_handlers:
  "tview (handlePingFrame m) = tview m" "tview (handlePaddingFrame m) = tview m" "tview (handlePongFrame now m) = tview m"
  "tview (handleWindowUpdateFrame i p m) = tview m" "tview (handleDatagramFrame p m) = tview m"
  by (auto simp: handlePingFrame_def handlePaddingFrame_def handleWindowUpdateFrame_def handleDatagramFrame_def Let_def
      dest: tview_pong split: prod.splits bool.splits option.splits)
    (simp add: handlePongFrame_def Let_def tview_def add_metric_def)

lemma tab_ok_handleFrame:
  assumes ok: "tab_ok m" and par: "peer_opens m raw"
  shows "tab_ok (handleFrame now raw m)"
proof -
  let ?m = "bump cFramesReceived m"
  have ok': "tab_ok ?m" by (rule tab_ok_view [OF _ ok]) simp
  have id: "nextID ?m = nextID m" by (simp add: add_metric_def)
  have err: "tab_ok (bump cErrors ?m)" by (rule tab_ok_view [OF _ ok']) simp
  show ?thesis
  proof (cases "DecodeFrame raw")
    case (Inl e)
    then show ?thesis using err by (simp add: handleFrame_def)
  next
    case (Inr r)
    obtain i ft p where r: "r = (i, ft, p)" by (cases r)
    have "ft = FrameOpen \<Longrightarrow> tab_ok (handleOpenFrame now i ?m)"
      using par Inr r id by (intro tab_ok_handleOpen [OF ok']) (simp add: peer_opens_def)
    moreover have "tab_ok (handleDataFrame i p ?m)" "tab_ok (handleCloseWriteFrame i ?m)"
      using ok' tab_ok_push [OF ok'] by (auto simp: handleDataFrame_def handleCloseWriteFrame_def split: option.splits)
    ultimately show ?thesis
      using Inr r err tab_ok_handleReject [OF ok'] tab_ok_handleClose [OF ok'] tab_ok_view [OF tview_handlers(1) ok']
        tab_ok_view [OF tview_handlers(2) ok'] tab_ok_view [OF tview_handlers(3) ok'] tab_ok_view [OF tview_handlers(4) ok']
        tab_ok_view [OF tview_handlers(5) ok']
      by (simp add: handleFrame_def Let_def)
  qed
qed

section \<open>Closing\<close>

lemma close_all_fields:
  "mdone (close_all ids m) = mdone m" "nextID (close_all ids m) = nextID m" "next_obj (close_all ids m) = next_obj m" "maxStreams (close_all ids m) = maxStreams m"
  "streams (close_all ids m) i = (if i \<in> set ids then None else streams m i)"
  by (induction ids arbitrary: m) (auto simp: upd_obj_def split: option.splits)

lemma close_all_keeps_done: "sdone (objs m a) \<Longrightarrow> sdone (objs (close_all ids m) a)"
  by (induction ids arbitrary: m) (auto simp: upd_obj_def closeChannels_def split: option.splits)

lemma close_all_closes: "streams m i = Some a \<Longrightarrow> i \<in> set ids \<Longrightarrow> sdone (objs (close_all ids m) a)"
proof (induction ids arbitrary: m)
  case (Cons j ids)
  show ?case
  proof (cases "j = i")
    case True
    then show ?thesis using Cons.prems(1) by (auto simp: upd_obj_def closeChannels_def intro: close_all_keeps_done)
  next
    case False
    then show ?thesis using Cons.prems by (cases "streams m j") (auto simp: upd_obj_def intro!: Cons.IH)
  qed
qed simp

lemma tab_ok_Close:
  assumes ok: "tab_ok m" and ids: "dom (streams m) \<subseteq> set ids"
  shows "tab_ok (Mux_Close ids m)"
proof (cases "mdone m")
  case True
  then show ?thesis using ok by (simp add: Mux_Close_def)
next
  case False
  have "streams (Mux_Close ids m) = Map.empty" using ids False by (auto simp: Mux_Close_def close_all_fields fun_eq_iff domIff)
  moreover have "mdone (Mux_Close ids m)" "maxStreams (Mux_Close ids m) = maxStreams m" using False by (simp_all add: Mux_Close_def close_all_fields)
  ultimately show ?thesis using ok by (simp add: tab_ok_def)
qed

section \<open>Histories\<close>

lemma tab_ok_sendFrame:
  assumes ok: "tab_ok m" and ids: "dom (streams m) \<subseteq> set ids"
  shows "tab_ok (sendFrame net now ids msg m)"
proof -
  let ?m = "bump cFramesSent m"
  have close: "tab_ok (Mux_Close ids (bump cErrors m'))" if "tview m' = tview m" for m'
    using tab_ok_view [OF _ ok, of "bump cErrors m'"] that ids by (intro tab_ok_Close) (auto simp: tview_def add_metric_def)
  have view: "tab_ok m'" if "tview m' = tview m" for m' by (rule tab_ok_view [OF that ok])
  have raw: "tab_ok (sendRawFrame net ids msg ?m)"
  proof -
    let ?d = "case mData msg of None \<Rightarrow> [] | Some d \<Rightarrow> d"
    obtain e m1 where c: "conn_send net ?d ?m = (e, m1)" by (cases "conn_send net ?d ?m")
    have m1: "tview m1 = tview m" using tview_pairs(2) [OF c] by simp
    show ?thesis using c close [OF m1] view [of m1] view [of "bump cErrors m1"] view [of "bump cPongsDropped m1"] view [of "bump cPongsSent m1"] m1
      by (auto simp: sendRawFrame_def split: option.splits)
  qed
  have send: "tab_ok (sendDataFrame net now f m')" "tab_ok (sendCloseFrame net ids msg f m')" if "tview m' = tview m" for f m'
  proof -
    obtain e m1 where c: "conn_send net f m' = (e, m1)" by (cases "conn_send net f m'")
    have m1: "tview m1 = tview m" using tview_pairs(2) [OF c] that by simp
    show "tab_ok (sendDataFrame net now f m')"
      using c m1 by (auto simp: sendDataFrame_def enqueueRetransmit_def intro!: view split: option.splits conn_error.splits)
    show "tab_ok (sendCloseFrame net ids msg f m')"
      using c close [OF m1] view [OF m1] tab_ok_removeStream [OF view [OF m1]] by (auto simp: sendCloseFrame_def split: option.splits)
  qed
  obtain r m1 where e: "Mux_encodeFrame msg ?m = (r, m1)" by (cases "Mux_encodeFrame msg ?m")
  have "tview m1 = tview m" by (cases rule: Mux_encodeFrame_cases [OF e]) auto
  then show ?thesis using raw e send [of m1] view [of m1]
    by (auto simp: sendFrame_def Let_def split: option.splits list.splits)
qed

lemma tab_ok_writeLoop:
  assumes ok: "tab_ok m" and ids: "dom (streams m) \<subseteq> set ids" and w: "writeLoop_round net now ids tick m = Some m'"
  shows "tab_ok m'"
proof (cases tick)
  case True
  then have "tview m' = tview m" using w by (auto simp: writeLoop_round_def split: if_splits)
  then show ?thesis by (rule tab_ok_view [OF _ ok])
next
  case False
  then obtain msg msgs where m': "m' = scanRetransmitQ net now (sendFrame net now ids msg (m\<lparr>writeCh := msgs\<rparr>))"
    using w by (auto simp: writeLoop_round_def split: if_splits list.splits)
  have "tab_ok (sendFrame net now ids msg (m\<lparr>writeCh := msgs\<rparr>))"
    using ids by (intro tab_ok_sendFrame tab_ok_view [OF _ ok]) auto
  then show ?thesis unfolding m' by (rule tab_ok_view [rotated]) simp
qed

text \<open>One call, loop round or received frame. The peer opens only ids of its parity; a loop over the table sees all of its keys.\<close>

inductive mux_step :: "mux \<Rightarrow> mux \<Rightarrow> bool" where
  receive: "peer_opens m raw \<Longrightarrow> mux_step m (handleFrame now raw m)"
| read_stream: "Stream_Read now a k m = (r, m') \<Longrightarrow> mux_step m m'"
| write_stream: "Stream_Write now a p m = (r, m') \<Longrightarrow> mux_step m m'"
| close_stream: "Stream_Close pick a m = (r, m') \<Longrightarrow> mux_step m m'"
| close_write: "Stream_CloseWrite pick a m = (r, m') \<Longrightarrow> mux_step m m'"
| abort: "mux_step m (Stream_Abort a m)"
| open_stream: "Mux_Open net now m = (r, m') \<Longrightarrow> mux_step m m'"
| accept: "Mux_Accept m = (r, m') \<Longrightarrow> mux_step m m'"
| send_datagram: "SendDatagram pick flow d m = (r, m') \<Longrightarrow> mux_step m m'"
| set_handler: "mux_step m (SetDatagramHandler h m)"
| write_round: "dom (streams m) \<subseteq> set ids \<Longrightarrow> writeLoop_round net now ids tick m = Some m' \<Longrightarrow> mux_step m m'"
| read_failure: "dom (streams m) \<subseteq> set ids \<Longrightarrow> r \<in> {RecvCanceled, RecvClosed, RecvFailed} \<Longrightarrow> readLoop_round now ids r n m = (n', m') \<Longrightarrow> mux_step m m'"
| ping: "dom (streams m) \<subseteq> set ids \<Longrightarrow> pingLoop_tick net now ids m = (b, m') \<Longrightarrow> mux_step m m'"
| padding: "paddingLoop_tick net m = (b, m') \<Longrightarrow> mux_step m m'"
| close_mux: "dom (streams m) \<subseteq> set ids \<Longrightarrow> mux_step m (Mux_Close ids m)"
| requested_close: "dom (streams m) \<subseteq> set ids \<Longrightarrow> mux_step m (run_requested_close ids m)"

inductive mux_reach :: "mux \<Rightarrow> bool" where
  start: "mux_reach (NewWithOpts now r [WithMaxStreams k, WithAcceptChSize n])"
| step: "mux_reach m \<Longrightarrow> mux_step m m' \<Longrightarrow> mux_reach m'"

lemma mux_start: "tab_ok (NewWithOpts now r [WithMaxStreams k, WithAcceptChSize n])" "res_ok (NewWithOpts now r [WithMaxStreams k, WithAcceptChSize n])"
proof -
  have "wrap32 k \<le> max_int32" using pos_mod_bound [of 4294967296 "k + 2147483648"] by (simp add: wrap32_def)
  then show "tab_ok (NewWithOpts now r [WithMaxStreams k, WithAcceptChSize n])"
    by (simp add: tab_ok_def NewWithOpts_def WithMaxStreams_def WithAcceptChSize_def Let_def wrap32_id)
qed (simp add: res_ok_def NewWithOpts_def WithMaxStreams_def WithAcceptChSize_def Let_def)

lemma mux_step_tab: "mux_step m m' \<Longrightarrow> tab_ok m \<Longrightarrow> tab_ok m'"
proof (induction rule: mux_step.induct)
  case (receive m raw now)
  then show ?case by (intro tab_ok_handleFrame)
next
  case (read_stream now a k m r m')
  then show ?case using tab_ok_view [OF tview_Read] by blast
next
  case (write_stream now a p m r m')
  then show ?case using tab_ok_view [OF tview_Write] by blast
next
  case (close_stream pick a m r m')
  then show ?case using tab_ok_view [OF tview_send_or_done] unfolding Stream_Close_def by blast
next
  case (close_write pick a m r m')
  then show ?case using tab_ok_view [OF tview_send_or_done] unfolding Stream_CloseWrite_def by blast
next
  case (abort m a)
  then show ?case by (rule tab_ok_Abort)
next
  case (open_stream net now m r m')
  then show ?case using tab_ok_Open by blast
next
  case (accept m r m')
  then show ?case by (auto simp: Mux_Accept_def intro: tab_ok_view split: list.splits)
next
  case (send_datagram pick flow d m r m')
  then have "tview m' = tview m" by (auto simp: SendDatagram_def dest: tview_pairs(1) split: if_splits sum.splits prod.splits bool.splits)
  then show ?case using send_datagram.prems by (rule tab_ok_view)
next
  case (set_handler m h)
  then show ?case by (auto simp: SetDatagramHandler_def intro: tab_ok_view)
next
  case (write_round m ids net now tick m')
  then show ?case using tab_ok_writeLoop by blast
next
  case (read_failure m ids r now n n' m')
  have "tview m' = tview m \<or> m' = Mux_Close ids (bump cErrors m)"
    using read_failure(2,3) by (auto simp: readLoop_round_def Let_def split: if_splits)
  moreover have "tab_ok (bump cErrors m)" by (rule tab_ok_view [OF _ read_failure.prems]) simp
  moreover have "dom (streams (bump cErrors m)) \<subseteq> set ids" using read_failure(1) by (simp add: add_metric_def)
  ultimately show ?case using tab_ok_view [OF _ read_failure.prems] tab_ok_Close by blast
next
  case (ping m ids net now b m')
  obtain f where f: "EncodeFrame 0 FramePing None = Inr f" by (simp add: EncodeFrame_def)
  let ?m = "(bump cPingsSent m)\<lparr>pingSentAtNano := now\<rparr>"
  obtain e m1 where c: "conn_send net f ?m = (e, m1)" by (cases "conn_send net f ?m")
  have m1: "tview m1 = tview m" using tview_pairs(2) [OF c] by simp
  have "m' = m \<or> m' = m1 \<or> m' = Mux_Close ids (bump cErrors m1)"
    using ping(2) f c by (auto simp: pingLoop_tick_def split: if_splits option.splits)
  moreover have "tab_ok m1" "tab_ok (bump cErrors m1)" using m1 by (auto intro: tab_ok_view [OF _ ping.prems])
  moreover have "dom (streams (bump cErrors m1)) \<subseteq> set ids" using ping(1) m1 by (simp add: tview_def add_metric_def)
  ultimately show ?case using ping.prems tab_ok_Close by blast
next
  case (padding net m b m')
  then have "tview m' = tview m" by (auto simp: paddingLoop_tick_def dest!: tview_pairs(2) split: if_splits sum.splits prod.splits option.splits)
  then show ?case using padding.prems by (rule tab_ok_view)
next
  case (close_mux m ids)
  then show ?case by (intro tab_ok_Close)
next
  case (requested_close m ids)
  then show ?case by (auto simp: run_requested_close_def intro!: tab_ok_Close intro: tab_ok_view)
qed

lemma mux_step_res: "mux_step m m' \<Longrightarrow> res_ok m \<Longrightarrow> res_ok m'"
proof (induction rule: mux_step.induct)
  case (accept m r m')
  then show ?case by (auto simp: Mux_Accept_def res_ok_def split: list.splits)
next
  case (send_datagram pick flow d m r m')
  then show ?case by (auto simp: SendDatagram_def dest: res_ok_pairs(1) split: if_splits sum.splits prod.splits bool.splits)
next
  case (read_failure m ids r now n n' m')
  then show ?case by (auto simp: readLoop_round_def Let_def intro!: res_ok_Close split: if_splits)
next
  case (ping m ids net now b m')
  then show ?case
    by (auto simp: pingLoop_tick_def intro!: res_ok_Close dest!: res_ok_pairs(2) split: if_splits sum.splits prod.splits option.splits)
next
  case (padding net m b m')
  then show ?case by (auto simp: paddingLoop_tick_def dest!: res_ok_pairs(2) split: if_splits sum.splits prod.splits option.splits)
qed (auto simp: Stream_Close_def Stream_CloseWrite_def SetDatagramHandler_def run_requested_close_def
      dest: res_ok_Read res_ok_Write res_ok_send_or_done res_ok_Open res_ok_writeLoop intro: res_ok_handleFrame res_ok_Abort res_ok_Close)

lemma mux_reach_ok: "mux_reach m \<Longrightarrow> tab_ok m \<and> res_ok m"
  by (induction rule: mux_reach.induct) (auto intro: mux_start mux_step_tab mux_step_res)



text \<open>A dialer opens a stream and receives a byte on it.\<close>

definition demo_open :: mux where
  "demo_open = snd (Mux_Open (\<lambda>_. None) 0 (NewWithOpts 0 RoleDialer [WithMaxStreams 2, WithAcceptChSize 4]))"

definition demo_mux :: mux where
  "demo_mux = handleFrame 0 [0, 0, 0, 1, 0, 0, 0, 1, 7] demo_open"

lemma demo_decode: "DecodeFrame [0, 0, 0, 1, 0, 0, 0, 1, 7] = Inr (1, 0, [7])"
  by code_simp

lemma demo_reach: "mux_reach demo_mux"
proof -
  let ?m = "NewWithOpts 0 RoleDialer [WithMaxStreams 2, WithAcceptChSize 4]"
  have "mux_step ?m demo_open"
    unfolding demo_open_def by (rule open_stream) (rule prod.collapse [symmetric])
  moreover have "mux_step demo_open demo_mux" unfolding demo_mux_def by (rule receive) (simp add: peer_opens_def demo_decode)
  ultimately show ?thesis by (blast intro: mux_reach.intros)
qed

lemma demo_open_state:
  "streams demo_open = [1 \<mapsto> 0]" "\<not> mdone demo_open" "maxStreams demo_open = 2" "objs demo_open 0 = newStream 0 1"
proof -
  let ?m = "NewWithOpts 0 RoleDialer [WithMaxStreams 2, WithAcceptChSize 4]"
  have m: "\<not> mdone ?m" "maxStreams ?m = 2" "activeStreams ?m = 0" "nextID ?m = 1" "streams ?m = Map.empty" "next_obj ?m = 0"
    by (simp_all add: NewWithOpts_def WithMaxStreams_def WithAcceptChSize_def wrap32_def)
  have lt: "\<not> (4294967293 :: stream_id) \<le> 1" by (simp add: word_le_nat_alt)
  obtain f where f: "EncodeFrame 1 FrameOpen None = Inr f" by (simp add: EncodeFrame_def)
  show "streams demo_open = [1 \<mapsto> 0]" "\<not> mdone demo_open" "maxStreams demo_open = 2" "objs demo_open 0 = newStream 0 1"
    using f lt by (simp_all add: demo_open_def Mux_Open_def m alloc_stream_def conn_send_def streamActiveOpened_def add_metric_def add_active_def Let_def)
qed

lemma demo_state:
  "streams demo_mux = [1 \<mapsto> 0]" "\<not> mdone demo_mux" "maxStreams demo_mux = 2" "objs demo_mux 0 = (newStream 0 1)\<lparr>dataCh := [Some [7]], buffered := 1\<rparr>"
proof -
  have "push_stream (newStream 0 1) (Some [7]) = (Queued, (newStream 0 1)\<lparr>dataCh := [Some [7]], buffered := 1\<rparr>)"
    by (simp add: push_stream_def exceeds_window_def newStream_def wrap64_nonneg)
  then have e: "demo_mux = upd_obj 0 (\<lambda>_. (newStream 0 1)\<lparr>dataCh := [Some [7]], buffered := 1\<rparr>) (bump cFramesReceived demo_open)"
    using demo_open_state by (simp add: demo_mux_def handleFrame_def demo_decode handleDataFrame_def pushFrame_def add_metric_def Let_def)
  show "streams demo_mux = [1 \<mapsto> 0]" "\<not> mdone demo_mux" "maxStreams demo_mux = 2"
    "objs demo_mux 0 = (newStream 0 1)\<lparr>dataCh := [Some [7]], buffered := 1\<rparr>"
    unfolding e using demo_open_state by (simp_all add: upd_obj_def add_metric_def)
qed



section \<open>Closing and stale handles\<close>

lemma next_frame_blocked:
  assumes "next_frame s = (None, s')"
  shows "\<not> sdone s"
proof -
  obtain k s1 where t: "tryPull s = (k, s1)" by (cases "tryPull s")
  then have "waitForData s1 = (None, s')" using assms by (auto simp: next_frame_def split: pull.splits)
  then have "\<not> sdone s1" by (auto simp: waitForData_def split: list.splits if_splits prod.splits pull.splits)
  then show ?thesis using tryPull_frame [OF t] by simp
qed

lemma read_fill_done: "read_fill a m = (r, m') \<Longrightarrow> sdone (objs m a) \<Longrightarrow> r \<noteq> RBlocked"
proof (induction a m arbitrary: r m' rule: read_fill.induct)
  case (1 a m)
  show ?case
  proof (cases rule: read_fill_cases [of m a])
    case ready
    then show ?thesis using "1.prems" by simp
  next
    case (stop q s' st)
    have "q \<noteq> None" using stop(2) "1.prems"(2) next_frame_blocked by metis
    then show ?thesis using stop "1.prems"(1) by auto
  next
    case (more d s')
    let ?m = "sendWindowUpdateUnsafe a (wrap32 (int (length d))) (upd_obj a (\<lambda>_. s'\<lparr>rBuf := d, rOff := 0\<rparr>) m)"
    have "sdone (objs ?m a)" using next_frame_id [OF more(2)] "1.prems"(2)
        sendWindowUpdate_objs [of a "wrap32 (int (length d))" "upd_obj a (\<lambda>_. s'\<lparr>rBuf := d, rOff := 0\<rparr>) m" a]
      by (auto simp: upd_obj_def add_pending_credit_def)
    then show ?thesis using "1.IH" [OF refl more(1) more(2)[symmetric] refl refl refl] "1.prems"(1) more(3) by simp
  qed
qed

text \<open>C19. Closing the multiplexer releases everyone: it empties the table and ends every stream that was registered; a \<open>Read\<close>
  or \<open>Write\<close> on such a stream returns at once instead of waiting, the \<open>Write\<close> with an error; and closing again changes nothing.\<close>

theorem Mux_Close_releases:
  assumes "dom (streams m) \<subseteq> set ids" and "\<not> mdone m" and "streams m i = Some a" and "p \<noteq> []"
  shows "streams (Mux_Close ids m) = Map.empty \<and> sdone (objs (Mux_Close ids m) a)
    \<and> fst (Stream_Read now a k (Mux_Close ids m)) \<noteq> None \<and> (\<exists>e. fst (Stream_Write now a p (Mux_Close ids m)) = Some (Inl e))
    \<and> Mux_Close ids' (Mux_Close ids m) = Mux_Close ids m"
proof -
  let ?m = "Mux_Close ids m"
  have "i \<in> set ids" using assms(1,3) by auto
  then have d: "sdone (objs ?m a)" using assms(2,3) by (auto simp: Mux_Close_def intro!: close_all_closes)
  obtain r m' where r: "Stream_Read now a k ?m = (r, m')" by (cases "Stream_Read now a k ?m")
  have "r \<noteq> None"
  proof (cases rule: Stream_Read_cases [OF r, case_names rejected stopped bytes])
    case (stopped st)
    then show ?thesis using read_fill_done [OF stopped(2)] d by (auto simp: upd_obj_def touch_def split: read_state.splits)
  qed auto
  moreover have "\<exists>e. fst (Stream_Write now a p ?m) = Some (Inl e)"
    using d assms(4) by (auto simp: Stream_Write_def upd_obj_def touch_def Let_def)
  moreover have "streams ?m = Map.empty" using assms(1,2) by (auto simp: Mux_Close_def close_all_fields fun_eq_iff domIff)
  moreover have "mdone ?m" using assms(2) by (simp add: Mux_Close_def close_all_fields)
  ultimately show ?thesis using r d by (simp add: Mux_Close_def)
qed

theorem Mux_Close_releases_witness:
  "sdone (objs (Mux_Close [1] demo_mux) 0) \<and> fst (Stream_Read 0 0 1 (Mux_Close [1] demo_mux)) \<noteq> None
    \<and> (\<exists>e. fst (Stream_Write 0 0 [1] (Mux_Close [1] demo_mux)) = Some (Inl e))"
proof -
  have "dom (streams demo_mux) \<subseteq> set [1]" "streams demo_mux 1 = Some 0" by (simp_all add: demo_state)
  from Mux_Close_releases [OF this(1) demo_state(2) this(2), of "[1]" 0 1] show ?thesis by simp
qed

text \<open>C20. A stale handle cannot hurt another stream: when the table has another object under the id of \<open>a\<close>, or none, aborting \<open>a\<close> changes
  nothing but \<open>a\<close> itself, not even the counters; when \<open>a\<close> is registered it is removed and counted once, and a second \<open>Abort\<close> is
  without effect.\<close>

theorem Abort_by_identity:
  "(let m' = Stream_Abort a m in
     (streams m (sid (objs m a)) \<noteq> Some a \<longrightarrow> m' = upd_obj a closeChannels m)
     \<and> (streams m (sid (objs m a)) = Some a \<longrightarrow> streams m' = (streams m)(sid (objs m a) := None) \<and> activeStreams m' = wrap32 (activeStreams m - 1))
     \<and> sdone (objs m' a) \<and> (\<forall>b. b \<noteq> a \<longrightarrow> objs m' b = objs m b) \<and> Stream_Abort a m' = m')"
  by (auto simp: Let_def Stream_Abort_def removeStreamIf_def upd_obj_def closeChannels_def streamActiveClosed_def add_metric_def add_active_def)

theorem Abort_by_identity_witness:
  "streams (Stream_Abort 0 demo_mux) = Map.empty \<and> sdone (objs (Stream_Abort 0 demo_mux) 0) \<and> Stream_Abort 0 (Stream_Abort 0 demo_mux) = Stream_Abort 0 demo_mux"
proof -
  have "sid (objs demo_mux 0) = 1" by (simp add: demo_state newStream_def)
  then show ?thesis using Abort_by_identity [of 0 demo_mux] demo_state(1) by (auto simp: Let_def)
qed

end
