(* ===== verification/Mux_Flow.thy ===== *)
theory Mux_Flow
  imports Mux_Table
begin

text \<open>
  A stream from end to end: two multiplexers joined by a connection that delivers every frame in order, one
  stream between them, a writer on one side and a reader on the other. The steps of a session are the functions of the
  code: \<open>Stream_Write\<close>, \<open>Stream_Read\<close>, rounds of both write loops and \<open>handleFrame\<close> for what arrives. The ghost fields
  \<open>written\<close> and \<open>readout\<close> are the bytes the two applications have passed.

  The invariant \<open>flow\<close> accounts for every byte of the window: what the sender may still send, what is on its way, what
  the receiver has queued and the credit on its way back always add up to the initial window.
\<close>

record session =
  sender :: mux
  receiver :: mux
  fwd :: "byte list list"
  bwd :: "byte list list"
  written :: "byte list"
  readout :: "byte list"

definition data_frame :: "stream_id \<Rightarrow> byte list \<Rightarrow> byte list" where
  "data_frame i d = PutUint32 i @ [FrameData, 0] @ PutUint16 (word_of_nat (length d)) @ d"

definition credit_frame :: "stream_id \<Rightarrow> int \<Rightarrow> byte list" where
  "credit_frame i n = PutUint32 i @ [FrameWindowUpdate, 0] @ PutUint16 4 @ PutUint32 (word_of_int n)"

abbreviation no_errors :: "nat \<Rightarrow> conn_error option" where
  "no_errors \<equiv> \<lambda>_. None"

text \<open>The frames a write loop has added to the wire.\<close>

definition sent_by :: "mux \<Rightarrow> mux \<Rightarrow> byte list list" where
  "sent_by m m' = drop (length (wire m)) (wire m')"

inductive session_step :: "nat \<Rightarrow> nat \<Rightarrow> session \<Rightarrow> session \<Rightarrow> bool" for a b where
  app_write: "int (length p) \<le> max_int32 \<Longrightarrow> Stream_Write now a p (sender w) = (r, m) \<Longrightarrow>
     session_step a b w (w\<lparr>sender := m, written := written w @ (case r of Some (Inr n) \<Rightarrow> take (nat n) p | _ \<Rightarrow> [])\<rparr>)"
| app_read: "Stream_Read now b k (receiver w) = (r, m) \<Longrightarrow>
     session_step a b w (w\<lparr>receiver := m, readout := readout w @ (case r of Some (ReadBytes d) \<Rightarrow> d | _ \<Rightarrow> [])\<rparr>)"
| send_data: "writeLoop_round no_errors now ids False (sender w) = Some m \<Longrightarrow>
     session_step a b w (w\<lparr>sender := m, fwd := fwd w @ sent_by (sender w) m\<rparr>)"
| send_credit: "writeLoop_round no_errors now ids tick (receiver w) = Some m \<Longrightarrow>
     session_step a b w (w\<lparr>receiver := m, bwd := bwd w @ sent_by (receiver w) m\<rparr>)"
| recv_data: "fwd w = f # fs \<Longrightarrow> session_step a b w (w\<lparr>receiver := handleFrame now f (receiver w), fwd := fs\<rparr>)"
| recv_credit: "bwd w = f # fs \<Longrightarrow> session_step a b w (w\<lparr>sender := handleFrame now f (sender w), bwd := fs\<rparr>)"

section \<open>The account\<close>

text \<open>One end: the stream is the only one in the table, alive, and no frame waits for retransmission.\<close>

definition end_ok :: "stream_id \<Rightarrow> nat \<Rightarrow> mux \<Rightarrow> bool" where
  "end_ok i a m \<longleftrightarrow> streams m = [i \<mapsto> a] \<and> sid (objs m a) = i \<and> \<not> sdone (objs m a) \<and> \<not> rejected (objs m a)
     \<and> \<not> mdone m \<and> \<not> closeRequested m \<and> \<not> pendingPong m \<and> retransmitQ m = []"

definition chunk_ok :: "byte list \<Rightarrow> bool" where
  "chunk_ok d \<longleftrightarrow> d \<noteq> [] \<and> length d \<le> MaxFramePayload"

definition flow :: "stream_id \<Rightarrow> nat \<Rightarrow> nat \<Rightarrow> byte list list \<Rightarrow> byte list list \<Rightarrow> byte list list \<Rightarrow> int list \<Rightarrow> int list \<Rightarrow> session \<Rightarrow> bool" where
  "flow i a b ds fs qs cs ks w \<longleftrightarrow> (let s = objs (sender w) a; r = objs (receiver w) b in
     end_ok i a (sender w) \<and> end_ok i b (receiver w) \<and> stream_ok r
     \<and> writeCh (sender w) = map (\<lambda>d. stream_msg i (Some d)) ds \<and> fwd w = map (data_frame i) fs \<and> frames r = map Some qs
     \<and> writeCh (receiver w) = map (\<lambda>n. raw_msg i (credit_frame i n)) cs \<and> bwd w = map (credit_frame i) ks
     \<and> list_all chunk_ok (ds @ fs @ qs) \<and> list_all (\<lambda>n. 0 < n) (cs @ ks)
     \<and> 0 \<le> pendingWindowUpdate r \<and> 0 \<le> windowSize s \<and> length (rBuf r) \<le> MaxFramePayload
     \<and> windowSize s + int (length (concat (ds @ fs @ qs))) + pendingWindowUpdate r + sum_list (cs @ ks) = DefaultWindowSize
     \<and> written w = readout w @ unread r @ concat fs @ concat ds
     \<and> metrics (receiver w) cWindowViolations = 0)"

lemma concat_bound: "list_all (\<lambda>n. 0 < n) (cs :: int list) \<Longrightarrow> 0 \<le> sum_list cs \<and> (n \<in> set cs \<longrightarrow> n \<le> sum_list cs)"
  by (induction cs) auto

lemma chunks_length: "list_all chunk_ok qs \<Longrightarrow> length qs \<le> length (concat qs)"
  by (induction qs) (auto simp: chunk_ok_def Suc_le_eq neq_Nil_conv)

lemma frame_bytes_Some [simp]: "frame_bytes (map Some qs) = concat qs"
  by (induction qs) auto

lemma unread_fields [simp]:
  "unread (s\<lparr>pendingWindowUpdate := x\<rparr>) = unread s" "unread (s\<lparr>lastActivity := t\<rparr>) = unread s" "unread (s\<lparr>windowUpdateCh := k\<rparr>) = unread s"
  "unread (s\<lparr>windowSize := x\<rparr>) = unread s"
  by (simp_all add: unread_def)

lemma sint_credit: "0 < n \<Longrightarrow> n \<le> DefaultWindowSize \<Longrightarrow> sint (Uint32 (take 4 (PutUint32 (word_of_int n)))) = n"
  using Uint32_Put_all [of "word_of_int n"] by (simp add: int_word_sint)

section \<open>Each step keeps the account\<close>

text \<open>Sending.\<close>

lemma write_len_bounds:
  assumes "0 < ws" and "ws \<le> DefaultWindowSize" and "p \<noteq> []" and "int (length p) \<le> max_int32" and "write_len ws p = n"
  shows "0 < n" "n \<le> ws" "n \<le> int (length p)" "n \<le> int MaxFramePayload"
proof -
  have "wrap32 (int (length p)) = int (length p)" using assms(4) by (simp add: wrap32_id)
  then show "0 < n" "n \<le> ws" "n \<le> int (length p)" "n \<le> int MaxFramePayload"
    using assms by (auto simp: write_len_def Let_def split: if_splits)
qed

lemma end_ok_fields [simp]:
  "end_ok i a (add_metric c n m) = end_ok i a m" "end_ok i a (m\<lparr>writeCh := ms\<rparr>) = end_ok i a m" "end_ok i a (m\<lparr>metrics := f\<rparr>) = end_ok i a m"
  by (simp_all add: end_ok_def add_metric_def)

lemma end_ok_upd: "end_ok i a m \<Longrightarrow> keeps_id f \<Longrightarrow> end_ok i a (upd_obj a f m)"
  by (simp add: end_ok_def upd_obj_def keeps_id_def)

lemma Stream_Write_cases:
  assumes "Stream_Write now a p m = (r, m')" and e: "end_ok i a m"
  obtains (waits) f where "r = None \<or> r = Some (Inr 0)" "m' = upd_obj a f m" "keeps_id f" "\<And>s. windowSize (f s) = windowSize s"
      "\<And>s. frames (f s) = frames s" "\<And>s. stream_ok (f s) = stream_ok s" "\<And>s. pendingWindowUpdate (f s) = pendingWindowUpdate s"
  | (sends) n f where "r = Some (Inr n)" "p \<noteq> []" "0 < windowSize (objs m a)" "n = write_len (windowSize (objs m a)) p"
      "m' = add_metric cBytesWritten n (upd_obj a f (m\<lparr>writeCh := writeCh m @ [stream_msg i (Some (take (nat n) p))]\<rparr>))" "keeps_id f"
      "\<And>s. windowSize (f s) = wrap32 (windowSize s - wrap32 n)"
proof -
  let ?t = "upd_obj a (touch now) m"
  have a: "\<not> rejected (objs m a)" "\<not> sdone (objs m a)" "sid (objs m a) = i" using e by (auto simp: end_ok_def)
  consider "p = []" | "p \<noteq> []" "windowSize (objs m a) \<le> 0" | "p \<noteq> []" "0 < windowSize (objs m a)" "\<not> length (writeCh m) < defaultWriteChCap"
    | "p \<noteq> []" "0 < windowSize (objs m a)" "length (writeCh m) < defaultWriteChCap" by linarith
  then show ?thesis
  proof cases
    case 1
    then have "r = Some (Inr 0)" "m' = m" using assms(1) a by (simp_all add: Stream_Write_def)
    then show ?thesis by (intro waits [of "\<lambda>s. s"]) (auto simp: upd_obj_def keeps_id_def)
  next
    case 2
    then have "r = None" "m' = upd_obj a (\<lambda>s. (touch now s)\<lparr>windowUpdateCh := 0\<rparr>) m"
      using assms(1) a by (auto simp: Stream_Write_def upd_obj_def touch_def Let_def)
    then show ?thesis by (intro waits [of "\<lambda>s. (touch now s)\<lparr>windowUpdateCh := 0\<rparr>"]) (auto simp: keeps_id_def touch_def)
  next
    case 3
    then have "r = None" "m' = ?t" using assms(1) a by (auto simp: Stream_Write_def upd_obj_def touch_def offer_def Let_def)
    then show ?thesis by (intro waits [of "touch now"]) (auto simp: touch_def)
  next
    case 4
    let ?n = "write_len (windowSize (objs m a)) p" and ?f = "\<lambda>s. (touch now s)\<lparr>windowSize := wrap32 (windowSize s - wrap32 (write_len (windowSize (objs m a)) p))\<rparr>"
    have "r = Some (Inr ?n)" "m' = add_metric cBytesWritten ?n (upd_obj a ?f (m\<lparr>writeCh := writeCh m @ [stream_msg i (Some (take (nat ?n) p))]\<rparr>))"
      using assms(1) a 4 by (auto simp: Stream_Write_def upd_obj_def touch_def offer_def Let_def)
    then show ?thesis using 4 by (intro sends [of ?n ?f]) (auto simp: keeps_id_def touch_def)
  qed
qed

lemma flow_D:
  assumes "flow i a b ds fs qs cs ks w"
  shows "end_ok i a (sender w)" "end_ok i b (receiver w)" "stream_ok (objs (receiver w) b)"
    "0 \<le> windowSize (objs (sender w) a)" "windowSize (objs (sender w) a) \<le> DefaultWindowSize"
    "int (length (concat (fs @ qs))) \<le> DefaultWindowSize" "pendingWindowUpdate (objs (receiver w) b) + sum_list (cs @ ks) \<le> DefaultWindowSize"
proof -
  have n: "list_all (\<lambda>n. 0 < n) (cs @ ks)" and p: "0 \<le> pendingWindowUpdate (objs (receiver w) b)"
    and e: "windowSize (objs (sender w) a) + int (length (concat (ds @ fs @ qs))) + pendingWindowUpdate (objs (receiver w) b)
      + sum_list (cs @ ks) = DefaultWindowSize" using assms by (auto simp: flow_def Let_def)
  have z: "0 \<le> sum_list (cs @ ks)" using concat_bound [OF n] by blast
  show "end_ok i a (sender w)" "end_ok i b (receiver w)" "stream_ok (objs (receiver w) b)" and ws: "0 \<le> windowSize (objs (sender w) a)"
    using assms by (auto simp: flow_def Let_def)
  show "windowSize (objs (sender w) a) \<le> DefaultWindowSize"
    "pendingWindowUpdate (objs (receiver w) b) + sum_list (cs @ ks) \<le> DefaultWindowSize" using e p z ws by linarith+
  have "int (length (concat (fs @ qs))) \<le> int (length (concat (ds @ fs @ qs)))" by simp
  then show "int (length (concat (fs @ qs))) \<le> DefaultWindowSize" using e p z ws by linarith
qed

lemma flow_write:
  assumes f: "flow i a b ds fs qs cs ks w" and st: "Stream_Write now a p (sender w) = (r, m)" and len: "int (length p) \<le> max_int32"
  shows "\<exists>ds'. flow i a b ds' fs qs cs ks (w\<lparr>sender := m, written := written w @ (case r of Some (Inr n) \<Rightarrow> take (nat n) p | _ \<Rightarrow> [])\<rparr>)"
proof -
  note D = flow_D [OF f]
  show ?thesis
  proof (cases rule: Stream_Write_cases [OF st D(1), case_names waits sends])
    case (waits g)
    then show ?thesis using f end_ok_upd [OF D(1), of g]
      by (intro exI [of _ ds]) (auto simp: flow_def Let_def upd_obj_def)
  next
    case (sends n g)
    note n = write_len_bounds [OF sends(3) D(5) sends(2) len sends(4)[symmetric]]
    have "wrap32 (windowSize (objs (sender w) a) - wrap32 n) = windowSize (objs (sender w) a) - n"
      using n D(5) by (simp add: wrap32_id)
    moreover have "chunk_ok (take (nat n) p)" "int (length (take (nat n) p)) = n"
      using n sends(2) by (auto simp: chunk_ok_def min_def)
    moreover have "end_ok i a m" unfolding sends(5) using D(1) sends(6) by (simp add: end_ok_upd)
    ultimately show ?thesis using f n(2) sends(7)
      by (intro exI [of _ "ds @ [take (nat n) p]"]) (auto simp: flow_def Let_def sends(1,5) upd_obj_def add_metric_def)
  qed
qed

text \<open>A round of the write loop on a channel of data or credit.\<close>

lemma scan_nothing [simp]: "retransmitQ m = [] \<Longrightarrow> scanRetransmitQ net now m = m"
  by (simp add: scanRetransmitQ_def)

lemma EncodeFrame_data: "chunk_ok d \<Longrightarrow> EncodeFrame i FrameData (Some d) = Inr (data_frame i d)"
  by (simp add: EncodeFrame_def data_frame_def chunk_ok_def)

lemma flow_send_data:
  assumes f: "flow i a b ds fs qs cs ks w" and st: "writeLoop_round no_errors now ids False (sender w) = Some m"
  shows "\<exists>ds' fs'. flow i a b ds' fs' qs cs ks (w\<lparr>sender := m, fwd := fwd w @ sent_by (sender w) m\<rparr>)"
proof -
  note D = flow_D [OF f]
  have wc: "writeCh (sender w) = map (\<lambda>d. stream_msg i (Some d)) ds" and al: "list_all chunk_ok ds" using f by (auto simp: flow_def Let_def)
  have nd: "\<not> mdone (sender w)" "retransmitQ (sender w) = []" using D(1) by (auto simp: end_ok_def)
  obtain d ds' where ds: "ds = d # ds'" using st wc nd by (cases ds) (auto simp: writeLoop_round_def)
  have ck: "chunk_ok d" using al ds by simp
  then obtain x xs where d: "d = x # xs" by (auto simp: chunk_ok_def neq_Nil_conv)
  have m: "m = (bump cFramesSent (sender w))\<lparr>writeCh := map (\<lambda>d. stream_msg i (Some d)) ds', wire := wire (sender w) @ [data_frame i d],
      attempts := Suc (attempts (sender w))\<rparr>"
    using st wc nd ds EncodeFrame_data [OF ck, of i] d
    by (auto simp: writeLoop_round_def sendFrame_def Mux_encodeFrame_def sendDataFrame_def conn_send_def stream_msg_def add_metric_def Let_def)
  have "sent_by (sender w) m = [data_frame i d]" unfolding m by (simp add: sent_by_def add_metric_def)
  moreover have "end_ok i a m" using D(1) unfolding m by (simp add: end_ok_def add_metric_def)
  ultimately show ?thesis using f ds
    by (intro exI [of _ ds'] exI [of _ "fs @ [d]"]) (auto simp: flow_def Let_def m add_metric_def)
qed

lemma DecodeFrame_data: "chunk_ok d \<Longrightarrow> DecodeFrame (data_frame i d) = Inr (i, FrameData, d)"
  using DecodeFrame_append [of d i FrameData 0 "[]"] by (simp add: data_frame_def chunk_ok_def)

lemma push_stream_credit: "push_stream s p = (r, s') \<Longrightarrow> pendingWindowUpdate s' = pendingWindowUpdate s"
  by (auto simp: push_stream_def push_pending_def appendPendingLocked_def Let_def split: if_splits option.splits prod.splits)

lemma flow_recv_data:
  assumes f: "flow i a b ds fs qs cs ks w" and st: "fwd w = g # gs"
  shows "\<exists>fs' qs'. flow i a b ds fs' qs' cs ks (w\<lparr>receiver := handleFrame now g (receiver w), fwd := gs\<rparr>)"
proof -
  note D = flow_D [OF f]
  let ?m = "bump cFramesReceived (receiver w)" and ?s = "objs (receiver w) b"
  obtain d fs' where fs: "fs = d # fs'" "g = data_frame i d" "gs = map (data_frame i) fs'"
    using f st by (cases fs) (auto simp: flow_def Let_def)
  have ck: "chunk_ok d" and cq: "list_all chunk_ok qs" and fr: "frames ?s = map Some qs"
    using f fs by (auto simp: flow_def Let_def)
  have v: "frame_valid (Some d)" using ck by (simp add: frame_valid_def chunk_ok_def)
  have h: "held_ok ?s" "\<not> sdone ?s" "streams ?m i = Some b" using stream_ok_held [OF D(3)] D(2) by (auto simp: end_ok_def add_metric_def)
  have bound: "int (length (concat qs)) + int (length d) \<le> DefaultWindowSize" using D(6) fs by simp
  obtain r s' where p: "push_stream ?s (Some d) = (r, s')" by (cases "push_stream ?s (Some d)")
  have nolim: "\<not> pendingEntryLimit \<le> length (live ?s)"
  proof -
    have "length (live ?s) \<le> length qs" using fr by (metis append_eq_conv_conj frames_def length_append length_map le_add2)
    then show ?thesis using chunks_length [OF cq] bound by linarith
  qed
  have "buffered ?s = int (length (drop (rOff ?s) (rBuf ?s))) + int (length (concat qs))"
    using D(3) fr by (simp add: stream_ok_def unread_def)
  moreover have "length (rBuf ?s) \<le> MaxFramePayload" using f by (simp add: flow_def Let_def)
  ultimately have nover: "\<not> pendingOverflowLimit < buffered ?s + frame_len (Some d)" using bound by simp
  have acc: "r = Queued \<or> r = Spilled" and pr: "put_result ?s (Some d) s'"
    using push_stream_spec [OF h(1) p v] h(2) nolim nover by auto
  have s': "stream_ok s'" "frames s' = map Some (qs @ [d])" "rBuf s' = rBuf ?s" "unread s' = unread ?s @ d"
    using put_result_ok [OF D(3) pr] pr fr by (auto simp: put_result_def absorbs_def unread_def)
  note id = push_stream_id [OF p] and pw = push_stream_credit [OF p]
  let ?m' = "if r = Spilled then bump cSpills (upd_obj b (\<lambda>_. s') ?m) else upd_obj b (\<lambda>_. s') ?m"
  have m': "handleFrame now g (receiver w) = ?m'"
    using acc p h(3) by (auto simp: fs(2) handleFrame_def DecodeFrame_data [OF ck] handleDataFrame_def pushFrame_def add_metric_def Let_def)
  have "end_ok i b ?m'" using D(2) id by (auto simp: end_ok_def upd_obj_def add_metric_def)
  then show ?thesis unfolding m' using f fs s' pw
    by (intro exI [of _ fs'] exI [of _ "qs @ [d]"]) (auto simp: flow_def Let_def upd_obj_def add_metric_def)
qed

text \<open>Credit coming back.\<close>

lemma DecodeFrame_credit: "DecodeFrame (credit_frame i n) = Inr (i, FrameWindowUpdate, PutUint32 (word_of_int n))"
  using DecodeFrame_append [of "PutUint32 (word_of_int n)" i FrameWindowUpdate 0 "[]"] by (simp add: credit_frame_def)

lemma flow_recv_credit:
  assumes f: "flow i a b ds fs qs cs ks w" and st: "bwd w = g # gs"
  shows "\<exists>ks'. flow i a b ds fs qs cs ks' (w\<lparr>sender := handleFrame now g (sender w), bwd := gs\<rparr>)"
proof -
  note D = flow_D [OF f]
  obtain n ks' where ks: "ks = n # ks'" "g = credit_frame i n" "gs = map (credit_frame i) ks'"
    using f st by (cases ks) (auto simp: flow_def Let_def)
  have pos: "list_all (\<lambda>n. 0 < n) (cs @ ks)" and pw: "0 \<le> pendingWindowUpdate (objs (receiver w) b)" using f by (auto simp: flow_def Let_def)
  then have n: "0 < n" "n \<le> sum_list (cs @ ks)" using ks concat_bound [OF pos, of n] by auto
  have le: "windowSize (objs (sender w) a) + n \<le> DefaultWindowSize"
  proof -
    have "windowSize (objs (sender w) a) + int (length (concat (ds @ fs @ qs))) + pendingWindowUpdate (objs (receiver w) b) + sum_list (cs @ ks) = DefaultWindowSize"
      using f by (simp add: flow_def Let_def)
    then show ?thesis using n(2) pw by linarith
  qed
  have sn: "sint (Uint32 (take 4 (PutUint32 (word_of_int n)))) = n" using n(1) le D(4) by (intro sint_credit) auto
  have m': "handleFrame now g (sender w) = upd_obj a (credit n) (bump cFramesReceived (sender w))"
    using D(1) sn n(1) by (simp add: ks(2) handleFrame_def DecodeFrame_credit handleWindowUpdateFrame_def end_ok_def add_metric_def Let_def)
  have "end_ok i a (upd_obj a (credit n) (bump cFramesReceived (sender w)))" using D(1) by (simp add: end_ok_upd)
  moreover have "wrap32 (windowSize (objs (sender w) a) + n) = windowSize (objs (sender w) a) + n" using le n(1) D(4) by (simp add: wrap32_id)
  ultimately show ?thesis unfolding m' using f ks n(1)
    by (intro exI [of _ ks']) (auto simp: flow_def Let_def upd_obj_def credit_def add_metric_def)
qed

text \<open>Reading, and the credit it issues.\<close>

lemma EncodeFrame_credit: "EncodeFrame i FrameWindowUpdate (Some (PutUint32 (word_of_int n))) = Inr (credit_frame i n)"
  by (simp add: EncodeFrame_def credit_frame_def)

definition issued :: "stream_id \<Rightarrow> nat \<Rightarrow> int \<Rightarrow> mux \<Rightarrow> mux \<Rightarrow> bool" where
  "issued i b n m m' \<longleftrightarrow> m' = m\<lparr>writeCh := writeCh m @ [raw_msg i (credit_frame i n)]\<rparr> \<or> m' = upd_obj b (add_pending_credit n) m"

lemma sendWindowUpdate_issued:
  assumes "0 < n" and "end_ok i b m"
  shows "issued i b n m (sendWindowUpdateUnsafe b n m)"
  using assms by (auto simp: issued_def sendWindowUpdateUnsafe_def trySendWindowUpdate_def EncodeFrame_credit offer_def end_ok_def)

lemma flow_issue:
  assumes f: "flow i a b ds fs (d # qs) cs ks w" and m': "issued i b (int (length d)) (upd_obj b (\<lambda>_. s'\<lparr>rBuf := d, rOff := 0\<rparr>) (receiver w)) m'"
    and s': "stream_ok (s'\<lparr>rBuf := d, rOff := 0\<rparr>)" "frames s' = map Some qs" "other_fields s' = other_fields (objs (receiver w) b)"
    and ex: "\<not> rOff (objs (receiver w) b) < length (rBuf (objs (receiver w) b))"
  shows "\<exists>cs'. flow i a b ds fs qs cs' ks (w\<lparr>receiver := m'\<rparr>)"
proof -
  note D = flow_D [OF f] and o = other_fieldsD [OF s'(3)]
  let ?m = "upd_obj b (\<lambda>_. s'\<lparr>rBuf := d, rOff := 0\<rparr>) (receiver w)"
  have ck: "chunk_ok d" and fr: "frames (objs (receiver w) b) = map Some (d # qs)" and pos: "list_all (\<lambda>n. 0 < n) (cs @ ks)"
    using f by (auto simp: flow_def Let_def)
  have e: "end_ok i b ?m" using D(2) o by (simp add: end_ok_def upd_obj_def)
  have u: "unread (s'\<lparr>rBuf := d, rOff := 0\<rparr>) = unread (objs (receiver w) b)" using s'(2) fr ex by (simp add: unread_def)
  have len: "0 < length d" "length d \<le> MaxFramePayload" using ck by (auto simp: chunk_ok_def)
  from m' consider (sent) "m' = ?m\<lparr>writeCh := writeCh (receiver w) @ [raw_msg i (credit_frame i (int (length d)))]\<rparr>"
    | (kept) "m' = upd_obj b (add_pending_credit (int (length d))) ?m"
    by (auto simp: issued_def upd_obj_def)
  then show ?thesis
  proof cases
    case sent
    then show ?thesis using f e u o s' len pos by (intro exI [of _ "cs @ [int (length d)]"]) (auto simp: flow_def Let_def upd_obj_def end_ok_def)
  next
    case kept
    have z: "0 \<le> sum_list (cs @ ks)" using concat_bound [OF pos] by blast
    have pw: "0 \<le> pendingWindowUpdate (objs (receiver w) b)" using f by (simp add: flow_def Let_def)
    have "wrap32 (pendingWindowUpdate (objs (receiver w) b) + int (length d)) = pendingWindowUpdate (objs (receiver w) b) + int (length d)"
      using D(7) z pw len by (intro wrap32_id) auto
    then show ?thesis unfolding kept using f e u o s' len end_ok_upd [OF e, of "add_pending_credit (int (length d))"]
      by (intro exI [of _ cs]) (auto simp: flow_def Let_def upd_obj_def add_pending_credit_def)
  qed
qed

lemma flow_fill:
  assumes f: "flow i a b ds fs qs cs ks w" and st: "read_fill b (receiver w) = (r, m)"
  shows "\<exists>qs' cs'. flow i a b ds fs qs' cs' ks (w\<lparr>receiver := m\<rparr>) \<and> (r = RReady \<or> r = RBlocked)"
proof -
  note D = flow_D [OF f]
  let ?s = "objs (receiver w) b"
  have q: "queue_ok ?s" using D(3) by (simp add: stream_ok_def)
  have fr: "frames ?s = map Some qs" and al: "list_all chunk_ok qs" using f by (auto simp: flow_def Let_def)
  show ?thesis
  proof (cases rule: read_fill_cases [of "receiver w" b])
    case ready
    then show ?thesis using f st by auto
  next
    case (stop x s' y)
    have "qs = []" using stop(3) next_frame_spec [OF q stop(2)] fr by (cases qs) (auto simp: pulled_def)
    then have "s' = ?s" "x = None" using next_frame_spec [OF q stop(2)] fr D(2) by (auto simp: end_ok_def)
    then have "m = receiver w" "r = RBlocked" using stop(4,5) st by (auto simp: upd_obj_def)
    then show ?thesis using f by auto
  next
    case (more d s')
    note sp = next_frame_spec [OF q more(2)]
    obtain x qs' where x: "qs = x # qs'" using sp fr by (cases qs) (auto split: if_splits)
    then have qs: "qs = d # qs'" "frames s' = map Some qs'" using sp fr by (auto simp: pulled_def)
    have ns: "other_fields s' = other_fields ?s" using sp by blast
    have ck: "chunk_ok d" using al qs by simp
    have w32: "wrap32 (int (length d)) = int (length d)" "0 < int (length d)" using ck by (auto simp: chunk_ok_def wrap32_id)
    let ?m = "upd_obj b (\<lambda>_. s'\<lparr>rBuf := d, rOff := 0\<rparr>) (receiver w)"
    have e: "end_ok i b ?m" using D(2) other_fieldsD [OF ns] by (simp add: end_ok_def upd_obj_def)
    have ok': "stream_ok (s'\<lparr>rBuf := d, rOff := 0\<rparr>)" using next_frame_ok [OF D(3) more(1,2)] by simp
    have iss: "issued i b (int (length d)) ?m (sendWindowUpdateUnsafe b (int (length d)) ?m)"
      by (rule sendWindowUpdate_issued [OF w32(2) e])
    have "rBuf (objs (sendWindowUpdateUnsafe b (int (length d)) ?m) b) = d" "rOff (objs (sendWindowUpdateUnsafe b (int (length d)) ?m) b) = 0"
      using iss by (auto simp: issued_def upd_obj_def add_pending_credit_def)
    then have "read_fill b (sendWindowUpdateUnsafe b (int (length d)) ?m) = (RReady, sendWindowUpdateUnsafe b (int (length d)) ?m)"
      using w32(2) by (subst read_fill.simps) simp
    then have "m = sendWindowUpdateUnsafe b (int (length d)) ?m" "r = RReady" using st more(3) w32(1) by auto
    then show ?thesis using flow_issue [OF f [unfolded qs(1)] iss ok' qs(2) ns more(1)] by auto
  qed
qed

lemma flow_touch:
  assumes "flow i a b ds fs qs cs ks w"
  shows "flow i a b ds fs qs cs ks (w\<lparr>receiver := upd_obj b (touch now) (receiver w)\<rparr>)"
  using assms end_ok_upd [OF flow_D(2) [OF assms], of "touch now"]
  by (auto simp: flow_def Let_def upd_obj_def touch_def)

lemma flow_consume:
  assumes f: "flow i a b ds fs qs cs ks w" and d: "d = take k (drop (rOff (objs (receiver w) b)) (rBuf (objs (receiver w) b)))"
    and le: "rOff (objs (receiver w) b) + length d \<le> length (rBuf (objs (receiver w) b))"
  shows "flow i a b ds fs qs cs ks
    (w\<lparr>receiver := add_metric cBytesRead (int (length d)) (upd_obj b (consume (length d)) (receiver w)), readout := readout w @ d\<rparr>)"
proof -
  note D = flow_D [OF f]
  let ?s = "objs (receiver w) b"
  have u: "unread ?s = d @ unread (consume (length d) ?s)" using consume_ok(2) [OF D(3) le] d by (simp add: min_def split: if_splits)
  have c: "frames (consume (length d) ?s) = frames ?s" "rBuf (consume (length d) ?s) = rBuf ?s"
    "pendingWindowUpdate (consume (length d) ?s) = pendingWindowUpdate ?s" by (simp_all add: consume_def)
  show ?thesis using f u c consume_ok(1) [OF D(3) le] end_ok_upd [OF D(2), of "consume (length d)"]
    by (auto simp: flow_def Let_def upd_obj_def add_metric_def)
qed

lemma flow_read:
  assumes f: "flow i a b ds fs qs cs ks w" and st: "Stream_Read now b k (receiver w) = (r, m)"
  shows "\<exists>qs' cs'. flow i a b ds fs qs' cs' ks (w\<lparr>receiver := m, readout := readout w @ (case r of Some (ReadBytes d) \<Rightarrow> d | _ \<Rightarrow> [])\<rparr>)"
proof -
  note t = flow_touch [OF f, of now]
  show ?thesis
  proof (cases rule: Stream_Read_cases [OF st, case_names rejected stopped bytes])
    case rejected
    then show ?thesis using flow_D(2) [OF f] by (simp add: end_ok_def)
  next
    case (stopped y)
    obtain qs' cs' where "flow i a b ds fs qs' cs' ks (w\<lparr>receiver := m\<rparr>)" "y = RReady \<or> y = RBlocked"
      using flow_fill [OF t] stopped(2) by fastforce
    then show ?thesis using stopped(3,4) by auto
  next
    case (bytes m1 d)
    obtain qs' cs' where f1: "flow i a b ds fs qs' cs' ks (w\<lparr>receiver := m1\<rparr>)"
      using flow_fill [OF t] bytes(2) by fastforce
    from flow_consume [OF f1, of d k] bytes(3-6) show ?thesis by auto
  qed
qed

text \<open>Sending the credit, or the credit that found no room before.\<close>

lemma flush_stream_step:
  assumes "end_ok i b m" and "0 \<le> pendingWindowUpdate (objs m b)" and "pendingWindowUpdate (objs m b) \<le> max_int32"
  shows "flush_streams [b] m = m
    \<or> flush_streams [b] m = upd_obj b (\<lambda>s. s\<lparr>pendingWindowUpdate := 0\<rparr>) (m\<lparr>writeCh := writeCh m @ [raw_msg i (credit_frame i (pendingWindowUpdate (objs m b)))]\<rparr>)
      \<and> 0 < pendingWindowUpdate (objs m b)"
proof (cases "pendingWindowUpdate (objs m b) = 0")
  case True
  then show ?thesis by (simp add: takePendingWindowUpdate_def upd_obj_def)
next
  case False
  then show ?thesis using assms
    by (auto simp: takePendingWindowUpdate_def trySendWindowUpdate_def EncodeFrame_credit offer_def end_ok_def upd_obj_def
        add_pending_credit_def wrap32_id Let_def)
qed

lemma flow_flush:
  assumes "flow i a b ds fs qs cs ks w" and "set as \<subseteq> {b}"
  shows "\<exists>cs'. flow i a b ds fs qs cs' ks (w\<lparr>receiver := flush_streams as (receiver w)\<rparr>)"
  using assms
proof (induction as arbitrary: cs w)
  case (Cons x as)
  note f = Cons.prems(1) and D = flow_D [OF Cons.prems(1)]
  have x: "x = b" and as: "set as \<subseteq> {b}" using Cons.prems(2) by auto
  let ?m = "receiver w" and ?p = "pendingWindowUpdate (objs (receiver w) b)"
  have pos: "list_all (\<lambda>n. 0 < n) (cs @ ks)" and p0: "0 \<le> ?p" using f by (auto simp: flow_def Let_def)
  have "0 \<le> sum_list (cs @ ks)" using concat_bound [OF pos] by blast
  then have pm: "?p \<le> max_int32" using D(7) by simp
  have "\<exists>cs1. flow i a b ds fs qs cs1 ks (w\<lparr>receiver := flush_streams [b] ?m\<rparr>)"
  proof (rule disjE [OF flush_stream_step [OF D(2) p0 pm]])
    assume "flush_streams [b] ?m = ?m"
    then show ?thesis using f by auto
  next
    let ?m' = "upd_obj b (\<lambda>s. s\<lparr>pendingWindowUpdate := 0\<rparr>) (?m\<lparr>writeCh := writeCh ?m @ [raw_msg i (credit_frame i ?p)]\<rparr>)"
    assume e: "flush_streams [b] ?m = ?m' \<and> 0 < ?p"
    have "end_ok i b ?m'" using D(2) by (simp add: end_ok_def upd_obj_def)
    then have "flow i a b ds fs qs (cs @ [?p]) ks (w\<lparr>receiver := ?m'\<rparr>)"
      using f e by (auto simp: flow_def Let_def upd_obj_def)
    then show ?thesis using e by auto
  qed
  then obtain cs1 where f1: "flow i a b ds fs qs cs1 ks (w\<lparr>receiver := flush_streams [b] ?m\<rparr>)" ..
  have "flush_streams (x # as) ?m = flush_streams as (flush_streams [b] ?m)" by (simp add: x)
  then show ?case using Cons.IH [OF f1 as] by simp
qed (use assms in auto)

lemma flow_send_credit:
  assumes f: "flow i a b ds fs qs cs ks w" and st: "writeLoop_round no_errors now ids tick (receiver w) = Some m"
  shows "\<exists>cs' ks'. flow i a b ds fs qs cs' ks' (w\<lparr>receiver := m, bwd := bwd w @ sent_by (receiver w) m\<rparr>)"
proof -
  note D = flow_D [OF f]
  let ?m = "receiver w"
  have nd: "\<not> mdone ?m" "retransmitQ ?m = []" "\<not> pendingPong ?m" "streams ?m = [i \<mapsto> b]" using D(2) by (auto simp: end_ok_def)
  have wc: "writeCh ?m = map (\<lambda>n. raw_msg i (credit_frame i n)) cs" using f by (simp add: flow_def Let_def)
  show ?thesis
  proof (cases tick)
    case True
    let ?as = "filter (\<lambda>a. 0 < pendingWindowUpdate (objs ?m a)) (List.map_filter (streams ?m) ids)"
    have "set ?as \<subseteq> {b}" using nd(4) by (auto simp: List.map_filter_def split: if_splits)
    from flow_flush [OF f this] obtain cs' where f1: "flow i a b ds fs qs cs' ks (w\<lparr>receiver := flush_streams ?as ?m\<rparr>)" ..
    have e: "end_ok i b (flush_streams ?as ?m)" using flow_D(2) [OF f1] by simp
    have "m = flush_streams ?as ?m"
      using st nd e by (simp add: writeLoop_round_def True flushPendingWindowUpdates_def flushPendingPong_def end_ok_def)
    moreover have "wire (flush_streams as n) = wire n" for as n
      by (induction as arbitrary: n) (auto simp: trySendWindowUpdate_def offer_def upd_obj_def Let_def split: prod.splits sum.splits bool.splits)
    ultimately show ?thesis using f1 by (auto simp: sent_by_def)
  next
    case False
    obtain n cs' where cs: "cs = n # cs'" using st wc nd False by (cases cs) (auto simp: writeLoop_round_def)
    have m: "m = (bump cFramesSent ?m)\<lparr>writeCh := map (\<lambda>n. raw_msg i (credit_frame i n)) cs', wire := wire ?m @ [credit_frame i n], attempts := Suc (attempts ?m)\<rparr>"
      using st wc nd cs False by (auto simp: writeLoop_round_def sendFrame_def sendRawFrame_def conn_send_def raw_msg_def add_metric_def Let_def)
    have "sent_by ?m m = [credit_frame i n]" unfolding m by (simp add: sent_by_def add_metric_def)
    moreover have "end_ok i b m" using D(2) unfolding m by (simp add: end_ok_def add_metric_def)
    ultimately show ?thesis using f cs
      by (intro exI [of _ cs'] exI [of _ "ks @ [n]"]) (auto simp: flow_def Let_def m add_metric_def)
  qed
qed

section \<open>Sessions\<close>

text \<open>A freshly opened end.\<close>

definition fresh_end :: "stream_id \<Rightarrow> nat \<Rightarrow> mux \<Rightarrow> bool" where
  "fresh_end i a m \<longleftrightarrow> end_ok i a m \<and> (\<exists>t. objs m a = newStream t i) \<and> writeCh m = [] \<and> metrics m cWindowViolations = 0"

inductive session_reach :: "stream_id \<Rightarrow> nat \<Rightarrow> nat \<Rightarrow> session \<Rightarrow> bool" for i a b where
  session_start: "fresh_end i a m \<Longrightarrow> fresh_end i b m' \<Longrightarrow>
     session_reach i a b \<lparr>sender = m, receiver = m', fwd = [], bwd = [], written = [], readout = []\<rparr>"
| session_next: "session_reach i a b w \<Longrightarrow> session_step a b w w' \<Longrightarrow> session_reach i a b w'"

lemma flow_start:
  assumes "fresh_end i a m" and "fresh_end i b m'"
  shows "flow i a b [] [] [] [] [] \<lparr>sender = m, receiver = m', fwd = [], bwd = [], written = [], readout = []\<rparr>"
proof -
  obtain t t' where "objs m a = newStream t i" "objs m' b = newStream t' i" using assms by (auto simp: fresh_end_def)
  moreover have "stream_ok (newStream t' i)" by simp
  ultimately show ?thesis using assms by (simp add: flow_def fresh_end_def Let_def newStream_def frames_def live_def unread_def)
qed

lemma flow_step:
  assumes "session_step a b w w'" and "flow i a b ds fs qs cs ks w"
  shows "\<exists>ds fs qs cs ks. flow i a b ds fs qs cs ks w'"
  using assms
proof (induction rule: session_step.induct)
  case (app_write p now w r m)
  from flow_write [OF app_write(3,2,1)] show ?case by (elim exE) (intro exI)
next
  case (app_read now k w r m)
  from flow_read [OF app_read(2,1)] show ?case by (elim exE) (intro exI)
next
  case (send_data now ids w m)
  from flow_send_data [OF send_data(2,1)] show ?case by (elim exE) (intro exI)
next
  case (send_credit now ids tick w m)
  from flow_send_credit [OF send_credit(2,1)] show ?case by (elim exE) (intro exI)
next
  case (recv_data w f fs' now)
  from flow_recv_data [OF recv_data(2,1), of now] show ?case by (elim exE) (intro exI)
next
  case (recv_credit w f fs' now)
  from flow_recv_credit [OF recv_credit(2,1), of now] show ?case by (elim exE) (intro exI)
qed

lemma session_flow: "session_reach i a b w \<Longrightarrow> \<exists>ds fs qs cs ks. flow i a b ds fs qs cs ks w"
proof (induction rule: session_reach.induct)
  case (session_start m m')
  then show ?case using flow_start by blast
next
  case (session_next w w')
  then show ?case using flow_step by blast
qed



text \<open>A dialer and a listener after the open frame, and the first write.\<close>

definition demo_accepted :: mux where
  "demo_accepted = handleFrame 0 [0, 0, 0, 1, 1, 0, 0, 0] (NewWithOpts 0 RoleListener [WithMaxStreams 2, WithAcceptChSize 4])"

definition demo_session :: session where
  "demo_session = \<lparr>sender = demo_open, receiver = demo_accepted, fwd = [], bwd = [], written = [], readout = []\<rparr>"

definition demo_written :: session where
  "demo_written = demo_session\<lparr>sender := snd (Stream_Write 0 0 [7, 8] demo_open), written := [7, 8]\<rparr>"

lemma demo_fresh: "fresh_end 1 0 demo_open" "fresh_end 1 0 demo_accepted"
proof -
  let ?m = "NewWithOpts 0 RoleDialer [WithMaxStreams 2, WithAcceptChSize 4]"
  have m: "\<not> mdone ?m" "maxStreams ?m = 2" "activeStreams ?m = 0" "nextID ?m = 1" "streams ?m = Map.empty" "next_obj ?m = 0" "writeCh ?m = []"
    "\<not> closeRequested ?m" "\<not> pendingPong ?m" "retransmitQ ?m = []" "metrics ?m cWindowViolations = 0"
    by (simp_all add: NewWithOpts_def WithMaxStreams_def WithAcceptChSize_def wrap32_def)
  have lt: "\<not> (4294967293 :: stream_id) \<le> 1" by (simp add: word_le_nat_alt)
  obtain f where "EncodeFrame 1 FrameOpen None = Inr f" by (simp add: EncodeFrame_def)
  then have "writeCh demo_open = []" "\<not> closeRequested demo_open" "\<not> pendingPong demo_open" "retransmitQ demo_open = []" "metrics demo_open cWindowViolations = 0"
    using lt by (simp_all add: demo_open_def Mux_Open_def m alloc_stream_def conn_send_def streamActiveOpened_def add_metric_def add_active_def Let_def)
  then show "fresh_end 1 0 demo_open" using demo_open_state by (auto simp: fresh_end_def end_ok_def newStream_def)
  let ?n = "bump cFramesReceived (NewWithOpts 0 RoleListener [WithMaxStreams 2, WithAcceptChSize 4])"
  have n: "\<not> mdone ?n" "maxStreams ?n = 2" "activeStreams ?n = 0" "streams ?n = Map.empty" "next_obj ?n = 0" "writeCh ?n = []"
    "\<not> closeRequested ?n" "\<not> pendingPong ?n" "retransmitQ ?n = []" "metrics ?n cWindowViolations = 0" "acceptCh ?n = []" "acceptCap ?n = 4"
    by (simp_all add: NewWithOpts_def WithMaxStreams_def WithAcceptChSize_def wrap32_def add_metric_def)
  have d: "DecodeFrame [0, 0, 0, 1, 1, 0, 0, 0] = Inr (1, 1, [])" by code_simp
  have e: "demo_accepted = handleOpenFrame 0 1 ?n" by (simp add: demo_accepted_def handleFrame_def d Let_def)
  show "fresh_end 1 0 demo_accepted"
    unfolding e by (auto simp: fresh_end_def end_ok_def handleOpenFrame_def n alloc_stream_def streamActiveOpened_def add_metric_def [where c = cOpened]
        add_metric_def [where c = cActive] add_active_def newStream_def Let_def)
qed

lemma demo_written: "session_reach 1 0 0 demo_written" "windowSize (objs (sender demo_written) 0) = 65534"
proof -
  have st: "session_reach 1 0 0 demo_session" unfolding demo_session_def by (rule session_start [OF demo_fresh])
  have w: "\<not> rejected (objs demo_open 0)" "\<not> sdone (objs demo_open 0)" "windowSize (objs demo_open 0) = 65536" "writeCh demo_open = []"
    using demo_open_state demo_fresh(1) by (simp_all add: newStream_def fresh_end_def)
  have l: "write_len 65536 [7, 8] = 2" by (simp add: write_len_def wrap32_def)
  have r: "fst (Stream_Write 0 0 [7, 8] demo_open) = Some (Inr 2)" "windowSize (objs (snd (Stream_Write 0 0 [7, 8] demo_open)) 0) = 65534"
    using w l by (simp_all add: Stream_Write_def upd_obj_def touch_def offer_def add_metric_def wrap32_def Let_def)
  have "session_step 0 0 demo_session demo_written"
    using app_write [of "[7, 8]" 0 0 demo_session "Some (Inr 2)" "snd (Stream_Write 0 0 [7, 8] demo_open)" 0] r(1)
    by (simp add: demo_written_def demo_session_def prod_eq_iff)
  with st show "session_reach 1 0 0 demo_written" by (rule session_next)
  show "windowSize (objs (sender demo_written) 0) = 65534" using r(2) by (simp add: demo_written_def)
qed



end
