(* ===== verification/Mux_Send.thy ===== *)
theory Mux_Send
  imports Mux_Flow "HOL-Library.Multiset"
begin

text \<open>
  The sending side of the multiplexer: what a round of the write loop does with each frame when the connection may fail, answers to
  pings, datagrams, the opening of streams, and the schedule of retransmissions. The account of frames is a multiset
  equation, so it says that a frame is neither lost nor sent twice; the runs at the end show where the code gives less than its
  comments promise.
\<close>

section \<open>Frames are accounted for\<close>

definition account :: "mux \<Rightarrow> byte list multiset" where
  "account m = mset (wire m) + mset (map rFrame (retransmitQ m))"

definition msg_frame :: "writeMsg \<Rightarrow> byte list" where
  "msg_frame msg = (case mData msg of
      None \<Rightarrow> (if isRaw msg then [] else PutUint32 (mStreamID msg) @ [FrameCloseWrite, 0] @ PutUint16 0)
    | Some d \<Rightarrow> if isRaw msg then d
        else if d = [] then PutUint32 (mStreamID msg) @ [FrameClose, 0] @ PutUint16 0
        else PutUint32 (mStreamID msg) @ [FrameData, 0] @ PutUint16 (word_of_nat (length d)) @ d)"

text \<open>What the account and the fate of the multiplexer depend on.\<close>

definition sview :: "mux \<Rightarrow> byte list list \<times> retransmitEntry list \<times> bool \<times> bool" where
  "sview m = (wire m, retransmitQ m, closeRequested m, mdone m)"

lemma sview_same [simp]:
  "sview (add_metric c n m) = sview m" "sview (upd_obj a f m) = sview m" "sview (m\<lparr>writeCh := ms\<rparr>) = sview m"
  "sview (m\<lparr>pendingPong := b\<rparr>) = sview m" "sview (snd (offer msg m)) = sview m" "sview (m\<lparr>streams := t\<rparr>) = sview m"
  "sview (add_active k m) = sview m" "sview (streamActiveClosed m) = sview m"
  by (simp_all add: sview_def add_metric_def upd_obj_def offer_def add_active_def streamActiveClosed_def)

lemma sview_window [simp]: "sview (snd (trySendWindowUpdate i n m)) = sview m"
  by (auto simp: trySendWindowUpdate_def split: sum.splits)

lemma sview_flush_streams [simp]: "sview (flush_streams as m) = sview m"
proof (induction as arbitrary: m)
  case (Cons a as)
  have "trySendWindowUpdate i n m' = (b, m1) \<Longrightarrow> sview m1 = sview m'" for i n m' b m1 using sview_window [of i n m'] by simp
  then show ?case by (auto simp: Let_def Cons.IH split: prod.splits bool.splits)
qed simp

lemma sview_flush [simp]: "sview (flushPendingWindowUpdates ids m) = sview m"
  by (simp add: flushPendingWindowUpdates_def)

lemma sview_pong: "trySendPong m = (b, m') \<Longrightarrow> sview m' = sview m"
  by (auto simp: trySendPong_def offer_def split: sum.splits if_splits)

lemma sview_flushPong [simp]: "sview (flushPendingPong m) = sview m"
  by (auto simp: flushPendingPong_def dest!: sview_pong split: prod.splits bool.splits)

lemma sview_remove [simp]: "sview (removeStream i b m) = sview m"
  by (auto simp: removeStream_def Let_def split: option.splits)

lemma account_view: "sview m' = sview m \<Longrightarrow> account m' = account m \<and> closeRequested m' = closeRequested m \<and> mdone m' = mdone m \<and> retransmitQ m' = retransmitQ m"
  by (simp add: sview_def account_def)

lemma conn_send_account:
  "conn_send net f m = (e, m') \<Longrightarrow> retransmitQ m' = retransmitQ m \<and> closeRequested m' = closeRequested m \<and> mdone m' = mdone m
    \<and> mset (wire m') = mset (wire m) + (if e = None then {#f#} else {#})"
  by (auto simp: conn_send_def split: option.splits)

lemma scan_account:
  assumes "scan_entries net now es rem m = (r, m')"
  shows "(case r of None \<Rightarrow> closeRequested m'
    | Some q \<Rightarrow> mset (wire m') + mset (map rFrame q) = mset (wire m) + mset (map rFrame es) + mset (map rFrame rem)) \<and> mdone m' = mdone m"
  using assms
proof (induction net now es rem m arbitrary: r m' rule: scan_entries.induct)
  case (2 net now e es rem m)
  obtain x m1 where c: "conn_send net (rFrame e) m = (x, m1)" by (cases "conn_send net (rFrame e) m")
  note ca = conn_send_account [OF c]
  show ?case
  proof (cases "deadline e > now")
    case True
    then show ?thesis using "2.IH"(1) [OF True] "2.prems" by (force split: option.splits)
  next
    case le: False
    show ?thesis
    proof (cases x)
      case None
      have "scan_entries net now es rem (bump cRetransmits m1) = (r, m')" using "2.prems" le c None by simp
      from "2.IH"(2) [OF le c [symmetric] None this] show ?thesis
        using ca None by (auto simp: add_metric_def split: option.splits)
    next
      case (Some y)
      show ?thesis
      proof (cases "Suc (retries e) \<ge> maxRetries")
        case True
        then show ?thesis using "2.prems" le c Some ca by (auto simp: Let_def request_close_def add_metric_def)
      next
        case False
        from "2.IH"(3) [OF le c [symmetric] Some refl False] show ?thesis
          using "2.prems" le c Some ca False by (force simp: Let_def split: option.splits)
      qed
    qed
  qed
qed auto

lemma scanQ_account:
  assumes "\<not> closeRequested (scanRetransmitQ net now m)"
  shows "account (scanRetransmitQ net now m) = account m \<and> mdone (scanRetransmitQ net now m) = mdone m"
proof -
  obtain r m1 where s: "scan_entries net now (retransmitQ m) [] m = (r, m1)" by (cases "scan_entries net now (retransmitQ m) [] m")
  show ?thesis using scan_account [OF s] assms s by (cases r) (auto simp: scanRetransmitQ_def account_def)
qed

lemma scan_keeps_request: "scan_entries net now es rem m = (r, m') \<Longrightarrow> closeRequested m \<Longrightarrow> closeRequested m'"
proof (induction net now es rem m arbitrary: r m' rule: scan_entries.induct)
  case (2 net now e es rem m)
  obtain x m1 where c: "conn_send net (rFrame e) m = (x, m1)" by (cases "conn_send net (rFrame e) m")
  have m1: "closeRequested m1" using conn_send_account [OF c] "2.prems"(2) by simp
  show ?case
  proof (cases "deadline e > now")
    case True
    then show ?thesis using "2.IH"(1) [OF True] "2.prems" by simp
  next
    case le: False
    show ?thesis
    proof (cases x)
      case None
      then show ?thesis using "2.IH"(2) [OF le c [symmetric] None] "2.prems" le c m1 by (simp add: add_metric_def)
    next
      case (Some y)
      then show ?thesis using "2.IH"(3) [OF le c [symmetric] Some refl] "2.prems" le c m1
        by (cases "Suc (retries e) \<ge> maxRetries") (auto simp: Let_def request_close_def)
    qed
  qed
qed simp

lemma scanQ_keeps_request: "closeRequested m \<Longrightarrow> closeRequested (scanRetransmitQ net now m)"
  using scan_keeps_request [of net now "retransmitQ m" "[]" m] by (auto simp: scanRetransmitQ_def split: prod.splits option.splits)

lemma Mux_Close_done: "mdone (Mux_Close ids m)"
  by (simp add: Mux_Close_def close_all_fields)

lemma encodeFrame_msg:
  assumes "\<not> isRaw msg" and "Mux_encodeFrame msg m = (Some f, m')"
  shows "f = msg_frame msg \<and> m' = m"
  using assms by (auto simp: Mux_encodeFrame_def msg_frame_def EncodeFrame_def Let_def split: option.splits list.splits if_splits)

lemma sendFrame_account:
  assumes "\<not> closeRequested (sendFrame net now ids msg m)" and "\<not> mdone (sendFrame net now ids msg m)"
  shows "account (sendFrame net now ids msg m) = account m + {#msg_frame msg#}
    \<or> isRaw msg \<and> (datagram msg \<or> pong msg) \<and> account (sendFrame net now ids msg m) = account m"
proof -
  let ?m = "bump cFramesSent m"
  have am: "account ?m = account m" "retransmitQ ?m = retransmitQ m" by (simp_all add: account_def add_metric_def)
  show ?thesis
  proof (cases "isRaw msg")
    case True
    obtain e m1 where c: "conn_send net (msg_frame msg) ?m = (e, m1)" by (cases "conn_send net (msg_frame msg) ?m")
    have f: "(case mData msg of None \<Rightarrow> [] | Some d \<Rightarrow> d) = msg_frame msg" using True by (auto simp: msg_frame_def split: option.splits)
    have s: "sendFrame net now ids msg m = (case e of Some _ \<Rightarrow> if datagram msg then bump cErrors m1
        else if pong msg then bump cPongsDropped m1 else Mux_Close ids (bump cErrors m1) | None \<Rightarrow> if pong msg then bump cPongsSent m1 else m1)"
      using True c by (auto simp: sendFrame_def sendRawFrame_def f Let_def split: option.splits)
    then show ?thesis using conn_send_account [OF c] am True assms(2) Mux_Close_done
      by (cases e) (auto simp: account_def add_metric_def)
  next
    case False
    obtain x m0 where enc: "Mux_encodeFrame msg ?m = (x, m0)" by (cases "Mux_encodeFrame msg ?m")
    have "x \<noteq> None"
    proof
      assume "x = None"
      then have "sendFrame net now ids msg m = m0" "closeRequested m0" using False enc
        by (auto simp: sendFrame_def request_close_def Let_def elim: Mux_encodeFrame_cases)
      then show False using assms(1) by simp
    qed
    then have x: "x = Some (msg_frame msg)" "m0 = ?m" using encodeFrame_msg [OF False] enc by auto
    obtain e m1 where c: "conn_send net (msg_frame msg) ?m = (e, m1)" by (cases "conn_send net (msg_frame msg) ?m")
    note ca = conn_send_account [OF c]
    show ?thesis
    proof (cases "\<exists>b bs. mData msg = Some (b # bs)")
      case data: True
      then have s: "sendFrame net now ids msg m = sendDataFrame net now (msg_frame msg) ?m" using False enc x by (auto simp: sendFrame_def Let_def)
      have "e \<noteq> Some SendConnClosed" using assms(1) c by (auto simp: s sendDataFrame_def request_close_def)
      moreover have "length (retransmitQ m1) < maxRetransmitQ" if "e = Some SendFailed"
        using assms(1) c that by (auto simp: s sendDataFrame_def enqueueRetransmit_def request_close_def split: if_splits)
      ultimately show ?thesis using ca c am unfolding s
        by (cases e) (auto simp: sendDataFrame_def enqueueRetransmit_def account_def split: conn_error.splits)
    next
      case False
      then have s: "sendFrame net now ids msg m = sendCloseFrame net ids msg (msg_frame msg) ?m"
        using \<open>\<not> isRaw msg\<close> enc x by (auto simp: sendFrame_def Let_def split: option.splits list.splits)
      show ?thesis
      proof (cases e)
        case None
        then have "sview (sendFrame net now ids msg m) = sview m1" using c by (auto simp: s sendCloseFrame_def)
        then have "account (sendFrame net now ids msg m) = account m1" by (rule account_view [THEN conjunct1])
        then show ?thesis using ca am None by (simp add: account_def)
      next
        case (Some y)
        then show ?thesis using c assms(2) Mux_Close_done by (auto simp: s sendCloseFrame_def)
      qed
    qed
  qed
qed


lemma demo_sender:
  "writeCh (sender demo_written) = [stream_msg 1 (Some [7, 8])]" "\<not> mdone (sender demo_written)" "\<not> closeRequested (sender demo_written)"
  "retransmitQ (sender demo_written) = []"
proof -
  have o: "end_ok 1 0 demo_open" "objs demo_open 0 = newStream 0 1" "writeCh demo_open = []"
    using demo_fresh(1) demo_open_state by (auto simp: fresh_end_def)
  have l: "write_len 65536 [7, 8] = 2" by (simp add: write_len_def wrap32_def)
  show "writeCh (sender demo_written) = [stream_msg 1 (Some [7, 8])]" "\<not> mdone (sender demo_written)" "\<not> closeRequested (sender demo_written)"
    "retransmitQ (sender demo_written) = []"
    using o l by (simp_all add: demo_written_def Stream_Write_def end_ok_def newStream_def upd_obj_def touch_def offer_def add_metric_def Let_def)
qed


section \<open>Heartbeats\<close>

definition pong_msg :: writeMsg where
  "pong_msg = \<lparr>mStreamID = 0, mData = Some (PutUint32 0 @ [FramePong, 0] @ PutUint16 0), isRaw = True, datagram = False, pong = True\<rparr>"

lemma trySendPong_alt: "\<not> mdone m \<Longrightarrow> trySendPong m = offer pong_msg m"
  by (simp add: trySendPong_def EncodeFrame_def pong_msg_def)

text \<open>Every ping is answered: on an open multiplexer a ping puts a pong on the write channel, or, when the channel is full, marks
  one as owed; a tick of the write loop keeps it owed while the channel is full and puts it on the channel as soon as there is room.
  The read loop never waits for it.\<close>

theorem ping_answered:
  assumes "\<not> mdone m"
  shows "(if length (writeCh m) < defaultWriteChCap then writeCh (handlePingFrame m) = writeCh m @ [pong_msg] \<and> pendingPong (handlePingFrame m) = pendingPong m
      else pendingPong (handlePingFrame m) \<and> writeCh (handlePingFrame m) = writeCh m)
    \<and> (pendingPong m \<longrightarrow> (if length (writeCh m) < defaultWriteChCap then writeCh (flushPendingPong m) = writeCh m @ [pong_msg] \<and> \<not> pendingPong (flushPendingPong m)
        else flushPendingPong m = m))"
  using assms trySendPong_alt [of m] trySendPong_alt [of "m\<lparr>pendingPong := False\<rparr>"]
  by (auto simp: handlePingFrame_def flushPendingPong_def offer_def add_metric_def)

theorem ping_answered_witness:
  "writeCh (handlePingFrame demo_mux) = writeCh demo_mux @ [pong_msg] \<or> pendingPong (handlePingFrame demo_mux)"
  using ping_answered [OF demo_state(2)] by presburger

section \<open>Datagrams\<close>

text \<open>Datagrams arrive whole: a datagram is refused as too large exactly above 65531 bytes; one that is accepted becomes one message of
  the write channel, and the frame in it makes the peer's handler receive the same flow id and the same bytes.\<close>

theorem datagram_roundtrip:
  assumes "SendDatagram pick fl d m = (r, m')"
  shows "(r = Some ErrDatagramTooLarge \<longleftrightarrow> MaxDatagramPayload < length d) \<and> (r \<noteq> None \<longrightarrow> m' = m)
    \<and> (r = None \<longrightarrow> (\<exists>f. writeCh m' = writeCh m @ [\<lparr>mStreamID = 0, mData = Some f, isRaw = True, datagram = True, pong = False\<rparr>]
        \<and> (\<forall>now p. datagramHandler p \<longrightarrow> datagrams (handleFrame now f p) = datagrams p @ [(fl, d)])))"
proof (cases "length d \<le> MaxDatagramPayload")
  case False
  then show ?thesis using assms by (auto simp: SendDatagram_def)
next
  case True
  let ?f = "PutUint32 0 @ [FrameDatagram, 0] @ PutUint16 (word_of_nat (length (PutUint32 fl @ d))) @ PutUint32 fl @ d"
  have enc: "EncodeFrame 0 FrameDatagram (Some (PutUint32 fl @ d)) = Inr ?f" using True by (intro EncodeFrame_Inr) simp
  have dec: "DecodeFrame ?f = Inr (0, FrameDatagram, PutUint32 fl @ d)"
    using DecodeFrame_append [of "PutUint32 fl @ d" 0 FrameDatagram 0 "[]"] True by simp
  have "datagrams (handleFrame now ?f p) = datagrams p @ [(fl, d)]" if "datagramHandler p" for now p
    using that unfolding handleFrame_def dec by (simp add: handleDatagramFrame_def add_metric_def Let_def)
  then show ?thesis using assms True enc
    by (auto simp: SendDatagram_def offer_def split: if_splits prod.splits bool.splits)
qed

theorem datagram_roundtrip_witness:
  "case SendDatagram False 9 [1, 2, 3] demo_open of (r, m') \<Rightarrow> r \<noteq> Some ErrDatagramTooLarge \<and> (r \<noteq> None \<longrightarrow> m' = demo_open)"
proof -
  obtain r m' where r: "SendDatagram False 9 [1, 2, 3] demo_open = (r, m')" by (cases "SendDatagram False 9 [1, 2, 3] demo_open")
  from datagram_roundtrip [OF r] show ?thesis unfolding r by simp
qed

section \<open>Opening streams\<close>

text \<open>\<open>Open\<close> is exact: it fails with the error of the first check that applies (closed, too many streams, ids used up) or when the open frame
  cannot be sent, and then the table and the stream counter are as before; otherwise it registers a fresh stream under an id
  that was not in the table, counts it, and puts exactly one open frame on the wire. Ids only grow, so none is used twice.\<close>

theorem Open_exact:
  assumes "mux_reach m" and "Mux_Open net now m = (r, m')"
  shows "case r of
      Inl e \<Rightarrow> streams m' = streams m \<and> activeStreams m' = activeStreams m \<and> wire m' = wire m
        \<and> (e = OpenClosed \<longleftrightarrow> mdone m) \<and> (e = ErrMaxStreams \<longleftrightarrow> \<not> mdone m \<and> 0 < maxStreams m \<and> maxStreams m \<le> activeStreams m)
    | Inr a \<Rightarrow> streams m (nextID m) = None \<and> streams m' = (streams m)(nextID m \<mapsto> a) \<and> objs m' a = newStream now (nextID m)
        \<and> activeStreams m' = wrap32 (activeStreams m + 1) \<and> nextID m < nextID m'
        \<and> (\<exists>f. EncodeFrame (nextID m) FrameOpen None = Inr f \<and> wire m' = wire m @ [f])"
proof -
  have free: "streams m (nextID m) = None" using nextID_free mux_reach_ok [OF assms(1)] by blast
  obtain f where f: "EncodeFrame (nextID m) FrameOpen None = Inr f" by (simp add: EncodeFrame_def)
  have same: "(streams m)(nextID m := None) = streams m" using free by auto
  consider "mdone m" | "\<not> mdone m" "0 < maxStreams m \<and> maxStreams m \<le> activeStreams m"
    | "\<not> mdone m" "\<not> (0 < maxStreams m \<and> maxStreams m \<le> activeStreams m)" "4294967293 \<le> nextID m"
    | "\<not> mdone m" "\<not> (0 < maxStreams m \<and> maxStreams m \<le> activeStreams m)" "nextID m < 4294967293" by fastforce
  then show ?thesis
  proof cases
    case 4
    then have lt: "\<not> 4294967293 \<le> nextID m" by simp
    show ?thesis
    proof (cases "net (attempts m)")
      case None
      then show ?thesis using assms(2) 4 lt f free nextID_grows [OF 4(3)]
        by (auto simp: Mux_Open_def alloc_stream_def conn_send_def streamActiveOpened_def add_metric_def add_active_def Let_def)
    next
      case (Some e)
      then show ?thesis using assms(2) 4 lt f same by (auto simp: Mux_Open_def alloc_stream_def conn_send_def add_metric_def Let_def)
    qed
  qed (use assms(2) in \<open>auto simp: Mux_Open_def add_metric_def\<close>)
qed

theorem Open_exact_witness:
  "case Mux_Open (\<lambda>_. Some SendFailed) 0 demo_mux of (r, m') \<Rightarrow> (case r of Inl e \<Rightarrow> streams m' = [1 \<mapsto> 0] \<and> e \<noteq> OpenClosed | Inr a \<Rightarrow> a = 1)"
proof -
  obtain r m' where r: "Mux_Open (\<lambda>_. Some SendFailed) 0 demo_mux = (r, m')" by (cases "Mux_Open (\<lambda>_. Some SendFailed) 0 demo_mux")
  have "r \<noteq> Inr a" for a using r by (auto simp: Mux_Open_def conn_send_def Let_def split: if_splits sum.splits prod.splits)
  then obtain e where e: "r = Inl e" by (cases r) auto
  from Open_exact [OF demo_reach r] show ?thesis unfolding r e using demo_state by simp
qed

section \<open>Where the code departs from its comments\<close>

text \<open>A multiplexer with two one-byte writes of a stream on its channel.\<close>

definition two_writes :: mux where
  "two_writes = (NewWithOpts 0 RoleDialer [])\<lparr>writeCh := [stream_msg 1 (Some [1]), stream_msg 1 (Some [2])]\<rparr>"

text \<open>Two frames due for retransmission, the second at its last try.\<close>

definition two_due :: mux where
  "two_due = (NewWithOpts 0 RoleDialer [])\<lparr>retransmitQ := [\<lparr>rFrame = [1], retries = 0, deadline = 0\<rparr>, \<lparr>rFrame = [2], retries = 4, deadline = 0\<rparr>]\<rparr>"

definition one_queued :: mux where
  "one_queued = enqueueRetransmit 0 [1] 0 (NewWithOpts 0 RoleDialer [])"

abbreviation (input) ms :: int where "ms \<equiv> 1000000"

text \<open>Retransmission can reorder a stream: when the send of the first of two data frames fails once, the second goes out before it, and the first
  follows when its retry is due, so the peer, which appends frames as they arrive, reads the bytes in the wrong order.\<close>

lemma retransmit_reorders:
  "case writeLoop_round (\<lambda>k. if k = 0 then Some SendFailed else None) 0 [] False two_writes of None \<Rightarrow> False
   | Some m1 \<Rightarrow> case writeLoop_round (\<lambda>k. if k = 0 then Some SendFailed else None) 0 [] False m1 of None \<Rightarrow> False
     | Some m2 \<Rightarrow> case writeLoop_round (\<lambda>k. if k = 0 then Some SendFailed else None) (100 * ms) [] True m2 of None \<Rightarrow> False
       | Some m3 \<Rightarrow> wire m3 = [msg_frame (stream_msg 1 (Some [2])), msg_frame (stream_msg 1 (Some [1]))] \<and> retransmitQ m3 = [] \<and> \<not> closeRequested m3"
  by (simp add: two_writes_def NewWithOpts_def writeLoop_round_def sendFrame_def stream_msg_def Mux_encodeFrame_def EncodeFrame_def sendDataFrame_def
      conn_send_def enqueueRetransmit_def scanRetransmitQ_def msg_frame_def add_metric_def flushPendingWindowUpdates_def flushPendingPong_def
      List.map_filter_def Let_def)

text \<open>The schedule of retries: a frame whose every retry fails is given up 1.6 seconds after it was queued, after retries at 100, 200, 400, 800
  and 1600 milliseconds. And a scan that gives up keeps the frames it has just re-sent in the queue: if the write loop
  scans again before the requested close has run, they go out a second time.\<close>

lemma retransmit_schedule:
  "(let scan = scanRetransmitQ (\<lambda>_. Some SendFailed); m4 = scan (800 * ms) (scan (400 * ms) (scan (200 * ms) (scan (100 * ms) one_queued))) in
      \<not> closeRequested m4 \<and> map deadline (retransmitQ m4) = [1600 * ms] \<and> closeRequested (scan (1600 * ms) m4))
   \<and> (let net = (\<lambda>k. if k = 1 \<or> k = 3 then Some SendFailed else None) in
      wire (scanRetransmitQ net 1 (scanRetransmitQ net 0 two_due)) = [[1], [1]] \<and> closeRequested (scanRetransmitQ net 0 two_due))"
  by (simp add: one_queued_def two_due_def NewWithOpts_def enqueueRetransmit_def scanRetransmitQ_def conn_send_def add_metric_def request_close_def
      backoffDuration_def push_bit_eq_mult Let_def)

text \<open>The first stream a listener opens has id 0, the id the protocol reserves for control frames; a dialer's first stream has id 1.\<close>

lemma listener_first_id:
  "(case Mux_Open (\<lambda>_. None) 0 (NewWithOpts 0 RoleListener []) of (Inr a, m) \<Rightarrow> sid (objs m a) = 0 \<and> streams m 0 = Some a | _ \<Rightarrow> False)
   \<and> (case Mux_Open (\<lambda>_. None) 0 (NewWithOpts 0 RoleDialer []) of (Inr a, m) \<Rightarrow> sid (objs m a) = 1 | _ \<Rightarrow> False)"
proof -
  have lt: "\<not> (4294967293 :: stream_id) \<le> 1" "\<not> (4294967293 :: stream_id) \<le> 0" by (simp_all add: word_le_nat_alt)
  then show ?thesis
    by (simp add: Mux_Open_def NewWithOpts_def alloc_stream_def EncodeFrame_def conn_send_def streamActiveOpened_def add_metric_def add_active_def newStream_def Let_def)
qed

end
