(* ===== verification/Go_Strings.thy ===== *)
theory Go_Strings
  imports Prelude
begin

text \<open>
  The parts of Go's \<open>strings\<close>, \<open>strconv\<close>, \<open>unicode\<close> and \<open>bufio\<close> packages the program uses, on byte strings: white space and
  runes by their UTF-8 encoding, splitting, trimming, decimal numbers and the line scanner, with the lemmas on printing and reading back.
\<close>

section \<open>Strings of the standard library\<close>

text \<open>
  The number of bytes of the white-space character at the start of a string, 0 for none: \<open>unicode.IsSpace\<close> on the UTF-8
  encoding. A leading byte never occurs inside a character, so the scan may look at every position.
\<close>

definition ascii_space :: "nat \<Rightarrow> bool" where
  "ascii_space n \<longleftrightarrow> n = 32 \<or> (9 \<le> n \<and> n \<le> 13)"

fun space3 :: "nat \<Rightarrow> nat \<Rightarrow> nat \<Rightarrow> bool" where
  "space3 a b c = (a = 0xE1 \<and> b = 0x9A \<and> c = 0x80
     \<or> a = 0xE2 \<and> b = 0x80 \<and> (0x80 \<le> c \<and> c \<le> 0x8A \<or> c = 0xA8 \<or> c = 0xA9 \<or> c = 0xAF)
     \<or> a = 0xE2 \<and> b = 0x81 \<and> c = 0x9F \<or> a = 0xE3 \<and> b = 0x80 \<and> c = 0x80)"

definition space_len :: "string \<Rightarrow> nat" where
  "space_len s =
     (let b = map of_char s :: nat list in
      if b \<noteq> [] \<and> ascii_space (b ! 0) then 1
      else if 2 \<le> length b \<and> b ! 0 = 0xC2 \<and> (b ! 1 = 0x85 \<or> b ! 1 = 0xA0) then 2
      else if 3 \<le> length b \<and> space3 (b ! 0) (b ! 1) (b ! 2) then 3
      else 0)"

text \<open>\<open>strings.FieldsSeq\<close>: \<open>cur\<close> is the field being read.\<close>

function fields_loop :: "string \<Rightarrow> string \<Rightarrow> string list" where
  "fields_loop cur [] = (if cur = [] then [] else [cur])"
| "fields_loop cur (c # s) =
     (if space_len (c # s) = 0 then fields_loop (cur @ [c]) s
      else (if cur = [] then [] else [cur]) @ fields_loop [] (drop (space_len (c # s)) (c # s)))"
  by pat_completeness auto
termination by (relation "measure (\<lambda>(cur, s). length s)") auto

definition FieldsSeq :: "string \<Rightarrow> string list" where
  "FieldsSeq s = fields_loop [] s"

text \<open>\<open>strings.Cut(s, "=")\<close>.\<close>

definition cut_eq :: "string \<Rightarrow> (string \<times> string) option" where
  "cut_eq s = (if CHR ''='' \<in> set s
     then Some (takeWhile (\<lambda>c. c \<noteq> CHR ''='') s, tl (dropWhile (\<lambda>c. c \<noteq> CHR ''='') s)) else None)"

text \<open>The digits \<open>hex.DecodeString\<close> reads, whether it reads a string without an error, and \<open>hex.EncodeToString\<close>.\<close>

definition is_hex :: "char \<Rightarrow> bool" where
  "is_hex c = (let n = (of_char c :: nat) in 48 \<le> n \<and> n \<le> 57 \<or> 97 \<le> n \<and> n \<le> 102 \<or> 65 \<le> n \<and> n \<le> 70)"

definition hex_decodes :: "string \<Rightarrow> bool" where
  "hex_decodes s \<longleftrightarrow> even (length s) \<and> list_all is_hex s"

definition hex_char :: "nat \<Rightarrow> char" where
  "hex_char n = char_of (if n < 10 then 48 + n else 87 + n)"

definition EncodeToString :: "nat list \<Rightarrow> string" where
  "EncodeToString bs = concat (map (\<lambda>b. [hex_char (b div 16 mod 16), hex_char (b mod 16)]) bs)"

lemma is_hex_char [simp]: "n < 16 \<Longrightarrow> is_hex (hex_char n)"
  by (simp add: is_hex_def hex_char_def)

lemma EncodeToString_decodes: "hex_decodes (EncodeToString bs) \<and> length (EncodeToString bs) = 2 * length bs"
  by (induction bs) (auto simp: EncodeToString_def hex_decodes_def)

text \<open>\<open>strings.CutPrefix\<close> and \<open>strings.Replace(s, old, new, 1)\<close>.\<close>

definition CutPrefix :: "string \<Rightarrow> string \<Rightarrow> string option" where
  "CutPrefix s pre = (if take (length pre) s = pre then Some (drop (length pre) s) else None)"

fun replace_first :: "string \<Rightarrow> string \<Rightarrow> string \<Rightarrow> string" where
  "replace_first old new [] = (if old = [] then new else [])"
| "replace_first old new (c # s) =
     (if take (length old) (c # s) = old then new @ drop (length old) (c # s) else c # replace_first old new s)"

text \<open>\<open>strconv.FormatInt(n, 10)\<close> and \<open>strconv.ParseInt(v, 10, 64)\<close>.\<close>

fun format_nat :: "nat \<Rightarrow> string" where
  "format_nat n = (if n < 10 then [char_of (48 + n)] else format_nat (n div 10) @ [char_of (48 + n mod 10)])"

declare format_nat.simps [simp del]

definition FormatInt :: "int \<Rightarrow> string" where
  "FormatInt n = (if n < 0 then CHR ''-'' # format_nat (nat (- n)) else format_nat (nat n))"

definition is_digit :: "char \<Rightarrow> bool" where
  "is_digit c \<longleftrightarrow> 48 \<le> (of_char c :: nat) \<and> (of_char c :: nat) \<le> 57"

definition digits_value :: "string \<Rightarrow> int" where
  "digits_value = foldl (\<lambda>v c. 10 * v + (int (of_char c) - 48)) 0"

definition ParseInt :: "string \<Rightarrow> int option" where
  "ParseInt v =
     (let neg = v \<noteq> [] \<and> hd v = CHR ''-'';
          ds = (if v \<noteq> [] \<and> (hd v = CHR ''-'' \<or> hd v = CHR ''+'') then tl v else v);
          n = (if neg then - digits_value ds else digits_value ds)
      in if ds = [] \<or> \<not> list_all is_digit ds then None
         else if in64 n then Some n else None)"

definition newline :: char where
  "newline = CHR 0x0A"

definition carriage :: char where
  "carriage = CHR 0x0D"

text \<open>\<open>strings.Split(s, "\n")\<close>.\<close>

fun split_newlines :: "string \<Rightarrow> string list" where
  "split_newlines [] = [[]]"
| "split_newlines (c # s) = (if c = newline then [] # split_newlines s
     else case split_newlines s of [] \<Rightarrow> [[c]] | l # ls \<Rightarrow> (c # l) # ls)"

text \<open>\<open>strings.TrimSpace\<close>. The last character is white space if it is one read from its first byte.\<close>

definition last_space :: "string \<Rightarrow> nat" where
  "last_space s =
     (if 1 \<le> length s \<and> space_len (drop (length s - 1) s) = 1 then 1
      else if 2 \<le> length s \<and> space_len (drop (length s - 2) s) = 2 then 2
      else if 3 \<le> length s \<and> space_len (drop (length s - 3) s) = 3 then 3
      else 0)"

function trim_left :: "string \<Rightarrow> string" where
  "trim_left s = (if space_len s = 0 \<or> s = [] then s else trim_left (drop (space_len s) s))"
  by pat_completeness auto
termination by (relation "measure length") auto

function trim_right :: "string \<Rightarrow> string" where
  "trim_right s = (if last_space s = 0 \<or> s = [] then s else trim_right (take (length s - last_space s) s))"
  by pat_completeness auto
termination by (relation "measure length") auto

declare trim_left.simps [simp del] trim_right.simps [simp del]

definition TrimSpace :: "string \<Rightarrow> string" where
  "TrimSpace s = trim_right (trim_left s)"

definition HasPrefix :: "string \<Rightarrow> string \<Rightarrow> bool" where
  "HasPrefix s p \<longleftrightarrow> take (length p) s = p"

definition HasSuffix :: "string \<Rightarrow> string \<Rightarrow> bool" where
  "HasSuffix s p \<longleftrightarrow> length p \<le> length s \<and> drop (length s - length p) s = p"

definition TrimPrefix :: "string \<Rightarrow> string \<Rightarrow> string" where
  "TrimPrefix s p = (if HasPrefix s p then drop (length p) s else s)"

definition TrimSuffix :: "string \<Rightarrow> string \<Rightarrow> string" where
  "TrimSuffix s p = (if HasSuffix s p then take (length s - length p) s else s)"

text \<open>The part after the last slash.\<close>

definition base_name :: "string \<Rightarrow> string" where
  "base_name s = rev (takeWhile (\<lambda>c. c \<noteq> CHR ''/'') (rev s))"

text \<open>The number of bytes a \<open>range\<close> loop takes for the first character of a nonempty string; 1 for an invalid byte.\<close>

definition rune_len :: "string \<Rightarrow> nat" where
  "rune_len s =
     (let b = map of_char s :: nat list;
          c = (\<lambda>i. i < length b \<and> 0x80 \<le> b ! i \<and> b ! i \<le> 0xBF);
          r = (\<lambda>lo hi. 1 < length b \<and> lo \<le> b ! 1 \<and> b ! 1 \<le> hi);
          h = (if b = [] then 0 else b ! 0)
      in if 0xC2 \<le> h \<and> h \<le> 0xDF \<and> c 1 then 2
         else if h = 0xE0 \<and> r 0xA0 0xBF \<and> c 2 then 3
         else if h = 0xED \<and> r 0x80 0x9F \<and> c 2 then 3
         else if 0xE1 \<le> h \<and> h \<le> 0xEF \<and> h \<noteq> 0xED \<and> c 1 \<and> c 2 then 3
         else if h = 0xF0 \<and> r 0x90 0xBF \<and> c 2 \<and> c 3 then 4
         else if 0xF1 \<le> h \<and> h \<le> 0xF3 \<and> c 1 \<and> c 2 \<and> c 3 then 4
         else if h = 0xF4 \<and> r 0x80 0x8F \<and> c 2 \<and> c 3 then 4
         else 1)"

lemma rune_len_pos: "0 < rune_len s"
  by (simp add: rune_len_def Let_def)

text \<open>
  The lines of \<open>bufio.Scanner\<close>: without the line end and one carriage return before it, an unfinished last line included if it is
  not empty. The scanner stops with an error at a line of \<open>bufio.MaxScanTokenSize\<close> bytes or more.
\<close>

definition strip_cr :: "string \<Rightarrow> string" where
  "strip_cr l = (if l \<noteq> [] \<and> last l = carriage then butlast l else l)"

definition raw_lines :: "string \<Rightarrow> string list" where
  "raw_lines b = (let ls = split_newlines b in if last ls = [] then butlast ls else ls)"

definition scan_lines :: "string \<Rightarrow> string list option" where
  "scan_lines b = (if list_ex (\<lambda>l. 65536 \<le> int (length l)) (raw_lines b) then None else Some (map strip_cr (raw_lines b)))"

section \<open>Numbers\<close>

lemma of_char_digit [simp]: "n < 10 \<Longrightarrow> (of_char (char_of (48 + n) :: char) :: nat) = 48 + n"
  by simp

lemma format_nat_digits: "list_all is_digit (format_nat n) \<and> format_nat n \<noteq> []"
proof (induction n rule: format_nat.induct)
  case (1 n)
  have "is_digit (char_of (48 + k))" if "k < 10" for k :: nat using that by (auto simp: is_digit_def)
  then show ?case using 1 by (subst (1 2) format_nat.simps) auto
qed

lemma digits_value_snoc: "digits_value (xs @ [c]) = 10 * digits_value xs + (int (of_char c) - 48)"
  by (simp add: digits_value_def)

lemma digits_value_format: "digits_value (format_nat n) = int n"
proof (induction n rule: format_nat.induct)
  case (1 n)
  show ?case
  proof (cases "n < 10")
    case True
    then show ?thesis by (subst format_nat.simps) (simp add: digits_value_def)
  next
    case False
    then have "digits_value (format_nat n) = 10 * int (n div 10) + int (n mod 10)"
      using 1 by (subst format_nat.simps) (simp add: digits_value_snoc)
    then show ?thesis by presburger
  qed
qed

lemma digit_not_sign: "is_digit c \<Longrightarrow> c \<noteq> CHR ''-'' \<and> c \<noteq> CHR ''+''"
  by (auto simp: is_digit_def)

lemma format_nat_hd: "format_nat n \<noteq> [] \<and> hd (format_nat n) \<noteq> CHR ''-'' \<and> hd (format_nat n) \<noteq> CHR ''+''"
  using format_nat_digits [of n] digit_not_sign [of "hd (format_nat n)"] by (cases "format_nat n") auto

lemma ParseInt_FormatInt: "in64 n \<Longrightarrow> ParseInt (FormatInt n) = Some n"
  using format_nat_hd [of "nat n"] format_nat_digits [of "nat n"] format_nat_digits [of "nat (- n)"]
  by (auto simp: ParseInt_def FormatInt_def Let_def digits_value_format)

lemma FormatInt_inj: "FormatInt m = FormatInt n \<longleftrightarrow> m = n"
proof -
  define value_of where "value_of s = (if s \<noteq> [] \<and> hd s = CHR ''-'' then - digits_value (tl s) else digits_value s)" for s
  have "value_of (FormatInt k) = k" for k
    using format_nat_hd [of "nat k"] by (simp add: value_of_def FormatInt_def digits_value_format)
  then show ?thesis by metis
qed

section \<open>Fields\<close>

definition printable :: "string \<Rightarrow> bool" where
  "printable s \<longleftrightarrow> list_all (\<lambda>c. 33 \<le> (of_char c :: nat) \<and> (of_char c :: nat) \<le> 126) s"

lemma printable_simps [simp]:
  "printable []" "printable (c # s) \<longleftrightarrow> 33 \<le> (of_char c :: nat) \<and> (of_char c :: nat) \<le> 126 \<and> printable s"
  "printable (s @ t) \<longleftrightarrow> printable s \<and> printable t"
  by (simp_all add: printable_def)

lemma printable_digits: "list_all is_digit s \<Longrightarrow> printable s"
  by (auto simp: printable_def is_digit_def list_all_iff)

lemma printable_FormatInt: "printable (FormatInt n)"
  using format_nat_digits by (simp add: FormatInt_def printable_digits)

lemma space_len_printable: "33 \<le> (of_char c :: nat) \<Longrightarrow> (of_char c :: nat) \<le> 126 \<Longrightarrow> space_len (c # s) = 0"
  by (auto simp: space_len_def ascii_space_def Let_def)

lemma fields_loop_printable: "printable s \<Longrightarrow> fields_loop cur (s @ t) = fields_loop (cur @ s) t"
  by (induction s arbitrary: cur) (simp_all add: space_len_printable)

lemma fields_loop_space: "cur \<noteq> [] \<Longrightarrow> fields_loop cur (CHR '' '' # t) = cur # fields_loop [] t"
  by (simp add: space_len_def ascii_space_def Let_def)

lemma FieldsSeq_words:
  "(\<And>w. w \<in> set ws \<Longrightarrow> printable w \<and> w \<noteq> []) \<Longrightarrow> printable w \<Longrightarrow> w \<noteq> [] \<Longrightarrow>
    FieldsSeq (w @ concat (map (\<lambda>v. CHR '' '' # v) ws)) = w # ws"
proof (induction ws arbitrary: w)
  case Nil
  then show ?case using fields_loop_printable [of w "[]" "[]"] by (simp add: FieldsSeq_def)
next
  case (Cons v ws)
  then have "FieldsSeq (v @ concat (map (\<lambda>v. CHR '' '' # v) ws)) = v # ws" by simp
  then show ?case using Cons.prems(2,3) fields_loop_printable [of w "[]" "CHR '' '' # v @ concat (map (\<lambda>v. CHR '' '' # v) ws)"]
    by (simp add: FieldsSeq_def fields_loop_space del: fields_loop.simps)
qed

lemma cut_eq_field: "CHR ''='' \<notin> set k \<Longrightarrow> cut_eq (k @ CHR ''='' # v) = Some (k, v)"
  by (induction k) (auto simp: cut_eq_def)

lemma replace_first_printable:
  "printable s \<Longrightarrow> replace_first (CHR '' '' # old) new (s @ t) = s @ replace_first (CHR '' '' # old) new t"
  by (induction s) auto

lemma FormatInt_ne: "FormatInt n \<noteq> []"
  using format_nat_hd by (simp add: FormatInt_def)

section \<open>Lines\<close>

lemma split_newlines_ne [simp]: "split_newlines s \<noteq> []"
  by (induction s) (auto split: list.splits)

lemma split_newlines_line: "newline \<notin> set l \<Longrightarrow> split_newlines l = [l]"
  by (induction l) auto

lemma split_newlines_append: "newline \<notin> set l \<Longrightarrow> split_newlines (l @ newline # s) = l # split_newlines s"
  by (induction l) (auto split: list.splits)

lemma split_newlines_snoc: "split_newlines (s @ [newline]) = split_newlines s @ [[]]"
  by (induction s) (auto split: list.splits)

lemma split_newlines_complete:
  "split_newlines (s @ newline # t) = split_newlines s @ split_newlines t"
  by (induction s) (auto split: list.splits)

text \<open>A content that is empty or ends with a line end takes a further line as its last one.\<close>

definition complete :: "string \<Rightarrow> bool" where
  "complete b \<longleftrightarrow> b = [] \<or> last b = newline"

lemma raw_lines_append:
  assumes "complete b" "newline \<notin> set l"
  shows "raw_lines (b @ l @ [newline]) = raw_lines b @ [l]"
proof (cases "b = []")
  case True
  then show ?thesis using assms(2) split_newlines_append [of l "[]"] by (simp add: raw_lines_def Let_def)
next
  case False
  then obtain s where s: "b = s @ [newline]" using assms(1) by (metis append_butlast_last_id complete_def)
  have "split_newlines (s @ newline # l @ [newline]) = split_newlines s @ [l, []]"
    using assms(2) split_newlines_append [of l "[]"] by (simp add: split_newlines_complete)
  then show ?thesis unfolding s by (simp add: raw_lines_def Let_def split_newlines_snoc butlast_append)
qed

lemma raw_lines_Nil [simp]: "raw_lines [] = []"
  by (simp add: raw_lines_def)

lemma last_space_printable: "printable s \<Longrightarrow> last_space s = 0"
proof -
  assume p: "printable s"
  have "space_len (drop n s) = 0" for n
  proof (cases "drop n s")
    case (Cons c t)
    then have "c \<in> set s" by (metis in_set_dropD list.set_intros(1))
    then show ?thesis using p Cons by (auto simp: printable_def list_all_iff intro!: space_len_printable)
  qed (simp add: space_len_def)
  then show ?thesis by (simp add: last_space_def)
qed

lemma TrimSpace_printable: "printable s \<Longrightarrow> TrimSpace s = s"
proof -
  assume p: "printable s"
  then have "space_len s = 0"
  proof (cases s)
    case (Cons c t)
    then show ?thesis using p by (simp add: space_len_printable)
  qed (simp add: space_len_def)
  then have "trim_left s = s" by (simp add: trim_left.simps)
  moreover have "trim_right s = s" using last_space_printable [OF p] by (simp add: trim_right.simps)
  ultimately show ?thesis by (simp add: TrimSpace_def)
qed

lemma strip_cr_printable: "printable s \<Longrightarrow> strip_cr s = s"
  by (cases s rule: rev_cases) (auto simp: strip_cr_def carriage_def)

lemma newline_printable: "printable s \<Longrightarrow> newline \<notin> set s"
  by (auto simp: printable_def list_all_iff newline_def)

lemma length_format_nat: "n < 10 ^ Suc k \<Longrightarrow> length (format_nat n) \<le> Suc k"
proof (induction k arbitrary: n)
  case 0
  then show ?case by (subst format_nat.simps) simp
next
  case (Suc k)
  then have "n div 10 < 10 ^ Suc k" by (simp add: less_mult_imp_div_less mult.commute)
  then show ?case using Suc.IH by (subst format_nat.simps) simp
qed

lemma length_FormatInt: "in64 n \<Longrightarrow> length (FormatInt n) \<le> 20"
  using length_format_nat [of "nat n" 18] length_format_nat [of "nat (- n)" 18]
  by (auto simp: FormatInt_def in64_def nat_less_iff)

lemma TrimSpace_Nil [simp]: "TrimSpace [] = []"
  by (simp add: TrimSpace_def trim_left.simps trim_right.simps)

lemma space_len_newline: "space_len (newline # s) = 1"
  by (simp add: space_len_def ascii_space_def newline_def Let_def)

lemma TrimSpace_line:
  assumes "printable s" "s \<noteq> []"
  shows "TrimSpace (s @ [newline]) = s"
proof -
  obtain c t where s: "s = c # t" using assms(2) by (cases s) auto
  then have "space_len (s @ [newline]) = 0" using assms(1) by (simp add: space_len_printable)
  then have "trim_left (s @ [newline]) = s @ [newline]" by (simp add: trim_left.simps)
  moreover have "last_space (s @ [newline]) = 1" by (simp add: last_space_def space_len_newline)
  moreover have "trim_right s = s" using last_space_printable [OF assms(1)] by (simp add: trim_right.simps)
  ultimately show ?thesis by (subst TrimSpace_def, simp, subst trim_right.simps) simp
qed

lemma last_space_last:
  assumes "s \<noteq> []" "printable [last s]"
  shows "last_space s = 0"
proof -
  obtain xs c where s: "s = xs @ [c]" using assms(1) by (cases s rule: rev_cases) auto
  have c: "33 \<le> (of_char c :: nat)" "(of_char c :: nat) \<le> 126" using assms(2) s by simp_all
  have 1: "space_len [c] = 0" using c by (rule space_len_printable)
  have 2: "space_len [b, c] \<noteq> 2" for b using c by (simp add: space_len_def Let_def)
  have 3: "space_len [a, b, c] \<noteq> 3" for a b using c by (simp add: space_len_def Let_def)
  show ?thesis
  proof (cases xs rule: rev_cases)
    case Nil
    then show ?thesis using s 1 by (simp add: last_space_def)
  next
    case (snoc ys b)
    then show ?thesis using s 1 2 3 by (cases ys rule: rev_cases) (simp_all add: last_space_def)
  qed
qed

text \<open>A text between two printable words loses only the line end behind it.\<close>

lemma TrimSpace_block:
  assumes "printable s" "s \<noteq> []" "printable t" "t \<noteq> []"
  shows "TrimSpace (s @ u @ t @ [newline]) = s @ u @ t"
proof -
  let ?x = "s @ u @ t"
  obtain c r where s: "s = c # r" using assms(2) by (cases s) auto
  then have "space_len (?x @ [newline]) = 0" using assms(1) by (simp add: space_len_printable)
  then have left: "trim_left (?x @ [newline]) = ?x @ [newline]" by (simp add: trim_left.simps)
  have "last ?x = last t" using assms(4) by simp
  then have "printable [last ?x]" using assms(3,4) by (metis append_butlast_last_id printable_simps(3))
  then have "last_space ?x = 0" using last_space_last [of ?x] s by simp
  then have "trim_right ?x = ?x" by (simp add: trim_right.simps)
  moreover have "last_space (?x @ [newline]) = 1" by (simp add: last_space_def space_len_newline)
  ultimately have "trim_right (?x @ [newline]) = ?x" by (subst trim_right.simps) simp
  then show ?thesis using left by (simp add: TrimSpace_def)
qed

lemma trim_right_head:
  assumes "33 \<le> (of_char c :: nat)" "(of_char c :: nat) \<le> 126"
  shows "trim_right (c # t) \<noteq> []"
proof (induction "length t" arbitrary: t rule: less_induct)
  case less
  let ?s = "c # t"
  show ?case
  proof (cases "last_space ?s = 0")
    case True
    then show ?thesis by (subst trim_right.simps) simp
  next
    case False
    have n: "last_space ?s \<le> length ?s" "space_len (drop (length ?s - last_space ?s) ?s) = last_space ?s"
      using False by (auto simp: last_space_def split: if_splits)
    have "length ?s - last_space ?s \<noteq> 0"
    proof
      assume "length ?s - last_space ?s = 0"
      then show False using n(2) False space_len_printable [OF assms, of t] by simp
    qed
    then obtain k where k: "length ?s - last_space ?s = Suc k" by (cases "length ?s - last_space ?s") auto
    then have "trim_right ?s = trim_right (c # take k t)" using False by (subst trim_right.simps) simp
    moreover have "length (take k t) < length t" using k False by simp
    ultimately show ?thesis using less by metis
  qed
qed

lemma TrimSpace_head:
  assumes "printable s" "s \<noteq> []"
  shows "TrimSpace (s @ t) \<noteq> []"
proof -
  obtain c u where s: "s = c # u" using assms(2) by (cases s) auto
  then have c: "33 \<le> (of_char c :: nat)" "(of_char c :: nat) \<le> 126" using assms(1) by auto
  then have "trim_left (s @ t) = s @ t" using s by (subst trim_left.simps) (simp add: space_len_printable)
  then show ?thesis using trim_right_head [OF c, of "u @ t"] s by (simp add: TrimSpace_def)
qed

end
