(* ===== verification/Merge3.thy ===== *)
theory Merge3
  imports Go_Strings "HOL-Library.Sublist"
begin

text \<open>
  The three-way text merge of the synchroniser, \<open>pkg/sync/merge3.go\<close>. Bytes are characters, a line is a string. A Go slice
  expression or index out of range panics; here such a step is \<open>None\<close>, so that a result \<open>Some\<close> includes the absence of
  a panic.

  The lemmas follow both cursors through a step of \<open>decide\<close>: whatever a cursor passes over is written to the result,
  except lines of the base.
\<close>

section \<open>Lines\<close>

text \<open>\<open>bytes.ReplaceAll(b, "\r\n", "\n")\<close>.\<close>

fun replaceCRLF :: "string \<Rightarrow> string" where
  "replaceCRLF [] = []"
| "replaceCRLF [c] = [c]"
| "replaceCRLF (c # d # s) = (if c = carriage \<and> d = newline then newline # replaceCRLF s else c # replaceCRLF (d # s))"

definition splitMerge3Lines :: "string \<Rightarrow> string list" where
  "splitMerge3Lines b =
     (let s = replaceCRLF b in
      if s = [] then []
      else let ls = split_newlines s in
        if ls \<noteq> [] \<and> last ls = [] then butlast ls else ls)"

text \<open>\<open>strings.Join(lines, "\n") + "\n"\<close>, nothing for no lines.\<close>

fun join_newlines :: "string list \<Rightarrow> string" where
  "join_newlines [] = []"
| "join_newlines [l] = l"
| "join_newlines (l # ls) = l @ newline # join_newlines ls"

definition joinMerge3Lines :: "string list \<Rightarrow> string" where
  "joinMerge3Lines ls = (if ls = [] then [] else join_newlines ls @ [newline])"

section \<open>Segments\<close>

definition slice :: "'a list \<Rightarrow> nat \<Rightarrow> nat \<Rightarrow> 'a list option" where
  "slice xs a b = (if a \<le> b \<and> b \<le> length xs then Some (take (b - a) (drop a xs)) else None)"

function indexOfMerge3 :: "string list \<Rightarrow> string \<Rightarrow> nat \<Rightarrow> nat" where
  "indexOfMerge3 target want i =
     (if i < length target then if target ! i = want then i else indexOfMerge3 target want (Suc i)
      else length target)"
  by pat_completeness auto
termination by (relation "measure (\<lambda>(target, want, i). length target - i)") auto

function collect_loop :: "string list \<Rightarrow> string set \<Rightarrow> nat \<Rightarrow> string list \<Rightarrow> string list \<times> nat" where
  "collect_loop target nextBases from collected =
     (if from < length target \<and> target ! from \<notin> nextBases
      then collect_loop target nextBases (Suc from) (collected @ [target ! from])
      else (collected, from))"
  by pat_completeness auto
termination by (relation "measure (\<lambda>(target, nb, from, c). length target - from)") auto

declare indexOfMerge3.simps [simp del] collect_loop.simps [simp del]

definition collectUntilAnyBaseMerge3 :: "string list \<Rightarrow> nat \<Rightarrow> string list \<Rightarrow> nat \<Rightarrow> (string list \<times> nat) option" where
  "collectUntilAnyBaseMerge3 target from baseLines nextIdx =
     (case slice baseLines nextIdx (length baseLines) of
        None \<Rightarrow> None
      | Some later \<Rightarrow> Some (collect_loop target (set later) from []))"

definition merge3PreSegment :: "string list \<Rightarrow> nat \<Rightarrow> nat \<Rightarrow> bool \<Rightarrow> string list \<Rightarrow> nat \<Rightarrow> (string list \<times> nat) option" where
  "merge3PreSegment target j nxt remain baseLines nextIdx =
     (if remain then map_option (\<lambda>pre. (pre, nxt)) (slice target j nxt)
      else collectUntilAnyBaseMerge3 target j baseLines nextIdx)"

section \<open>Decision per base line\<close>

record ConflictHunk =
  Base :: "string list"
  Ours :: "string list"
  Theirs :: "string list"

definition merge3MarkerOurs :: string where "merge3MarkerOurs = ''<<<<<<<''"
definition merge3MarkerSplit :: string where "merge3MarkerSplit = ''=======''"
definition merge3MarkerTheirs :: string where "merge3MarkerTheirs = ''>>>>>>>''"

record mergeLine =
  bl :: string
  oursHere :: bool
  theirsHere :: bool
  oursRemain :: bool
  theirsRemain :: bool
  oursPre :: "string list"
  theirsPre :: "string list"
  oursPreEnd :: nat
  theirsPreEnd :: nat

record merge3State =
  result :: "string list"
  cj :: nat
  ck :: nat
  conflicted :: bool

definition emit :: "string list \<Rightarrow> nat \<Rightarrow> nat \<Rightarrow> merge3State \<Rightarrow> merge3State" where
  "emit ls j k s = s\<lparr>result := result s @ ls, cj := j, ck := k\<rparr>"

fun merge3LinesEqual :: "string list \<Rightarrow> string list \<Rightarrow> bool" where
  "merge3LinesEqual [] [] = True"
| "merge3LinesEqual (a # as) (b # bs) = (a = b \<and> merge3LinesEqual as bs)"
| "merge3LinesEqual _ _ = False"

definition decideNeither :: "mergeLine \<Rightarrow> merge3State \<Rightarrow> ConflictHunk option \<times> merge3State" where
  "decideNeither l s =
     (if \<not> oursRemain l \<and> \<not> theirsRemain l then
        if oursPre l = [] \<and> theirsPre l = [] then (None, s)
        else if oursPre l = [] then (None, emit (theirsPre l) (cj s) (theirsPreEnd l) s)
        else if theirsPre l = [] then (None, emit (oursPre l) (oursPreEnd l) (ck s) s)
        else if merge3LinesEqual (oursPre l) (theirsPre l) then (None, emit (oursPre l) (oursPreEnd l) (theirsPreEnd l) s)
        else (Some \<lparr>Base = [bl l], Ours = oursPre l, Theirs = theirsPre l\<rparr>,
              emit ([merge3MarkerOurs] @ oursPre l @ [merge3MarkerSplit] @ theirsPre l @ [merge3MarkerTheirs])
                (oursPreEnd l) (theirsPreEnd l) s)
      else if \<not> oursRemain l then (None, emit (theirsPre l @ [bl l]) (cj s) (theirsPreEnd l + 1) s)
      else if \<not> theirsRemain l then (None, emit (oursPre l @ [bl l]) (oursPreEnd l + 1) (ck s) s)
      else if oursPre l = [] then (None, emit (theirsPre l @ [bl l]) (cj s + 1) (theirsPreEnd l + 1) s)
      else if theirsPre l = [] then (None, emit (oursPre l @ [bl l]) (oursPreEnd l + 1) (ck s + 1) s)
      else (None, emit (oursPre l @ theirsPre l @ [bl l]) (oursPreEnd l + 1) (theirsPreEnd l + 1) s))"

definition decide :: "mergeLine \<Rightarrow> merge3State \<Rightarrow> ConflictHunk option \<times> merge3State" where
  "decide l s =
     (if oursHere l \<and> theirsHere l then (None, emit [bl l] (cj s + 1) (ck s + 1) s)
      else if oursHere l \<and> theirsRemain l then (None, emit (theirsPre l @ [bl l]) (cj s + 1) (theirsPreEnd l + 1) s)
      else if theirsHere l \<and> oursRemain l then (None, emit (oursPre l @ [bl l]) (oursPreEnd l + 1) (ck s + 1) s)
      else if oursHere l \<and> \<not> theirsRemain l then
        if theirsPre l = [] then (None, emit [bl l] (cj s + 1) (ck s) s)
        else (None, emit (theirsPre l) (cj s + 1) (theirsPreEnd l) s)
      else if theirsHere l \<and> \<not> oursRemain l then
        if oursPre l = [] then (None, emit [bl l] (cj s) (ck s + 1) s)
        else (None, emit (oursPre l) (oursPreEnd l) (ck s + 1) s)
      else if \<not> oursHere l \<and> \<not> theirsHere l then decideNeither l s
      else (None, s))"

section \<open>The merge\<close>

definition merge_line :: "string list \<Rightarrow> string list \<Rightarrow> string list \<Rightarrow> nat \<Rightarrow> string \<Rightarrow> merge3State \<Rightarrow> mergeLine option" where
  "merge_line baseLines oursLines theirsLines i b s =
     (let oursNext = indexOfMerge3 oursLines b (cj s);
          theirsNext = indexOfMerge3 theirsLines b (ck s);
          orem = oursNext < length oursLines;
          trem = theirsNext < length theirsLines
      in case merge3PreSegment oursLines (cj s) oursNext orem baseLines (i + 1) of
           None \<Rightarrow> None
         | Some (opre, oend) \<Rightarrow>
             (case merge3PreSegment theirsLines (ck s) theirsNext trem baseLines (i + 1) of
                None \<Rightarrow> None
              | Some (tpre, tend) \<Rightarrow>
                  Some \<lparr>bl = b,
                    oursHere = cj s < length oursLines \<and> oursLines ! cj s = b,
                    theirsHere = ck s < length theirsLines \<and> theirsLines ! ck s = b,
                    oursRemain = orem, theirsRemain = trem, oursPre = opre, theirsPre = tpre,
                    oursPreEnd = oend, theirsPreEnd = tend\<rparr>))"

fun merge3_loop :: "string list \<Rightarrow> string list \<Rightarrow> string list \<Rightarrow> nat \<Rightarrow> string list \<Rightarrow> merge3State \<Rightarrow> ConflictHunk list
    \<Rightarrow> (merge3State \<times> ConflictHunk list) option" where
  "merge3_loop baseLines oursLines theirsLines i [] s hunks = Some (s, hunks)"
| "merge3_loop baseLines oursLines theirsLines i (b # rest) s hunks =
     (case merge_line baseLines oursLines theirsLines i b s of
        None \<Rightarrow> None
      | Some l \<Rightarrow>
          (case decide l s of
             (None, s') \<Rightarrow> merge3_loop baseLines oursLines theirsLines (i + 1) rest s' hunks
           | (Some h, s') \<Rightarrow> merge3_loop baseLines oursLines theirsLines (i + 1) rest (s'\<lparr>conflicted := True\<rparr>) (hunks @ [h])))"

definition Merge3 :: "string \<Rightarrow> string \<Rightarrow> string \<Rightarrow> (string \<times> bool \<times> ConflictHunk list) option" where
  "Merge3 base ours theirs =
     (let baseLines = splitMerge3Lines base;
          oursLines = splitMerge3Lines ours;
          theirsLines = splitMerge3Lines theirs
      in if baseLines = [] then Some (joinMerge3Lines (oursLines @ theirsLines), False, [])
         else case merge3_loop baseLines oursLines theirsLines 0 baseLines
                \<lparr>result = [], cj = 0, ck = 0, conflicted = False\<rparr> [] of
             None \<Rightarrow> None
           | Some (s, hunks) \<Rightarrow>
               Some (joinMerge3Lines (result s @ drop (cj s) oursLines @ drop (ck s) theirsLines), conflicted s, hunks))"

section \<open>Round trip of lines\<close>

lemma split_join_newlines:
  "ls \<noteq> [] \<Longrightarrow> (\<And>l. l \<in> set ls \<Longrightarrow> newline \<notin> set l) \<Longrightarrow> split_newlines (join_newlines ls @ [newline]) = ls @ [[]]"
  by (induction ls rule: join_newlines.induct) (auto simp: split_newlines_append)

definition line_ok :: "string \<Rightarrow> bool" where
  "line_ok l \<longleftrightarrow> newline \<notin> set l \<and> (l = [] \<or> last l \<noteq> carriage)"

lemma replaceCRLF_line:
  "newline \<notin> set l \<Longrightarrow> l = [] \<or> last l \<noteq> carriage \<Longrightarrow> replaceCRLF (l @ newline # s) = l @ newline # replaceCRLF s"
proof (induction l rule: replaceCRLF.induct)
  case 1
  then show ?case by (cases s) (auto simp: newline_def carriage_def)
next
  case (2 c)
  then show ?case by (cases s) (auto simp: newline_def carriage_def)
qed auto

lemma replaceCRLF_lines:
  "ls \<noteq> [] \<Longrightarrow> (\<And>l. l \<in> set ls \<Longrightarrow> line_ok l) \<Longrightarrow> replaceCRLF (join_newlines ls @ [newline]) = join_newlines ls @ [newline]"
  by (induction ls rule: join_newlines.induct) (auto simp: line_ok_def replaceCRLF_line)

lemma split_join_lines:
  assumes "\<And>l. l \<in> set ls \<Longrightarrow> line_ok l"
  shows "splitMerge3Lines (joinMerge3Lines ls) = ls"
proof (cases "ls = []")
  case True
  then show ?thesis by (simp add: splitMerge3Lines_def joinMerge3Lines_def)
next
  case False
  have "splitMerge3Lines (joinMerge3Lines ls) = butlast (ls @ [[]])"
    using False assms split_join_newlines [OF False]
    by (simp add: splitMerge3Lines_def joinMerge3Lines_def replaceCRLF_lines line_ok_def Let_def)
  then show ?thesis by simp
qed

section \<open>Segments are in range\<close>

lemma indexOf_takeWhile:
  "i \<le> length target \<Longrightarrow> indexOfMerge3 target want i = i + length (takeWhile (\<lambda>l. l \<noteq> want) (drop i target))"
proof (induction target want i rule: indexOfMerge3.induct)
  case (1 target want i)
  have "indexOfMerge3 target want i = (if i < length target then if target ! i = want then i
      else indexOfMerge3 target want (Suc i) else length target)"
    by (rule indexOfMerge3.simps)
  then show ?case using 1 by (cases "i < length target") (auto simp: Cons_nth_drop_Suc [symmetric])
qed

lemma indexOf_bounds: "i \<le> length target \<Longrightarrow> i \<le> indexOfMerge3 target want i \<and> indexOfMerge3 target want i \<le> length target"
  using length_takeWhile_le [of "\<lambda>l. l \<noteq> want" "drop i target"] by (simp add: indexOf_takeWhile)

lemma length_takeWhile_lt: "length (takeWhile Q ys) < length ys \<longleftrightarrow> (\<exists>y \<in> set ys. \<not> Q y)"
  by (induction ys) auto

lemma indexOf_found:
  assumes "i \<le> length target"
  shows "indexOfMerge3 target want i < length target \<longleftrightarrow> want \<in> set (drop i target)"
proof -
  have "indexOfMerge3 target want i < length target \<longleftrightarrow>
      length (takeWhile (\<lambda>l. l \<noteq> want) (drop i target)) < length (drop i target)"
    using assms by (auto simp: indexOf_takeWhile)
  then show ?thesis unfolding length_takeWhile_lt by simp
qed

lemma indexOf_nth:
  assumes "i \<le> length target" "indexOfMerge3 target want i < length target"
  shows "target ! indexOfMerge3 target want i = want"
  using assms nth_length_takeWhile [of "\<lambda>l. l \<noteq> want" "drop i target"] by (simp add: indexOf_takeWhile less_diff_conv add.commute)

lemma indexOf_here: "i < length target \<Longrightarrow> target ! i = want \<Longrightarrow> indexOfMerge3 target want i = i"
  by (simp add: indexOfMerge3.simps)

lemma collect_loop_takeWhile:
  "collect_loop target nb a acc =
     (let tw = takeWhile (\<lambda>l. l \<notin> nb) (drop a target) in (acc @ tw, a + length tw))"
proof (induction target nb a acc rule: collect_loop.induct)
  case (1 target nb a acc)
  have "collect_loop target nb a acc = (if a < length target \<and> target ! a \<notin> nb
      then collect_loop target nb (Suc a) (acc @ [target ! a]) else (acc, a))"
    by (rule collect_loop.simps)
  then show ?case using 1 by (cases "a < length target") (auto simp: Cons_nth_drop_Suc [symmetric] Let_def)
qed

text \<open>A segment is the part of the target between the cursor and the end of the segment.\<close>

definition segment :: "string list \<Rightarrow> nat \<Rightarrow> string list \<Rightarrow> nat \<Rightarrow> bool" where
  "segment xs j pre e \<longleftrightarrow> j \<le> e \<and> e \<le> length xs \<and> pre = take (e - j) (drop j xs)"

lemma segment_takeWhile: "j \<le> length xs \<Longrightarrow> segment xs j (takeWhile Q (drop j xs)) (j + length (takeWhile Q (drop j xs)))"
  using length_takeWhile_le [of Q "drop j xs"] by (simp add: segment_def takeWhile_eq_take [symmetric])

lemma merge3PreSegment_eq:
  assumes j: "j \<le> length xs" and i: "i < length base"
  shows "merge3PreSegment xs j (indexOfMerge3 xs b j) (indexOfMerge3 xs b j < length xs) base (i + 1) =
    (let pre = if b \<in> set (drop j xs) then takeWhile (\<lambda>l. l \<noteq> b) (drop j xs)
               else takeWhile (\<lambda>l. l \<notin> set (drop (i + 1) base)) (drop j xs)
     in Some (pre, j + length pre))"
proof -
  have "take (length (takeWhile (\<lambda>l. l \<noteq> b) (drop j xs))) (drop j xs) = takeWhile (\<lambda>l. l \<noteq> b) (drop j xs)"
    by (simp add: takeWhile_eq_take [symmetric])
  then show ?thesis using j i indexOf_bounds [OF j, of b] unfolding indexOf_found [OF j]
    by (simp add: merge3PreSegment_def slice_def indexOf_takeWhile [OF j] collectUntilAnyBaseMerge3_def
        collect_loop_takeWhile Let_def)
qed

lemma merge3PreSegment_spec:
  assumes j: "j \<le> length xs" and i: "i < length base"
  shows "\<exists>pre e. merge3PreSegment xs j (indexOfMerge3 xs b j) (indexOfMerge3 xs b j < length xs) base (i + 1) = Some (pre, e)
    \<and> segment xs j pre e \<and> (indexOfMerge3 xs b j < length xs \<longrightarrow> e = indexOfMerge3 xs b j \<and> e < length xs \<and> xs ! e = b)"
  unfolding merge3PreSegment_eq [OF assms] Let_def
  using segment_takeWhile [OF j] indexOf_nth [OF j] indexOf_found [OF j] indexOf_takeWhile [OF j] by auto

lemma merge_line_spec:
  assumes "cj s \<le> length os" "ck s \<le> length ts" "i < length base"
  shows "\<exists>l. merge_line base os ts i b s = Some l \<and> bl l = b
    \<and> segment os (cj s) (oursPre l) (oursPreEnd l) \<and> segment ts (ck s) (theirsPre l) (theirsPreEnd l)
    \<and> (oursHere l \<longleftrightarrow> cj s < length os \<and> os ! cj s = b) \<and> (theirsHere l \<longleftrightarrow> ck s < length ts \<and> ts ! ck s = b)
    \<and> (oursRemain l \<longrightarrow> oursPreEnd l < length os \<and> os ! oursPreEnd l = b)
    \<and> (theirsRemain l \<longrightarrow> theirsPreEnd l < length ts \<and> ts ! theirsPreEnd l = b)
    \<and> (oursHere l \<longrightarrow> oursRemain l \<and> oursPreEnd l = cj s) \<and> (theirsHere l \<longrightarrow> theirsRemain l \<and> theirsPreEnd l = ck s)"
proof -
  obtain po eo where o: "merge3PreSegment os (cj s) (indexOfMerge3 os b (cj s)) (indexOfMerge3 os b (cj s) < length os) base (i + 1) = Some (po, eo)"
    "segment os (cj s) po eo"
    "indexOfMerge3 os b (cj s) < length os \<longrightarrow> eo = indexOfMerge3 os b (cj s) \<and> eo < length os \<and> os ! eo = b"
    using merge3PreSegment_spec [OF assms(1,3)] by blast
  obtain pt et where t: "merge3PreSegment ts (ck s) (indexOfMerge3 ts b (ck s)) (indexOfMerge3 ts b (ck s) < length ts) base (i + 1) = Some (pt, et)"
    "segment ts (ck s) pt et"
    "indexOfMerge3 ts b (ck s) < length ts \<longrightarrow> et = indexOfMerge3 ts b (ck s) \<and> et < length ts \<and> ts ! et = b"
    using merge3PreSegment_spec [OF assms(2,3)] by blast
  show ?thesis using o t by (auto simp: merge_line_def Let_def indexOf_here)
qed

section \<open>What a cursor passes is written\<close>

definition passes :: "(string \<Rightarrow> bool) \<Rightarrow> string list \<Rightarrow> nat \<Rightarrow> string list \<Rightarrow> nat \<Rightarrow> bool" where
  "passes P xs j ext j' \<longleftrightarrow> j \<le> j' \<and> j' \<le> length xs \<and> subseq (filter P (take (j' - j) (drop j xs))) ext"

lemma take_drop_split: "a \<le> b \<Longrightarrow> b \<le> c \<Longrightarrow> take (c - a) (drop a xs) = take (b - a) (drop a xs) @ take (c - b) (drop b xs)"
proof -
  assume "a \<le> b" "b \<le> c"
  then have "c - a = (b - a) + (c - b)" "b = a + (b - a)" by simp_all
  then show ?thesis using take_add [of "b - a" "c - b" "drop a xs"] by (simp add: add.commute)
qed

lemma passes_trans:
  assumes "passes P xs a e b" "passes P xs b f c"
  shows "passes P xs a (e @ f) c"
  using assms take_drop_split [of a b c xs] by (auto simp: passes_def list_emb_append_mono)

lemma passes_stay [simp]: "j \<le> length xs \<Longrightarrow> passes P xs j ext j"
  by (simp add: passes_def)

lemma passes_line: "j < length xs \<Longrightarrow> \<not> P (xs ! j) \<Longrightarrow> passes P xs j ext (j + 1)"
  by (simp add: passes_def Cons_nth_drop_Suc [symmetric] take_Cons')

lemma passes_segment:
  assumes "segment xs j pre e" "sublist pre ext"
  shows "passes P xs j ext e"
proof -
  have "subseq (filter P pre) pre" by (rule subseq_filter_left)
  moreover have "subseq pre ext" using assms(2) by (rule sublist_imp_subseq)
  ultimately have "subseq (filter P pre) ext" by (rule subseq_order.trans)
  then show ?thesis using assms(1) by (simp add: passes_def segment_def)
qed

lemma passes_segment_line:
  assumes "segment xs j pre e" "sublist pre ext" "e < length xs" "\<not> P (xs ! e)"
  shows "passes P xs j ext (e + 1)"
proof -
  have "passes P xs e [] (e + 1)" using assms(3,4) by (rule passes_line)
  then show ?thesis using passes_trans [OF passes_segment [OF assms(1,2), of P]] by fastforce
qed

lemmas passes_intros = passes_line passes_segment passes_segment_line

lemma segment_set: "segment xs j pre e \<Longrightarrow> set pre \<subseteq> set xs"
  by (auto simp: segment_def dest: in_set_takeD in_set_dropD)

lemma linesEqual_iff: "merge3LinesEqual xs ys \<longleftrightarrow> xs = ys"
  by (induction xs ys rule: merge3LinesEqual.induct) auto

lemma emit_sel [simp]:
  "result (emit ls j k s) = result s @ ls" "cj (emit ls j k s) = j" "ck (emit ls j k s) = k"
  "conflicted (emit ls j k s) = conflicted s"
  by (simp_all add: emit_def)

definition markers :: "string set" where
  "markers = {merge3MarkerOurs, merge3MarkerSplit, merge3MarkerTheirs}"

definition conflict_text :: "ConflictHunk \<Rightarrow> string list" where
  "conflict_text h = [merge3MarkerOurs] @ Ours h @ [merge3MarkerSplit] @ Theirs h @ [merge3MarkerTheirs]"

text \<open>A genuine conflict on a line of the base: both sides replaced it, differently.\<close>

definition genuine :: "string list \<Rightarrow> string list \<Rightarrow> string list \<Rightarrow> ConflictHunk \<Rightarrow> bool" where
  "genuine base os ts h \<longleftrightarrow> (\<exists>b \<in> set base. Base h = [b]) \<and> Ours h \<noteq> [] \<and> Theirs h \<noteq> [] \<and> Ours h \<noteq> Theirs h
     \<and> sublist (Ours h) os \<and> sublist (Theirs h) ts"

lemma segment_sublist: "segment xs j pre e \<Longrightarrow> sublist pre xs"
  by (auto simp: segment_def intro: sublist_order.order_trans [OF sublist_take sublist_drop])

definition line_facts :: "string list \<Rightarrow> string list \<Rightarrow> merge3State \<Rightarrow> mergeLine \<Rightarrow> bool" where
  "line_facts os ts s l \<longleftrightarrow> cj s \<le> length os \<and> ck s \<le> length ts
     \<and> segment os (cj s) (oursPre l) (oursPreEnd l) \<and> segment ts (ck s) (theirsPre l) (theirsPreEnd l)
     \<and> (oursHere l \<longleftrightarrow> cj s < length os \<and> os ! cj s = bl l) \<and> (theirsHere l \<longleftrightarrow> ck s < length ts \<and> ts ! ck s = bl l)
     \<and> (oursRemain l \<longrightarrow> oursPreEnd l < length os \<and> os ! oursPreEnd l = bl l)
     \<and> (theirsRemain l \<longrightarrow> theirsPreEnd l < length ts \<and> ts ! theirsPreEnd l = bl l)
     \<and> (oursHere l \<longrightarrow> oursRemain l \<and> oursPreEnd l = cj s) \<and> (theirsHere l \<longrightarrow> theirsRemain l \<and> theirsPreEnd l = ck s)"

lemma pre_nil_end: "segment xs j [] e \<Longrightarrow> e = j"
  by (cases "j = length xs") (auto simp: segment_def)

text \<open>Both sides of a step, the new lines of the result as a witness.\<close>

definition step_ok :: "(string \<Rightarrow> bool) \<Rightarrow> string list \<Rightarrow> string list \<Rightarrow> merge3State \<Rightarrow> string list \<Rightarrow> merge3State \<Rightarrow> bool" where
  "step_ok P os ts s ext s' \<longleftrightarrow> result s' = result s @ ext \<and> passes P os (cj s) ext (cj s') \<and> passes P ts (ck s) ext (ck s')"

lemma step_ok_emit:
  "passes P os (cj s) ext j \<Longrightarrow> passes P ts (ck s) ext k \<Longrightarrow> step_ok P os ts s ext (emit ext j k s)"
  by (simp add: step_ok_def)

lemma step_emitI:
  "s' = emit ext j k s \<Longrightarrow> passes P os (cj s) ext j \<Longrightarrow> passes P ts (ck s) ext k \<Longrightarrow> \<exists>ext. step_ok P os ts s ext s'"
  using step_ok_emit by blast

lemma decideNeither_step:
  assumes f: "line_facts os ts s l" and P: "\<not> P (bl l)" and n: "\<not> oursHere l" "\<not> theirsHere l"
    and d: "decideNeither l s = (h, s')"
  shows "\<exists>ext. step_ok P os ts s ext s'"
proof -
  have so: "segment os (cj s) (oursPre l) (oursPreEnd l)" and st: "segment ts (ck s) (theirsPre l) (theirsPreEnd l)"
    and jo: "cj s \<le> length os" and jt: "ck s \<le> length ts"
    using f by (auto simp: line_facts_def)
  have ro: "oursRemain l \<Longrightarrow> oursPreEnd l < length os \<and> \<not> P (os ! oursPreEnd l)"
    and rt: "theirsRemain l \<Longrightarrow> theirsPreEnd l < length ts \<and> \<not> P (ts ! theirsPreEnd l)"
    using f P by (auto simp: line_facts_def)
  have po: "oursRemain l \<Longrightarrow> oursPre l \<noteq> []" and pt: "theirsRemain l \<Longrightarrow> theirsPre l \<noteq> []"
    using f n pre_nil_end [of os "cj s" "oursPreEnd l"] pre_nil_end [of ts "ck s" "theirsPreEnd l"] by (auto simp: line_facts_def)
  consider "s' = s" | "s' = emit (theirsPre l) (cj s) (theirsPreEnd l) s" | "s' = emit (oursPre l) (oursPreEnd l) (ck s) s"
    | "oursPre l = theirsPre l" "s' = emit (oursPre l) (oursPreEnd l) (theirsPreEnd l) s"
    | "s' = emit ([merge3MarkerOurs] @ oursPre l @ [merge3MarkerSplit] @ theirsPre l @ [merge3MarkerTheirs]) (oursPreEnd l) (theirsPreEnd l) s"
    | "theirsRemain l" "s' = emit (theirsPre l @ [bl l]) (cj s) (theirsPreEnd l + 1) s"
    | "oursRemain l" "s' = emit (oursPre l @ [bl l]) (oursPreEnd l + 1) (ck s) s"
    | "oursRemain l" "theirsRemain l" "s' = emit (oursPre l @ theirsPre l @ [bl l]) (oursPreEnd l + 1) (theirsPreEnd l + 1) s"
    using d po pt by (auto simp: decideNeither_def linesEqual_iff split: if_splits)
  then show ?thesis
  proof cases
    case 1
    then show ?thesis using jo jt by (intro exI [of _ "[]"]) (simp add: step_ok_def)
  next
    case 2
    then show ?thesis by (rule step_emitI) (simp_all add: jo passes_segment [OF st])
  next
    case 3
    then show ?thesis by (rule step_emitI) (simp_all add: jt passes_segment [OF so])
  next
    case 4
    then have "sublist (theirsPre l) (oursPre l)" by simp
    from step_emitI [OF 4(2) passes_segment [OF so sublist_order.order_refl] passes_segment [OF st this]] show ?thesis .
  next
    case 5
    have "sublist (theirsPre l) (([merge3MarkerOurs] @ oursPre l @ [merge3MarkerSplit]) @ theirsPre l @ [merge3MarkerTheirs])"
      by (rule sublist_appendI)
    then have "passes P ts (ck s) ([merge3MarkerOurs] @ oursPre l @ [merge3MarkerSplit] @ theirsPre l @ [merge3MarkerTheirs]) (theirsPreEnd l)"
      using passes_segment [OF st] by simp
    moreover have "passes P os (cj s) ([merge3MarkerOurs] @ oursPre l @ [merge3MarkerSplit] @ theirsPre l @ [merge3MarkerTheirs]) (oursPreEnd l)"
      by (rule passes_segment [OF so]) (rule sublist_appendI)
    ultimately show ?thesis using 5 by (metis step_emitI)
  next
    case 6
    then show ?thesis using rt jo by (intro step_emitI [OF 6(2)]) (blast intro: passes_stay passes_segment_line [OF st])+
  next
    case 7
    then show ?thesis using ro jt by (intro step_emitI [OF 7(2)]) (blast intro: passes_stay passes_segment_line [OF so])+
  next
    case 8
    have "sublist (theirsPre l) (oursPre l @ theirsPre l @ [bl l])" by (rule sublist_appendI)
    moreover have "sublist (oursPre l) (oursPre l @ theirsPre l @ [bl l])" by (rule sublist_append_rightI)
    ultimately show ?thesis using 8 ro rt passes_segment_line [OF so] passes_segment_line [OF st]
      by (intro step_emitI [OF 8(3)]) blast+
  qed
qed

lemma decide_step:
  assumes f: "line_facts os ts s l" and P: "\<not> P (bl l)" and d: "decide l s = (h, s')"
  shows "\<exists>ext. step_ok P os ts s ext s'"
proof -
  have so: "segment os (cj s) (oursPre l) (oursPreEnd l)" and st: "segment ts (ck s) (theirsPre l) (theirsPreEnd l)"
    and jo: "cj s \<le> length os" and jt: "ck s \<le> length ts"
    using f by (auto simp: line_facts_def)
  have ro: "oursRemain l \<Longrightarrow> oursPreEnd l < length os \<and> \<not> P (os ! oursPreEnd l)"
    and rt: "theirsRemain l \<Longrightarrow> theirsPreEnd l < length ts \<and> \<not> P (ts ! theirsPreEnd l)"
    and ho: "oursHere l \<Longrightarrow> cj s < length os \<and> \<not> P (os ! cj s)" and ht: "theirsHere l \<Longrightarrow> ck s < length ts \<and> \<not> P (ts ! ck s)"
    using f P by (auto simp: line_facts_def)
  consider "oursHere l" "theirsHere l" "s' = emit [bl l] (cj s + 1) (ck s + 1) s"
    | "oursHere l" "theirsRemain l" "s' = emit (theirsPre l @ [bl l]) (cj s + 1) (theirsPreEnd l + 1) s"
    | "theirsHere l" "oursRemain l" "s' = emit (oursPre l @ [bl l]) (oursPreEnd l + 1) (ck s + 1) s"
    | "oursHere l" "s' = emit [bl l] (cj s + 1) (ck s) s"
    | "oursHere l" "s' = emit (theirsPre l) (cj s + 1) (theirsPreEnd l) s"
    | "theirsHere l" "s' = emit [bl l] (cj s) (ck s + 1) s"
    | "theirsHere l" "s' = emit (oursPre l) (oursPreEnd l) (ck s + 1) s"
    | "\<not> oursHere l" "\<not> theirsHere l" "decideNeither l s = (h, s')"
    using d by (auto simp: decide_def split: if_splits)
  then show ?thesis
  proof cases
    case 1
    then show ?thesis using ho ht by (intro step_emitI [OF 1(3)]) (blast intro: passes_line)+
  next
    case 2
    then show ?thesis using ho rt by (intro step_emitI [OF 2(3)]) (blast intro: passes_line passes_segment_line [OF st])+
  next
    case 3
    then show ?thesis using ht ro by (intro step_emitI [OF 3(3)]) (blast intro: passes_line passes_segment_line [OF so])+
  next
    case 4
    then show ?thesis using ho jt by (intro step_emitI [OF 4(2)]) (blast intro: passes_line passes_stay)+
  next
    case 5
    then show ?thesis using ho by (intro step_emitI [OF 5(2)]) (blast intro: passes_line passes_segment [OF st])+
  next
    case 6
    then show ?thesis using ht jo by (intro step_emitI [OF 6(2)]) (blast intro: passes_line passes_stay)+
  next
    case 7
    then show ?thesis using ht by (intro step_emitI [OF 7(2)]) (blast intro: passes_line passes_segment [OF so])+
  next
    case 8
    then show ?thesis using decideNeither_step [of os ts s l P, OF f P] by blast
  qed
qed

text \<open>The lines a step writes, and the conflict it may report.\<close>

lemma decide_output:
  assumes f: "line_facts os ts s l" and b: "bl l \<in> set base" and d: "decide l s = (h, s')"
  shows "conflicted s' = conflicted s"
    and "\<exists>ext. result s' = result s @ ext \<and> set ext \<subseteq> set base \<union> set os \<union> set ts \<union> markers
      \<and> (case h of None \<Rightarrow> True | Some c \<Rightarrow> genuine base os ts c \<and> ext = conflict_text c)"
proof -
  have so: "segment os (cj s) (oursPre l) (oursPreEnd l)" and st: "segment ts (ck s) (theirsPre l) (theirsPreEnd l)"
    using f by (auto simp: line_facts_def)
  note sets = segment_set [OF so] segment_set [OF st] segment_sublist [OF so] segment_sublist [OF st]
  show "conflicted s' = conflicted s"
    using d by (auto simp: decide_def decideNeither_def split: if_splits)
  show "\<exists>ext. result s' = result s @ ext \<and> set ext \<subseteq> set base \<union> set os \<union> set ts \<union> markers
      \<and> (case h of None \<Rightarrow> True | Some c \<Rightarrow> genuine base os ts c \<and> ext = conflict_text c)"
    using d sets b
    by (auto simp: decide_def decideNeither_def linesEqual_iff genuine_def conflict_text_def markers_def split: if_splits)
qed

lemma merge_line_facts:
  assumes "cj s \<le> length os" "ck s \<le> length ts" "i < length base"
  shows "\<exists>l. merge_line base os ts i b s = Some l \<and> bl l = b \<and> line_facts os ts s l"
  using merge_line_spec [OF assms, of b] assms by (auto simp: line_facts_def)

text \<open>The loop over the base: total, with both sides passed over and all conflicts genuine.\<close>

definition run_ok :: "string list \<Rightarrow> string list \<Rightarrow> string list \<Rightarrow> merge3State \<Rightarrow> merge3State \<Rightarrow> ConflictHunk list \<Rightarrow> bool" where
  "run_ok base os ts s s' hs \<longleftrightarrow>
     (\<exists>ext. step_ok (\<lambda>l. l \<notin> set base) os ts s ext s' \<and> set ext \<subseteq> set base \<union> set os \<union> set ts \<union> markers
        \<and> (\<forall>c \<in> set hs. genuine base os ts c \<and> sublist (conflict_text c) ext))
     \<and> conflicted s' = (conflicted s \<or> hs \<noteq> [])"

lemma step_ok_trans: "step_ok P os ts s e s' \<Longrightarrow> step_ok P os ts s' f s'' \<Longrightarrow> step_ok P os ts s (e @ f) s''"
  by (auto simp: step_ok_def intro: passes_trans)

lemma run_ok_trans:
  assumes "run_ok base os ts s s' hs" "run_ok base os ts s' s'' hs'"
  shows "run_ok base os ts s s'' (hs @ hs')"
proof -
  obtain e where e: "step_ok (\<lambda>l. l \<notin> set base) os ts s e s'" "set e \<subseteq> set base \<union> set os \<union> set ts \<union> markers"
    "\<forall>c \<in> set hs. genuine base os ts c \<and> sublist (conflict_text c) e" "conflicted s' = (conflicted s \<or> hs \<noteq> [])"
    using assms(1) by (auto simp: run_ok_def)
  obtain f where f: "step_ok (\<lambda>l. l \<notin> set base) os ts s' f s''" "set f \<subseteq> set base \<union> set os \<union> set ts \<union> markers"
    "\<forall>c \<in> set hs'. genuine base os ts c \<and> sublist (conflict_text c) f" "conflicted s'' = (conflicted s' \<or> hs' \<noteq> [])"
    using assms(2) by (auto simp: run_ok_def)
  have "\<forall>c \<in> set (hs @ hs'). genuine base os ts c \<and> sublist (conflict_text c) (e @ f)"
    using e(3) f(3) sublist_order.order_trans by (metis UnE set_append sublist_append_leftI sublist_append_rightI)
  moreover have "set (e @ f) \<subseteq> set base \<union> set os \<union> set ts \<union> markers" using e(2) f(2) by simp
  moreover have "conflicted s'' = (conflicted s \<or> hs @ hs' \<noteq> [])" using e(4) f(4) by auto
  ultimately show ?thesis using step_ok_trans [OF e(1) f(1)] unfolding run_ok_def by (intro conjI exI [of _ "e @ f"])
qed

lemma decide_run:
  assumes f: "line_facts os ts s l" and b: "bl l \<in> set base" and d: "decide l s = (h, s')"
  shows "run_ok base os ts s (if h = None then s' else s'\<lparr>conflicted := True\<rparr>) (case h of None \<Rightarrow> [] | Some c \<Rightarrow> [c])"
proof -
  obtain e where e: "step_ok (\<lambda>l. l \<notin> set base) os ts s e s'"
    using decide_step [OF f _ d, of "\<lambda>l. l \<notin> set base"] b by auto
  obtain x where x: "result s' = result s @ x" "set x \<subseteq> set base \<union> set os \<union> set ts \<union> markers"
    "case h of None \<Rightarrow> True | Some c \<Rightarrow> genuine base os ts c \<and> x = conflict_text c"
    using decide_output(2) [OF f b d] by blast
  have "x = e" using e x(1) by (simp add: step_ok_def)
  then show ?thesis using e x(2,3) decide_output(1) [OF f b d]
    by (cases h) (auto simp: run_ok_def step_ok_def)
qed

lemma merge3_loop_ok:
  assumes "cj s \<le> length os" "ck s \<le> length ts" "i + length rest \<le> length base" "set rest \<subseteq> set base"
  shows "\<exists>s' hs. merge3_loop base os ts i rest s hunks = Some (s', hunks @ hs) \<and> run_ok base os ts s s' hs"
  using assms
proof (induction rest arbitrary: i s hunks)
  case Nil
  then show ?case by (auto simp: run_ok_def step_ok_def)
next
  case (Cons b rest)
  obtain l where l: "merge_line base os ts i b s = Some l" "bl l = b" "line_facts os ts s l"
    using merge_line_facts [of s os ts i base b] Cons.prems by auto
  obtain h s1 where d: "decide l s = (h, s1)" by (cases "decide l s")
  define s2 where "s2 = (if h = None then s1 else s1\<lparr>conflicted := True\<rparr>)"
  define hs where "hs = (case h of None \<Rightarrow> [] | Some c \<Rightarrow> [c])"
  have r: "run_ok base os ts s s2 hs"
    using decide_run [OF l(3) _ d, of base] l(2) Cons.prems(4) by (simp add: s2_def hs_def)
  then have "cj s2 \<le> length os" "ck s2 \<le> length ts" by (auto simp: run_ok_def step_ok_def passes_def)
  then obtain s' hs' where "merge3_loop base os ts (i + 1) rest s2 (hunks @ hs) = Some (s', (hunks @ hs) @ hs')" "run_ok base os ts s2 s' hs'"
    using Cons.IH [of s2 "i + 1" "hunks @ hs"] Cons.prems by auto
  moreover have "merge3_loop base os ts i (b # rest) s hunks = merge3_loop base os ts (i + 1) rest s2 (hunks @ hs)"
    using l(1) d by (cases h) (simp_all add: s2_def hs_def)
  ultimately show ?case using run_ok_trans [OF r] by auto
qed

section \<open>Merging with one changed side\<close>

text \<open>The merge when the other side is the base itself, without cursors.\<close>

fun one_side :: "string list \<Rightarrow> string list \<Rightarrow> string list" where
  "one_side [] xs = xs"
| "one_side (b # rest) xs =
     (if b \<in> set xs then takeWhile (\<lambda>l. l \<noteq> b) xs @ [b] @ one_side rest (tl (dropWhile (\<lambda>l. l \<noteq> b) xs))
      else (let pre = takeWhile (\<lambda>l. l \<notin> set rest) xs in
            (if pre = [] then [b] else pre) @ one_side rest (dropWhile (\<lambda>l. l \<notin> set rest) xs)))"

lemma dropWhile_drop: "dropWhile Q xs = drop (length (takeWhile Q xs)) xs"
  by (rule dropWhile_eq_drop)

text \<open>What one step does with the changed side \<open>xs\<close> at cursor \<open>j\<close>: the lines written and the new cursor.\<close>

definition side_step :: "string \<Rightarrow> string list \<Rightarrow> string list \<Rightarrow> nat \<Rightarrow> string list \<times> nat" where
  "side_step b rest xs j =
     (if b \<in> set (drop j xs) then let pre = takeWhile (\<lambda>l. l \<noteq> b) (drop j xs) in (pre @ [b], j + length pre + 1)
      else let pre = takeWhile (\<lambda>l. l \<notin> set rest) (drop j xs) in (if pre = [] then [b] else pre, j + length pre))"

lemma one_side_step:
  assumes "side_step b rest xs j = (ls, j')"
  shows "one_side (b # rest) (drop j xs) = ls @ one_side rest (drop j' xs)"
  using assms by (auto simp: side_step_def Let_def dropWhile_drop drop_drop drop_Suc tl_drop add.commute split: if_splits)

lemma side_step_bound: "j \<le> length xs \<Longrightarrow> side_step b rest xs j = (ls, j') \<Longrightarrow> j' \<le> length xs"
  using length_takeWhile_le [of "\<lambda>l. l \<notin> set rest" "drop j xs"] length_takeWhile_lt [of "\<lambda>l. l \<noteq> b" "drop j xs"]
  by (auto simp: side_step_def Let_def split: if_splits)

lemma here_iff: "(j < length xs \<and> xs ! j = b) \<longleftrightarrow> b \<in> set (drop j xs) \<and> takeWhile (\<lambda>l. l \<noteq> b) (drop j xs) = []"
  by (cases "j < length xs") (auto simp: Cons_nth_drop_Suc [symmetric])

definition pre_of :: "string \<Rightarrow> string list \<Rightarrow> string list \<Rightarrow> string list" where
  "pre_of b later ys = (if b \<in> set ys then takeWhile (\<lambda>l. l \<noteq> b) ys else takeWhile (\<lambda>l. l \<notin> set later) ys)"

lemma merge_line_eq:
  assumes "cj s \<le> length os" "ck s \<le> length ts" "i < length base"
  shows "merge_line base os ts i b s = Some
    \<lparr>bl = b, oursHere = b \<in> set (drop (cj s) os) \<and> takeWhile (\<lambda>l. l \<noteq> b) (drop (cj s) os) = [],
      theirsHere = b \<in> set (drop (ck s) ts) \<and> takeWhile (\<lambda>l. l \<noteq> b) (drop (ck s) ts) = [],
      oursRemain = b \<in> set (drop (cj s) os), theirsRemain = b \<in> set (drop (ck s) ts),
      oursPre = pre_of b (drop (i + 1) base) (drop (cj s) os), theirsPre = pre_of b (drop (i + 1) base) (drop (ck s) ts),
      oursPreEnd = cj s + length (pre_of b (drop (i + 1) base) (drop (cj s) os)),
      theirsPreEnd = ck s + length (pre_of b (drop (i + 1) base) (drop (ck s) ts))\<rparr>"
  unfolding merge_line_def Let_def merge3PreSegment_eq [OF assms(1,3), unfolded Let_def]
    merge3PreSegment_eq [OF assms(2,3), unfolded Let_def]
  by (simp add: indexOf_found assms here_iff pre_of_def)

lemma base_here:
  assumes "i < length base"
  shows "base ! i \<in> set (drop i base)" "takeWhile (\<lambda>l. l \<noteq> base ! i) (drop i base) = []"
  using here_iff [of i base "base ! i"] assms by auto

lemma step_theirs_base:
  assumes i: "i < length base" and j: "cj s \<le> length os" and k: "ck s = i"
    and st: "side_step (base ! i) (drop (i + 1) base) os (cj s) = (ls, j')"
  shows "\<exists>l. merge_line base os base i (base ! i) s = Some l \<and> decide l s = (None, emit ls j' (i + 1) s)"
proof -
  have "ck s \<le> length base" using i k by simp
  note eq = merge_line_eq [OF j this i, of "base ! i"]
  show ?thesis unfolding eq k using st k
    by (auto simp: base_here [OF i] decide_def side_step_def pre_of_def Let_def split: if_splits)
qed

lemma step_ours_base:
  assumes i: "i < length base" and j: "ck s \<le> length ts" and k: "cj s = i"
    and st: "side_step (base ! i) (drop (i + 1) base) ts (ck s) = (ls, k')"
  shows "\<exists>l. merge_line base base ts i (base ! i) s = Some l \<and> decide l s = (None, emit ls (i + 1) k' s)"
proof -
  have "cj s \<le> length base" using i k by simp
  note eq = merge_line_eq [OF this j i, of "base ! i"]
  show ?thesis unfolding eq k using st k
    by (auto simp: base_here [OF i] decide_def side_step_def pre_of_def Let_def split: if_splits)
qed

lemma loop_theirs_base:
  assumes "i \<le> length base" "cj s \<le> length os" "ck s = i"
  shows "\<exists>s'. merge3_loop base os base i (drop i base) s hunks = Some (s', hunks) \<and> conflicted s' = conflicted s
    \<and> result s' @ drop (cj s') os @ drop (ck s') base = result s @ one_side (drop i base) (drop (cj s) os)"
  using assms
proof (induction "length base - i" arbitrary: i s)
  case 0
  then show ?case by simp
next
  case (Suc n)
  then have i: "i < length base" and n: "n = length base - (i + 1)" by simp_all
  obtain ls j' where st: "side_step (base ! i) (drop (i + 1) base) os (cj s) = (ls, j')" by fastforce
  obtain l where l: "merge_line base os base i (base ! i) s = Some l" "decide l s = (None, emit ls j' (i + 1) s)"
    using step_theirs_base [OF i Suc.prems(2,3) st] by blast
  have d: "drop i base = base ! i # drop (i + 1) base" using i by (simp add: Cons_nth_drop_Suc)
  have "j' \<le> length os" using side_step_bound [OF Suc.prems(2) st] .
  then obtain s' where "merge3_loop base os base (i + 1) (drop (i + 1) base) (emit ls j' (i + 1) s) hunks = Some (s', hunks)"
    "conflicted s' = conflicted s"
    "result s' @ drop (cj s') os @ drop (ck s') base = (result s @ ls) @ one_side (drop (i + 1) base) (drop j' os)"
    using Suc.hyps(1) [OF n, of "emit ls j' (i + 1) s"] i by auto
  then show ?case using l one_side_step [OF st] unfolding d by (auto simp del: one_side.simps)
qed

lemma loop_ours_base:
  assumes "i \<le> length base" "ck s \<le> length ts" "cj s = i"
  shows "\<exists>s'. merge3_loop base base ts i (drop i base) s hunks = Some (s', hunks) \<and> conflicted s' = conflicted s
    \<and> result s' @ drop (cj s') base @ drop (ck s') ts = result s @ one_side (drop i base) (drop (ck s) ts)"
  using assms
proof (induction "length base - i" arbitrary: i s)
  case 0
  then show ?case by simp
next
  case (Suc n)
  then have i: "i < length base" and n: "n = length base - (i + 1)" by simp_all
  obtain ls j' where st: "side_step (base ! i) (drop (i + 1) base) ts (ck s) = (ls, j')" by fastforce
  obtain l where l: "merge_line base base ts i (base ! i) s = Some l" "decide l s = (None, emit ls (i + 1) j' s)"
    using step_ours_base [OF i Suc.prems(2,3) st] by blast
  have d: "drop i base = base ! i # drop (i + 1) base" using i by (simp add: Cons_nth_drop_Suc)
  have "j' \<le> length ts" using side_step_bound [OF Suc.prems(2) st] .
  then obtain s' where "merge3_loop base base ts (i + 1) (drop (i + 1) base) (emit ls (i + 1) j' s) hunks = Some (s', hunks)"
    "conflicted s' = conflicted s"
    "result s' @ drop (cj s') base @ drop (ck s') ts = (result s @ ls) @ one_side (drop (i + 1) base) (drop j' ts)"
    using Suc.hyps(1) [OF n, of "emit ls (i + 1) j' s"] i by auto
  then show ?case using l one_side_step [OF st] unfolding d by (auto simp del: one_side.simps)
qed

lemma split_at_line: "b \<in> set xs \<Longrightarrow> takeWhile (\<lambda>l. l \<noteq> b) xs @ b # tl (dropWhile (\<lambda>l. l \<noteq> b) xs) = xs"
  by (induction xs) auto

lemma one_side_keeps: "subseq xs (one_side base xs)"
proof (induction base xs rule: one_side.induct)
  case (2 b rest xs)
  show ?case
  proof (cases "b \<in> set xs")
    case True
    have "subseq (takeWhile (\<lambda>l. l \<noteq> b) xs @ b # tl (dropWhile (\<lambda>l. l \<noteq> b) xs)) (one_side (b # rest) xs)"
      using True 2(1) [OF True] by (simp add: subseq_append')
    then show ?thesis unfolding split_at_line [OF True] .
  next
    case False
    have "subseq (takeWhile (\<lambda>l. l \<notin> set rest) xs @ dropWhile (\<lambda>l. l \<notin> set rest) xs)
        ((if takeWhile (\<lambda>l. l \<notin> set rest) xs = [] then [b] else takeWhile (\<lambda>l. l \<notin> set rest) xs) @
          one_side rest (dropWhile (\<lambda>l. l \<notin> set rest) xs))"
      using 2(2) [OF False refl] by (intro list_emb_append_mono) auto
    then show ?thesis using False by (simp add: Let_def)
  qed
qed simp

lemma subseq_greedy: "subseq (b # rest) xs \<Longrightarrow> b \<in> set xs \<and> subseq rest (tl (dropWhile (\<lambda>l. l \<noteq> b) xs))"
proof (induction xs)
  case (Cons x xs)
  then show ?case by (cases "x = b") (auto dest: subseq_Cons2_neq)
qed simp

lemma one_side_insertions: "subseq base xs \<Longrightarrow> one_side base xs = xs"
proof (induction base arbitrary: xs)
  case (Cons b rest)
  have b: "b \<in> set xs" "subseq rest (tl (dropWhile (\<lambda>l. l \<noteq> b) xs))" using subseq_greedy [OF Cons.prems] by auto
  show ?case using b(1) Cons.IH [OF b(2)] split_at_line [OF b(1)] by simp
qed simp

lemma one_side_empty: "one_side base [] = base"
  by (induction base) auto

lemma merge3_one_sided_eq:
  "Merge3 base ours base = Some (joinMerge3Lines (one_side (splitMerge3Lines base) (splitMerge3Lines ours)), False, [])"
  "Merge3 base base ours = Some (joinMerge3Lines (one_side (splitMerge3Lines base) (splitMerge3Lines ours)), False, [])"
proof -
  let ?b = "splitMerge3Lines base" and ?o = "splitMerge3Lines ours"
  define s0 where "s0 = \<lparr>result = [], cj = 0, ck = 0, conflicted = False\<rparr>"
  show "Merge3 base ours base = Some (joinMerge3Lines (one_side ?b ?o), False, [])"
    using loop_theirs_base [of 0 ?b s0 ?o "[]"] by (auto simp: Merge3_def Let_def s0_def)
  show "Merge3 base base ours = Some (joinMerge3Lines (one_side ?b ?o), False, [])"
    using loop_ours_base [of 0 ?b s0 ?o "[]"] by (auto simp: Merge3_def Let_def s0_def)
qed

section \<open>Properties of the merge\<close>



definition demo_base :: string where "demo_base = ''a'' @ [newline] @ ''b'' @ [newline]"
definition demo_ours :: string where "demo_ours = ''a'' @ [newline] @ ''x'' @ [newline] @ ''b'' @ [newline]"

lemma demo_lines:
  "splitMerge3Lines demo_base = [''a'', ''b'']" "splitMerge3Lines demo_ours = [''a'', ''x'', ''b'']"
  by (simp_all add: demo_base_def demo_ours_def splitMerge3Lines_def Let_def newline_def carriage_def)


text \<open>An emptied source brings the old target back; lines both sides insert alike appear twice.\<close>

lemma merge3_deletions_undone:
  "Merge3 base [] base = Some (joinMerge3Lines (splitMerge3Lines base), False, [])
     \<and> Merge3 demo_base demo_ours demo_ours
        = Some (joinMerge3Lines [''a'', ''x'', ''x'', ''b''], False, [])"
proof
  have "splitMerge3Lines [] = []" by (simp add: splitMerge3Lines_def)
  then show "Merge3 base [] base = Some (joinMerge3Lines (splitMerge3Lines base), False, [])"
    using merge3_one_sided_eq [of base "[]"] by (simp add: one_side_empty)
  show "Merge3 demo_base demo_ours demo_ours = Some (joinMerge3Lines [''a'', ''x'', ''x'', ''b''], False, [])"
    by code_simp
qed

end
