(* ===== verification/Signed_Request.thy ===== *)
theory Signed_Request
  imports Go_Strings
begin

text \<open>
  Signed requests, \<open>pkg/sproxysig\<close>: the authorization header (\<open>ParseHeader\<close>, \<open>SignAndFormat\<close>), the canonical text that is
  signed, \<open>Verify\<close>, the pool of nonces against replays and the reader that checks the body. Strings are byte strings,
  times are milliseconds, durations nanoseconds as in the source.

  The keyed hash (HMAC-SHA256, in hexadecimal) and the hash of the body are parameters \<open>mac\<close> and \<open>sha\<close>: the theorems hold for
  every function, those about the header assume only that a digest is a nonempty printable string. Clock readings are arguments.
\<close>

section \<open>Header\<close>

datatype sigerr = ErrMalformed | ErrVersion | ErrExpired | ErrFuture | ErrTTLTooLong | ErrBadSignature | ErrReplay

record Header =
  Version :: string
  AK :: string
  EntryID :: string
  TS :: int
  Exp :: int
  Nonce :: string
  BodySHA256 :: string
  Sig :: string

definition empty_header :: Header where
  "empty_header = \<lparr>Version = [], AK = [], EntryID = [], TS = 0, Exp = 0, Nonce = [], BodySHA256 = [], Sig = []\<rparr>"

definition Scheme :: string where "Scheme = ''SproxySig''"
definition ProtocolVersion :: string where "ProtocolVersion = ''2''"
definition UnsignedBody :: string where "UnsignedBody = ''UNSIGNED''"
definition DefaultMaxTTL :: int where "DefaultMaxTTL = 15 * 60 * 1000000000"
definition DefaultClockSkew :: int where "DefaultClockSkew = 5 * 60 * 1000000000"

text \<open>One \<open>key=value\<close> field of the header.\<close>

definition parse_field :: "Header \<Rightarrow> string \<Rightarrow> Header option" where
  "parse_field h kv =
     (case cut_eq kv of
        None \<Rightarrow> None
      | Some (k, v) \<Rightarrow>
          if v = [] then None
          else if k = ''v'' then Some (h\<lparr>Version := v\<rparr>)
          else if k = ''ak'' then Some (h\<lparr>AK := v\<rparr>)
          else if k = ''skey-id'' then Some (h\<lparr>EntryID := v\<rparr>)
          else if k = ''ts'' then map_option (\<lambda>n. h\<lparr>TS := n\<rparr>) (ParseInt v)
          else if k = ''exp'' then map_option (\<lambda>n. h\<lparr>Exp := n\<rparr>) (ParseInt v)
          else if k = ''nonce'' then Some (h\<lparr>Nonce := v\<rparr>)
          else if k = ''body_sha256'' then Some (h\<lparr>BodySHA256 := v\<rparr>)
          else if k = ''sig'' then Some (h\<lparr>Sig := v\<rparr>)
          else None)"

fun parse_fields :: "Header \<Rightarrow> string list \<Rightarrow> Header option" where
  "parse_fields h [] = Some h"
| "parse_fields h (kv # kvs) = (case parse_field h kv of None \<Rightarrow> None | Some h' \<Rightarrow> parse_fields h' kvs)"

definition parse_header :: "bool \<Rightarrow> string \<Rightarrow> sigerr + Header" where
  "parse_header need_id auth =
     (case CutPrefix auth (Scheme @ '' '') of
        None \<Rightarrow> Inl ErrMalformed
      | Some rest \<Rightarrow>
          (case parse_fields empty_header (FieldsSeq rest) of
             None \<Rightarrow> Inl ErrMalformed
           | Some h \<Rightarrow>
               if Version h = [] \<or> AK h = [] \<or> need_id \<and> EntryID h = [] \<or> Nonce h = [] \<or> Sig h = [] \<or> BodySHA256 h = []
                  \<or> TS h \<le> 0 \<or> Exp h \<le> 0
               then Inl ErrMalformed else Inr h))"

definition ParseHeader :: "string \<Rightarrow> sigerr + Header" where
  "ParseHeader = parse_header True"

definition ParseHeaderAllowMissingSkeyID :: "string \<Rightarrow> sigerr + Header" where
  "ParseHeaderAllowMissingSkeyID = parse_header False"

section \<open>Signing\<close>

fun join_lines :: "string list \<Rightarrow> string" where
  "join_lines [] = []"
| "join_lines [l] = l"
| "join_lines (l # ls) = l @ CHR 0x0A # join_lines ls"

definition canonical_parts :: "Header \<Rightarrow> string \<Rightarrow> string \<Rightarrow> string \<Rightarrow> string list" where
  "canonical_parts h meth pth query =
     [''sproxy-sig/v'' @ Version h, AK h] @ (if Version h = ''2'' then [EntryID h] else []) @
     [FormatInt (TS h), FormatInt (Exp h), Nonce h, meth, pth, query, BodySHA256 h]"

definition Canonical :: "Header \<Rightarrow> string \<Rightarrow> string \<Rightarrow> string \<Rightarrow> string" where
  "Canonical h meth pth query = join_lines (canonical_parts h meth pth query)"

type_synonym keyed_hash = "string \<Rightarrow> string \<Rightarrow> string"

definition Sign :: "keyed_hash \<Rightarrow> string \<Rightarrow> Header \<Rightarrow> string \<Rightarrow> string \<Rightarrow> string \<Rightarrow> string" where
  "Sign mac sk h meth pth query = mac sk (Canonical h meth pth query)"

definition SignAndFormat :: "keyed_hash \<Rightarrow> string \<Rightarrow> Header \<Rightarrow> string \<Rightarrow> string \<Rightarrow> string \<Rightarrow> string" where
  "SignAndFormat mac sk h meth pth query =
     (let h = h\<lparr>Sig := Sign mac sk h meth pth query\<rparr>;
          v = Scheme @ '' v='' @ Version h @ '' ak='' @ AK h @ '' ts='' @ FormatInt (TS h) @ '' exp='' @ FormatInt (Exp h)
            @ '' nonce='' @ Nonce h @ '' body_sha256='' @ BodySHA256 h @ '' sig='' @ Sig h
      in if EntryID h \<noteq> [] then replace_first '' ts='' ('' skey-id='' @ EntryID h @ '' ts='') v else v)"

record Request =
  Method :: string
  Path :: string
  Query :: string

text \<open>
  \<open>Verify\<close>, the error or \<open>None\<close>. The callback \<open>nonceSeen\<close> may be nil and has a state of its own.
\<close>

definition Verify :: "keyed_hash \<Rightarrow> string \<Rightarrow> Header \<Rightarrow> Request \<Rightarrow> int \<Rightarrow> int \<Rightarrow> int
    \<Rightarrow> (string \<Rightarrow> string \<Rightarrow> int \<Rightarrow> 'p \<Rightarrow> bool \<times> 'p) option \<Rightarrow> 'p \<Rightarrow> sigerr option \<times> 'p" where
  "Verify mac sk h req nowMs maxTTL0 clockSkew0 nonceSeen p =
     (if Version h \<noteq> ProtocolVersion then (Some ErrVersion, p)
      else let maxTTL = (if maxTTL0 \<le> 0 then DefaultMaxTTL else maxTTL0);
               clockSkew = (if clockSkew0 \<le> 0 then DefaultClockSkew else clockSkew0)
        in if Exp h \<le> TS h then (Some ErrMalformed, p)
           else if nowMs > Exp h then (Some ErrExpired, p)
           else if wrap64 (Exp h - TS h) > maxTTL div 1000000 then (Some ErrTTLTooLong, p)
           else if TS h > wrap64 (nowMs + clockSkew div 1000000) then (Some ErrFuture, p)
           else if Sign mac sk h (Method req) (Path req) (Query req) \<noteq> Sig h then (Some ErrBadSignature, p)
           else case nonceSeen of
                  None \<Rightarrow> (None, p)
                | Some seen \<Rightarrow> (case seen (AK h) (Nonce h) (Exp h) p of (dup, p') \<Rightarrow> (if dup then Some ErrReplay else None, p')))"

section \<open>Nonce pool\<close>

type_synonym nonce_pool = "string \<Rightarrow> int option"

definition nonce_key :: "string \<Rightarrow> string \<Rightarrow> string" where
  "nonce_key ak nonce = ak @ CHR 0x00 # nonce"

definition Seen :: "int \<Rightarrow> string \<Rightarrow> string \<Rightarrow> int \<Rightarrow> nonce_pool \<Rightarrow> bool \<times> nonce_pool" where
  "Seen now ak nonce expMs m =
     (if ak = [] \<or> nonce = [] then (True, m)
      else case m (nonce_key ak nonce) of
             Some e \<Rightarrow> if e > now then (True, m)
               else (False, (\<lambda>k. case (m(nonce_key ak nonce \<mapsto> expMs)) k of None \<Rightarrow> None | Some x \<Rightarrow> if x \<le> now then None else Some x))
           | None \<Rightarrow> (False, (\<lambda>k. case (m(nonce_key ak nonce \<mapsto> expMs)) k of None \<Rightarrow> None | Some x \<Rightarrow> if x \<le> now then None else Some x)))"

section \<open>Body\<close>

text \<open>
  The reader behind \<open>NewBodyValidator\<close>: the bytes hashed so far and the declared hash. A read of the underlying reader gives
  bytes and one of no error, end of file, another error; the result is what the caller gets.
\<close>

datatype rerr = NoErr | EOF | HashMismatch | ReadErr

record bodyValidator =
  hashed :: string
  declared :: string

definition bodyValidator_Read :: "(string \<Rightarrow> string) \<Rightarrow> bodyValidator \<Rightarrow> string \<times> rerr \<Rightarrow> (string \<times> rerr) \<times> bodyValidator" where
  "bodyValidator_Read sha b r =
     (let b = b\<lparr>hashed := hashed b @ fst r\<rparr> in
      if snd r = EOF then if sha (hashed b) \<noteq> declared b then (([], HashMismatch), b) else ((fst r, EOF), b)
      else (r, b))"

datatype body_reader = Unchecked | Checked bodyValidator

definition NewBodyValidator :: "string \<Rightarrow> body_reader" where
  "NewBodyValidator decl = (if decl = UnsignedBody then Unchecked else Checked \<lparr>hashed = [], declared = decl\<rparr>)"

fun body_Read :: "(string \<Rightarrow> string) \<Rightarrow> body_reader \<Rightarrow> string \<times> rerr \<Rightarrow> (string \<times> rerr) \<times> body_reader" where
  "body_Read sha Unchecked r = (r, Unchecked)"
| "body_Read sha (Checked b) r = (case bodyValidator_Read sha b r of (out, b') \<Rightarrow> (out, Checked b'))"

section \<open>The header comes back\<close>

text \<open>The header as a list of words.\<close>

definition header_words :: "Header \<Rightarrow> string list" where
  "header_words h = [''ak='' @ AK h, ''skey-id='' @ EntryID h, ''ts='' @ FormatInt (TS h), ''exp='' @ FormatInt (Exp h),
     ''nonce='' @ Nonce h, ''body_sha256='' @ BodySHA256 h, ''sig='' @ Sig h]"

definition header_ok :: "Header \<Rightarrow> bool" where
  "header_ok h \<longleftrightarrow> list_all (\<lambda>s. printable s \<and> s \<noteq> []) [Version h, AK h, EntryID h, Nonce h, BodySHA256 h]
     \<and> 0 < TS h \<and> TS h \<le> max_int64 \<and> 0 < Exp h \<and> Exp h \<le> max_int64"

lemma SignAndFormat_words:
  assumes "header_ok h"
  shows "SignAndFormat mac sk h meth pth query =
    Scheme @ '' v='' @ Version h @ concat (map (\<lambda>w. CHR '' '' # w) (header_words (h\<lparr>Sig := Sign mac sk h meth pth query\<rparr>)))"
proof -
  have p: "printable (Version h)" "printable (AK h)" "EntryID h \<noteq> []" using assms by (auto simp: header_ok_def)
  have r: "replace_first '' ts='' new (Scheme @ '' v='' @ Version h @ '' ak='' @ AK h @ '' ts='' @ rest)
      = Scheme @ '' v='' @ Version h @ '' ak='' @ AK h @ new @ rest" for new rest
    using replace_first_printable [OF p(1)] replace_first_printable [OF p(2)] by (simp add: Scheme_def)
  show ?thesis unfolding SignAndFormat_def Let_def using p(3) r
    by (simp add: header_words_def)
qed

lemma parse_field_words:
  "v \<noteq> [] \<Longrightarrow> parse_field h (''v='' @ v) = Some (h\<lparr>Version := v\<rparr>)"
  "v \<noteq> [] \<Longrightarrow> parse_field h (''ak='' @ v) = Some (h\<lparr>AK := v\<rparr>)"
  "v \<noteq> [] \<Longrightarrow> parse_field h (''skey-id='' @ v) = Some (h\<lparr>EntryID := v\<rparr>)"
  "v \<noteq> [] \<Longrightarrow> parse_field h (''ts='' @ v) = map_option (\<lambda>n. h\<lparr>TS := n\<rparr>) (ParseInt v)"
  "v \<noteq> [] \<Longrightarrow> parse_field h (''exp='' @ v) = map_option (\<lambda>n. h\<lparr>Exp := n\<rparr>) (ParseInt v)"
  "v \<noteq> [] \<Longrightarrow> parse_field h (''nonce='' @ v) = Some (h\<lparr>Nonce := v\<rparr>)"
  "v \<noteq> [] \<Longrightarrow> parse_field h (''body_sha256='' @ v) = Some (h\<lparr>BodySHA256 := v\<rparr>)"
  "v \<noteq> [] \<Longrightarrow> parse_field h (''sig='' @ v) = Some (h\<lparr>Sig := v\<rparr>)"
  by (simp_all add: parse_field_def cut_eq_def)

lemma ParseHeader_SignAndFormat:
  assumes h: "header_ok h" and mac: "printable (Sign mac sk h meth pth query)" "Sign mac sk h meth pth query \<noteq> []"
  shows "ParseHeader (SignAndFormat mac sk h meth pth query) = Inr (h\<lparr>Sig := Sign mac sk h meth pth query\<rparr>)"
proof -
  define g where "g = h\<lparr>Sig := Sign mac sk h meth pth query\<rparr>"
  have g: "header_ok g" "Version g = Version h" using h by (auto simp: header_ok_def g_def)
  have ne: "Version g \<noteq> []" "AK g \<noteq> []" "EntryID g \<noteq> []" "Nonce g \<noteq> []" "BodySHA256 g \<noteq> []" "Sig g \<noteq> []"
    "0 < TS g" "0 < Exp g" "in64 (TS g)" "in64 (Exp g)"
    using h mac by (auto simp: g_def header_ok_def in64_def)
  have pr: "printable (Version g)" "printable (AK g)" "printable (EntryID g)" "printable (Nonce g)" "printable (BodySHA256 g)" "printable (Sig g)"
    using h mac by (auto simp: g_def header_ok_def)
  have "FieldsSeq ((''v='' @ Version g) @ concat (map (\<lambda>w. CHR '' '' # w) (header_words g))) = (''v='' @ Version g) # header_words g"
    using pr by (intro FieldsSeq_words) (auto simp: header_words_def printable_FormatInt)
  moreover have "parse_fields empty_header ((''v='' @ Version g) # header_words g) = Some g"
    unfolding header_words_def parse_fields.simps parse_field_words [OF ne(1)] option.case parse_field_words(2) [OF ne(2)]
      parse_field_words(3) [OF ne(3)] parse_field_words(4,5) [OF FormatInt_ne] ParseInt_FormatInt [OF ne(9)] ParseInt_FormatInt [OF ne(10)]
      option.map parse_field_words(6) [OF ne(4)] parse_field_words(7) [OF ne(5)] parse_field_words(8) [OF ne(6)]
    by (simp add: empty_header_def)
  moreover have "CutPrefix (SignAndFormat mac sk h meth pth query) (Scheme @ '' '')
      = Some ((''v='' @ Version g) @ concat (map (\<lambda>w. CHR '' '' # w) (header_words g)))"
    using SignAndFormat_words [OF h, of mac sk meth pth query] by (simp add: CutPrefix_def g_def)
  ultimately have "ParseHeader (SignAndFormat mac sk h meth pth query) = Inr g"
    using ne by (simp add: ParseHeader_def parse_header_def)
  then show ?thesis by (simp add: g_def)
qed

lemma Sign_Sig [simp]: "Sign mac sk (h\<lparr>Sig := x\<rparr>) meth pth query = Sign mac sk h meth pth query"
  by (simp add: Sign_def Canonical_def canonical_parts_def)

definition ttl_ms :: "int \<Rightarrow> int" where
  "ttl_ms d = (if d \<le> 0 then DefaultMaxTTL else d) div 1000000"

definition skew_ms :: "int \<Rightarrow> int" where
  "skew_ms d = (if d \<le> 0 then DefaultClockSkew else d) div 1000000"

lemma Verify_signed:
  assumes "Version h = ''2''" "0 < TS h" "TS h < Exp h" "Exp h \<le> max_int64" "0 \<le> now" "now \<le> Exp h" "now \<le> 4611686018427387904"
    "Exp h - TS h \<le> ttl_ms ttl" "TS h \<le> now + skew_ms skew" "skew \<le> max_int64"
    "Sign mac sk h (Method r) (Path r) (Query r) = Sig h"
  shows "Verify mac sk h r now ttl skew None p = (None, p)"
proof -
  have w: "wrap64 (Exp h - TS h) = Exp h - TS h" using assms by (intro wrap64_id) (auto simp: in64_def)
  have "0 \<le> skew_ms skew \<and> skew_ms skew \<le> 9223372036855" using assms(10) by (simp add: skew_ms_def DefaultClockSkew_def) linarith
  then have "wrap64 (now + skew_ms skew) = now + skew_ms skew" using assms(5,7) by (intro wrap64_id) (auto simp: in64_def)
  then show ?thesis using assms w by (simp add: Verify_def Let_def ProtocolVersion_def ttl_ms_def skew_ms_def)
qed

text \<open>C23. A signed request is understood and accepted: for a header whose fields are nonempty printable strings and positive times, and a
  keyed hash with nonempty printable digests, parsing what \<open>SignAndFormat\<close> writes gives the header with its signature
  back, and \<open>Verify\<close> accepts it under the same key and request as long as it has not expired, was not made too far in the future
  and does not claim a longer life than the server grants.
\<close>

theorem signed_request_accepted:
  assumes h: "header_ok h" and digest: "\<And>k x. printable (mac k x) \<and> mac k x \<noteq> []"
    and version: "Version h = ''2''" and times: "TS h < Exp h" "0 \<le> now" "now \<le> Exp h" "now \<le> 4611686018427387904"
      "Exp h - TS h \<le> ttl_ms ttl" "TS h \<le> now + skew_ms skew" "skew \<le> max_int64"
  shows "\<exists>g. ParseHeader (SignAndFormat mac sk h (Method r) (Path r) (Query r)) = Inr g
    \<and> g = h\<lparr>Sig := Sign mac sk h (Method r) (Path r) (Query r)\<rparr> \<and> Verify mac sk g r now ttl skew None p = (None, p)"
proof -
  have "ParseHeader (SignAndFormat mac sk h (Method r) (Path r) (Query r)) = Inr (h\<lparr>Sig := Sign mac sk h (Method r) (Path r) (Query r)\<rparr>)"
    using digest by (intro ParseHeader_SignAndFormat [OF h]) (simp_all add: Sign_def)
  then show ?thesis using h version times by (auto simp: header_ok_def intro!: Verify_signed)
qed

definition demo_header :: Header where
  "demo_header = \<lparr>Version = ''2'', AK = ''ak-1'', EntryID = ''skey-1'', TS = 1000, Exp = 2000, Nonce = ''00ff'',
     BodySHA256 = ''UNSIGNED'', Sig = []\<rparr>"

definition demo_request :: Request where
  "demo_request = \<lparr>Method = ''GET'', Path = ''/a'', Query = []\<rparr>"

definition demo_mac :: keyed_hash where
  "demo_mac k x = ''ab''"

lemma demo_header_ok: "header_ok demo_header"
  by (simp add: header_ok_def demo_header_def)

theorem signed_request_accepted_witness:
  "\<exists>g. ParseHeader (SignAndFormat demo_mac ''s'' demo_header ''GET'' ''/a'' []) = Inr g
    \<and> g = demo_header\<lparr>Sig := ''ab''\<rparr> \<and> Verify demo_mac ''s'' g demo_request 1500 0 0 None () = (None, ())"
  using signed_request_accepted [OF demo_header_ok, of demo_mac 1500 0 0 "''s''" demo_request "()"]
  by (simp add: demo_header_def demo_mac_def demo_request_def ttl_ms_def skew_ms_def DefaultMaxTTL_def DefaultClockSkew_def Sign_def)

section \<open>The signature covers the request\<close>

definition one_line :: "string \<Rightarrow> bool" where
  "one_line s \<longleftrightarrow> CHR 0x0A \<notin> set s"

lemma line_append_inj:
  "one_line a \<Longrightarrow> one_line b \<Longrightarrow> a @ CHR 0x0A # s = b @ CHR 0x0A # t \<Longrightarrow> a = b \<and> s = t"
  by (induction a arbitrary: b) (case_tac b; auto simp: one_line_def)+

lemma join_lines_inj:
  "list_all one_line ls \<Longrightarrow> list_all one_line ms \<Longrightarrow> ls \<noteq> [] \<Longrightarrow> ms \<noteq> [] \<Longrightarrow> join_lines ls = join_lines ms \<Longrightarrow> ls = ms"
proof (induction ls arbitrary: ms rule: join_lines.induct)
  case (2 l)
  then show ?case by (cases ms rule: join_lines.cases) (auto simp: one_line_def)
next
  case (3 l l' ls)
  show ?case
  proof (cases ms rule: join_lines.cases)
    case (2 m)
    then show ?thesis using 3(2-) by (auto simp: one_line_def)
  next
    case (3 m m' ms')
    have "l = m \<and> join_lines (l' # ls) = join_lines (m' # ms')"
      using "3.prems" 3 by (intro line_append_inj) auto
    then show ?thesis using "3.IH" [of "m' # ms'"] "3.prems" 3 by auto
  qed (use "3.prems" in auto)
qed simp

lemma one_line_FormatInt: "one_line (FormatInt n)"
  using printable_FormatInt [of n] by (auto simp: one_line_def printable_def list_all_iff)

definition one_line_request :: "Header \<Rightarrow> Request \<Rightarrow> bool" where
  "one_line_request h r \<longleftrightarrow> list_all one_line [Version h, AK h, EntryID h, Nonce h, BodySHA256 h, Method r, Path r, Query r]"

lemma Canonical_inj:
  assumes "one_line_request h r" "one_line_request h' r'"
    and c: "Canonical h (Method r) (Path r) (Query r) = Canonical h' (Method r') (Path r') (Query r')"
  shows "canonical_parts h (Method r) (Path r) (Query r) = canonical_parts h' (Method r') (Path r') (Query r')"
  using c unfolding Canonical_def
proof (rule join_lines_inj [rotated 4])
  have v: "one_line ''sproxy-sig/v''" by (simp add: one_line_def)
  then show "list_all one_line (canonical_parts h (Method r) (Path r) (Query r))"
    "list_all one_line (canonical_parts h' (Method r') (Path r') (Query r'))"
    using assms(1,2) one_line_FormatInt by (auto simp: canonical_parts_def one_line_request_def one_line_def)
qed (simp_all add: canonical_parts_def)

lemma Verify_accepts:
  assumes "fst (Verify mac sk h r now ttl skew seen p) = None"
  shows "Version h = ''2''" "Sig h = mac sk (Canonical h (Method r) (Path r) (Query r))" "TS h < Exp h" "now \<le> Exp h"
  using assms by (auto simp: Verify_def Let_def ProtocolVersion_def Sign_def split: if_splits)

text \<open>C24. The signature binds the whole request: two requests that \<open>Verify\<close> accepts under one key with the same signature are the
  same request with the same header, method, path and query, provided no field contains a line break and the keyed hash does
  not collide on the two canonical texts.
\<close>

theorem signature_binds:
  assumes lines: "one_line_request h r" "one_line_request h' r'"
    and accepted: "fst (Verify mac sk h r now ttl skew seen p) = None" "fst (Verify mac sk h' r' now' ttl skew seen' p') = None"
    and same: "Sig h' = Sig h"
    and no_collision: "mac sk (Canonical h (Method r) (Path r) (Query r)) = mac sk (Canonical h' (Method r') (Path r') (Query r'))
      \<Longrightarrow> Canonical h (Method r) (Path r) (Query r) = Canonical h' (Method r') (Path r') (Query r')"
  shows "h' = h \<and> r' = r"
proof -
  have "canonical_parts h (Method r) (Path r) (Query r) = canonical_parts h' (Method r') (Path r') (Query r')"
    using Canonical_inj [OF lines no_collision] Verify_accepts(2) [OF accepted(1)] Verify_accepts(2) [OF accepted(2)] same by simp
  moreover have "Version h = ''2''" "Version h' = ''2''" using accepted by (auto dest: Verify_accepts(1))
  ultimately show ?thesis using same by (simp add: canonical_parts_def FormatInt_inj)
qed

theorem signature_binds_witness:
  "\<exists>h. h = demo_header\<lparr>Sig := Canonical demo_header ''GET'' ''/a'' []\<rparr>
     \<and> fst (Verify (\<lambda>k x. x) ''s'' h demo_request 1500 0 0 None ()) = None \<and> h = h \<and> demo_request = demo_request"
proof -
  define h where "h = demo_header\<lparr>Sig := Canonical demo_header ''GET'' ''/a'' []\<rparr>"
  have l: "one_line_request h demo_request"
    by (simp add: h_def one_line_request_def demo_header_def demo_request_def one_line_def)
  have a: "fst (Verify (\<lambda>k x. x) ''s'' h demo_request 1500 0 0 None ()) = None"
    using Verify_signed [of h 1500 0 0 "\<lambda>k x. x" "''s''" demo_request "()"]
    by (simp add: h_def demo_header_def demo_request_def ttl_ms_def skew_ms_def DefaultMaxTTL_def DefaultClockSkew_def
        Sign_def Canonical_def canonical_parts_def)
  show ?thesis using a signature_binds [OF l l a a refl] h_def by blast
qed

section \<open>Replays\<close>

text \<open>A series of requests against one pool: key, header, request, the clock of \<open>Verify\<close> and the clock of the pool.\<close>

record attempt =
  akey :: string
  ahead :: Header
  areq :: Request
  anow :: int
  aclock :: int

definition check :: "keyed_hash \<Rightarrow> int \<Rightarrow> int \<Rightarrow> attempt \<Rightarrow> nonce_pool \<Rightarrow> sigerr option \<times> nonce_pool" where
  "check mac ttl skew a m = Verify mac (akey a) (ahead a) (areq a) (anow a) ttl skew (Some (Seen (aclock a))) m"

fun check_all :: "keyed_hash \<Rightarrow> int \<Rightarrow> int \<Rightarrow> attempt list \<Rightarrow> nonce_pool \<Rightarrow> sigerr option list" where
  "check_all mac ttl skew [] m = []"
| "check_all mac ttl skew (a # as) m =
     (case check mac ttl skew a m of (r, m') \<Rightarrow> r # check_all mac ttl skew as m')"

abbreviation attempt_key :: "attempt \<Rightarrow> string" where
  "attempt_key a \<equiv> nonce_key (AK (ahead a)) (Nonce (ahead a))"

lemma check_cases:
  assumes "check mac ttl skew a m = (r, m')"
  obtains (refused) "r \<noteq> None" "m' = m"
  | (granted) "r = None" "\<And>e. m (attempt_key a) = Some e \<Longrightarrow> e \<le> aclock a"
      "m' = (\<lambda>k. case (m(attempt_key a \<mapsto> Exp (ahead a))) k of None \<Rightarrow> None | Some x \<Rightarrow> if x \<le> aclock a then None else Some x)"
proof -
  have "r \<noteq> None \<and> m' = m \<or> r = None \<and> (\<forall>e. m (attempt_key a) = Some e \<longrightarrow> e \<le> aclock a)
    \<and> m' = (\<lambda>k. case (m(attempt_key a \<mapsto> Exp (ahead a))) k of None \<Rightarrow> None | Some x \<Rightarrow> if x \<le> aclock a then None else Some x)"
    using assms by (auto simp: check_def Verify_def Seen_def Let_def split: if_splits option.splits)
  then show thesis using that by blast
qed

lemma check_keeps:
  assumes "check mac ttl skew a m = (r, m')" "m k = Some e" "aclock a < e"
  shows "m' k = Some e" "attempt_key a = k \<Longrightarrow> r \<noteq> None"
  using assms(1) by (cases rule: check_cases; use assms(2,3) in force)+

lemma check_all_blocked:
  assumes "m k = Some e" "j < length as" "attempt_key (as ! j) = k" "\<And>a. a \<in> set (take (Suc j) as) \<Longrightarrow> aclock a < e"
  shows "check_all mac ttl skew as m ! j \<noteq> None"
  using assms
proof (induction as arbitrary: j m)
  case (Cons a as)
  obtain r m' where c: "check mac ttl skew a m = (r, m')" by (cases "check mac ttl skew a m")
  have a: "aclock a < e" using Cons.prems(4) by simp
  show ?case
  proof (cases j)
    case 0
    then show ?thesis using c check_keeps(2) [OF c Cons.prems(1) a] Cons.prems(3) by simp
  next
    case (Suc i)
    have "check_all mac ttl skew as m' ! i \<noteq> None"
      using Cons.prems Suc by (intro Cons.IH check_keeps(1) [OF c Cons.prems(1) a]) auto
    then show ?thesis using c Suc by simp
  qed
qed simp

lemma accepted_once_aux:
  assumes "sorted (map aclock as)" "i < j" "j < length as" "check_all mac ttl skew as m ! i = None" "check_all mac ttl skew as m ! j = None"
    "attempt_key (as ! i) = attempt_key (as ! j)"
  shows "Exp (ahead (as ! i)) \<le> aclock (as ! j)"
  using assms
proof (induction as arbitrary: i j m)
  case (Cons a as)
  obtain r m' where c: "check mac ttl skew a m = (r, m')" by (cases "check mac ttl skew a m")
  obtain j' where j: "j = Suc j'" using Cons.prems(2) by (cases j) auto
  show ?case
  proof (cases i)
    case 0
    have le: "aclock x \<le> aclock (as ! j')" if "x \<in> set (a # take (Suc j') as)" for x
    proof -
      have "x \<in> set (take (Suc (Suc j')) (a # as))" using that by simp
      then obtain n where n: "n < length (take (Suc (Suc j')) (a # as))" "take (Suc (Suc j')) (a # as) ! n = x"
        unfolding in_set_conv_nth by blast
      have l: "n \<le> Suc j'" "n < length (a # as)" "Suc j' < length (a # as)" using n(1) Cons.prems(3) j by auto
      have x: "(a # as) ! n = x" using n(2) l(1) nth_take [of n "Suc (Suc j')" "a # as"] by (simp del: take_Suc_Cons)
      have "map aclock (a # as) ! n \<le> map aclock (a # as) ! Suc j'"
        using l by (intro sorted_nth_mono [OF Cons.prems(1)]) simp_all
      then show ?thesis unfolding nth_map [OF l(2)] nth_map [OF l(3)] x by simp
    qed
    show ?thesis
    proof (rule ccontr)
      assume n: "\<not> ?thesis"
      have "r = None" using Cons.prems(4) c 0 by simp
      with c have "m' (attempt_key a) = Some (Exp (ahead a))"
        using n le [of a] 0 j by (elim check_cases) (auto simp: not_le)
      then have "check_all mac ttl skew as m' ! j' \<noteq> None"
        using Cons.prems(3,6) 0 j n le by (intro check_all_blocked) (auto intro: le_less_trans simp: not_le)
      then show False using Cons.prems(5) c j by simp
    qed
  next
    case (Suc i')
    then show ?thesis using Cons.prems Cons.IH [of i' j' m'] c j by simp
  qed
qed simp

text \<open>C25. A nonce is good for one request: in any series of requests checked against one pool whose clock does not run backwards, if two
  accepted requests carry the same access key and nonce, the second was checked when the pool's clock had reached the expiry time of
  the first. As \<open>Verify\<close> refuses a request after its expiry, a replay of a request can pass only in its very last millisecond.
\<close>

theorem accepted_once:
  assumes "sorted (map aclock as)" "i < j" "j < length as"
    and "check_all mac ttl skew as m ! i = None" "check_all mac ttl skew as m ! j = None"
    and "AK (ahead (as ! j)) = AK (ahead (as ! i))" "Nonce (ahead (as ! j)) = Nonce (ahead (as ! i))"
  shows "Exp (ahead (as ! i)) \<le> aclock (as ! j)"
  using assms by (intro accepted_once_aux) simp_all

definition last_millisecond :: attempt where
  "last_millisecond = \<lparr>akey = ''s'', ahead = demo_header\<lparr>Sig := ''ab''\<rparr>, areq = demo_request, anow = 2000, aclock = 2000\<rparr>"

lemma last_millisecond_accepted: "check_all demo_mac 0 0 [last_millisecond, last_millisecond] Map.empty = [None, None]"
  by code_simp

theorem accepted_once_witness:
  "check_all demo_mac 0 0 [last_millisecond, last_millisecond] Map.empty = [None, None]
     \<and> Exp (ahead last_millisecond) \<le> aclock last_millisecond"
  using accepted_once [of "[last_millisecond, last_millisecond]" 0 1 demo_mac 0 0 Map.empty] last_millisecond_accepted by simp

text \<open>In that millisecond a request passes any number of times.\<close>

lemma replay_at_expiry:
  assumes "check mac ttl skew a m = (None, m')" "aclock a = Exp (ahead a)"
  shows "check mac ttl skew a m' = (None, m')"
proof -
  have m': "m' (attempt_key a) = None" "\<And>k x. m' k = Some x \<Longrightarrow> aclock a < x"
    using assms(1) by (cases rule: check_cases; use assms(2) in \<open>auto split: option.splits if_splits\<close>)+
  have "(\<lambda>k. case (m'(attempt_key a \<mapsto> Exp (ahead a))) k of None \<Rightarrow> None | Some x \<Rightarrow> if x \<le> aclock a then None else Some x) = m'"
  proof (rule ext)
    fix k
    show "(case (m'(attempt_key a \<mapsto> Exp (ahead a))) k of None \<Rightarrow> None | Some x \<Rightarrow> if x \<le> aclock a then None else Some x) = m' k"
      using m' assms(2) by (cases "k = attempt_key a"; cases "m' k") fastforce+
  qed
  then show ?thesis using assms m'(1) by (auto simp: check_def Verify_def Seen_def Let_def split: if_splits option.splits)
qed

section \<open>Checked bodies\<close>

fun body_reads :: "(string \<Rightarrow> string) \<Rightarrow> body_reader \<Rightarrow> (string \<times> rerr) list \<Rightarrow> (string \<times> rerr) list" where
  "body_reads sha b [] = []"
| "body_reads sha b (r # rs) = (case body_Read sha b r of (out, b') \<Rightarrow> out # body_reads sha b' rs)"

lemma body_reads_checked:
  "body_reads sha (Checked \<lparr>hashed = s, declared = d\<rparr>) (map (\<lambda>c. (c, NoErr)) cs @ [(c, EOF)])
     = map (\<lambda>c. (c, NoErr)) cs @ [if sha (s @ concat cs @ c) = d then (c, EOF) else ([], HashMismatch)]"
  by (induction cs arbitrary: s) (simp_all add: bodyValidator_Read_def Let_def)

text \<open>
  The body that was signed is the body that is read: a reader that delivers its data in any pieces, the last one with the end of
  file, is passed through unchanged if the hash of all its bytes is the declared one; otherwise its end is reported as an error
  and the last piece is withheld. Without a declared hash the data passes unchecked.
\<close>

lemma body_integrity:
  "body_reads sha (NewBodyValidator d) (map (\<lambda>c. (c, NoErr)) cs @ [(c, EOF)])
     = map (\<lambda>c. (c, NoErr)) cs @ [if d = UnsignedBody \<or> sha (concat cs @ c) = d then (c, EOF) else ([], HashMismatch)]"
proof (cases "d = UnsignedBody")
  case True
  have "body_reads sha Unchecked rs = rs" for rs by (induction rs) auto
  then show ?thesis using True by (simp add: NewBodyValidator_def)
next
  case False
  then show ?thesis using body_reads_checked [of sha "[]" d cs c] by (simp add: NewBodyValidator_def)
qed

end
