(* ===== verification/Vip.thy ===== *)
theory Vip
  imports Prelude "HOL-Library.Word"
begin

unbundle bit_operations_syntax

text \<open>
  The virtual address allocator of the tunnel hub, \<open>pkg/tunnel/hub/vip.go\<close>: addresses of an IPv4 subnet are bound to the nodes of the
  meshes, kept until a node is removed, and rebuilt from a snapshot after a restart. An address is an IPv4 word, another valid address or
  the zero \<open>netip.Addr\<close>; offsets and bases are \<open>nat\<close>, since base and size of an IPv4 subnet stay below \<open>2^33\<close>
  and the source subtracts only below its guards.

  The invariant \<open>vip_ok\<close> says that the two tables are inverse to each other and that only offsets from 2 up to \<open>maxHost\<close> are bound.
\<close>

datatype Addr = NoAddr | V4 "32 word" | V6

record Prefix =
  pfxAddr :: Addr
  pfxBits :: nat

fun ipv4ToU64 :: "Addr \<Rightarrow> nat" where
  "ipv4ToU64 (V4 w) = unat w"
| "ipv4ToU64 _ = 0"

definition u64ToIPv4 :: "nat \<Rightarrow> Addr" where
  "u64ToIPv4 v = V4 (word_of_nat v)"

fun Is4 :: "Addr \<Rightarrow> bool" where
  "Is4 (V4 w) = True"
| "Is4 _ = False"

text \<open>\<open>netip.Prefix.Masked\<close> and \<open>Contains\<close> for IPv4.\<close>

definition net_bits :: "nat \<Rightarrow> 32 word \<Rightarrow> 32 word" where
  "net_bits b w = push_bit (32 - b) (drop_bit (32 - b) w)"

definition Masked :: "Prefix \<Rightarrow> Prefix" where
  "Masked p = (case pfxAddr p of V4 w \<Rightarrow> p\<lparr>pfxAddr := V4 (net_bits (pfxBits p) w)\<rparr> | _ \<Rightarrow> p)"

definition Contains :: "Prefix \<Rightarrow> Addr \<Rightarrow> bool" where
  "Contains p a = (case (pfxAddr p, a) of (V4 n, V4 w) \<Rightarrow> net_bits (pfxBits p) w = net_bits (pfxBits p) n | _ \<Rightarrow> False)"

record hubAllocator =
  subnet :: Prefix
  base :: nat
  maxHost :: nat
  assigned :: "string \<Rightarrow> Addr option"
  used :: "Addr \<Rightarrow> string option"
  nextHost :: nat

datatype viperr = Exhausted | NotInSubnet | ReservedAddress | KeyBound | AddressTaken

definition allocKey :: "string \<Rightarrow> string \<Rightarrow> string" where
  "allocKey mesh nodeID = mesh @ CHR 0x00 # nodeID"

text \<open>\<open>None\<close> is the panic on a subnet that is not IPv4.\<close>

definition NewHubAllocator :: "Prefix \<Rightarrow> hubAllocator option" where
  "NewHubAllocator p =
     (case pfxAddr p of
        V4 w \<Rightarrow> Some \<lparr>subnet = Masked p, base = ipv4ToU64 (pfxAddr (Masked p)),
          maxHost = max (2 ^ (32 - pfxBits p) - 1) 2, assigned = Map.empty, used = Map.empty, nextHost = 2\<rparr>
      | _ \<Rightarrow> None)"

definition addrAt :: "hubAllocator \<Rightarrow> nat \<Rightarrow> Addr" where
  "addrAt a i = u64ToIPv4 (base a + i)"

definition ipv4Offset :: "hubAllocator \<Rightarrow> Addr \<Rightarrow> nat" where
  "ipv4Offset a ip = ipv4ToU64 ip - base a"

function scan_free :: "hubAllocator \<Rightarrow> nat \<Rightarrow> nat \<Rightarrow> nat option" where
  "scan_free a i n = (if i < n then if used a (addrAt a i) = None then Some i else scan_free a (Suc i) n else None)"
  by pat_completeness auto
termination by (relation "measure (\<lambda>(a, i, n). n - i)") auto

declare scan_free.simps [simp del]

definition nextFreeLocked :: "hubAllocator \<Rightarrow> (Addr \<times> hubAllocator) option" where
  "nextFreeLocked a =
     (case scan_free a 2 (nextHost a) of
        Some i \<Rightarrow> Some (addrAt a i, a\<lparr>nextHost := i + 1\<rparr>)
      | None \<Rightarrow>
          (case scan_free a (nextHost a) (maxHost a) of
             Some i \<Rightarrow> Some (addrAt a i, a\<lparr>nextHost := i + 1\<rparr>)
           | None \<Rightarrow> None))"

definition bind_addr :: "string \<Rightarrow> Addr \<Rightarrow> hubAllocator \<Rightarrow> hubAllocator" where
  "bind_addr k v a = a\<lparr>assigned := (assigned a)(k \<mapsto> v), used := (used a)(v \<mapsto> k)\<rparr>"

definition Alloc :: "string \<Rightarrow> string \<Rightarrow> hubAllocator \<Rightarrow> (viperr + Addr) \<times> hubAllocator" where
  "Alloc mesh nodeID a =
     (let key = allocKey mesh nodeID in
      case assigned a key of
        Some vip \<Rightarrow> (Inr vip, a)
      | None \<Rightarrow>
          (case nextFreeLocked a of
             None \<Rightarrow> (Inl Exhausted, a)
           | Some (vip, a') \<Rightarrow> (Inr vip, bind_addr key vip a')))"

definition Release :: "string \<Rightarrow> string \<Rightarrow> hubAllocator \<Rightarrow> hubAllocator" where
  "Release mesh nodeID a =
     (let key = allocKey mesh nodeID in
      case assigned a key of
        Some vip \<Rightarrow> a\<lparr>assigned := (assigned a)(key := None), used := (used a)(vip := None)\<rparr>
      | None \<Rightarrow> a)"

definition reserveLocked :: "string \<Rightarrow> string \<Rightarrow> Addr \<Rightarrow> hubAllocator \<Rightarrow> viperr option \<times> hubAllocator" where
  "reserveLocked mesh nodeID vip a =
     (if \<not> Is4 vip \<or> \<not> Contains (subnet a) vip then (Some NotInSubnet, a)
      else if ipv4Offset a vip < 2 \<or> maxHost a \<le> ipv4Offset a vip then (Some ReservedAddress, a)
      else let key = allocKey mesh nodeID in
        if assigned a key \<noteq> None \<and> assigned a key \<noteq> Some vip then (Some KeyBound, a)
        else if used a vip \<noteq> None \<and> used a vip \<noteq> Some key then (Some AddressTaken, a)
        else let a' = bind_addr key vip a in
          (None, if nextHost a' \<le> ipv4Offset a' vip then a'\<lparr>nextHost := ipv4Offset a' vip + 1\<rparr> else a'))"

definition Reserve :: "string \<Rightarrow> string \<Rightarrow> Addr \<Rightarrow> hubAllocator \<Rightarrow> viperr option \<times> hubAllocator" where
  "Reserve = reserveLocked"

text \<open>The nodes of a snapshot, each with its mesh, id and address; the first error is returned, the others are still tried.\<close>

fun reserve_nodes :: "(string \<times> string \<times> Addr) list \<Rightarrow> viperr option \<Rightarrow> hubAllocator \<Rightarrow> viperr option \<times> hubAllocator" where
  "reserve_nodes [] firstErr a = (firstErr, a)"
| "reserve_nodes ((mesh, nodeID, vip) # ns) firstErr a =
     (if vip = NoAddr then reserve_nodes ns firstErr a
      else case reserveLocked mesh nodeID vip a of
        (None, a') \<Rightarrow> reserve_nodes ns firstErr a'
      | (Some e, a') \<Rightarrow> reserve_nodes ns (if firstErr = None then Some e else firstErr) a')"

definition ReserveSnapshot :: "(string \<times> string \<times> Addr) list option \<Rightarrow> hubAllocator \<Rightarrow> viperr option \<times> hubAllocator" where
  "ReserveSnapshot snap a = (case snap of None \<Rightarrow> (None, a) | Some ns \<Rightarrow> reserve_nodes ns None a)"

section \<open>Addresses of a subnet\<close>

lemma unat_net_bits: "unat (net_bits b w) = unat w div 2 ^ (32 - b) * 2 ^ (32 - b)"
proof -
  have w: "unat w < 4294967296" using unsigned_less [of w] by simp
  have "unat w div 2 ^ (32 - b) * 2 ^ (32 - b) \<le> unat w" by simp
  then have "unat w div 2 ^ (32 - b) * 2 ^ (32 - b) < 4294967296" using w by linarith
  then show ?thesis unfolding net_bits_def unsigned_push_bit_eq unsigned_drop_bit_eq
    using w by (simp add: push_bit_eq_mult drop_bit_eq_div take_bit_eq_mod)
qed

definition geometry :: "hubAllocator \<Rightarrow> bool" where
  "geometry a \<longleftrightarrow> (\<exists>w b. subnet a = \<lparr>pfxAddr = V4 (net_bits b w), pfxBits = b\<rparr> \<and> base a = unat (net_bits b w)
     \<and> maxHost a = max (2 ^ (32 - b) - 1) 2)"

definition vip_ok :: "hubAllocator \<Rightarrow> bool" where
  "vip_ok a \<longleftrightarrow> geometry a \<and> (\<forall>k v. assigned a k = Some v \<longleftrightarrow> used a v = Some k)
     \<and> (\<forall>v k. used a v = Some k \<longrightarrow> (\<exists>i. 2 \<le> i \<and> i < maxHost a \<and> v = addrAt a i)) \<and> 2 \<le> nextHost a \<and> nextHost a \<le> maxHost a"

lemma vip_okD:
  assumes "vip_ok a"
  shows "geometry a" "assigned a k = Some v \<longleftrightarrow> used a v = Some k"
    "used a v = Some k \<Longrightarrow> \<exists>i. 2 \<le> i \<and> i < maxHost a \<and> v = addrAt a i" "2 \<le> nextHost a" "nextHost a \<le> maxHost a"
  using assms by (auto simp: vip_ok_def)

lemma vip_okI:
  assumes "geometry a" "\<And>k v. assigned a k = Some v \<longleftrightarrow> used a v = Some k"
    "\<And>v k. used a v = Some k \<Longrightarrow> \<exists>i. 2 \<le> i \<and> i < maxHost a \<and> v = addrAt a i" "2 \<le> nextHost a" "nextHost a \<le> maxHost a"
  shows "vip_ok a"
  using assms unfolding vip_ok_def by blast

lemma host_range:
  assumes "geometry a" "2 \<le> i" "i < maxHost a"
  obtains w b where "subnet a = \<lparr>pfxAddr = V4 (net_bits b w), pfxBits = b\<rparr>" "base a = unat (net_bits b w)"
    "i + 1 < 2 ^ (32 - b)" "base a + i < 2 ^ 32" "unat (word_of_nat (base a + i) :: 32 word) = base a + i"
proof -
  obtain w b where g: "subnet a = \<lparr>pfxAddr = V4 (net_bits b w), pfxBits = b\<rparr>" "base a = unat (net_bits b w)"
    "maxHost a = max (2 ^ (32 - b) - 1) 2" using assms(1) by (auto simp: geometry_def)
  let ?n = "2 ^ (32 - b) :: nat"
  have i: "i + 1 < ?n" using assms(2,3) g(3) by (auto simp: max_def split: if_splits)
  have p: "(2::nat) ^ 32 = 2 ^ b * ?n" if "b \<le> 32" using that by (simp flip: power_add)
  have lt: "unat w < 2 ^ 32" using unsigned_less [of w] by simp
  have "unat w div ?n * ?n + ?n \<le> 2 ^ 32"
  proof (cases "b \<le> 32")
    case True
    have "unat w < 2 ^ b * ?n" using lt p [OF True] by simp
    then have "unat w div ?n < 2 ^ b" by (simp add: less_mult_imp_div_less)
    then have "(unat w div ?n + 1) * ?n \<le> 2 ^ b * ?n" by (intro mult_le_mono1) simp
    then show ?thesis using p [OF True] by (simp add: algebra_simps)
  next
    case False
    then show ?thesis using lt by simp
  qed
  then have l: "base a + i < 2 ^ 32" using i g(2) by (simp add: unat_net_bits)
  then have "unat (word_of_nat (base a + i) :: 32 word) = base a + i" by (simp add: unsigned_of_nat take_bit_eq_mod del: of_nat_add)
  then show thesis using that g(1,2) i l by blast
qed

lemma addrAt_inj:
  assumes g: "geometry a" and i: "2 \<le> i" "i < maxHost a" and j: "2 \<le> j" "j < maxHost a" and e: "addrAt a i = addrAt a j"
  shows "i = j"
proof -
  have "unat (word_of_nat (base a + i) :: 32 word) = base a + i" using g i by (rule host_range)
  moreover have "unat (word_of_nat (base a + j) :: 32 word) = base a + j" using g j by (rule host_range)
  moreover have "(word_of_nat (base a + i) :: 32 word) = word_of_nat (base a + j)"
    using e by (simp only: addrAt_def u64ToIPv4_def Addr.inject)
  ultimately show ?thesis by (metis add_left_cancel)
qed

lemma addrAt_contains:
  assumes g: "geometry a" and i: "2 \<le> i" "i < maxHost a"
  shows "Contains (subnet a) (addrAt a i)"
proof -
  obtain w b where s: "subnet a = \<lparr>pfxAddr = V4 (net_bits b w), pfxBits = b\<rparr>" "base a = unat (net_bits b w)"
    "i + 1 < 2 ^ (32 - b)" "unat (word_of_nat (base a + i) :: 32 word) = base a + i"
    using g i by (rule host_range)
  have "unat (net_bits b (word_of_nat (base a + i))) = unat (net_bits b (net_bits b w))"
    using s(2-4) by (simp add: unat_net_bits)
  then have "net_bits b (word_of_nat (base a + i)) = net_bits b (net_bits b w)" by (simp only: unsigned_word_eqI)
  then show ?thesis using s(1) by (simp add: Contains_def addrAt_def u64ToIPv4_def)
qed

lemma addrAt_offset:
  assumes g: "geometry a" and v: "Is4 v" "Contains (subnet a) v"
  shows "v = addrAt a (ipv4Offset a v)"
proof -
  obtain w b where s: "subnet a = \<lparr>pfxAddr = V4 (net_bits b w), pfxBits = b\<rparr>" "base a = unat (net_bits b w)"
    using g by (auto simp: geometry_def)
  obtain x where x: "v = V4 x" using v(1) by (cases v) auto
  have "net_bits b x = net_bits b (net_bits b w)" using v(2) s(1) x by (simp add: Contains_def)
  then have "unat (net_bits b x) = base a" using s(2) by (simp add: unat_net_bits)
  then have "base a \<le> unat x" by (metis unat_net_bits div_times_less_eq_dividend)
  then show ?thesis using x by (simp add: addrAt_def u64ToIPv4_def ipv4Offset_def)
qed

section \<open>The invariant\<close>

lemma scan_free_Some: "scan_free a i n = Some k \<Longrightarrow> i \<le> k \<and> k < n \<and> used a (addrAt a k) = None"
proof (induction a i n rule: scan_free.induct)
  case (1 a i n)
  have "scan_free a i n = (if i < n then if used a (addrAt a i) = None then Some i else scan_free a (Suc i) n else None)"
    by (rule scan_free.simps)
  then show ?case using 1 by (auto split: if_splits)
qed

lemma scan_free_None: "scan_free a i n = None \<Longrightarrow> i \<le> k \<Longrightarrow> k < n \<Longrightarrow> used a (addrAt a k) \<noteq> None"
proof (induction a i n rule: scan_free.induct)
  case (1 a i n)
  have "scan_free a i n = (if i < n then if used a (addrAt a i) = None then Some i else scan_free a (Suc i) n else None)"
    by (rule scan_free.simps)
  then show ?case using 1 by (cases "k = i") (auto split: if_splits)
qed

lemma nextFreeLocked_Some:
  assumes "vip_ok a" "nextFreeLocked a = Some (v, a')"
  shows "\<exists>i. 2 \<le> i \<and> i < maxHost a \<and> v = addrAt a i \<and> used a v = None \<and> a' = a\<lparr>nextHost := i + 1\<rparr>"
proof (cases "scan_free a 2 (nextHost a)")
  case (Some i)
  then show ?thesis using assms(2) vip_okD(5) [OF assms(1)] scan_free_Some [OF Some] by (auto simp: nextFreeLocked_def)
next
  case None
  then obtain i where i: "scan_free a (nextHost a) (maxHost a) = Some i" "v = addrAt a i" "a' = a\<lparr>nextHost := i + 1\<rparr>"
    using assms(2) by (auto simp: nextFreeLocked_def split: option.splits)
  then show ?thesis using vip_okD(4) [OF assms(1)] scan_free_Some [OF i(1)] by (intro exI [of _ i]) auto
qed

lemma nextFreeLocked_None:
  assumes "vip_ok a" "nextFreeLocked a = None" "2 \<le> i" "i < maxHost a"
  shows "used a (addrAt a i) \<noteq> None"
proof (cases "i < nextHost a")
  case True
  then show ?thesis using assms(2,3) by (intro scan_free_None [of a 2 "nextHost a"]) (auto simp: nextFreeLocked_def split: option.splits)
next
  case False
  then show ?thesis using assms(2,4)
    by (intro scan_free_None [of a "nextHost a" "maxHost a"]) (auto simp: nextFreeLocked_def split: option.splits)
qed

lemma addrAt_cong [simp]: "addrAt (a\<lparr>nextHost := n\<rparr>) = addrAt a" "addrAt (bind_addr k v a) = addrAt a"
  "addrAt (a\<lparr>assigned := f\<rparr>) = addrAt a" "addrAt (a\<lparr>used := g\<rparr>) = addrAt a"
  by (simp_all add: addrAt_def fun_eq_iff bind_addr_def)

lemma bind_sel [simp]:
  "assigned (bind_addr k v a) = (assigned a)(k \<mapsto> v)" "used (bind_addr k v a) = (used a)(v \<mapsto> k)" "maxHost (bind_addr k v a) = maxHost a"
  "nextHost (bind_addr k v a) = nextHost a" "geometry (bind_addr k v a) = geometry a" "base (bind_addr k v a) = base a"
  "subnet (bind_addr k v a) = subnet a"
  by (simp_all add: bind_addr_def geometry_def)

lemma geometry_next [simp]: "geometry (a\<lparr>nextHost := n\<rparr>) = geometry a"
  by (simp add: geometry_def)

text \<open>Two maps that are inverse to each other stay so when a pair is added or removed.\<close>

lemma inverse_maps_upd:
  assumes "\<And>k v. f k = Some v \<longleftrightarrow> g v = Some k" "f k = None \<or> f k = Some v" "g v = None \<or> g v = Some k"
  shows "(f(k \<mapsto> v)) k' = Some v' \<longleftrightarrow> (g(v \<mapsto> k)) v' = Some k'"
proof -
  have "g v' \<noteq> Some k" if "v' \<noteq> v" using that assms(1) [of k v'] assms(2) by auto
  moreover have "f k' \<noteq> Some v" if "k' \<noteq> k" using that assms(1) [of k' v] assms(3) by auto
  ultimately show ?thesis using assms(1) [of k' v'] by auto
qed

lemma inverse_maps_del:
  assumes "\<And>k v. f k = Some v \<longleftrightarrow> g v = Some k" "f k = Some v"
  shows "(f(k := None)) k' = Some v' \<longleftrightarrow> (g(v := None)) v' = Some k'"
proof -
  have "g v' \<noteq> Some k" if "v' \<noteq> v" using that assms(1) [of k v'] assms(2) by auto
  moreover have "f k' \<noteq> Some v" if "k' \<noteq> k" using that assms(1) [of k' v] assms(1) [of k v] assms(2) by auto
  ultimately show ?thesis using assms(1) [of k' v'] by auto
qed

lemma vip_ok_bind:
  assumes ok: "vip_ok a" and v: "2 \<le> i" "i < maxHost a" "v = addrAt a i"
    and k: "assigned a k = None \<or> assigned a k = Some v" and u: "used a v = None \<or> used a v = Some k"
    and n: "2 \<le> n" "n \<le> maxHost a"
  shows "vip_ok ((bind_addr k v a)\<lparr>nextHost := n\<rparr>)"
proof -
  have "((assigned a)(k \<mapsto> v)) k' = Some v' \<longleftrightarrow> ((used a)(v \<mapsto> k)) v' = Some k'" for k' v'
    using vip_okD(2) [OF ok] k u by (rule inverse_maps_upd)
  then show ?thesis using ok v n by (auto simp: vip_ok_def)
qed

lemma vip_ok_new: "NewHubAllocator p = Some a \<Longrightarrow> vip_ok a"
proof -
  assume a: "NewHubAllocator p = Some a"
  then obtain w where w: "pfxAddr p = V4 w" by (auto simp: NewHubAllocator_def split: Addr.splits)
  then have "subnet a = \<lparr>pfxAddr = V4 (net_bits (pfxBits p) w), pfxBits = pfxBits p\<rparr>"
    using a by (cases p) (auto simp: NewHubAllocator_def Masked_def)
  then show "vip_ok a" using a w by (auto simp: NewHubAllocator_def vip_ok_def geometry_def Masked_def)
qed

lemma vip_ok_Alloc:
  assumes ok: "vip_ok a" and a: "Alloc mesh nodeID a = (r, a')"
  shows "vip_ok a'"
proof (cases "assigned a (allocKey mesh nodeID)")
  case None
  show ?thesis
  proof (cases "nextFreeLocked a")
    case (Some p)
    then obtain v b where p: "nextFreeLocked a = Some (v, b)" by (cases p) auto
    obtain i where i: "2 \<le> i" "i < maxHost a" "v = addrAt a i" "used a v = None" "b = a\<lparr>nextHost := i + 1\<rparr>"
      using nextFreeLocked_Some [OF ok p] by blast
    have "a' = (bind_addr (allocKey mesh nodeID) v a)\<lparr>nextHost := i + 1\<rparr>"
      using a None p i(5) by (auto simp: Alloc_def Let_def bind_addr_def)
    then show ?thesis using vip_ok_bind [OF ok i(1-3)] None i by simp
  qed (use a None ok in \<open>simp add: Alloc_def Let_def\<close>)
qed (use a ok in \<open>simp add: Alloc_def Let_def\<close>)

lemma vip_ok_Release:
  assumes "vip_ok a"
  shows "vip_ok (Release mesh nodeID a)"
proof (cases "assigned a (allocKey mesh nodeID)")
  case (Some v)
  have "((assigned a)(allocKey mesh nodeID := None)) k' = Some v' \<longleftrightarrow> ((used a)(v := None)) v' = Some k'" for k' v'
    using vip_okD(2) [OF assms] Some by (rule inverse_maps_del)
  moreover have "Release mesh nodeID a = a\<lparr>assigned := (assigned a)(allocKey mesh nodeID := None), used := (used a)(v := None)\<rparr>"
    using Some by (simp add: Release_def Let_def)
  moreover have "geometry (a\<lparr>assigned := f, used := g\<rparr>)" for f g using vip_okD(1) [OF assms] by (simp add: geometry_def)
  ultimately show ?thesis using vip_okD(3-5) [OF assms] by (intro vip_okI) (auto split: if_splits)
qed (use assms in \<open>simp add: Release_def Let_def\<close>)

lemma vip_ok_reserve:
  assumes ok: "vip_ok a" and r: "reserveLocked mesh nodeID v a = (e, a')"
  shows "vip_ok a'"
proof (cases e)
  case None
  let ?k = "allocKey mesh nodeID" and ?i = "ipv4Offset a v"
  have c: "Is4 v" "Contains (subnet a) v" "2 \<le> ?i" "?i < maxHost a" "assigned a ?k = None \<or> assigned a ?k = Some v"
    "used a v = None \<or> used a v = Some ?k"
    using r None by (auto simp: reserveLocked_def Let_def split: if_splits)
  have "a' = (bind_addr ?k v a)\<lparr>nextHost := if nextHost a \<le> ?i then ?i + 1 else nextHost a\<rparr>"
    using r None c by (auto simp: reserveLocked_def Let_def ipv4Offset_def split: if_splits)
  then show ?thesis
    using vip_ok_bind [OF ok c(3,4) addrAt_offset [OF vip_okD(1) [OF ok] c(1,2)] c(5,6)] c(3,4) vip_okD(4,5) [OF ok] by simp
next
  case (Some e')
  then show ?thesis using r ok by (auto simp: reserveLocked_def Let_def split: if_splits)
qed

lemma vip_ok_nodes: "vip_ok a \<Longrightarrow> reserve_nodes ns e a = (e', a') \<Longrightarrow> vip_ok a'"
  by (induction ns e a rule: reserve_nodes.induct) (auto split: if_splits prod.splits option.splits dest: vip_ok_reserve)

section \<open>Histories\<close>

datatype action = DoAlloc string string | DoRelease string string | DoReserve string string Addr
  | DoSnapshot "(string \<times> string \<times> Addr) list option"

fun act :: "action \<Rightarrow> hubAllocator \<Rightarrow> hubAllocator" where
  "act (DoAlloc mesh nodeID) a = snd (Alloc mesh nodeID a)"
| "act (DoRelease mesh nodeID) a = Release mesh nodeID a"
| "act (DoReserve mesh nodeID vip) a = snd (Reserve mesh nodeID vip a)"
| "act (DoSnapshot snap) a = snd (ReserveSnapshot snap a)"

definition released :: "action list \<Rightarrow> string set" where
  "released xs = {allocKey m n | m n. DoRelease m n \<in> set xs}"

lemma vip_ok_act: "vip_ok a \<Longrightarrow> vip_ok (act x a)"
proof (cases x)
  case (DoAlloc m n)
  then show "vip_ok a \<Longrightarrow> vip_ok (act x a)" by (cases "Alloc m n a") (auto dest: vip_ok_Alloc)
next
  case (DoReserve m n v)
  then show "vip_ok a \<Longrightarrow> vip_ok (act x a)" by (cases "Reserve m n v a") (auto simp: Reserve_def dest: vip_ok_reserve)
next
  case (DoSnapshot s)
  then show "vip_ok a \<Longrightarrow> vip_ok (act x a)"
    by (cases "ReserveSnapshot s a") (auto simp: ReserveSnapshot_def split: option.splits dest: vip_ok_nodes)
qed (simp add: vip_ok_Release)

lemma vip_ok_history: "vip_ok a \<Longrightarrow> vip_ok (fold act xs a)"
  by (induction xs arbitrary: a) (simp_all add: vip_ok_act)

text \<open>A binding ends only with the release of its node.\<close>

lemma Alloc_keeps: "assigned a k = Some v \<Longrightarrow> assigned (snd (Alloc m n a)) k = Some v"
  by (auto simp: Alloc_def Let_def nextFreeLocked_def split: option.splits)

lemma reserve_keeps:
  assumes "assigned a k = Some v"
  shows "assigned (snd (reserveLocked m n w a)) k = Some v"
  using assms by (auto simp: reserveLocked_def Let_def)

lemma nodes_keep: "assigned a k = Some v \<Longrightarrow> assigned (snd (reserve_nodes ns e a)) k = Some v"
proof (induction ns e a rule: reserve_nodes.induct)
  case (2 m n w ns e a)
  show ?case using 2 reserve_keeps [OF 2(4), of m n w] by (auto split: prod.splits option.splits)
qed simp

lemma act_keeps:
  assumes "assigned a k = Some v" "\<And>m n. x = DoRelease m n \<Longrightarrow> allocKey m n \<noteq> k"
  shows "assigned (act x a) k = Some v"
  using assms by (cases x)
    (auto simp: Alloc_keeps Reserve_def reserve_keeps ReserveSnapshot_def nodes_keep Release_def Let_def split: option.splits)

lemma history_keeps:
  "assigned a k = Some v \<Longrightarrow> (\<And>m n. DoRelease m n \<in> set xs \<Longrightarrow> allocKey m n \<noteq> k) \<Longrightarrow> assigned (fold act xs a) k = Some v"
  by (induction xs arbitrary: a) (simp_all add: act_keeps)

lemma allocKey_inj: "CHR 0x00 \<notin> set m \<Longrightarrow> CHR 0x00 \<notin> set m' \<Longrightarrow> allocKey m n = allocKey m' n' \<longleftrightarrow> m = m' \<and> n = n'"
  unfolding allocKey_def
proof (induction m arbitrary: m')
  case Nil
  then show ?case by (cases m') auto
next
  case (Cons c m)
  then show ?case by (cases m') auto
qed

text \<open>C26. In every history of allocations, releases and restored snapshots of an allocator, every bound address lies in the subnet and is neither the
  network address, nor the gateway, nor the broadcast address; two nodes never share an address; and a node keeps its address
  as long as it is not released.
\<close>

theorem vip_bindings:
  assumes new: "NewHubAllocator p = Some a" and a': "a' = fold act xs a" and bound: "assigned a' (allocKey mesh node) = Some v"
  shows "Contains (subnet a') v \<and> (\<exists>i. 2 \<le> i \<and> i + 1 < 2 ^ (32 - pfxBits (subnet a')) \<and> ipv4ToU64 v = base a' + i)
    \<and> (\<forall>mesh' node'. assigned a' (allocKey mesh' node') = Some v \<longrightarrow> CHR 0x00 \<notin> set mesh \<union> set mesh' \<longrightarrow> mesh' = mesh \<and> node' = node)
    \<and> (\<forall>ys. allocKey mesh node \<notin> released ys \<longrightarrow> fst (Alloc mesh node (fold act ys a')) = Inr v)"
proof (intro conjI allI impI)
  have ok: "vip_ok a'" using vip_ok_history [OF vip_ok_new [OF new]] a' by simp
  have u: "used a' v = Some (allocKey mesh node)" using vip_okD(2) [OF ok] bound by blast
  obtain i where i: "2 \<le> i" "i < maxHost a'" "v = addrAt a' i" using vip_okD(3) [OF ok u] by blast
  show "Contains (subnet a') v" using addrAt_contains [OF vip_okD(1) [OF ok] i(1,2)] i(3) by simp
  obtain w b where "subnet a' = \<lparr>pfxAddr = V4 (net_bits b w), pfxBits = b\<rparr>" "i + 1 < 2 ^ (32 - b)"
    "unat (word_of_nat (base a' + i) :: 32 word) = base a' + i"
    using vip_okD(1) [OF ok] i(1,2) by (rule host_range)
  then have "i + 1 < 2 ^ (32 - pfxBits (subnet a'))" "ipv4ToU64 v = base a' + i"
    using i(3) by (simp_all add: addrAt_def u64ToIPv4_def del: of_nat_add)
  then show "\<exists>i. 2 \<le> i \<and> i + 1 < 2 ^ (32 - pfxBits (subnet a')) \<and> ipv4ToU64 v = base a' + i" using i(1) by blast
  fix mesh' node'
  assume "assigned a' (allocKey mesh' node') = Some v" and nul: "CHR 0x00 \<notin> set mesh \<union> set mesh'"
  then have "allocKey mesh' node' = allocKey mesh node" using u vip_okD(2) [OF ok] by simp
  then show "mesh' = mesh" "node' = node" using allocKey_inj [of mesh' mesh node' node] nul by simp_all
next
  fix ys
  assume "allocKey mesh node \<notin> released ys"
  then have "assigned (fold act ys a') (allocKey mesh node) = Some v"
    using bound by (intro history_keeps) (auto simp: released_def)
  then show "fst (Alloc mesh node (fold act ys a')) = Inr v" by (simp add: Alloc_def Let_def)
qed

definition demo_pfx :: Prefix where
  "demo_pfx = \<lparr>pfxAddr = V4 8, pfxBits = 29\<rparr>"

definition demo_history :: "action list" where
  "demo_history = [DoAlloc ''m'' ''a'', DoAlloc ''m'' ''b'', DoRelease ''m'' ''a'', DoAlloc ''m'' ''c'']"

lemma demo_vip: "\<exists>a. NewHubAllocator demo_pfx = Some a \<and> assigned (fold act demo_history a) (allocKey ''m'' ''c'') = Some (V4 10)"
proof -
  obtain a where a: "NewHubAllocator demo_pfx = Some a" by (auto simp: NewHubAllocator_def demo_pfx_def)
  have "map_option (\<lambda>a. assigned (fold act demo_history a) (allocKey ''m'' ''c'')) (NewHubAllocator demo_pfx) = Some (Some (V4 10))"
    by code_simp
  then show ?thesis using a by simp
qed

theorem vip_bindings_witness:
  "\<exists>a a'. NewHubAllocator demo_pfx = Some a \<and> a' = fold act demo_history a \<and> Contains (subnet a') (V4 10)"
proof -
  obtain a where a: "NewHubAllocator demo_pfx = Some a" "assigned (fold act demo_history a) (allocKey ''m'' ''c'') = Some (V4 10)"
    using demo_vip by blast
  from vip_bindings [OF a(1) refl a(2)] have "Contains (subnet (fold act demo_history a)) (V4 10)" by (rule conjunct1)
  then show ?thesis using a(1) by blast
qed

text \<open>The exact outcome of an allocation for a node without an address, in every reachable state: it fails, changing nothing, exactly when
  every host address of the subnet is bound, and otherwise binds an address that was free and touches no other binding.
\<close>

theorem vip_alloc_exact:
  assumes new: "NewHubAllocator p = Some a" and a': "a' = fold act xs a" and unbound: "assigned a' (allocKey mesh node) = None"
  shows "(Alloc mesh node a' = (Inl Exhausted, a') \<and> (\<forall>i. 2 \<le> i \<and> i < maxHost a' \<longrightarrow> used a' (addrAt a' i) \<noteq> None))
    \<or> (\<exists>i b. Alloc mesh node a' = (Inr (addrAt a' i), b) \<and> 2 \<le> i \<and> i < maxHost a' \<and> used a' (addrAt a' i) = None
        \<and> assigned b = (assigned a')(allocKey mesh node \<mapsto> addrAt a' i))"
proof (cases "nextFreeLocked a'")
  case None
  have "vip_ok a'" using vip_ok_history [OF vip_ok_new [OF new]] a' by simp
  then have "\<forall>i. 2 \<le> i \<and> i < maxHost a' \<longrightarrow> used a' (addrAt a' i) \<noteq> None" using nextFreeLocked_None None by blast
  then show ?thesis using None unbound by (simp add: Alloc_def Let_def)
next
  case (Some r)
  have ok: "vip_ok a'" using vip_ok_history [OF vip_ok_new [OF new]] a' by simp
  obtain v c where r: "nextFreeLocked a' = Some (v, c)" using Some by (cases r) auto
  obtain i where i: "2 \<le> i" "i < maxHost a'" "v = addrAt a' i" "used a' v = None" "c = a'\<lparr>nextHost := i + 1\<rparr>"
    using nextFreeLocked_Some [OF ok r] by blast
  have "Alloc mesh node a' = (Inr (addrAt a' i), bind_addr (allocKey mesh node) v c)"
    using r unbound i(3) by (simp add: Alloc_def Let_def)
  moreover have "assigned (bind_addr (allocKey mesh node) v c) = (assigned a')(allocKey mesh node \<mapsto> addrAt a' i)" using i by simp
  ultimately show ?thesis using i by blast
qed

theorem vip_alloc_exact_witness:
  "\<exists>a a'. NewHubAllocator demo_pfx = Some a \<and> a' = fold act demo_history a \<and> assigned a' (allocKey ''m'' ''d'') = None
     \<and> fst (Alloc ''m'' ''d'' a') \<noteq> Inl AddressTaken"
proof -
  obtain a where a: "NewHubAllocator demo_pfx = Some a" by (auto simp: NewHubAllocator_def demo_pfx_def)
  have "map_option (\<lambda>a. assigned (fold act demo_history a) (allocKey ''m'' ''d'')) (NewHubAllocator demo_pfx) = Some None"
    by code_simp
  then have u: "assigned (fold act demo_history a) (allocKey ''m'' ''d'') = None" using a by simp
  show ?thesis using vip_alloc_exact [OF a refl u] a u by auto
qed

end
