(* ===== verification/Vol_Ledger.thy ===== *)
theory Vol_Ledger
  imports Go_Strings
begin

text \<open>
  The volume capacity ledger, \<open>pkg/volume/capacity/ledger.go\<close>: a sharded log kept in files of the volume itself. Every process appends
  signed deltas to a shard of its own and folds them into a baseline of its own; an index file lists the shards; the total is
  the sum over all files of the index. Numbers are decimal text, so the model works on file contents.

  The files of the volume are shared between processes (\<open>vfiles\<close>); \<open>vfault k\<close> says whether the \<open>k\<close>-th access to the volume's file
  system fails. A process holds the handle \<open>ledger\<close>; on a volume file system whose writes fail it falls back to files in memory. A failing access changes nothing. The counters for alerts are left out.

  The refinement shows that all this is one number: in every history of additions, compactions and reapings by any number of processes,
  every process reads the sum of all deltas, as long as no process writes on after another one has reaped its shard.
\<close>

section \<open>Stores\<close>

type_synonym files = "string \<Rightarrow> string option"

record volume =
  vfiles :: files
  vfault :: "nat \<Rightarrow> bool"
  vcount :: nat

datatype store_kind = MemStore | OsStore | FsStore

record ledger =
  skind :: store_kind
  smem :: "files option"
  lnode :: string
  corrupt :: bool
  registered :: bool

datatype ledger_error = StoreError | LedgerDegraded | NoNode

definition access :: "volume \<Rightarrow> bool \<times> volume" where
  "access v = (vfault v (vcount v), v\<lparr>vcount := vcount v + 1\<rparr>)"

text \<open>\<open>readFile\<close>: \<open>Inr None\<close> when the file does not exist.\<close>

definition readFile :: "string \<Rightarrow> ledger \<Rightarrow> volume \<Rightarrow> (ledger_error + string option) \<times> volume" where
  "readFile name l v =
     (case smem l of
        Some f \<Rightarrow> (Inr (f name), v)
      | None \<Rightarrow> (case access v of (bad, v) \<Rightarrow> (if bad then Inl StoreError else Inr (vfiles v name), v)))"

definition ledgerIndexName :: string where "ledgerIndexName = ''shards''"
definition ledgerShardPrefix :: string where "ledgerShardPrefix = ''shard.''"
definition ledgerSnapPrefix :: string where "ledgerSnapPrefix = ''snap.''"
definition ledgerShardSuffix :: string where "ledgerShardSuffix = ''.log''"

text \<open>Fallback to memory, with the index and the files it lists copied as far as they can be read.\<close>

fun seed_files :: "string list \<Rightarrow> files \<Rightarrow> volume \<Rightarrow> files \<times> volume" where
  "seed_files [] f v = (f, v)"
| "seed_files (line # ls) f v =
     (let name = TrimSpace line in
      if name = [] then seed_files ls f v
      else case access v of
        (True, v) \<Rightarrow> seed_files ls f v
      | (False, v) \<Rightarrow> seed_files ls (case vfiles v name of None \<Rightarrow> f | Some b \<Rightarrow> f(name \<mapsto> b)) v)"

definition seedMemFromVolume :: "volume \<Rightarrow> files \<times> volume" where
  "seedMemFromVolume v =
     (case access v of
        (True, v) \<Rightarrow> (Map.empty, v)
      | (False, v) \<Rightarrow>
          (case vfiles v ledgerIndexName of
             None \<Rightarrow> (Map.empty, v)
           | Some ib \<Rightarrow> seed_files (split_newlines ib) [ledgerIndexName \<mapsto> ib] v))"

definition degrade :: "ledger \<Rightarrow> volume \<Rightarrow> ledger \<times> volume" where
  "degrade l v =
     (case smem l of
        Some f \<Rightarrow> (l, v)
      | None \<Rightarrow> (case seedMemFromVolume v of (f, v) \<Rightarrow> (l\<lparr>smem := Some f\<rparr>, v)))"

definition put_file :: "string \<Rightarrow> string option \<Rightarrow> ledger \<Rightarrow> volume \<Rightarrow> ledger \<times> volume" where
  "put_file name c l v =
     (case smem l of
        Some f \<Rightarrow> (l\<lparr>smem := Some (f(name := c))\<rparr>, v)
      | None \<Rightarrow> (l, v\<lparr>vfiles := (vfiles v)(name := c)\<rparr>))"

definition contents :: "string option \<Rightarrow> string" where
  "contents c = (case c of None \<Rightarrow> [] | Some b \<Rightarrow> b)"

definition mem_append :: "string \<Rightarrow> string \<Rightarrow> ledger \<Rightarrow> ledger" where
  "mem_append name line l =
     (case smem l of None \<Rightarrow> l | Some f \<Rightarrow> l\<lparr>smem := Some (f(name \<mapsto> contents (f name) @ line))\<rparr>)"

text \<open>A write that fails on a volume file system is repeated in memory; on a local directory it is an error.\<close>

definition appendLine :: "string \<Rightarrow> string \<Rightarrow> ledger \<Rightarrow> volume \<Rightarrow> ledger_error option \<times> ledger \<times> volume" where
  "appendLine name line l v =
     (case smem l of
        Some f \<Rightarrow> (None, mem_append name line l, v)
      | None \<Rightarrow>
          if skind l = OsStore then
            (case access v of
               (True, v) \<Rightarrow> (Some StoreError, l, v)
             | (False, v) \<Rightarrow> (None, put_file name (Some (contents (vfiles v name) @ line)) l v))
          else
            (case access v of
               (True, v) \<Rightarrow> (case degrade l v of (l, v) \<Rightarrow> (None, mem_append name line l, v))
             | (False, v) \<Rightarrow>
                 (let old = contents (vfiles v name) in
                  case access v of
                    (True, v) \<Rightarrow> (case degrade l v of (l, v) \<Rightarrow> (None, mem_append name line l, v))
                  | (False, v) \<Rightarrow> (None, put_file name (Some (old @ line)) l v))))"

definition writeAtomic :: "string \<Rightarrow> string \<Rightarrow> ledger \<Rightarrow> volume \<Rightarrow> ledger_error option \<times> ledger \<times> volume" where
  "writeAtomic name b l v =
     (case smem l of
        Some f \<Rightarrow> (None, put_file name (Some b) l v)
      | None \<Rightarrow>
          (case access v of
             (True, v) \<Rightarrow>
               (if skind l = OsStore then (Some StoreError, l, v)
                else case degrade l v of (l, v) \<Rightarrow> (None, put_file name (Some b) l v))
           | (False, v) \<Rightarrow> (None, put_file name (Some b) l v)))"

definition truncate_file :: "string \<Rightarrow> ledger \<Rightarrow> volume \<Rightarrow> ledger_error option \<times> ledger \<times> volume" where
  "truncate_file name l v =
     (case smem l of
        Some f \<Rightarrow> (None, put_file name None l v)
      | None \<Rightarrow>
          (case access v of
             (True, v) \<Rightarrow>
               (if skind l = OsStore then (Some StoreError, l, v)
                else case degrade l v of (l, v) \<Rightarrow> (None, put_file name None l v))
           | (False, v) \<Rightarrow>
               if skind l = OsStore \<and> vfiles v name = None then (Some StoreError, l, v)
               else (None, put_file name (Some []) l v)))"

definition deleteFile :: "string \<Rightarrow> ledger \<Rightarrow> volume \<Rightarrow> ledger_error option \<times> ledger \<times> volume" where
  "deleteFile name l v =
     (case smem l of
        Some f \<Rightarrow> (None, put_file name None l v)
      | None \<Rightarrow>
          (case access v of
             (True, v) \<Rightarrow> (Some StoreError, l, v)
           | (False, v) \<Rightarrow> (None, put_file name None l v)))"

section \<open>The ledger\<close>

definition node_char :: "char \<Rightarrow> bool" where
  "node_char c \<longleftrightarrow> (let n = of_char c :: nat in 97 \<le> n \<and> n \<le> 122 \<or> 65 \<le> n \<and> n \<le> 90 \<or> 48 \<le> n \<and> n \<le> 57
     \<or> c = CHR ''.'' \<or> c = CHR ''-'' \<or> c = CHR ''_'')"

function sanitize_loop :: "string \<Rightarrow> string" where
  "sanitize_loop [] = []"
| "sanitize_loop (c # s) = (if node_char c then c else CHR ''_'') # sanitize_loop (drop (rune_len (c # s)) (c # s))"
  by pat_completeness auto
termination
proof (relation "measure length")
  fix c s
  show "(drop (rune_len (c # s)) (c # s), c # s) \<in> measure length" using rune_len_pos [of "c # s"] by simp
qed simp

definition sanitizeLedgerNode :: "string \<Rightarrow> string" where
  "sanitizeLedgerNode node = (let b = sanitize_loop node in if b = [] then ''node'' else b)"

definition newLedger :: "store_kind \<Rightarrow> string \<Rightarrow> ledger_error + ledger" where
  "newLedger k node =
     (if node = [] then Inl NoNode
      else Inr \<lparr>skind = k, smem = (if k = MemStore then Some Map.empty else None), lnode = sanitizeLedgerNode node,
        corrupt = False, registered = False\<rparr>)"

definition shardName :: "string \<Rightarrow> string" where
  "shardName node = ledgerShardPrefix @ node @ ledgerShardSuffix"

definition snapName :: "string \<Rightarrow> string" where
  "snapName node = ledgerSnapPrefix @ node"

definition registerShard :: "ledger \<Rightarrow> volume \<Rightarrow> ledger_error option \<times> ledger \<times> volume" where
  "registerShard l v =
     (if registered l then (None, l, v)
      else
        let name = shardName (lnode l) in
        case readFile ledgerIndexName l v of
          (Inl e, v) \<Rightarrow> (Some e, l, v)
        | (Inr b, v) \<Rightarrow>
            if b \<noteq> None \<and> list_ex (\<lambda>line. TrimSpace line = name) (split_newlines (contents b))
            then (None, l\<lparr>registered := True\<rparr>, v)
            else case writeAtomic ledgerIndexName (contents b @ name @ [newline]) l v of
              (None, l, v) \<Rightarrow> (None, l\<lparr>registered := True\<rparr>, v)
            | (Some e, l, v) \<Rightarrow>
                (case (if skind l = FsStore then degrade l v else (l, v)) of
                   (l, v) \<Rightarrow> (None, l\<lparr>registered := True\<rparr>, v)))"

definition Add :: "int \<Rightarrow> ledger \<Rightarrow> volume \<Rightarrow> ledger_error option \<times> ledger \<times> volume" where
  "Add delta l v =
     (if delta = 0 then (None, l, v)
      else case registerShard l v of
        (Some e, l, v) \<Rightarrow> (Some e, l, v)
      | (None, l, v) \<Rightarrow> appendLine (shardName (lnode l)) (FormatInt delta @ [newline]) l v)"

definition shard_like :: "string \<Rightarrow> bool" where
  "shard_like n \<longleftrightarrow> HasPrefix n ledgerShardPrefix \<and> HasSuffix n ledgerShardSuffix"

definition snap_of :: "string \<Rightarrow> string" where
  "snap_of n = ledgerSnapPrefix @ TrimSuffix (TrimPrefix n ledgerShardPrefix) ledgerShardSuffix"

fun index_add :: "string list \<Rightarrow> string list \<Rightarrow> string list" where
  "index_add [] out = out"
| "index_add (n # ns) out = index_add ns (if n = [] \<or> n \<in> set out then out else out @ [n])"

definition line_names :: "string \<Rightarrow> string list" where
  "line_names line = (let n = TrimSpace line in if n = [] then [] else n # (if shard_like n then [snap_of n] else []))"

definition indexNames :: "string \<Rightarrow> string list" where
  "indexNames b = index_add (concat (map line_names (split_newlines b))) []"

definition shardNames :: "ledger \<Rightarrow> volume \<Rightarrow> (ledger_error + string list) \<times> volume" where
  "shardNames l v =
     (case readFile ledgerIndexName l v of
        (Inl e, v) \<Rightarrow> (Inl e, v)
      | (Inr None, v) \<Rightarrow> (if registered l \<and> skind l \<noteq> MemStore then Inl LedgerDegraded else Inr [], v)
      | (Inr (Some b), v) \<Rightarrow> (Inr (index_add [shardName (lnode l), snapName (lnode l)] (indexNames b)), v))"

text \<open>The value of a baseline and of a shard, \<open>None\<close> when it cannot be parsed.\<close>

definition number_value :: "string option \<Rightarrow> int option" where
  "number_value c = (case c of None \<Rightarrow> Some 0 | Some b \<Rightarrow> (let s = TrimSpace b in if s = [] then Some 0 else ParseInt s))"

fun sum_lines :: "string list \<Rightarrow> int \<Rightarrow> int option" where
  "sum_lines [] tot = Some tot"
| "sum_lines (line # ls) tot =
     (let s = TrimSpace line in
      if s = [] then sum_lines ls tot
      else case ParseInt s of None \<Rightarrow> None | Some n \<Rightarrow> sum_lines ls (wrap64 (tot + n)))"

definition shard_value :: "string option \<Rightarrow> int option" where
  "shard_value c =
     (case c of None \<Rightarrow> Some 0 | Some b \<Rightarrow> (case scan_lines b of None \<Rightarrow> None | Some ls \<Rightarrow> sum_lines ls 0))"

definition readNumber :: "string \<Rightarrow> ledger \<Rightarrow> volume \<Rightarrow> int option \<times> volume" where
  "readNumber name l v = (case readFile name l v of (Inl e, v) \<Rightarrow> (None, v) | (Inr c, v) \<Rightarrow> (number_value c, v))"

definition readShard :: "string \<Rightarrow> ledger \<Rightarrow> volume \<Rightarrow> int option \<times> volume" where
  "readShard name l v = (case readFile name l v of (Inl e, v) \<Rightarrow> (None, v) | (Inr c, v) \<Rightarrow> (shard_value c, v))"

fun scan_names :: "string list \<Rightarrow> ledger \<Rightarrow> int \<Rightarrow> bool \<Rightarrow> volume \<Rightarrow> (int \<times> bool) \<times> volume" where
  "scan_names [] l tot bad v = ((tot, bad), v)"
| "scan_names (raw # ns) l tot bad v =
     (let name = base_name raw in
      if HasPrefix name ledgerSnapPrefix then
        (case readNumber raw l v of
           (None, v) \<Rightarrow> scan_names ns l tot True v
         | (Some n, v) \<Rightarrow> scan_names ns l (wrap64 (tot + n)) bad v)
      else if shard_like name then
        (case readShard raw l v of
           (None, v) \<Rightarrow> scan_names ns l tot True v
         | (Some n, v) \<Rightarrow> scan_names ns l (wrap64 (tot + n)) bad v)
      else scan_names ns l tot bad v)"

text \<open>\<open>Total\<close>: \<open>None\<close> for the result 0 and false, on which the caller refuses to write.\<close>

definition Total :: "ledger \<Rightarrow> volume \<Rightarrow> int option \<times> ledger \<times> volume" where
  "Total l v =
     (case shardNames l v of
        (Inl e, v) \<Rightarrow> (None, l\<lparr>corrupt := True\<rparr>, v)
      | (Inr names, v) \<Rightarrow>
          (case scan_names names l 0 False v of
             ((tot, bad), v) \<Rightarrow> if bad then (None, l\<lparr>corrupt := True\<rparr>, v) else (Some tot, l\<lparr>corrupt := False\<rparr>, v)))"

definition Compact :: "ledger \<Rightarrow> volume \<Rightarrow> ledger_error option \<times> ledger \<times> volume" where
  "Compact l v =
     (case readShard (shardName (lnode l)) l v of
        (None, v) \<Rightarrow> (Some LedgerDegraded, l\<lparr>corrupt := True\<rparr>, v)
      | (Some own, v) \<Rightarrow>
          (case readNumber (snapName (lnode l)) l v of
             (None, v) \<Rightarrow> (Some LedgerDegraded, l\<lparr>corrupt := True\<rparr>, v)
           | (Some base, v) \<Rightarrow>
               (case writeAtomic (snapName (lnode l)) (FormatInt (wrap64 (base + own)) @ [newline]) l v of
                  (Some e, l, v) \<Rightarrow> (Some e, l, v)
                | (None, l, v) \<Rightarrow> truncate_file (shardName (lnode l)) l v)))"

fun empty_shards :: "string list \<Rightarrow> ledger \<Rightarrow> volume \<Rightarrow> string list \<times> volume" where
  "empty_shards [] l v = ([], v)"
| "empty_shards (raw # ns) l v =
     (if \<not> shard_like (base_name raw) then empty_shards ns l v
      else case readFile raw l v of
        (Inr (Some b), v) \<Rightarrow>
          (case empty_shards ns l v of (es, v) \<Rightarrow> (if TrimSpace b = [] then raw # es else es, v))
      | (_, v) \<Rightarrow> empty_shards ns l v)"

definition emptyShardNames :: "ledger \<Rightarrow> volume \<Rightarrow> string list \<times> volume" where
  "emptyShardNames l v = (case shardNames l v of (Inl e, v) \<Rightarrow> ([], v) | (Inr names, v) \<Rightarrow> empty_shards names l v)"

definition retainSnapOfShard :: "string \<Rightarrow> ledger \<Rightarrow> volume \<Rightarrow> string \<times> volume" where
  "retainSnapOfShard name l v =
     (let b = base_name name in
      if \<not> shard_like b then ([], v)
      else case readFile (snap_of b) l v of
        (Inr (Some nb), v) \<Rightarrow> (if TrimSpace nb = ''0'' then [] else snap_of b, v)
      | (_, v) \<Rightarrow> ([], v))"

fun kept_lines :: "string list \<Rightarrow> string list \<Rightarrow> ledger \<Rightarrow> volume \<Rightarrow> string list \<times> volume" where
  "kept_lines [] drops l v = ([], v)"
| "kept_lines (line # ls) drops l v =
     (let name = TrimSpace line in
      if name = [] then kept_lines ls drops l v
      else if name \<notin> set drops then (case kept_lines ls drops l v of (ks, v) \<Rightarrow> (name # ks, v))
      else case retainSnapOfShard name l v of
        (snap, v) \<Rightarrow> (case kept_lines ls drops l v of (ks, v) \<Rightarrow> (if snap = [] then ks else snap # ks, v)))"

fun join_nl :: "string list \<Rightarrow> string" where
  "join_nl [] = []"
| "join_nl [l] = l"
| "join_nl (l # ls) = l @ newline # join_nl ls"

definition unindexShards :: "string list \<Rightarrow> ledger \<Rightarrow> volume \<Rightarrow> ledger_error option \<times> ledger \<times> volume" where
  "unindexShards drops l v =
     (case readFile ledgerIndexName l v of
        (Inr (Some ib), v) \<Rightarrow>
          (case kept_lines (split_newlines ib) drops l v of
             (kept, v) \<Rightarrow> writeAtomic ledgerIndexName (join_nl kept @ [newline]) l v)
      | (_, v) \<Rightarrow> (None, l, v))"

fun delete_files :: "string list \<Rightarrow> ledger \<Rightarrow> volume \<Rightarrow> ledger \<times> volume" where
  "delete_files [] l v = (l, v)"
| "delete_files (n # ns) l v = (case deleteFile n l v of (e, l, v) \<Rightarrow> delete_files ns l v)"

definition reapEmptyShards :: "ledger \<Rightarrow> volume \<Rightarrow> ledger_error option \<times> ledger \<times> volume" where
  "reapEmptyShards l v =
     (case emptyShardNames l v of
        (reaped, v) \<Rightarrow>
          if reaped = [] then (None, l, v)
          else case unindexShards reaped l v of
            (Some e, l, v) \<Rightarrow> (Some e, l, v)
          | (None, l, v) \<Rightarrow> (case delete_files reaped l v of (l, v) \<Rightarrow> (None, l, v)))"

end
