(* ===== verification/Vol_Books.thy ===== *)
theory Vol_Books
  imports Vol_Ledger
begin

text \<open>
  The volume ledger as one number. The invariant \<open>books_ok\<close> describes the files between operations: every shard is a list of
  decimal lines, every baseline one number, the index lists what is not zero. It is kept by \<open>Add\<close>, \<open>Compact\<close> and
  \<open>reapEmptyShards\<close> of any process, and under it \<open>Total\<close> returns the sum of all additions or, when a read fails, refuses.
\<close>

section \<open>Names\<close>

definition node_ok :: "string \<Rightarrow> bool" where
  "node_ok n \<longleftrightarrow> n \<noteq> [] \<and> list_all node_char n"

lemma sanitize_loop_chars: "list_all node_char (sanitize_loop s)"
  by (induction s rule: sanitize_loop.induct) (simp_all add: node_char_def)

lemma sanitizeLedgerNode_ok: "node_ok (sanitizeLedgerNode node)"
  using sanitize_loop_chars [of node] by (simp add: sanitizeLedgerNode_def node_ok_def Let_def node_char_def)

lemma node_char_printable: "node_char c \<Longrightarrow> printable [c] \<and> c \<noteq> CHR ''/''"
  by (auto simp: node_char_def Let_def)

lemma node_printable: "list_all node_char n \<Longrightarrow> printable n \<and> CHR ''/'' \<notin> set n"
  by (induction n) (use node_char_printable in auto)

lemma base_name_plain: "CHR ''/'' \<notin> set s \<Longrightarrow> base_name s = s"
proof -
  assume "CHR ''/'' \<notin> set s"
  then have "takeWhile (\<lambda>c. c \<noteq> CHR ''/'') (rev s) = rev s" by (auto simp: takeWhile_eq_all_conv)
  then show ?thesis unfolding base_name_def by (metis rev_rev_ident)
qed

lemmas ledger_names = ledgerIndexName_def ledgerShardPrefix_def ledgerSnapPrefix_def ledgerShardSuffix_def shardName_def snapName_def

definition ledger_file :: "string \<Rightarrow> bool" where
  "ledger_file s \<longleftrightarrow> (\<exists>n. node_ok n \<and> (s = shardName n \<or> s = snapName n))"

lemma ledger_file_plain: "ledger_file s \<Longrightarrow> printable s \<and> s \<noteq> [] \<and> base_name s = s \<and> TrimSpace s = s \<and> newline \<notin> set s"
proof -
  assume "ledger_file s"
  then obtain n where n: "node_ok n" "s = shardName n \<or> s = snapName n" by (auto simp: ledger_file_def)
  have "printable n \<and> CHR ''/'' \<notin> set n" using n(1) node_printable by (simp add: node_ok_def)
  then have "printable s \<and> s \<noteq> [] \<and> CHR ''/'' \<notin> set s" using n(2) by (auto simp: ledger_names)
  then show ?thesis by (simp add: base_name_plain TrimSpace_printable newline_printable)
qed

lemma ledger_file_intros [simp]: "node_ok n \<Longrightarrow> ledger_file (shardName n)" "node_ok n \<Longrightarrow> ledger_file (snapName n)"
  by (auto simp: ledger_file_def)

lemma shard_name_simps [simp]:
  "shard_like (shardName n)" "\<not> HasPrefix (shardName n) ledgerSnapPrefix" "HasPrefix (snapName n) ledgerSnapPrefix"
  "\<not> shard_like (snapName n)" "snap_of (shardName n) = snapName n"
  "shardName m = shardName n \<longleftrightarrow> m = n" "snapName m = snapName n \<longleftrightarrow> m = n"
  "shardName m \<noteq> snapName n" "snapName m \<noteq> shardName n"
  "shardName m \<noteq> ledgerIndexName" "snapName m \<noteq> ledgerIndexName" "ledgerIndexName \<noteq> shardName m" "ledgerIndexName \<noteq> snapName m"
  "shardName m \<noteq> snap_of s" "ledgerIndexName \<noteq> snap_of s"
  by (auto simp: shard_like_def HasPrefix_def HasSuffix_def snap_of_def TrimPrefix_def TrimSuffix_def ledger_names)

lemma shardName_ne [simp]: "shardName n \<noteq> []" "snapName n \<noteq> []"
  by (simp_all add: ledger_names)

section \<open>Texts of complete lines\<close>

definition text_of :: "string list \<Rightarrow> string" where
  "text_of ls = concat (map (\<lambda>l. l @ [newline]) ls)"

lemma text_of_simps [simp]:
  "text_of [] = []" "text_of (l # ls) = l @ newline # text_of ls" "text_of (ls @ ks) = text_of ls @ text_of ks"
  by (simp_all add: text_of_def)

lemma split_text_of: "(\<And>l. l \<in> set ls \<Longrightarrow> newline \<notin> set l) \<Longrightarrow> split_newlines (text_of ls) = ls @ [[]]"
  by (induction ls) (simp_all add: split_newlines_append)

lemma raw_lines_text_of: "(\<And>l. l \<in> set ls \<Longrightarrow> newline \<notin> set l) \<Longrightarrow> raw_lines (text_of ls) = ls"
  by (simp add: raw_lines_def split_text_of)

lemma join_nl_text: "join_nl ls @ [newline] = (if ls = [] then text_of [[]] else text_of ls)"
  by (induction ls rule: join_nl.induct) simp_all

definition log_text :: "int list \<Rightarrow> string" where
  "log_text ds = text_of (map FormatInt ds)"

lemma log_text_simps [simp]: "log_text [] = []" "log_text (ds @ [d]) = log_text ds @ FormatInt d @ [newline]"
  by (simp_all add: log_text_def)

lemma raw_lines_log: "raw_lines (log_text ds) = map FormatInt ds"
  unfolding log_text_def by (rule raw_lines_text_of) (auto simp: newline_printable printable_FormatInt)

lemma scan_log: "list_all in64 ds \<Longrightarrow> scan_lines (log_text ds) = Some (map FormatInt ds)"
proof -
  assume ds: "list_all in64 ds"
  have "\<not> list_ex (\<lambda>l. 65536 \<le> int (length l)) (map FormatInt ds)"
    using ds length_FormatInt by (force simp: list_ex_iff list_all_iff)
  then show ?thesis by (simp add: scan_lines_def raw_lines_log o_def strip_cr_printable printable_FormatInt)
qed

lemma sum_lines_log: "list_all in64 ds \<Longrightarrow> sum_lines (map FormatInt ds) (wrap64 t) = Some (wrap64 (t + sum_list ds))"
  by (induction ds arbitrary: t)
    (simp_all add: TrimSpace_printable printable_FormatInt FormatInt_ne ParseInt_FormatInt add.assoc)

lemma shard_value_log: "list_all in64 ds \<Longrightarrow> shard_value (Some (log_text ds)) = Some (wrap64 (sum_list ds))"
  using sum_lines_log [of ds 0] by (simp add: shard_value_def scan_log)

lemma number_value_line: "in64 n \<Longrightarrow> number_value (Some (FormatInt n @ [newline])) = Some n"
  by (simp add: number_value_def TrimSpace_line printable_FormatInt FormatInt_ne ParseInt_FormatInt)

lemma TrimSpace_log: "TrimSpace (log_text ds) = [] \<longleftrightarrow> ds = []"
proof (cases ds)
  case (Cons d es)
  then show ?thesis using TrimSpace_head [OF printable_FormatInt FormatInt_ne, of d "newline # log_text es"]
    by (simp add: log_text_def)
qed simp

section \<open>Sums of finitely many values\<close>

definition tot :: "('a \<Rightarrow> int) \<Rightarrow> int" where
  "tot g = sum g {n. g n \<noteq> 0}"

lemma tot_superset: "finite A \<Longrightarrow> {n. g n \<noteq> 0} \<subseteq> A \<Longrightarrow> tot g = sum g A"
  unfolding tot_def by (rule sum.mono_neutral_left) auto

lemma tot_upd: "finite {n. g n \<noteq> 0} \<Longrightarrow> finite {n. (g(s := x)) n \<noteq> 0} \<and> tot (g(s := x)) = tot g - g s + x"
proof -
  assume fin: "finite {n. g n \<noteq> 0}"
  let ?A = "insert s {n. g n \<noteq> 0}"
  have sub: "{n. (g(s := x)) n \<noteq> 0} \<subseteq> ?A" by auto
  have "sum (g(s := x)) ?A = sum g ?A + (x - g s)" by (rule sum_change_one [of _ s]) (use fin in auto)
  moreover have "tot (g(s := x)) = sum (g(s := x)) ?A" "tot g = sum g ?A"
    by (rule tot_superset; use fin sub in auto)+
  ultimately show ?thesis using finite_subset [OF sub] fin by simp
qed

section \<open>Reading\<close>

definition quiet :: "volume \<Rightarrow> bool" where
  "quiet v \<longleftrightarrow> (\<forall>k. \<not> vfault v k)"

definition name_value :: "files \<Rightarrow> string \<Rightarrow> int option" where
  "name_value f raw =
     (if HasPrefix (base_name raw) ledgerSnapPrefix then number_value (f raw)
      else if shard_like (base_name raw) then shard_value (f raw) else Some 0)"

lemma access_keeps [simp]: "vfiles (snd (access v)) = vfiles v" "vfault (snd (access v)) = vfault v"
  by (simp_all add: access_def)

lemma access_pair: "access v = (b, v') \<Longrightarrow> vfiles v' = vfiles v \<and> vfault v' = vfault v \<and> (quiet v \<longrightarrow> \<not> b \<and> quiet v')"
  by (auto simp: access_def quiet_def)

lemma readFile_pair:
  "smem l = None \<Longrightarrow> readFile n l v = (r, v') \<Longrightarrow>
    vfiles v' = vfiles v \<and> (quiet v \<longrightarrow> quiet v' \<and> r = Inr (vfiles v n)) \<and> (\<forall>c. r = Inr c \<longrightarrow> c = vfiles v n)"
  by (auto simp: readFile_def split: prod.splits if_splits dest: access_pair)

lemma scan_step:
  "scan_names (raw # ns) l t bad v =
     (if HasPrefix (base_name raw) ledgerSnapPrefix \<or> shard_like (base_name raw) then
        (case readFile raw l v of
           (Inl e, v) \<Rightarrow> scan_names ns l t True v
         | (Inr c, v) \<Rightarrow>
             (case (if HasPrefix (base_name raw) ledgerSnapPrefix then number_value c else shard_value c) of
                None \<Rightarrow> scan_names ns l t True v
              | Some n \<Rightarrow> scan_names ns l (wrap64 (t + n)) bad v))
      else scan_names ns l t bad v)"
proof (cases "readFile raw l v")
  case (Pair r w)
  then show ?thesis by (cases r) (simp_all add: readNumber_def readShard_def Let_def option.case_eq_if)
qed

lemma scan_bad: "scan_names ns l t True v = ((t', b), v') \<Longrightarrow> b"
  by (induction ns arbitrary: t v)
    (auto simp: scan_step split: prod.splits sum.splits option.splits if_splits simp del: scan_names.simps(2))

lemma scan_exact:
  assumes "smem l = None" "scan_names ns l t False v = ((t', b), v')" "\<forall>n\<in>set ns. name_value (vfiles v) n = Some (g n)" "in64 t"
  shows "(\<not> b \<longrightarrow> t' = wrap64 (t + sum_list (map g ns))) \<and> (quiet v \<longrightarrow> \<not> b)"
  using assms(2-)
proof (induction ns arbitrary: t v)
  case Nil
  then show ?case by (simp add: wrap64_id)
next
  case (Cons raw ns)
  have g: "name_value (vfiles v) raw = Some (g raw)" using Cons.prems(2) by simp
  show ?case
  proof (cases "HasPrefix (base_name raw) ledgerSnapPrefix \<or> shard_like (base_name raw)")
    case True
    obtain r w where r: "readFile raw l v = (r, w)" by (cases "readFile raw l v")
    have w: "vfiles w = vfiles v" "quiet v \<longrightarrow> quiet w \<and> r = Inr (vfiles v raw)" "\<forall>c. r = Inr c \<longrightarrow> c = vfiles v raw"
      using readFile_pair [OF assms(1) r] by blast+
    show ?thesis
    proof (cases r)
      case (Inl e)
      then have "b" using Cons.prems(1) True r scan_bad [of ns l t w t' b v'] by (simp add: scan_step del: scan_names.simps)
      then show ?thesis using Inl w(2) by auto
    next
      case (Inr c)
      have "scan_names ns l (wrap64 (t + g raw)) False w = ((t', b), v')"
        using Cons.prems(1) True r Inr g w(3) by (auto simp: scan_step name_value_def simp del: scan_names.simps split: if_splits)
      from Cons.IH [OF this] show ?thesis using Cons.prems(2) w by (auto simp: add.assoc)
    qed
  next
    case False
    then have "g raw = 0" "scan_names ns l t False v = ((t', b), v')"
      using g Cons.prems(1) by (simp_all add: name_value_def scan_step del: scan_names.simps)
    then show ?thesis using Cons.IH [of t v] Cons.prems(2,3) by simp
  qed
qed

section \<open>The files between operations\<close>

definition index_lines :: "files \<Rightarrow> string set" where
  "index_lines f = TrimSpace ` set (split_newlines (contents (f ledgerIndexName))) - {[]}"

definition listed :: "files \<Rightarrow> string set" where
  "listed f = index_lines f \<union> snap_of ` {n \<in> index_lines f. shard_like n}"

definition val :: "files \<Rightarrow> string \<Rightarrow> int" where
  "val f n = (if ledger_file n then the (name_value f n) else 0)"

definition index_ok :: "string option \<Rightarrow> bool" where
  "index_ok c \<longleftrightarrow> c = None \<or> (\<exists>ls. c = Some (text_of ls) \<and> (\<forall>s\<in>set ls. s = [] \<or> ledger_file s))"

definition shard_ok :: "string option \<Rightarrow> bool" where
  "shard_ok c \<longleftrightarrow> c = None \<or> (\<exists>ds. list_all in64 ds \<and> c = Some (log_text ds))"

definition snap_ok :: "string option \<Rightarrow> bool" where
  "snap_ok c \<longleftrightarrow> c = None \<or> (\<exists>k. in64 k \<and> c = Some (FormatInt k @ [newline]))"

text \<open>A process sees its own two files even when they are not in the index: \<open>me\<close> is the node whose view is described, or none for a view
  that all processes share.\<close>

definition own_names :: "string option \<Rightarrow> string set" where
  "own_names me = (case me of None \<Rightarrow> {} | Some n \<Rightarrow> {shardName n, snapName n})"

definition visible :: "string option \<Rightarrow> files \<Rightarrow> string set" where
  "visible me f = (if f ledgerIndexName = None then {} else listed f \<union> own_names me)"

definition books_ok :: "string option \<Rightarrow> files \<Rightarrow> bool" where
  "books_ok me f \<longleftrightarrow> index_ok (f ledgerIndexName) \<and> (\<forall>n. node_ok n \<longrightarrow> shard_ok (f (shardName n)) \<and> snap_ok (f (snapName n)))
     \<and> {n. val f n \<noteq> 0} \<subseteq> visible me f"

lemma finite_listed: "finite (listed f)"
  by (simp add: listed_def index_lines_def)

lemma set_index_add: "set (index_add ns out) = set out \<union> (set ns - {[]})"
  by (induction ns out rule: index_add.induct) auto

lemma distinct_index_add: "distinct out \<Longrightarrow> distinct (index_add ns out)"
  by (induction ns out rule: index_add.induct) auto

lemma snap_of_ne [simp]: "snap_of n \<noteq> []" "[] \<noteq> snap_of n"
  by (simp_all add: snap_of_def ledgerSnapPrefix_def)

lemma set_indexNames: "set (indexNames b) = listed [ledgerIndexName \<mapsto> b]"
  by (auto simp: indexNames_def set_index_add line_names_def Let_def listed_def index_lines_def contents_def)

lemma listed_cong: "f ledgerIndexName = g ledgerIndexName \<Longrightarrow> listed f = listed g"
  by (simp add: listed_def index_lines_def)

lemma listed_None: "f ledgerIndexName = None \<Longrightarrow> listed f = {}"
  by (auto simp: listed_def index_lines_def contents_def)

lemma index_lines_text:
  "f ledgerIndexName = Some (text_of ls) \<Longrightarrow> \<forall>s\<in>set ls. s = [] \<or> ledger_file s \<Longrightarrow> index_lines f = set ls - {[]}"
proof -
  assume f: "f ledgerIndexName = Some (text_of ls)" and ls: "\<forall>s\<in>set ls. s = [] \<or> ledger_file s"
  have "split_newlines (text_of ls) = ls @ [[]]" by (rule split_text_of) (use ls ledger_file_plain in force)
  moreover have "TrimSpace ` set ls = set ls" using ls ledger_file_plain by (force simp: image_iff)
  ultimately show ?thesis using f by (auto simp: index_lines_def contents_def)
qed

lemma index_lines_files: "index_ok (f ledgerIndexName) \<Longrightarrow> s \<in> index_lines f \<Longrightarrow> ledger_file s"
  by (auto simp: index_ok_def index_lines_text) (auto simp: index_lines_def contents_def)

lemma listed_files: "index_ok (f ledgerIndexName) \<Longrightarrow> s \<in> listed f \<Longrightarrow> ledger_file s"
proof -
  assume ok: "index_ok (f ledgerIndexName)" and s: "s \<in> listed f"
  have "ledger_file (snap_of n)" if "n \<in> index_lines f" "shard_like n" for n
    using index_lines_files [of f, OF ok that(1)] that(2) by (auto simp: ledger_file_def)
  then show ?thesis using s index_lines_files [of f, OF ok] by (auto simp: listed_def)
qed

lemma name_value_shard: "node_ok n \<Longrightarrow> name_value f (shardName n) = shard_value (f (shardName n))"
  using ledger_file_plain [of "shardName n"] by (simp add: name_value_def)

lemma name_value_snap: "node_ok n \<Longrightarrow> name_value f (snapName n) = number_value (f (snapName n))"
  using ledger_file_plain [of "snapName n"] by (simp add: name_value_def)

lemma val_shard: "node_ok n \<Longrightarrow> val f (shardName n) = the (shard_value (f (shardName n)))"
  by (simp add: val_def name_value_shard)

lemma val_snap: "node_ok n \<Longrightarrow> val f (snapName n) = the (number_value (f (snapName n)))"
  by (simp add: val_def name_value_snap)

lemma shard_ok_value: "shard_ok c \<Longrightarrow> \<exists>k. shard_value c = Some k \<and> in64 k"
  by (auto simp: shard_ok_def shard_value_log) (auto simp: shard_value_def)

lemma snap_ok_value: "snap_ok c \<Longrightarrow> \<exists>k. number_value c = Some k \<and> in64 k"
  by (auto simp: snap_ok_def number_value_line) (auto simp: number_value_def)

lemma books_value: "books_ok me f \<Longrightarrow> ledger_file s \<Longrightarrow> name_value f s = Some (val f s)"
  using shard_ok_value snap_ok_value
  by (auto simp: ledger_file_def books_ok_def name_value_shard name_value_snap val_shard val_snap) fastforce+

lemma finite_visible: "finite (visible me f)"
  by (simp add: visible_def finite_listed own_names_def split: option.split)

lemma books_finite: "books_ok me f \<Longrightarrow> finite {n. val f n \<noteq> 0}"
  using finite_subset [OF _ finite_visible] by (auto simp: books_ok_def)

section \<open>The total\<close>

definition sees :: "string option \<Rightarrow> ledger \<Rightarrow> bool" where
  "sees me l \<longleftrightarrow> me = None \<or> me = Some (lnode l)"

definition lhandle_ok :: "files \<Rightarrow> ledger \<Rightarrow> bool" where
  "lhandle_ok f l \<longleftrightarrow> smem l = None \<and> skind l \<noteq> MemStore \<and> node_ok (lnode l) \<and> (registered l \<longrightarrow> f ledgerIndexName \<noteq> None)"

lemma shardNames_read:
  assumes "lhandle_ok f l" "vfiles v = f" "index_ok (f ledgerIndexName)" "shardNames l v = (r, v')"
  shows "vfiles v' = f \<and> (quiet v \<longrightarrow> quiet v' \<and> (\<exists>ns. r = Inr ns))
    \<and> (\<forall>ns. r = Inr ns \<longrightarrow> distinct ns \<and> (\<forall>n\<in>set ns. ledger_file n) \<and> (\<forall>me. sees me l \<longrightarrow> visible me f \<subseteq> set ns))"
proof -
  obtain q w where q: "readFile ledgerIndexName l v = (q, w)" by (cases "readFile ledgerIndexName l v")
  have l: "smem l = None" using assms(1) by (simp add: lhandle_ok_def)
  have w: "vfiles w = f" "quiet v \<longrightarrow> quiet w \<and> q = Inr (f ledgerIndexName)" "\<forall>c. q = Inr c \<longrightarrow> c = f ledgerIndexName"
    using readFile_pair [OF l q] assms(2) by blast+
  show ?thesis
  proof (cases q)
    case (Inl e)
    then show ?thesis using assms(4) q w by (auto simp: shardNames_def)
  next
    case (Inr c)
    then have c: "f ledgerIndexName = c" using w(3) by simp
    show ?thesis
    proof (cases c)
      case None
      then show ?thesis using assms(1,4) q w Inr c by (auto simp: shardNames_def lhandle_ok_def visible_def)
    next
      case (Some b)
      let ?ns = "index_add [shardName (lnode l), snapName (lnode l)] (indexNames b)"
      have b: "set (indexNames b) = listed f" unfolding set_indexNames by (rule listed_cong) (simp add: c Some)
      have "distinct ?ns" by (intro distinct_index_add) (simp add: indexNames_def distinct_index_add)
      moreover have "\<forall>n\<in>set ?ns. ledger_file n"
        using b listed_files [of f, OF assms(3)] assms(1) by (auto simp: set_index_add lhandle_ok_def)
      moreover have "visible me f \<subseteq> set ?ns" if "sees me l" for me
      proof -
        have "own_names me \<subseteq> {shardName (lnode l), snapName (lnode l)}" using that by (auto simp: sees_def own_names_def)
        then show ?thesis using b by (auto simp: set_index_add visible_def)
      qed
      moreover have "r = Inr ?ns" "v' = w" using assms(4) q Inr Some by (simp_all add: shardNames_def)
      ultimately show ?thesis using w(1,2) by simp
    qed
  qed
qed

lemma Total_exact:
  assumes "lhandle_ok (vfiles v) l" "books_ok me (vfiles v)" "sees me l"
  shows "fst (Total l v) \<in> {None, Some (wrap64 (tot (val (vfiles v))))}
    \<and> (quiet v \<longrightarrow> fst (Total l v) = Some (wrap64 (tot (val (vfiles v)))))"
proof -
  obtain r w where r: "shardNames l v = (r, w)" by (cases "shardNames l v")
  note rd = shardNames_read [OF assms(1) refl _ r]
  have ok: "index_ok (vfiles v ledgerIndexName)" using assms(2) by (simp add: books_ok_def)
  show ?thesis
  proof (cases r)
    case (Inl e)
    then show ?thesis using r rd ok by (auto simp: Total_def)
  next
    case (Inr ns)
    have ns: "distinct ns" "\<forall>n\<in>set ns. ledger_file n" "visible me (vfiles v) \<subseteq> set ns" "vfiles w = vfiles v" "quiet v \<longrightarrow> quiet w"
      using rd [OF ok] Inr assms(3) by auto
    obtain t b u where s: "scan_names ns l 0 False w = ((t, b), u)" by (metis surj_pair)
    have "\<forall>n\<in>set ns. name_value (vfiles w) n = Some (val (vfiles v) n)"
      using ns(2,4) books_value [OF assms(2)] by simp
    then have t: "\<not> b \<longrightarrow> t = wrap64 (sum_list (map (val (vfiles v)) ns))" "quiet v \<longrightarrow> \<not> b"
      using scan_exact [OF _ s] assms(1) ns(5) by (auto simp: lhandle_ok_def)
    have "tot (val (vfiles v)) = sum (val (vfiles v)) (set ns)"
      by (rule tot_superset) (use ns(3) assms(2) in \<open>auto simp: books_ok_def\<close>)
    then have "tot (val (vfiles v)) = sum_list (map (val (vfiles v)) ns)" using ns(1) by (simp add: sum_list_distinct_conv_sum_set)
    then show ?thesis using t r s Inr by (auto simp: Total_def)
  qed
qed

section \<open>Operations on a fault-free volume\<close>

definition tick :: "volume \<Rightarrow> volume" where
  "tick v = v\<lparr>vcount := vcount v + 1\<rparr>"

lemma tick_simps [simp]: "vfiles (tick v) = vfiles v" "quiet (tick v) = quiet v" "quiet (v\<lparr>vfiles := f\<rparr>) = quiet v"
  by (simp_all add: tick_def quiet_def)

lemma access_quiet [simp]: "quiet v \<Longrightarrow> access v = (False, tick v)"
  by (simp add: access_def tick_def quiet_def)

lemma readFile_quiet [simp]: "quiet v \<Longrightarrow> smem l = None \<Longrightarrow> readFile n l v = (Inr (vfiles v n), tick v)"
  by (simp add: readFile_def)

lemma appendLine_quiet:
  "quiet v \<Longrightarrow> smem l = None \<Longrightarrow>
    \<exists>w. appendLine n s l v = (None, l, w) \<and> quiet w \<and> vfiles w = (vfiles v)(n \<mapsto> contents (vfiles v n) @ s)"
  by (simp add: appendLine_def put_file_def Let_def)

lemma writeAtomic_quiet:
  "quiet v \<Longrightarrow> smem l = None \<Longrightarrow>
    \<exists>w. writeAtomic n b l v = (None, l, w) \<and> quiet w \<and> vfiles w = (vfiles v)(n \<mapsto> b)"
  by (simp add: writeAtomic_def put_file_def)

lemma truncate_quiet:
  "quiet v \<Longrightarrow> smem l = None \<Longrightarrow>
    \<exists>e w. truncate_file n l v = (e, l, w) \<and> quiet w \<and> (vfiles w = (vfiles v)(n \<mapsto> []) \<or> vfiles w = vfiles v \<and> vfiles v n = None)"
  by (simp add: truncate_file_def put_file_def)

lemma deleteFile_quiet:
  "quiet v \<Longrightarrow> smem l = None \<Longrightarrow> \<exists>w. deleteFile n l v = (None, l, w) \<and> quiet w \<and> vfiles w = (vfiles v)(n := None)"
  by (simp add: deleteFile_def put_file_def)

lemma delete_files_quiet:
  "quiet v \<Longrightarrow> smem l = None \<Longrightarrow>
    \<exists>w. delete_files ns l v = (l, w) \<and> quiet w \<and> vfiles w = (\<lambda>n. if n \<in> set ns then None else vfiles v n)"
proof (induction ns arbitrary: v)
  case (Cons n ns)
  obtain w where w: "deleteFile n l v = (None, l, w)" "quiet w" "vfiles w = (vfiles v)(n := None)"
    using deleteFile_quiet [OF Cons.prems] by blast
  show ?case using Cons.IH [OF w(2) Cons.prems(2)] w(1,3) by (auto simp: fun_eq_iff)
qed simp

section \<open>Values after a change of one file\<close>

lemma val_upd: "val (f(s := c)) = (val f)(s := val (f(s := c)) s)"
  by (auto simp: val_def name_value_def fun_eq_iff)

lemma val_upd_shard: "node_ok n \<Longrightarrow> val (f(shardName n := c)) = (val f)(shardName n := the (shard_value c))"
  using val_upd [of f "shardName n" c] by (simp add: val_shard)

lemma val_upd_snap: "node_ok n \<Longrightarrow> val (f(snapName n := c)) = (val f)(snapName n := the (number_value c))"
  using val_upd [of f "snapName n" c] by (simp add: val_snap)

lemma val_upd_index: "val (f(ledgerIndexName := c)) = val f"
  using val_upd [of f ledgerIndexName c] by (auto simp: val_def ledger_file_def fun_eq_iff)

lemma wrap64_add_right [simp]: "wrap64 (x + wrap64 y) = wrap64 (x + y)"
  using wrap64_add_left [of y x] by (simp add: add.commute)

section \<open>Additions\<close>

definition register_files :: "string \<Rightarrow> files \<Rightarrow> files" where
  "register_files s f = (if s \<in> index_lines f then f else f(ledgerIndexName \<mapsto> contents (f ledgerIndexName) @ s @ [newline]))"

lemma listed_check: "s \<noteq> [] \<Longrightarrow> (b \<noteq> None \<and> list_ex (\<lambda>line. TrimSpace line = s) (split_newlines (contents b)))
    \<longleftrightarrow> s \<in> index_lines (\<lambda>_. b)"
  by (cases b) (auto simp: index_lines_def contents_def list_ex_iff)

lemma index_lines_const: "index_lines (\<lambda>_. f ledgerIndexName) = index_lines f"
  by (simp add: index_lines_def)

lemma registerShard_quiet:
  assumes "quiet v" "smem l = None"
  shows "\<exists>w. registerShard l v = (None, l\<lparr>registered := True\<rparr>, w) \<and> quiet w
    \<and> vfiles w = (if registered l then vfiles v else register_files (shardName (lnode l)) (vfiles v))"
proof -
  let ?s = "shardName (lnode l)"
  have chk: "(vfiles v ledgerIndexName \<noteq> None \<and> list_ex (\<lambda>line. TrimSpace line = ?s) (split_newlines (contents (vfiles v ledgerIndexName))))
      \<longleftrightarrow> ?s \<in> index_lines (vfiles v)"
    using listed_check [of ?s "vfiles v ledgerIndexName"] by (simp add: index_lines_const)
  obtain w where w: "writeAtomic ledgerIndexName (contents (vfiles v ledgerIndexName) @ ?s @ [newline]) l (tick v) = (None, l, w)"
      "quiet w" "vfiles w = (vfiles v)(ledgerIndexName \<mapsto> contents (vfiles v ledgerIndexName) @ ?s @ [newline])"
    using writeAtomic_quiet [of "tick v" l] assms by (metis tick_simps(1,2))
  have "l\<lparr>registered := True\<rparr> = l" if "registered l" using that by (cases l) simp
  then show ?thesis using assms w chk
    by (cases "?s \<in> index_lines (vfiles v)") (auto simp: registerShard_def register_files_def Let_def)
qed

lemma books_registered:
  assumes "books_ok me f" "node_ok n"
  shows "books_ok me (register_files (shardName n) f) \<and> shardName n \<in> index_lines (register_files (shardName n) f)
    \<and> val (register_files (shardName n) f) = val f \<and> register_files (shardName n) f ledgerIndexName \<noteq> None"
proof (cases "shardName n \<in> index_lines f")
  case True
  then have "f ledgerIndexName \<noteq> None" by (cases "f ledgerIndexName") (auto simp: index_lines_def contents_def)
  then show ?thesis using True assms by (simp add: register_files_def)
next
  case False
  let ?f = "register_files (shardName n) f"
  have f: "?f = f(ledgerIndexName \<mapsto> contents (f ledgerIndexName) @ shardName n @ [newline])" using False by (simp add: register_files_def)
  obtain ls where ls: "contents (f ledgerIndexName) = text_of ls" "\<forall>s\<in>set ls. s = [] \<or> ledger_file s" "index_lines f = set ls - {[]}"
  proof (cases "f ledgerIndexName")
    case None
    then show ?thesis using that [of "[]"] by (simp add: contents_def index_lines_def)
  next
    case (Some b)
    then show ?thesis using that assms(1) index_lines_text [of f] by (force simp: books_ok_def index_ok_def contents_def)
  qed
  have i: "?f ledgerIndexName = Some (text_of (ls @ [shardName n]))" using f ls(1) by simp
  have l: "\<forall>s\<in>set (ls @ [shardName n]). s = [] \<or> ledger_file s" using ls(2) assms(2) by simp
  have lines: "index_lines ?f = insert (shardName n) (index_lines f)" unfolding index_lines_text [of ?f, OF i l] ls(3) by auto
  have "index_ok (?f ledgerIndexName)" unfolding index_ok_def using i l by blast
  moreover have "listed f \<subseteq> listed ?f" using lines by (auto simp: listed_def)
  moreover have v: "val ?f = val f" using f by (simp add: val_upd_index)
  ultimately have "books_ok me ?f" using assms(1) f by (auto simp: books_ok_def visible_def split: if_splits)
  then show ?thesis using lines v f by simp
qed

lemma books_appended:
  assumes "books_ok me f" "node_ok n" "in64 d" "shardName n \<in> visible me f"
  shows "books_ok me (f(shardName n \<mapsto> contents (f (shardName n)) @ FormatInt d @ [newline]))
    \<and> wrap64 (tot (val (f(shardName n \<mapsto> contents (f (shardName n)) @ FormatInt d @ [newline])))) = wrap64 (tot (val f) + d)"
proof -
  let ?f = "f(shardName n \<mapsto> contents (f (shardName n)) @ FormatInt d @ [newline])"
  have "shard_ok (f (shardName n))" using assms(1,2) by (simp add: books_ok_def)
  then obtain ds where ds: "list_all in64 ds" "contents (f (shardName n)) = log_text ds" "shard_value (f (shardName n)) = Some (wrap64 (sum_list ds))"
  proof (cases "f (shardName n)")
    case None
    then show ?thesis using that [of "[]"] by (simp add: contents_def shard_value_def)
  next
    case (Some b)
    then show ?thesis using that \<open>shard_ok _\<close> by (auto simp: shard_ok_def contents_def shard_value_log)
  qed
  have c: "?f (shardName n) = Some (log_text (ds @ [d]))" using ds(2) by simp
  have e: "list_all in64 (ds @ [d])" using ds(1) assms(3) by simp
  have v: "val ?f = (val f)(shardName n := wrap64 (sum_list ds + d))"
    using val_upd_shard [OF assms(2), of f "Some (log_text (ds @ [d]))"] ds(2) shard_value_log [OF e] by simp
  have "visible me ?f = visible me f" using listed_cong [of ?f f] by (simp add: visible_def)
  moreover have "{m. val ?f m \<noteq> 0} \<subseteq> insert (shardName n) {m. val f m \<noteq> 0}" using v by auto
  moreover have "shard_ok (?f (shardName n))" using c e unfolding shard_ok_def by blast
  ultimately have "books_ok me ?f" using assms(1,4) by (auto simp: books_ok_def)
  moreover have "val f (shardName n) = wrap64 (sum_list ds)" using ds(3) assms(2) by (simp add: val_shard)
  then have "wrap64 (tot (val ?f)) = wrap64 (tot (val f) - wrap64 (sum_list ds) + (wrap64 (sum_list ds) + d))"
    using tot_upd [OF books_finite [OF assms(1)], of "shardName n" "wrap64 (sum_list ds + d)"] v
    by (metis wrap64_add_left wrap64_add_right)
  ultimately show ?thesis by simp
qed

lemma Add_books:
  assumes "books_ok me (vfiles v)" "lhandle_ok (vfiles v) l" "quiet v" "in64 d"
    and "registered l \<Longrightarrow> shardName (lnode l) \<in> visible me (vfiles v)" and "Add d l v = (e, l', v')"
  shows "e = None \<and> quiet v' \<and> books_ok me (vfiles v') \<and> lhandle_ok (vfiles v') l'
    \<and> (vfiles v ledgerIndexName \<noteq> None \<longrightarrow> vfiles v' ledgerIndexName \<noteq> None)
    \<and> wrap64 (tot (val (vfiles v'))) = wrap64 (tot (val (vfiles v)) + d)"
proof (cases "d = 0")
  case True
  then show ?thesis using assms by (simp add: Add_def)
next
  case False
  let ?s = "shardName (lnode l)"
  have l: "smem l = None" "node_ok (lnode l)" using assms(2) by (simp_all add: lhandle_ok_def)
  obtain w where w: "registerShard l v = (None, l\<lparr>registered := True\<rparr>, w)" "quiet w"
      "vfiles w = (if registered l then vfiles v else register_files ?s (vfiles v))"
    using registerShard_quiet [OF assms(3) l(1)] by blast
  have reg: "books_ok me (vfiles w)" "?s \<in> visible me (vfiles w)" "val (vfiles w) = val (vfiles v)" "vfiles w ledgerIndexName \<noteq> None"
    using books_registered [OF assms(1) l(2)] assms(1,2,5) w(3) by (auto simp: lhandle_ok_def visible_def listed_def)
  obtain u where u: "appendLine ?s (FormatInt d @ [newline]) (l\<lparr>registered := True\<rparr>) w = (None, l\<lparr>registered := True\<rparr>, u)" "quiet u"
      "vfiles u = (vfiles w)(?s \<mapsto> contents (vfiles w ?s) @ FormatInt d @ [newline])"
    using appendLine_quiet [OF w(2), of "l\<lparr>registered := True\<rparr>" ?s "FormatInt d @ [newline]"] l(1) by auto
  have r: "e = None" "l' = l\<lparr>registered := True\<rparr>" "v' = u" using assms(6) False w(1) u(1) by (simp_all add: Add_def)
  show ?thesis using books_appended [OF reg(1) l(2) assms(4) reg(2)] r u(2,3) reg(3,4) assms(2) by (simp add: lhandle_ok_def)
qed

lemma degrade_node: "degrade l v = (l', v') \<Longrightarrow> lnode l' = lnode l"
  by (auto simp: degrade_def split: option.splits prod.splits)

lemma mem_append_node [simp]: "lnode (mem_append n s l) = lnode l"
  by (simp add: mem_append_def split: option.split)

lemma put_file_node: "put_file n c l v = (l', v') \<Longrightarrow> lnode l' = lnode l"
  by (auto simp: put_file_def split: option.splits)

lemma appendLine_node: "appendLine n s l v = (e, l', v') \<Longrightarrow> lnode l' = lnode l"
  by (auto simp: appendLine_def Let_def split: option.splits prod.splits bool.splits if_splits dest!: degrade_node dest: put_file_node)

lemma writeAtomic_node: "writeAtomic n s l v = (e, l', v') \<Longrightarrow> lnode l' = lnode l"
  by (auto simp: writeAtomic_def split: option.splits prod.splits bool.splits if_splits dest!: degrade_node put_file_node)

lemma registerShard_node: "registerShard l v = (e, l', v') \<Longrightarrow> lnode l' = lnode l"
  by (auto simp: registerShard_def Let_def split: option.splits prod.splits sum.splits if_splits dest!: writeAtomic_node degrade_node)

lemma Add_node: "Add d l v = (e, l', v') \<Longrightarrow> lnode l' = lnode l"
  by (auto simp: Add_def split: option.splits prod.splits if_splits dest!: registerShard_node appendLine_node)

section \<open>Compaction\<close>

lemma visible_snap: "shardName n \<in> visible me f \<Longrightarrow> snapName n \<in> visible me f"
proof -
  have "snapName n \<in> listed f" if "shardName n \<in> index_lines f"
    using that by (auto simp: listed_def image_iff intro!: bexI [of _ "shardName n"])
  then show "shardName n \<in> visible me f \<Longrightarrow> snapName n \<in> visible me f"
    by (auto simp: visible_def listed_def own_names_def split: if_splits option.splits)
qed

lemma books_folded:
  assumes "books_ok me f" "node_ok n" "shard_value (f (shardName n)) = Some own" "number_value (f (snapName n)) = Some base"
    and "c = Some [] \<or> c = None \<and> f (shardName n) = None"
  defines "f' \<equiv> f(snapName n \<mapsto> FormatInt (wrap64 (base + own)) @ [newline], shardName n := c)"
  shows "books_ok me f' \<and> wrap64 (tot (val f')) = wrap64 (tot (val f))"
proof -
  let ?g = "(val f)(snapName n := wrap64 (base + own))"
  have c: "shard_ok c" "shard_value c = Some 0"
    using assms(5) shard_value_log [of "[]"] by (auto simp: shard_ok_def intro: exI [of _ "[]"]) (simp add: shard_value_def)
  have v: "val f' = ?g(shardName n := 0)"
    using c(2) by (simp add: f'_def val_upd_shard val_upd_snap assms(2) number_value_line)
  have old: "val f (shardName n) = own" "val f (snapName n) = base" using assms(2-4) by (simp_all add: val_shard val_snap)
  have "visible me f' = visible me f" using listed_cong [of f' f] by (simp add: f'_def visible_def)
  moreover have "snapName n \<in> visible me f" if "wrap64 (base + own) \<noteq> 0"
  proof (cases "base = 0")
    case True
    then have "own \<noteq> 0" using that by auto
    then have "shardName n \<in> visible me f" using assms(1) old by (auto simp: books_ok_def)
    then show ?thesis by (rule visible_snap)
  next
    case False
    then show ?thesis using assms(1) old by (auto simp: books_ok_def)
  qed
  then have "{m. val f' m \<noteq> 0} \<subseteq> visible me f" using assms(1) v by (auto simp: books_ok_def split: if_splits)
  moreover have "snap_ok (f' (snapName n))" by (auto simp: snap_ok_def f'_def intro: exI [of _ "wrap64 (base + own)"])
  ultimately have "books_ok me f'" using assms(1) c(1) by (auto simp: books_ok_def f'_def)
  moreover have t: "tot (val f') = (tot (val f) - base - own) + wrap64 (base + own)"
    using tot_upd [OF books_finite [OF assms(1)], of "snapName n" "wrap64 (base + own)"]
      tot_upd [of ?g "shardName n" 0] v old by simp
  have "wrap64 (tot (val f')) = wrap64 (tot (val f))" unfolding t by simp
  ultimately show ?thesis by simp
qed

lemma Compact_books:
  assumes "books_ok me (vfiles v)" "lhandle_ok (vfiles v) l" "quiet v" "Compact l v = (e, l', v')"
  shows "quiet v' \<and> books_ok me (vfiles v') \<and> l' = l \<and> vfiles v' ledgerIndexName = vfiles v ledgerIndexName
    \<and> wrap64 (tot (val (vfiles v'))) = wrap64 (tot (val (vfiles v)))"
proof -
  let ?s = "shardName (lnode l)" and ?b = "snapName (lnode l)" and ?f = "vfiles v"
  have l: "smem l = None" "node_ok (lnode l)" using assms(2) by (simp_all add: lhandle_ok_def)
  obtain own base where vals: "shard_value (?f ?s) = Some own" "number_value (?f ?b) = Some base"
    using assms(1) l(2) shard_ok_value snap_ok_value unfolding books_ok_def by blast
  obtain w where w: "writeAtomic ?b (FormatInt (wrap64 (base + own)) @ [newline]) l (tick (tick v)) = (None, l, w)" "quiet w"
      "vfiles w = ?f(?b \<mapsto> FormatInt (wrap64 (base + own)) @ [newline])"
    using writeAtomic_quiet [of "tick (tick v)" l] assms(3) l(1) by (metis tick_simps(1,2))
  obtain e2 u where u: "truncate_file ?s l w = (e2, l, u)" "quiet u"
      "vfiles u = (vfiles w)(?s \<mapsto> []) \<or> vfiles u = vfiles w \<and> vfiles w ?s = None"
    using truncate_quiet [OF w(2) l(1)] by blast
  have r: "l' = l" "v' = u" using assms(3,4) l(1) vals w(1) u(1) by (simp_all add: Compact_def readShard_def readNumber_def)
  have "\<exists>c. vfiles u = ?f(?b \<mapsto> FormatInt (wrap64 (base + own)) @ [newline], ?s := c) \<and> (c = Some [] \<or> c = None \<and> ?f ?s = None)"
    using u(3) w(3) by (auto simp: fun_eq_iff)
  then obtain c where c: "vfiles u = ?f(?b \<mapsto> FormatInt (wrap64 (base + own)) @ [newline], ?s := c)" "c = Some [] \<or> c = None \<and> ?f ?s = None"
    by blast
  show ?thesis using books_folded [OF assms(1) l(2) vals c(2)] c(1) r u(2) by simp
qed

section \<open>Reaping\<close>

definition reapable :: "files \<Rightarrow> string \<Rightarrow> bool" where
  "reapable f s \<longleftrightarrow> shard_like (base_name s) \<and> (\<exists>b. f s = Some b \<and> TrimSpace b = [])"

definition retained :: "files \<Rightarrow> string \<Rightarrow> bool" where
  "retained f s \<longleftrightarrow> shard_like (base_name s) \<and> (\<exists>b. f (snap_of (base_name s)) = Some b \<and> TrimSpace b \<noteq> ''0'')"

definition kept_names :: "files \<Rightarrow> string list \<Rightarrow> string \<Rightarrow> string list" where
  "kept_names f drops line =
     (let s = TrimSpace line in
      if s = [] then [] else if s \<notin> set drops then [s]
      else if retained f s then [snap_of (base_name s)] else [])"

lemma empty_shards_quiet:
  "quiet v \<Longrightarrow> smem l = None \<Longrightarrow>
    \<exists>w. empty_shards ns l v = (filter (reapable (vfiles v)) ns, w) \<and> quiet w \<and> vfiles w = vfiles v"
proof (induction ns arbitrary: v)
  case (Cons s ns)
  obtain w u where "empty_shards ns l v = (filter (reapable (vfiles v)) ns, w)" "quiet w" "vfiles w = vfiles v"
      "empty_shards ns l (tick v) = (filter (reapable (vfiles v)) ns, u)" "quiet u" "vfiles u = vfiles v"
    using Cons.IH [of v] Cons.IH [of "tick v"] Cons.prems by auto
  then show ?case using Cons.prems by (cases "vfiles v s") (auto simp: reapable_def [of _ s])
qed simp

lemma retainSnap_quiet:
  "quiet v \<Longrightarrow> smem l = None \<Longrightarrow>
    \<exists>w. retainSnapOfShard s l v = (if retained (vfiles v) s then snap_of (base_name s) else [], w) \<and> quiet w \<and> vfiles w = vfiles v"
  by (auto simp: retainSnapOfShard_def retained_def Let_def split: option.splits)

lemma kept_lines_quiet:
  "quiet v \<Longrightarrow> smem l = None \<Longrightarrow>
    \<exists>w. kept_lines ls drops l v = (concat (map (kept_names (vfiles v) drops) ls), w) \<and> quiet w \<and> vfiles w = vfiles v"
proof (induction ls arbitrary: v)
  case (Cons line ls)
  let ?s = "TrimSpace line"
  obtain u where u: "retainSnapOfShard ?s l v = (if retained (vfiles v) ?s then snap_of (base_name ?s) else [], u)" "quiet u" "vfiles u = vfiles v"
    using retainSnap_quiet [OF Cons.prems] by blast
  obtain w where w: "kept_lines ls drops l v = (concat (map (kept_names (vfiles v) drops) ls), w)" "quiet w" "vfiles w = vfiles v"
    using Cons.IH [OF Cons.prems] by blast
  obtain x where x: "kept_lines ls drops l u = (concat (map (kept_names (vfiles v) drops) ls), x)" "quiet x" "vfiles x = vfiles v"
    using Cons.IH [OF u(2) Cons.prems(2)] u(3) by auto
  show ?case using u w x by (auto simp: kept_names_def [of _ _ line] Let_def)
qed simp

lemma reapable_shard:
  assumes "books_ok me f" "ledger_file s" "reapable f s"
  shows "\<exists>n. node_ok n \<and> s = shardName n \<and> f s = Some [] \<and> val f s = 0"
proof -
  obtain n where n: "node_ok n" "s = shardName n"
    using assms(2,3) ledger_file_plain [of s] by (auto simp: ledger_file_def reapable_def)
  then have "shard_ok (f s)" using assms(1) by (simp add: books_ok_def)
  then have "f s = Some []" using assms(3) by (auto simp: shard_ok_def reapable_def TrimSpace_log)
  then show ?thesis using n shard_value_log [of "[]"] by (simp add: val_shard)
qed

text \<open>A baseline that is not zero is written to the new index when its shard leaves it.\<close>

lemma nonzero_retained:
  assumes "books_ok me f" "node_ok n" "val f (snapName n) \<noteq> 0"
  shows "retained f (shardName n)"
proof -
  have "snap_ok (f (snapName n))" using assms(1,2) by (simp add: books_ok_def)
  moreover have "f (snapName n) \<noteq> None" using assms(2,3) by (cases "f (snapName n)") (auto simp: val_snap number_value_def)
  ultimately obtain k where k: "in64 k" "f (snapName n) = Some (FormatInt k @ [newline])" by (auto simp: snap_ok_def)
  then have "k \<noteq> 0" using assms(2,3) by (auto simp: val_snap number_value_line)
  moreover have "FormatInt 0 = ''0''" by code_simp
  ultimately have "FormatInt k \<noteq> ''0''" using FormatInt_inj [of k 0] by metis
  then show ?thesis
    using k(2) assms(2) ledger_file_plain [of "shardName n"] by (simp add: retained_def TrimSpace_line printable_FormatInt FormatInt_ne)
qed

lemma set_kept_names:
  assumes "f ledgerIndexName = Some ib" "index_ok (f ledgerIndexName)"
  shows "set (concat (map (kept_names f drops) (split_newlines ib)))
    = (index_lines f - set drops) \<union> snap_of ` {s \<in> index_lines f. s \<in> set drops \<and> retained f s}"
proof -
  have lines: "index_lines f = TrimSpace ` set (split_newlines ib) - {[]}" using assms(1) by (simp add: index_lines_def contents_def)
  have "base_name s = s" if "s \<in> index_lines f" for s using index_lines_files [of f, OF assms(2) that] ledger_file_plain by blast
  then have "snap_of ` {s \<in> index_lines f. s \<in> set drops \<and> retained f s}
      = (\<lambda>s. snap_of (base_name s)) ` {s \<in> index_lines f. s \<in> set drops \<and> retained f s}" by (intro image_cong) auto
  then show ?thesis unfolding lines by (auto simp: kept_names_def Let_def split: if_splits)
qed

lemma val_cleared:
  assumes "\<And>s. s \<in> D \<Longrightarrow> \<exists>n. node_ok n \<and> s = shardName n \<and> val f s = 0"
  shows "val (\<lambda>n. if n \<in> D then None else (f(ledgerIndexName := c)) n) = val f"
proof
  fix s
  let ?f = "\<lambda>n. if n \<in> D then None else (f(ledgerIndexName := c)) n"
  show "val ?f s = val f s"
  proof (cases "s \<in> D")
    case True
    then obtain n where "node_ok n" "s = shardName n" "val f s = 0" using assms by blast
    then show ?thesis using True by (simp add: val_shard shard_value_def)
  next
    case False
    then have "val ?f s = val (f(ledgerIndexName := c)) s" by (simp add: val_def name_value_def)
    then show ?thesis by (simp add: val_upd_index)
  qed
qed

lemma listed_kept:
  assumes "books_ok me f" "s \<in> listed f" "val f s \<noteq> 0" "\<And>d. d \<in> D \<Longrightarrow> \<exists>n. node_ok n \<and> d = shardName n \<and> val f d = 0"
    and "index_lines f' = (index_lines f - D) \<union> snap_of ` {s \<in> index_lines f. s \<in> D \<and> retained f s}"
  shows "s \<in> listed f'"
proof -
  consider "s \<in> index_lines f" | x where "x \<in> index_lines f" "shard_like x" "s = snap_of x" using assms(2) by (auto simp: listed_def)
  then show ?thesis
  proof cases
    case 1
    then show ?thesis using assms by (auto simp: listed_def)
  next
    case 2
    show ?thesis
    proof (cases "x \<in> D")
      case False
      then show ?thesis using 2 assms(5) by (auto simp: listed_def)
    next
      case True
      then obtain n where "node_ok n" "x = shardName n" using assms(4) by blast
      then have "retained f x" using nonzero_retained [OF assms(1)] assms(3) 2(3) by simp
      then show ?thesis using 2 True assms(5) by (auto simp: listed_def)
    qed
  qed
qed

lemma books_reaped:
  assumes "books_ok me f" "f ledgerIndexName = Some ib" "\<forall>s\<in>set drops. ledger_file s \<and> reapable f s"
  defines "f' \<equiv> (\<lambda>n. if n \<in> set drops then None
      else (f(ledgerIndexName \<mapsto> join_nl (concat (map (kept_names f drops) (split_newlines ib))) @ [newline])) n)"
  shows "books_ok me f' \<and> val f' = val f \<and> f' ledgerIndexName \<noteq> None"
proof -
  define K where "K = concat (map (kept_names f drops) (split_newlines ib))"
  have shard: "\<exists>n. node_ok n \<and> s = shardName n \<and> val f s = 0" if "s \<in> set drops" for s
    using reapable_shard [OF assms(1)] assms(3) that by blast
  have ok: "index_ok (f ledgerIndexName)" using assms(1) by (simp add: books_ok_def)
  have K: "set K = (index_lines f - set drops) \<union> snap_of ` {s \<in> index_lines f. s \<in> set drops \<and> retained f s}"
    unfolding K_def by (rule set_kept_names [of f, OF assms(2) ok])
  let ?ls = "if K = [] then [[]] else K"
  have "ledgerIndexName \<notin> set drops" using shard by fastforce
  then have i: "f' ledgerIndexName = Some (text_of ?ls)" using join_nl_text [of K] by (simp add: f'_def K_def)
  have "ledger_file (snap_of s)" if "s \<in> set drops" for s using shard [OF that] by auto
  then have files: "\<forall>s\<in>set K. ledger_file s" using K index_lines_files [of f, OF ok] by auto
  then have l: "\<forall>s\<in>set ?ls. s = [] \<or> ledger_file s" by simp
  have "index_lines f' = set K" unfolding index_lines_text [of f', OF i l] using files ledger_file_plain by auto
  then have lk: "index_lines f' = (index_lines f - set drops) \<union> snap_of ` {s \<in> index_lines f. s \<in> set drops \<and> retained f s}" by (simp only: K)
  have keep: "s \<in> listed f'" if "s \<in> listed f" "val f s \<noteq> 0" for s by (rule listed_kept [OF assms(1) that _ lk]) (rule shard)
  have "{s. val f s \<noteq> 0} \<subseteq> visible me f" using assms(1) by (simp add: books_ok_def)
  then have "{s. val f s \<noteq> 0} \<subseteq> visible me f'" using keep i assms(2) by (auto simp: visible_def)
  moreover have "val f' = val f" unfolding f'_def by (rule val_cleared) (rule shard)
  moreover have "index_ok (f' ledgerIndexName)" unfolding index_ok_def using i l by blast
  moreover have "shard_ok (f' (shardName n)) \<and> snap_ok (f' (snapName n))" if "node_ok n" for n
    using assms(1) that by (auto simp: books_ok_def f'_def shard_ok_def snap_ok_def)
  ultimately show ?thesis using i by (auto simp: books_ok_def)
qed

lemma reap_books:
  assumes "books_ok me (vfiles v)" "lhandle_ok (vfiles v) l" "quiet v" "reapEmptyShards l v = (e, l', v')"
  shows "e = None \<and> quiet v' \<and> books_ok me (vfiles v') \<and> l' = l \<and> (vfiles v ledgerIndexName \<noteq> None \<longrightarrow> vfiles v' ledgerIndexName \<noteq> None)
    \<and> val (vfiles v') = val (vfiles v)"
proof -
  let ?f = "vfiles v"
  have l: "smem l = None" and ok: "index_ok (?f ledgerIndexName)" using assms(1,2) by (simp_all add: lhandle_ok_def books_ok_def)
  obtain r w where r: "shardNames l v = (r, w)" by (cases "shardNames l v")
  obtain ns where ns: "r = Inr ns" "quiet w" "vfiles w = ?f" "\<forall>n\<in>set ns. ledger_file n"
    using shardNames_read [OF assms(2) refl ok r] assms(3) by auto
  obtain u where u: "empty_shards ns l w = (filter (reapable ?f) ns, u)" "quiet u" "vfiles u = ?f"
    using empty_shards_quiet [OF ns(2) l, of ns] ns(3) by auto
  have em: "emptyShardNames l v = (filter (reapable ?f) ns, u)" using r ns(1) u(1) by (simp add: emptyShardNames_def)
  show ?thesis
  proof (cases "filter (reapable ?f) ns = []")
    case True
    then show ?thesis using assms em u by (simp add: reapEmptyShards_def)
  next
    case False
    define D where "D = filter (reapable ?f) ns"
    have D: "\<forall>s\<in>set D. ledger_file s \<and> reapable ?f s" using ns(4) by (simp add: D_def)
    obtain ib where ib: "?f ledgerIndexName = Some ib"
    proof (cases "?f ledgerIndexName")
      case None
      then have "ns = []" using r ns(1) l assms(2,3) by (auto simp: shardNames_def lhandle_ok_def)
      then show ?thesis using False by simp
    qed (rule that)
    obtain x where x: "kept_lines (split_newlines ib) D l (tick u) = (concat (map (kept_names ?f D) (split_newlines ib)), x)" "quiet x" "vfiles x = ?f"
      using kept_lines_quiet [of "tick u" l] u l by (metis tick_simps(1,2))
    obtain y where y: "writeAtomic ledgerIndexName (join_nl (concat (map (kept_names ?f D) (split_newlines ib))) @ [newline]) l x = (None, l, y)"
        "quiet y" "vfiles y = ?f(ledgerIndexName \<mapsto> join_nl (concat (map (kept_names ?f D) (split_newlines ib))) @ [newline])"
      using writeAtomic_quiet [OF x(2) l] x(3) by metis
    have un: "unindexShards D l u = (None, l, y)" using u l ib x(1) y(1) by (simp add: unindexShards_def)
    obtain z where z: "delete_files D l y = (l, z)" "quiet z" "vfiles z = (\<lambda>n. if n \<in> set D then None else vfiles y n)"
      using delete_files_quiet [OF y(2) l] by blast
    have "e = None" "l' = l" and v': "v' = z" using assms(4) em False un z(1) by (simp_all add: reapEmptyShards_def D_def)
    then show ?thesis using books_reaped [of me ?f, OF assms(1) ib D] z(2) unfolding v' z(3) y(3) by blast
  qed
qed

section \<open>All histories\<close>

text \<open>
  \<open>books v H g\<close>: the volume \<open>v\<close> is reached from an empty one by processes with the handles \<open>H\<close>, and the deltas added so far sum up to \<open>g\<close>.
  Handles may share a node name. A process whose shard has been reaped by another one no longer writes: the handle remembers
  that it has registered, and the shard it would write to is not in the index any more.
\<close>

type_synonym handles = "nat \<Rightarrow> ledger option"

definition may_add :: "ledger \<Rightarrow> volume \<Rightarrow> bool" where
  "may_add l v \<longleftrightarrow> (registered l \<longrightarrow> shardName (lnode l) \<in> index_lines (vfiles v))"

inductive books :: "volume \<Rightarrow> handles \<Rightarrow> int \<Rightarrow> bool" where
  books_start: "vfiles v = Map.empty \<Longrightarrow> quiet v \<Longrightarrow> books v Map.empty 0"
| books_open: "books v H g \<Longrightarrow> k \<noteq> MemStore \<Longrightarrow> newLedger k node = Inr l \<Longrightarrow> books v (H(p \<mapsto> l)) g"
| books_add: "books v H g \<Longrightarrow> H p = Some l \<Longrightarrow> may_add l v \<Longrightarrow> in64 d \<Longrightarrow> Add d l v = (e, l', v') \<Longrightarrow>
    books v' (H(p \<mapsto> l')) (wrap64 (g + d))"
| books_compact: "books v H g \<Longrightarrow> H p = Some l \<Longrightarrow> Compact l v = (e, l', v') \<Longrightarrow> books v' (H(p \<mapsto> l')) g"
| books_reap: "books v H g \<Longrightarrow> H p = Some l \<Longrightarrow> reapEmptyShards l v = (e, l', v') \<Longrightarrow> books v' (H(p \<mapsto> l')) g"
| books_total: "books v H g \<Longrightarrow> H p = Some l \<Longrightarrow> Total l v = (t, l', v') \<Longrightarrow> books v' (H(p \<mapsto> l')) g"

lemma scan_keeps: "smem l = None \<Longrightarrow> scan_names ns l t b v = (r, v') \<Longrightarrow> vfiles v' = vfiles v \<and> (quiet v \<longrightarrow> quiet v')"
proof (induction ns arbitrary: t b v)
  case (Cons raw ns)
  obtain q w where q: "readFile raw l v = (q, w)" by (cases "readFile raw l v")
  note w = readFile_pair [OF Cons.prems(1) q]
  have "\<exists>t b u. (u = v \<or> u = w) \<and> scan_names ns l t b u = (r, v')"
    using Cons.prems(2) q by (auto simp: scan_step simp del: scan_names.simps split: if_splits sum.splits option.splits)
  then show ?case using Cons.IH [OF Cons.prems(1)] w by metis
qed simp

lemma Total_keeps:
  assumes "lhandle_ok (vfiles v) l" "books_ok me (vfiles v)" "Total l v = (t, l', v')"
  shows "vfiles v' = vfiles v \<and> (quiet v \<longrightarrow> quiet v') \<and> (\<exists>c. l' = l\<lparr>corrupt := c\<rparr>)"
proof -
  obtain r w where r: "shardNames l v = (r, w)" by (cases "shardNames l v")
  have w: "vfiles w = vfiles v" "quiet v \<longrightarrow> quiet w"
    using shardNames_read [OF assms(1) refl _ r] assms(2) by (auto simp: books_ok_def)
  have l: "smem l = None" using assms(1) by (simp add: lhandle_ok_def)
  show ?thesis
  proof (cases r)
    case (Inl e)
    then show ?thesis using assms(3) r w by (auto simp: Total_def)
  next
    case (Inr ns)
    obtain q u where q: "scan_names ns l 0 False w = (q, u)" by (cases "scan_names ns l 0 False w")
    have "vfiles u = vfiles v \<and> (quiet v \<longrightarrow> quiet u)" using scan_keeps [OF l q] w by auto
    then show ?thesis using assms(3) r Inr q by (cases q) (auto simp: Total_def split: if_splits)
  qed
qed

lemma lhandle_ok_mono: "lhandle_ok f l \<Longrightarrow> (f ledgerIndexName \<noteq> None \<longrightarrow> f' ledgerIndexName \<noteq> None) \<Longrightarrow> lhandle_ok f' l"
  by (auto simp: lhandle_ok_def)

lemma newLedger_ok: "newLedger k node = Inr l \<Longrightarrow> k \<noteq> MemStore \<Longrightarrow> lhandle_ok f l"
  by (auto simp: newLedger_def lhandle_ok_def sanitizeLedgerNode_ok split: if_splits)

lemma books_empty: "books_ok me Map.empty \<and> tot (val Map.empty) = 0"
proof -
  have "val Map.empty = (\<lambda>_. 0)" by (auto simp: val_def name_value_def number_value_def shard_value_def fun_eq_iff)
  then show ?thesis by (simp add: books_ok_def visible_def index_ok_def shard_ok_def snap_ok_def tot_def)
qed

lemma books_invariant:
  "books v H g \<Longrightarrow> quiet v \<and> books_ok None (vfiles v) \<and> wrap64 (tot (val (vfiles v))) = g \<and> (\<forall>p l. H p = Some l \<longrightarrow> lhandle_ok (vfiles v) l)"
proof (induction rule: books.induct)
  case (books_start v)
  then show ?case using books_empty [of None] by simp
next
  case (books_open v H g k node l p)
  then show ?case using newLedger_ok by simp
next
  case (books_add v H g p l d e l' v')
  have h: "lhandle_ok (vfiles v) l" using books_add by blast
  have m: "registered l \<Longrightarrow> shardName (lnode l) \<in> visible None (vfiles v)"
    using \<open>may_add l v\<close> h by (auto simp: may_add_def visible_def listed_def lhandle_ok_def)
  note a = Add_books [of None v, OF _ h _ \<open>in64 d\<close> m \<open>Add d l v = (e, l', v')\<close>]
  have "quiet v' \<and> books_ok None (vfiles v') \<and> lhandle_ok (vfiles v') l' \<and> (vfiles v ledgerIndexName \<noteq> None \<longrightarrow> vfiles v' ledgerIndexName \<noteq> None)
      \<and> wrap64 (tot (val (vfiles v'))) = wrap64 (tot (val (vfiles v)) + d)"
    using a books_add.IH by simp
  then show ?case using books_add.IH lhandle_ok_mono by (metis map_upd_Some_unfold wrap64_add_left)
next
  case (books_compact v H g p l e l' v')
  then have h: "lhandle_ok (vfiles v) l" by blast
  show ?case using Compact_books [of None v, OF _ h _ \<open>Compact l v = (e, l', v')\<close>] books_compact.IH h lhandle_ok_mono by (metis map_upd_Some_unfold)
next
  case (books_reap v H g p l e l' v')
  then have h: "lhandle_ok (vfiles v) l" by blast
  show ?case using reap_books [of None v, OF _ h _ \<open>reapEmptyShards l v = (e, l', v')\<close>] books_reap.IH h lhandle_ok_mono by (metis map_upd_Some_unfold)
next
  case (books_total v H g p l t l' v')
  then have h: "lhandle_ok (vfiles v) l" by blast
  obtain c where c: "vfiles v' = vfiles v" "quiet v'" "l' = l\<lparr>corrupt := c\<rparr>"
    using Total_keeps [of v, OF h _ \<open>Total l v = (t, l', v')\<close>] books_total.IH by blast
  then have "lhandle_ok (vfiles v') l'" using h by (simp add: lhandle_ok_def)
  then show ?case using c books_total.IH by simp
qed



section \<open>Where the books do not balance\<close>

text \<open>A process writes on after another one has reaped its compacted shard: it sees its own addition, the other process does not.\<close>

definition reaped_then_added :: "int option \<times> int option" where
  "reaped_then_added =
     (let v = \<lparr>vfiles = Map.empty, vfault = (\<lambda>_. False), vcount = 0\<rparr>;
          a = \<lparr>skind = FsStore, smem = None, lnode = ''a'', corrupt = False, registered = False\<rparr>;
          b = a\<lparr>lnode := ''b''\<rparr>;
          (_, a, v) = Add 5 a v; (_, a, v) = Compact a v; (_, b, v) = reapEmptyShards b v; (_, a, v) = Add 7 a v
      in (fst (Total a v), fst (Total b v)))"

lemma reaped_owner_unseen: "reaped_then_added = (Some 12, Some 5)"
  by code_simp

text \<open>A failed read of the baseline while its shard is reaped takes it out of the index: afterwards nothing fails, and the total is wrong.\<close>

definition reaped_under_fault :: "int option \<times> int option" where
  "reaped_under_fault =
     (let v = \<lparr>vfiles = Map.empty, vfault = (\<lambda>_. False), vcount = 0\<rparr>;
          a = \<lparr>skind = FsStore, smem = None, lnode = ''a'', corrupt = False, registered = False\<rparr>;
          b = a\<lparr>lnode := ''b''\<rparr>;
          (_, a, v) = Add 5 a v; (_, a, v) = Compact a v; before = fst (Total b v);
          (_, b, v) = reapEmptyShards b (v\<lparr>vfault := (\<lambda>k. k = vcount v + 4)\<rparr>)
      in (before, fst (Total b (v\<lparr>vfault := (\<lambda>_. False)\<rparr>))))"

lemma reap_fault_loses_baseline: "reaped_under_fault = (Some 5, Some 0)"
  by code_simp

end
