(* ===== verification/Vol_Counter.thy ===== *)
theory Vol_Counter
  imports Vol_Books Reserve_Spec
begin

text \<open>
  The capacity counter of a volume, \<open>LedgerCounter\<close> of \<open>pkg/volume/capacity/ledger.go\<close> and \<open>trueusage.go\<close>: the limit of the
  volume is checked against the total of the ledger, a reservation in the quota tree covers the limits above the volume, and
  the ledger records the bytes. The locale \<open>capacity_counter\<close> is the contract of the interface \<open>Counter\<close>, which the file system on
  top relies on; its interpretation here shows that the ledger counter keeps it.
\<close>

section \<open>Operations\<close>

record ledger_counter =
  cl :: "ledger option"
  cmax :: int
  cpool :: "pid option"
  initErr :: bool

record world =
  wvol :: volume
  wpools :: store

datatype counter_error = CounterDegraded | VolumeFull | LedgerFailed ledger_error

type_synonym counter_step = "ledger_counter \<Rightarrow> world \<Rightarrow> counter_error option \<times> ledger_counter \<times> world"

definition NewLedgerCounter :: "ledger \<Rightarrow> int \<Rightarrow> ledger_counter" where
  "NewLedgerCounter l mx = \<lparr>cl = Some l, cmax = mx, cpool = None, initErr = False\<rparr>"

definition WithPool :: "pid option \<Rightarrow> ledger_counter \<Rightarrow> ledger_counter" where
  "WithPool p c = c\<lparr>cpool := p\<rparr>"

definition withLock :: "(int \<Rightarrow> counter_step) \<Rightarrow> counter_step" where
  "withLock fn c w =
     (case cl c of
        None \<Rightarrow> (Some CounterDegraded, c, w)
      | Some l \<Rightarrow>
          (case Total l (wvol w) of
             (None, l, v) \<Rightarrow> (Some CounterDegraded, c\<lparr>cl := Some l\<rparr>, w\<lparr>wvol := v\<rparr>)
           | (Some t, l, v) \<Rightarrow> fn t (c\<lparr>cl := Some l\<rparr>) (w\<lparr>wvol := v\<rparr>)))"

definition ledger_add :: "int \<Rightarrow> counter_step" where
  "ledger_add d c w =
     (case cl c of
        None \<Rightarrow> (Some CounterDegraded, c, w)
      | Some l \<Rightarrow> (case Add d l (wvol w) of
          (e, l, v) \<Rightarrow> (map_option LedgerFailed e, c\<lparr>cl := Some l\<rparr>, w\<lparr>wvol := v\<rparr>)))"

definition addWithinLock :: "int \<Rightarrow> int \<Rightarrow> counter_step" where
  "addWithinLock t n c w =
     (if 0 < cmax c \<and> cmax c < wrap64 (t + n) then (Some VolumeFull, c, w)
      else case cpool c of
        None \<Rightarrow> ledger_add n c w
      | Some p \<Rightarrow>
          (case Pool_TryReserve (wpools w) p n of
             (Inl e, s) \<Rightarrow> (Some VolumeFull, c, w\<lparr>wpools := s\<rparr>)
           | (Inr r, s) \<Rightarrow>
               (case ledger_add n c (w\<lparr>wpools := s\<rparr>) of
                  (Some e, c, w) \<Rightarrow> (Some e, c, w\<lparr>wpools := snd (Reservation_Release (wpools w) r)\<rparr>)
                | (None, c, w) \<Rightarrow> (None, c, w\<lparr>wpools := snd (Reservation_Commit (wpools w) r n)\<rparr>))))"

definition TryAdd :: "int \<Rightarrow> counter_step" where
  "TryAdd n c w =
     (if n \<le> 0 then (None, c, w)
      else if initErr c then (Some CounterDegraded, c, w)
      else withLock (\<lambda>t. addWithinLock t n) c w)"

definition mirrorToPool :: "int \<Rightarrow> ledger_counter \<Rightarrow> world \<Rightarrow> world" where
  "mirrorToPool d c w =
     (case cpool c of
        None \<Rightarrow> w
      | Some p \<Rightarrow>
          if d = 0 then w
          else if 0 < d then w\<lparr>wpools := Pool_Adjust (wpools w) p 0 d\<rparr>
          else w\<lparr>wpools := Pool_Adjust (wpools w) p (wrap64 (- d)) 0\<rparr>)"

definition move_total :: "int \<Rightarrow> counter_step" where
  "move_total d c w =
     (case ledger_add d c w of (Some e, c, w) \<Rightarrow> (Some e, c, w) | (None, c, w) \<Rightarrow> (None, c, mirrorToPool d c w))"

definition Counter_Release :: "int \<Rightarrow> ledger_counter \<Rightarrow> world \<Rightarrow> ledger_counter \<times> world" where
  "Counter_Release n c w =
     (if cl c = None \<or> n \<le> 0 then (c, w)
      else snd (withLock (\<lambda>t c w.
        let n = (if t < n then t else n) in if n \<le> 0 then (None, c, w) else move_total (wrap64 (- n)) c w) c w))"

definition Used :: "ledger_counter \<Rightarrow> world \<Rightarrow> int \<times> ledger_counter \<times> world" where
  "Used c w =
     (case cl c of
        None \<Rightarrow> (0, c, w)
      | Some l \<Rightarrow> (case Total l (wvol w) of
          (t, l, v) \<Rightarrow> (case t of None \<Rightarrow> 0 | Some t \<Rightarrow> t, c\<lparr>cl := Some l\<rparr>, w\<lparr>wvol := v\<rparr>)))"

definition Counter_Degraded :: "ledger_counter \<Rightarrow> bool" where
  "Counter_Degraded c \<longleftrightarrow> (case cl c of None \<Rightarrow> True | Some l \<Rightarrow> initErr c \<or> corrupt l)"

definition CorrectTo :: "int \<Rightarrow> ledger_counter \<Rightarrow> world \<Rightarrow> ledger_counter \<times> world" where
  "CorrectTo n c w =
     (let n = (if n < 0 then 0 else n) in
      if cl c = None then (c, w)
      else snd (withLock (\<lambda>t c w.
        let d = wrap64 (n - t) in if d = 0 then (None, c, w) else move_total d c w) c w))"

text \<open>The reporter of the true usage: none, one that does not know, or one that knows.\<close>

definition CorrectFrom :: "int option option \<Rightarrow> ledger_counter \<Rightarrow> world \<Rightarrow> (int \<times> bool) \<times> ledger_counter \<times> world" where
  "CorrectFrom r c w =
     (case r of
        Some (Some n) \<Rightarrow> (case CorrectTo n c w of (c, w) \<Rightarrow> ((n, True), c, w))
      | _ \<Rightarrow> (case Used c w of (n, c, w) \<Rightarrow> ((n, False), c, w)))"

definition Counter_Compact :: counter_step where
  "Counter_Compact c w =
     (case cl c of
        None \<Rightarrow> (None, c, w)
      | Some l \<Rightarrow> (case Compact l (wvol w) of
          (e, l, v) \<Rightarrow> (map_option LedgerFailed e, c\<lparr>cl := Some l\<rparr>, w\<lparr>wvol := v\<rparr>)))"

definition ReapEmptyShards :: counter_step where
  "ReapEmptyShards c w =
     (case cl c of
        None \<Rightarrow> (None, c, w)
      | Some l \<Rightarrow> (case reapEmptyShards l (wvol w) of
          (e, l, v) \<Rightarrow> (map_option LedgerFailed e, c\<lparr>cl := Some l\<rparr>, w\<lparr>wvol := v\<rparr>)))"

text \<open>
  Construction, with the usage known from an earlier life of the volume as baseline. \<open>opened\<close> says whether the directory of the ledger
  could be made; on the volume's own file system a failure falls back to memory, on the node's disk it refuses all writes.
\<close>

definition with_baseline :: "int \<Rightarrow> pid option \<Rightarrow> int \<Rightarrow> ledger \<Rightarrow> volume \<Rightarrow> ledger_counter \<times> volume" where
  "with_baseline mx p base l v =
     (let inject = (\<lambda>l v. case Add base l v of
          (Some e, l, v) \<Rightarrow> (\<lparr>cl = None, cmax = mx, cpool = None, initErr = True\<rparr>, v)
        | (None, l, v) \<Rightarrow> (WithPool p (NewLedgerCounter l mx), v))
      in if base \<le> 0 then (WithPool p (NewLedgerCounter l mx), v)
         else if skind l = MemStore then inject l v
         else case Total l v of
           (t, l, v) \<Rightarrow> if t = Some 0 then inject l v else (WithPool p (NewLedgerCounter l mx), v))"

definition newVolumeLedgerCounter :: "bool \<Rightarrow> string \<Rightarrow> int \<Rightarrow> pid option \<Rightarrow> int \<Rightarrow> volume \<Rightarrow> ledger_counter \<times> volume" where
  "newVolumeLedgerCounter opened node mx p base v =
     (case newLedger (if opened then FsStore else MemStore) node of
        Inl e \<Rightarrow> (\<lparr>cl = None, cmax = mx, cpool = None, initErr = True\<rparr>, v)
      | Inr l \<Rightarrow> with_baseline mx p base l v)"

definition newVolumeLedgerCounterLocal :: "bool \<Rightarrow> string \<Rightarrow> int \<Rightarrow> pid option \<Rightarrow> int \<Rightarrow> volume \<Rightarrow> ledger_counter \<times> volume" where
  "newVolumeLedgerCounterLocal opened node mx p base v =
     (if \<not> opened then (\<lparr>cl = None, cmax = mx, cpool = None, initErr = True\<rparr>, v)
      else case newLedger OsStore node of
        Inl e \<Rightarrow> (\<lparr>cl = None, cmax = mx, cpool = None, initErr = True\<rparr>, v)
      | Inr l \<Rightarrow> with_baseline mx p base l v)"

section \<open>The contract of a counter\<close>

text \<open>
  What the file system on top relies on: an addition is refused without effect or recorded within the limit, and a release takes off
  what it says, but never more than there is. The bound on \<open>n\<close> excludes sums beyond \<open>int64\<close>, on which the limit check wraps around.
\<close>

locale capacity_counter =
  fixes try_add :: "int \<Rightarrow> 'c \<Rightarrow> bool \<times> 'c"
    and release :: "int \<Rightarrow> 'c \<Rightarrow> 'c"
    and amount :: "'c \<Rightarrow> int"
    and limit :: "'c \<Rightarrow> int"
    and good :: "'c \<Rightarrow> bool"
  assumes amount_nonneg: "good c \<Longrightarrow> 0 \<le> amount c"
    and add_law: "good c \<Longrightarrow> n \<le> max_int64 - amount c \<Longrightarrow> try_add n c = (ok, c') \<Longrightarrow>
      good c' \<and> limit c' = limit c \<and> amount c' = (if ok \<and> 0 < n then amount c + n else amount c)
      \<and> (ok \<and> 0 < n \<and> 0 < limit c \<longrightarrow> amount c' \<le> limit c)"
    and release_law: "good c \<Longrightarrow> good (release n c) \<and> limit (release n c) = limit c
      \<and> amount (release n c) = amount c - max 0 (min n (amount c))"

section \<open>The ledger counter keeps it\<close>

definition volume_total :: "world \<Rightarrow> int" where
  "volume_total w = wrap64 (tot (val (vfiles (wvol w))))"

definition ledger_good :: "ledger \<Rightarrow> volume \<Rightarrow> bool" where
  "ledger_good l v \<longleftrightarrow> lhandle_ok (vfiles v) l \<and> books_ok (Some (lnode l)) (vfiles v) \<and> quiet v"

definition counter_good :: "ledger_counter \<Rightarrow> world \<Rightarrow> bool" where
  "counter_good c w \<longleftrightarrow> \<not> initErr c \<and> (\<exists>l. cl c = Some l \<and> ledger_good l (wvol w)) \<and> 0 \<le> volume_total w"

lemma volume_total_in64: "volume_total w \<le> max_int64"
  using wrap64_in64 [of "tot (val (vfiles (wvol w)))"] by (simp add: volume_total_def in64_def)

lemma volume_total_upd [simp]: "volume_total (w\<lparr>wpools := s\<rparr>) = volume_total w"
  by (simp add: volume_total_def)

lemma counter_good_upd [simp]: "counter_good c (w\<lparr>wpools := s\<rparr>) = counter_good c w"
  by (simp add: counter_good_def)

lemma Total_good:
  assumes "ledger_good l (wvol w)"
  shows "\<exists>l' v. Total l (wvol w) = (Some (volume_total w), l', v) \<and> ledger_good l' v \<and> volume_total (w\<lparr>wvol := v\<rparr>) = volume_total w"
proof -
  have h: "lhandle_ok (vfiles (wvol w)) l" "books_ok (Some (lnode l)) (vfiles (wvol w))" "quiet (wvol w)"
    using assms by (simp_all add: ledger_good_def)
  obtain t l' v where t: "Total l (wvol w) = (t, l', v)" by (metis surj_pair)
  obtain x where x: "vfiles v = vfiles (wvol w)" "quiet v" "l' = l\<lparr>corrupt := x\<rparr>" using Total_keeps [OF h(1,2) t] h(3) by blast
  have "t = Some (volume_total w)" using Total_exact [OF h(1,2)] t h(3) by (simp add: sees_def volume_total_def)
  moreover have "ledger_good l' v" using h x by (simp add: ledger_good_def lhandle_ok_def)
  ultimately show ?thesis using t x(1) by (simp add: volume_total_def)
qed

lemma withLock_good:
  assumes "counter_good c w"
  shows "\<exists>l v. withLock fn c w = fn (volume_total w) (c\<lparr>cl := Some l\<rparr>) (w\<lparr>wvol := v\<rparr>)
    \<and> counter_good (c\<lparr>cl := Some l\<rparr>) (w\<lparr>wvol := v\<rparr>) \<and> volume_total (w\<lparr>wvol := v\<rparr>) = volume_total w"
proof -
  obtain l where l: "cl c = Some l" "ledger_good l (wvol w)" "\<not> initErr c" "0 \<le> volume_total w" using assms by (auto simp: counter_good_def)
  obtain l' v where "Total l (wvol w) = (Some (volume_total w), l', v)" "ledger_good l' v" "volume_total (w\<lparr>wvol := v\<rparr>) = volume_total w"
    using Total_good [OF l(2)] by blast
  then show ?thesis using l by (intro exI [of _ l'] exI [of _ v]) (simp add: withLock_def counter_good_def)
qed

lemma ledger_add_good:
  assumes "counter_good c w" "in64 d" "0 \<le> volume_total w + d" "volume_total w + d \<le> max_int64"
  shows "\<exists>l v. ledger_add d c w = (None, c\<lparr>cl := Some l\<rparr>, w\<lparr>wvol := v\<rparr>) \<and> counter_good (c\<lparr>cl := Some l\<rparr>) (w\<lparr>wvol := v\<rparr>)
    \<and> volume_total (w\<lparr>wvol := v\<rparr>) = volume_total w + d"
proof -
  obtain l where l: "cl c = Some l" "ledger_good l (wvol w)" "\<not> initErr c" using assms(1) by (auto simp: counter_good_def)
  have g: "books_ok (Some (lnode l)) (vfiles (wvol w))" "lhandle_ok (vfiles (wvol w)) l" "quiet (wvol w)"
    using l(2) by (simp_all add: ledger_good_def)
  obtain e l' v where a: "Add d l (wvol w) = (e, l', v)" by (metis surj_pair)
  have own: "registered l \<Longrightarrow> shardName (lnode l) \<in> visible (Some (lnode l)) (vfiles (wvol w))"
    using g(2) by (simp add: lhandle_ok_def visible_def own_names_def)
  note b = Add_books [OF g assms(2) own a]
  have n: "lnode l' = lnode l" using a Add_node by metis
  have "volume_total (w\<lparr>wvol := v\<rparr>) = wrap64 (volume_total w + d)" using b by (simp add: volume_total_def)
  also have "\<dots> = volume_total w + d" using assms(3,4) by (intro wrap64_nonneg) auto
  finally have t: "volume_total (w\<lparr>wvol := v\<rparr>) = volume_total w + d" .
  have "ledger_good l' v" using b n by (simp add: ledger_good_def)
  then show ?thesis using b a l t assms(3) by (intro exI [of _ l'] exI [of _ v]) (simp add: ledger_add_def counter_good_def)
qed

lemma addWithinLock_good:
  assumes "counter_good c w" "0 < n" "volume_total w + n \<le> max_int64" "addWithinLock (volume_total w) n c w = (e, c', w')"
  shows "counter_good c' w' \<and> cmax c' = cmax c \<and> volume_total w' = (if e = None then volume_total w + n else volume_total w)
    \<and> (e = None \<and> 0 < cmax c \<longrightarrow> volume_total w' \<le> cmax c)"
proof -
  have t: "0 \<le> volume_total w" "wrap64 (volume_total w + n) = volume_total w + n"
    using assms(1-3) by (auto simp: counter_good_def wrap64_nonneg)
  have n: "in64 n" using assms(2,3) t(1) by (simp add: in64_def)
  have add: "\<exists>l v. ledger_add n c (w\<lparr>wpools := s\<rparr>) = (None, c\<lparr>cl := Some l\<rparr>, w\<lparr>wpools := s, wvol := v\<rparr>)
      \<and> counter_good (c\<lparr>cl := Some l\<rparr>) (w\<lparr>wvol := v\<rparr>) \<and> volume_total (w\<lparr>wvol := v\<rparr>) = volume_total w + n" for s
    using ledger_add_good [of c "w\<lparr>wpools := s\<rparr>" n] assms(1-3) n t(1) by (simp add: counter_good_def volume_total_def)
  show ?thesis
  proof (cases "0 < cmax c \<and> cmax c < volume_total w + n")
    case True
    then show ?thesis using assms(1,4) t(2) by (auto simp: addWithinLock_def)
  next
    case fit: False
    show ?thesis
    proof (cases "cpool c")
      case None
      have "w\<lparr>wpools := wpools w\<rparr> = w" by simp
      then show ?thesis using add [of "wpools w"] assms(4) fit None t(2) by (auto simp: addWithinLock_def)
    next
      case (Some p)
      obtain r s where r: "Pool_TryReserve (wpools w) p n = (r, s)" by (cases "Pool_TryReserve (wpools w) p n")
      show ?thesis
      proof (cases r)
        case (Inl e)
        then show ?thesis using assms(1,4) fit t(2) Some r by (auto simp: addWithinLock_def)
      next
        case (Inr h)
        obtain l v where a: "ledger_add n c (w\<lparr>wpools := s\<rparr>) = (None, c\<lparr>cl := Some l\<rparr>, w\<lparr>wpools := s, wvol := v\<rparr>)"
            "counter_good (c\<lparr>cl := Some l\<rparr>) (w\<lparr>wvol := v\<rparr>)" "volume_total (w\<lparr>wvol := v\<rparr>) = volume_total w + n" using add by blast
        have "e = None" "c' = c\<lparr>cl := Some l\<rparr>" "wvol w' = v" using assms(4) fit t(2) Some r Inr a(1) by (auto simp: addWithinLock_def)
        then show ?thesis using a(2,3) fit by (auto simp: counter_good_def volume_total_def)
      qed
    qed
  qed
qed

lemma TryAdd_good:
  assumes "counter_good c w" "n \<le> max_int64 - volume_total w" "TryAdd n c w = (e, c', w')"
  shows "counter_good c' w' \<and> cmax c' = cmax c \<and> volume_total w' = (if e = None \<and> 0 < n then volume_total w + n else volume_total w)
    \<and> (e = None \<and> 0 < n \<and> 0 < cmax c \<longrightarrow> volume_total w' \<le> cmax c)"
proof (cases "n \<le> 0")
  case True
  then show ?thesis using assms by (simp add: TryAdd_def)
next
  case False
  obtain l v where w: "withLock (\<lambda>t. addWithinLock t n) c w = addWithinLock (volume_total w) n (c\<lparr>cl := Some l\<rparr>) (w\<lparr>wvol := v\<rparr>)"
      "counter_good (c\<lparr>cl := Some l\<rparr>) (w\<lparr>wvol := v\<rparr>)" "volume_total (w\<lparr>wvol := v\<rparr>) = volume_total w"
    using withLock_good [OF assms(1)] by blast
  have "\<not> initErr c" using assms(1) by (simp add: counter_good_def)
  then have "addWithinLock (volume_total (w\<lparr>wvol := v\<rparr>)) n (c\<lparr>cl := Some l\<rparr>) (w\<lparr>wvol := v\<rparr>) = (e, c', w')"
    using assms(3) False w(1,3) by (simp add: TryAdd_def)
  from addWithinLock_good [OF w(2) _ _ this] show ?thesis using False assms(2) w(3) by auto
qed

lemma mirror_keeps [simp]: "volume_total (mirrorToPool d c w) = volume_total w" "counter_good c (mirrorToPool d' c' w) = counter_good c w"
  by (simp_all add: mirrorToPool_def split: option.split)

lemma move_total_good:
  assumes "counter_good c w" "in64 d" "0 \<le> volume_total w + d" "volume_total w + d \<le> max_int64"
  shows "\<exists>l w'. move_total d c w = (None, c\<lparr>cl := Some l\<rparr>, w') \<and> counter_good (c\<lparr>cl := Some l\<rparr>) w' \<and> volume_total w' = volume_total w + d"
proof -
  obtain l v where "ledger_add d c w = (None, c\<lparr>cl := Some l\<rparr>, w\<lparr>wvol := v\<rparr>)" "counter_good (c\<lparr>cl := Some l\<rparr>) (w\<lparr>wvol := v\<rparr>)"
      "volume_total (w\<lparr>wvol := v\<rparr>) = volume_total w + d"
    using ledger_add_good [OF assms] by blast
  then show ?thesis by (intro exI [of _ l] exI [of _ "mirrorToPool d (c\<lparr>cl := Some l\<rparr>) (w\<lparr>wvol := v\<rparr>)"]) (simp add: move_total_def)
qed

lemma Counter_Release_good:
  assumes "counter_good c w" "Counter_Release n c w = (c', w')"
  shows "counter_good c' w' \<and> cmax c' = cmax c \<and> volume_total w' = volume_total w - max 0 (min n (volume_total w))"
proof (cases "n \<le> 0 \<or> volume_total w = 0")
  case True
  let ?fn = "\<lambda>t c w. let n = (if t < n then t else n) in if n \<le> 0 then (None, c, w) else move_total (wrap64 (- n)) c w"
  obtain l v where "withLock ?fn c w = ?fn (volume_total w) (c\<lparr>cl := Some l\<rparr>) (w\<lparr>wvol := v\<rparr>)"
      "counter_good (c\<lparr>cl := Some l\<rparr>) (w\<lparr>wvol := v\<rparr>)" "volume_total (w\<lparr>wvol := v\<rparr>) = volume_total w"
    using withLock_good [OF assms(1), of ?fn] by blast
  then show ?thesis using True assms by (auto simp: Counter_Release_def counter_good_def Let_def split: if_splits)
next
  case False
  let ?fn = "\<lambda>t c w. let n = (if t < n then t else n) in if n \<le> 0 then (None, c, w) else move_total (wrap64 (- n)) c w"
  let ?m = "min n (volume_total w)"
  obtain l v where w: "withLock ?fn c w = ?fn (volume_total w) (c\<lparr>cl := Some l\<rparr>) (w\<lparr>wvol := v\<rparr>)"
      "counter_good (c\<lparr>cl := Some l\<rparr>) (w\<lparr>wvol := v\<rparr>)" "volume_total (w\<lparr>wvol := v\<rparr>) = volume_total w"
    using withLock_good [OF assms(1), of ?fn] by blast
  have pos: "0 < ?m" "?m \<le> volume_total w" using False assms(1) by (auto simp: counter_good_def)
  have "?m \<le> max_int64" using pos(2) volume_total_in64 [of w] by linarith
  then have in64: "in64 (- ?m)" "wrap64 (- ?m) = - ?m" using pos by (auto simp: in64_def wrap64_id)
  obtain l' u where u: "move_total (- ?m) (c\<lparr>cl := Some l\<rparr>) (w\<lparr>wvol := v\<rparr>) = (None, c\<lparr>cl := Some l, cl := Some l'\<rparr>, u)"
      "counter_good (c\<lparr>cl := Some l, cl := Some l'\<rparr>) u" "volume_total u = volume_total w + - ?m"
    using move_total_good [OF w(2) in64(1)] w(3) pos volume_total_in64 [of w] by auto
  have m: "(if volume_total w < n then volume_total w else n) = ?m" by simp
  have "withLock ?fn c w = (None, c\<lparr>cl := Some l, cl := Some l'\<rparr>, u)" using w(1) u(1) pos(1) in64(2) unfolding Let_def m by simp
  moreover have "cl c \<noteq> None" using assms(1) by (auto simp: counter_good_def)
  ultimately have "c' = c\<lparr>cl := Some l, cl := Some l'\<rparr> \<and> w' = u" using assms(2) False by (auto simp: Counter_Release_def)
  then show ?thesis using u(2,3) pos by simp
qed

definition counter_try :: "int \<Rightarrow> ledger_counter \<times> world \<Rightarrow> bool \<times> ledger_counter \<times> world" where
  "counter_try n cw = (case TryAdd n (fst cw) (snd cw) of (e, c, w) \<Rightarrow> (e = None, c, w))"

definition counter_release :: "int \<Rightarrow> ledger_counter \<times> world \<Rightarrow> ledger_counter \<times> world" where
  "counter_release n cw = Counter_Release n (fst cw) (snd cw)"

interpretation lc: capacity_counter counter_try counter_release "\<lambda>cw. volume_total (snd cw)" "\<lambda>cw. cmax (fst cw)"
  "\<lambda>cw. counter_good (fst cw) (snd cw)"
proof unfold_locales
  fix cw cw' :: "ledger_counter \<times> world" and n ok
  assume g: "counter_good (fst cw) (snd cw)"
  show "0 \<le> volume_total (snd cw)" using g by (simp add: counter_good_def)
  obtain c w where r: "counter_release n cw = (c, w)" by (cases "counter_release n cw")
  then show "counter_good (fst (counter_release n cw)) (snd (counter_release n cw)) \<and> cmax (fst (counter_release n cw)) = cmax (fst cw)
      \<and> volume_total (snd (counter_release n cw)) = volume_total (snd cw) - max 0 (min n (volume_total (snd cw)))"
    using Counter_Release_good [OF g] by (simp add: counter_release_def)
  assume n: "n \<le> max_int64 - volume_total (snd cw)" and t: "counter_try n cw = (ok, cw')"
  obtain e c w where e: "TryAdd n (fst cw) (snd cw) = (e, c, w)" by (metis surj_pair)
  show "counter_good (fst cw') (snd cw') \<and> cmax (fst cw') = cmax (fst cw)
      \<and> volume_total (snd cw') = (if ok \<and> 0 < n then volume_total (snd cw) + n else volume_total (snd cw))
      \<and> (ok \<and> 0 < n \<and> 0 < cmax (fst cw) \<longrightarrow> volume_total (snd cw') \<le> cmax (fst cw))"
    using TryAdd_good [OF g n e] t e by (auto simp: counter_try_def)
qed

section \<open>Corrections and maintenance\<close>

lemma CorrectTo_good:
  assumes "counter_good c w" "n \<le> max_int64" "CorrectTo n c w = (c', w')"
  shows "counter_good c' w' \<and> cmax c' = cmax c \<and> volume_total w' = max 0 n"
proof -
  let ?n = "if n < 0 then 0 else n"
  let ?fn = "\<lambda>t c w. let d = wrap64 (?n - t) in if d = 0 then (None, c, w) else move_total d c w"
  obtain l v where w: "withLock ?fn c w = ?fn (volume_total w) (c\<lparr>cl := Some l\<rparr>) (w\<lparr>wvol := v\<rparr>)"
      "counter_good (c\<lparr>cl := Some l\<rparr>) (w\<lparr>wvol := v\<rparr>)" "volume_total (w\<lparr>wvol := v\<rparr>) = volume_total w"
    using withLock_good [OF assms(1), of ?fn] by blast
  have "0 \<le> volume_total w" "cl c \<noteq> None" using assms(1) by (auto simp: counter_good_def)
  then have d: "in64 (?n - volume_total w)" "wrap64 (?n - volume_total w) = ?n - volume_total w"
    using assms(2) volume_total_in64 [of w] by (auto simp: in64_def wrap64_id)
  have r: "(c', w') = snd (?fn (volume_total w) (c\<lparr>cl := Some l\<rparr>) (w\<lparr>wvol := v\<rparr>))"
    using assms(3) \<open>cl c \<noteq> None\<close> w(1) by (auto simp: CorrectTo_def Let_def)
  show ?thesis
  proof (cases "?n = volume_total w")
    case True
    then show ?thesis using r w(2,3) by (auto split: if_splits)
  next
    case False
    then show ?thesis
      using move_total_good [OF w(2) d(1)] w(3) r d(2) assms(2) by (auto simp: Let_def split: if_splits)
  qed
qed

lemma Compact_good:
  assumes "counter_good c w" "Counter_Compact c w = (e, c', w')"
  shows "counter_good c' w' \<and> cmax c' = cmax c \<and> volume_total w' = volume_total w"
proof -
  obtain l where l: "cl c = Some l" "ledger_good l (wvol w)" "\<not> initErr c" using assms(1) by (auto simp: counter_good_def)
  obtain e2 l' v where k: "Compact l (wvol w) = (e2, l', v)" by (metis surj_pair)
  have "quiet v \<and> books_ok (Some (lnode l)) (vfiles v) \<and> l' = l \<and> vfiles v ledgerIndexName = vfiles (wvol w) ledgerIndexName
      \<and> wrap64 (tot (val (vfiles v))) = wrap64 (tot (val (vfiles (wvol w))))"
    using Compact_books [of "Some (lnode l)", OF _ _ _ k] l(2) by (simp add: ledger_good_def)
  then show ?thesis using assms l k by (auto simp: Counter_Compact_def counter_good_def ledger_good_def volume_total_def lhandle_ok_def)
qed

lemma Reap_good:
  assumes "counter_good c w" "ReapEmptyShards c w = (e, c', w')"
  shows "e = None \<and> counter_good c' w' \<and> cmax c' = cmax c \<and> volume_total w' = volume_total w"
proof -
  obtain l where l: "cl c = Some l" "ledger_good l (wvol w)" "\<not> initErr c" using assms(1) by (auto simp: counter_good_def)
  obtain e2 l' v where k: "reapEmptyShards l (wvol w) = (e2, l', v)" by (metis surj_pair)
  have "e2 = None \<and> quiet v \<and> books_ok (Some (lnode l)) (vfiles v) \<and> l' = l
      \<and> (vfiles (wvol w) ledgerIndexName \<noteq> None \<longrightarrow> vfiles v ledgerIndexName \<noteq> None) \<and> val (vfiles v) = val (vfiles (wvol w))"
    using reap_books [of "Some (lnode l)", OF _ _ _ k] l(2) by (simp add: ledger_good_def)
  then show ?thesis using assms l k by (auto simp: ReapEmptyShards_def counter_good_def ledger_good_def volume_total_def lhandle_ok_def)
qed

definition fresh_volume :: volume where
  "fresh_volume = \<lparr>vfiles = Map.empty, vfault = (\<lambda>_. False), vcount = 0\<rparr>"

lemma fresh_good:
  assumes "newLedger k node = Inr l" "k \<noteq> MemStore"
  shows "counter_good (WithPool p (NewLedgerCounter l mx)) \<lparr>wvol = fresh_volume, wpools = s\<rparr> \<and> volume_total \<lparr>wvol = fresh_volume, wpools = s\<rparr> = 0"
  using newLedger_ok [OF assms] books_empty
  by (simp add: counter_good_def ledger_good_def volume_total_def WithPool_def NewLedgerCounter_def fresh_volume_def quiet_def)

definition disk_counter :: "pid option \<Rightarrow> int \<Rightarrow> ledger_counter" where
  "disk_counter p mx = \<lparr>cl = Some \<lparr>skind = OsStore, smem = None, lnode = ''n'', corrupt = False, registered = False\<rparr>, cmax = mx, cpool = p, initErr = False\<rparr>"

lemma disk_good: "counter_good (disk_counter p mx) \<lparr>wvol = fresh_volume, wpools = s\<rparr>"
  "volume_total \<lparr>wvol = fresh_volume, wpools = s\<rparr> = 0"
proof -
  have "sanitizeLedgerNode ''n'' = ''n''" by code_simp
  then have "newLedger OsStore ''n'' = Inr \<lparr>skind = OsStore, smem = None, lnode = ''n'', corrupt = False, registered = False\<rparr>"
    by (simp add: newLedger_def)
  from fresh_good [OF this, of p mx s]
  show "counter_good (disk_counter p mx) \<lparr>wvol = fresh_volume, wpools = s\<rparr>" "volume_total \<lparr>wvol = fresh_volume, wpools = s\<rparr> = 0"
    by (simp_all add: disk_counter_def WithPool_def NewLedgerCounter_def)
qed

section \<open>Properties\<close>

text \<open>A reservation of \<open>n\<close> bytes, granted and committed in full, leaves \<open>n\<close> more committed bytes on the whole chain.\<close>

lemma reserve_then_commit:
  assumes "ledger_ok s" "p < next_pid s" "0 \<le> n" "headroom s p n" "reserveUp s p n = (None, s1)"
  shows "shifted s p n 0 (snd (Reservation_Commit s1 \<lparr>rpool = p, ramount = n, rdone = False\<rparr> n))"
proof -
  have "room s p 0 n" by (rule headroom_room [OF assms(1,2,4)]) (use assms(3) in auto)
  from reserveUp_shift [OF assms(1,2,3) this assms(5)] have sh: "shifted s p 0 n s1" by simp
  have tr: "tracked s p n n 0 s1" using sh assms(3) by (simp add: tracked_def)
  note h = tracked_held [OF assms(1,2,4) order_refl tr]
  have ok1: "ledger_ok s1" "p < next_pid s1" and own: "n \<le> own reserved s1 p" using h by auto
  have "headroom s1 p 0" by (rule tracked_headroom [OF assms(4) tr]) simp
  then have "room s1 p n 0" using headroom_settle [OF ok1 _ _ assms(3) own] by simp
  from commitReservation_shift [OF ok1 assms(3) own assms(3) this] have "shifted s1 p n (- n) (commitReservation s1 p n n)" .
  from shifted_trans [OF sh this] show ?thesis using assms(3) by (simp add: Reservation_Commit_def)
qed



text \<open>Releasing takes off what it says but never more than there is, a correction sets the total to the measured usage, and
  compaction and the reaping of empty shards, one's own included, leave the total as it is.\<close>

theorem counter_moves:
  assumes "counter_good c w" "n \<le> max_int64"
  shows "volume_total (snd (Counter_Release n c w)) = volume_total w - max 0 (min n (volume_total w))
    \<and> volume_total (snd (CorrectTo n c w)) = max 0 n
    \<and> fst (CorrectFrom (Some (Some n)) c w) = (n, True) \<and> fst (CorrectFrom (Some None) c w) = (volume_total w, False)
    \<and> fst (Used (fst (snd (Counter_Compact c w))) (snd (snd (Counter_Compact c w)))) = volume_total w
    \<and> fst (Used (fst (snd (ReapEmptyShards c w))) (snd (snd (ReapEmptyShards c w)))) = volume_total w"
proof -
  have used: "fst (Used c w) = volume_total w" if "counter_good c w" for c w
    using that Total_good [of _ w] by (fastforce simp: Used_def counter_good_def)
  obtain c1 w1 where 1: "Counter_Release n c w = (c1, w1)" by (cases "Counter_Release n c w")
  obtain c2 w2 where 2: "CorrectTo n c w = (c2, w2)" by (cases "CorrectTo n c w")
  obtain e3 c3 w3 where 3: "Counter_Compact c w = (e3, c3, w3)" by (cases "Counter_Compact c w")
  obtain e4 c4 w4 where 4: "ReapEmptyShards c w = (e4, c4, w4)" by (cases "ReapEmptyShards c w")
  show ?thesis
    using Counter_Release_good [OF assms(1) 1] CorrectTo_good [OF assms 2] Compact_good [OF assms(1) 3] Reap_good [OF assms(1) 4]
      used [of c3 w3] used [of c4 w4] used [OF assms(1)] 1 2 3 4
    by (auto simp: CorrectFrom_def split: prod.splits)
qed

theorem counter_moves_witness:
  "counter_good (disk_counter None 50) \<lparr>wvol = fresh_volume, wpools = two_level\<rparr>
   \<and> volume_total (snd (CorrectTo 7 (disk_counter None 50) \<lparr>wvol = fresh_volume, wpools = two_level\<rparr>)) = 7"
  using counter_moves [OF disk_good(1), of 7 None 50 two_level] disk_good(1) by simp

end
