(* ===== verification/Vol_FS.thy ===== *)
theory Vol_FS
  imports Vol_Counter
begin

text \<open>
  The accounting file system \<open>CapacityFS\<close> of \<open>pkg/volume/capacity/capacity.go\<close> and \<open>phys.go\<close>: every operation that changes the files of an external
  volume reserves, settles or releases bytes of the volume's counter. The operations are parameters in the two methods of the
  interface \<open>Counter\<close> that they call; the theorems rest on the contract \<open>capacity_counter\<close> and reach the ledger counter by its
  interpretation.

  The volume below is a map from paths to files, of which logical and physical size count. What a call of it does is an
  argument: which lookups answer (\<open>pr\<close>), what a write leaves behind (\<open>stored\<close>) and how many bytes it has taken from the reader, whether
  it reports an error, whether a deletion works. A volume with the capability \<open>physSizer\<close> is charged by physical size, with \<open>ph\<close> its bound \<open>PhysBound\<close>.
\<close>

section \<open>Sizes\<close>

record entry =
  esize :: int
  ephys :: int

type_synonym objects = "string \<Rightarrow> entry option"

record 'c cap_fs =
  objs :: objects
  ctr :: 'c

type_synonym phys = "(int \<Rightarrow> int) option"

datatype cap_error = CapRefused | InnerFailed | CapUnsupported | CapShort

definition charge :: "phys \<Rightarrow> entry option \<Rightarrow> int" where
  "charge ph e = (case e of None \<Rightarrow> 0 | Some e \<Rightarrow> if ph = None then esize e else ephys e)"

definition physSize :: "phys \<Rightarrow> bool \<Rightarrow> objects \<Rightarrow> string \<Rightarrow> int" where
  "physSize ph answers f p = (if answers then charge ph (f p) else 0)"

definition innerSizeChecked :: "bool \<Rightarrow> objects \<Rightarrow> string \<Rightarrow> int option" where
  "innerSizeChecked answers f p = (if answers then Some (case f p of None \<Rightarrow> 0 | Some e \<Rightarrow> esize e) else None)"

definition physSizeChecked :: "phys \<Rightarrow> bool \<Rightarrow> bool \<Rightarrow> objects \<Rightarrow> string \<Rightarrow> int option" where
  "physSizeChecked ph foot answers f p =
     (if ph \<noteq> None \<and> foot \<and> f p \<noteq> None then Some (charge ph (f p)) else innerSizeChecked answers f p)"

definition physBound :: "phys \<Rightarrow> int \<Rightarrow> int" where
  "physBound ph n = (if n \<le> 0 then n else case ph of None \<Rightarrow> n | Some b \<Rightarrow> if 0 < b n then b n else n)"

section \<open>Writing\<close>

definition settle ::
  "(int \<Rightarrow> 'c \<Rightarrow> bool \<times> 'c) \<Rightarrow> (int \<Rightarrow> 'c \<Rightarrow> 'c) \<Rightarrow> bool \<Rightarrow> string \<Rightarrow> int \<Rightarrow> int \<Rightarrow> int \<Rightarrow> int \<Rightarrow> 'c cap_fs \<Rightarrow> cap_error option \<times> 'c cap_fs" where
  "settle ta rl deletes p prev rsv eff n st =
     (let adj = wrap64 (wrap64 (eff - prev) - rsv) in
      if 0 < adj then
        (case ta adj (ctr st) of
           (True, c) \<Rightarrow> (None, st\<lparr>ctr := c\<rparr>)
         | (False, c) \<Rightarrow>
             if n \<le> 0 then (Some CapRefused, st\<lparr>ctr := c, objs := (if deletes then (objs st)(p := None) else objs st)\<rparr>)
             else (None, st\<lparr>ctr := c\<rparr>))
      else if adj < 0 then (None, st\<lparr>ctr := rl (wrap64 (- adj)) (ctr st)\<rparr>)
      else (None, st))"

definition settleAfterWriteError ::
  "(int \<Rightarrow> 'c \<Rightarrow> bool \<times> 'c) \<Rightarrow> (int \<Rightarrow> 'c \<Rightarrow> 'c) \<Rightarrow> phys \<Rightarrow> (nat \<Rightarrow> bool) \<Rightarrow> bool \<Rightarrow> string \<Rightarrow> int \<Rightarrow> int \<Rightarrow> int \<Rightarrow> 'c cap_fs \<Rightarrow> 'c cap_fs" where
  "settleAfterWriteError ta rl ph pr deletes p prev rsv n st =
     (case physSizeChecked ph (pr 1) (pr 2) (objs st) p of
        None \<Rightarrow> st
      | Some actual \<Rightarrow>
          (case settle ta rl deletes p prev rsv actual n st of
             (None, st) \<Rightarrow> st
           | (Some e, st) \<Rightarrow> st\<lparr>objs := (if deletes then (objs st)(p := None) else objs st), ctr := rl rsv (ctr st)\<rparr>))"

definition store_object :: "string \<Rightarrow> entry option \<Rightarrow> objects \<Rightarrow> objects" where
  "store_object p stored f = (case stored of None \<Rightarrow> f | Some e \<Rightarrow> f(p \<mapsto> e))"

definition effective_size :: "phys \<Rightarrow> bool \<Rightarrow> int \<Rightarrow> int \<Rightarrow> objects \<Rightarrow> string \<Rightarrow> int" where
  "effective_size ph answers got n f p =
     (let e = physSize ph answers f p; e = (if e \<le> 0 then got else e) in if e \<le> 0 \<and> 0 < n then n else e)"

text \<open>The reservation before a write of declared length: \<open>None\<close> when it is refused.\<close>

definition reserve_write :: "(int \<Rightarrow> 'c \<Rightarrow> bool \<times> 'c) \<Rightarrow> phys \<Rightarrow> int \<Rightarrow> int \<Rightarrow> 'c \<Rightarrow> int option \<times> 'c" where
  "reserve_write ta ph n prev c =
     (let d = wrap64 (physBound ph n - prev) in
      if 0 < n \<and> 0 < d then (case ta d c of (True, c) \<Rightarrow> (Some d, c) | (False, c) \<Rightarrow> (None, c))
      else (Some 0, c))"

definition WriteFile ::
  "(int \<Rightarrow> 'c \<Rightarrow> bool \<times> 'c) \<Rightarrow> (int \<Rightarrow> 'c \<Rightarrow> 'c) \<Rightarrow> phys \<Rightarrow> (nat \<Rightarrow> bool) \<Rightarrow> bool \<Rightarrow> entry option \<Rightarrow> int \<Rightarrow> bool \<Rightarrow>
    string \<Rightarrow> int \<Rightarrow> 'c cap_fs \<Rightarrow> cap_error option \<times> 'c cap_fs" where
  "WriteFile ta rl ph pr deletes stored got failed p n st =
     (let prev = physSize ph (pr 0) (objs st) p in
      case reserve_write ta ph n prev (ctr st) of
        (None, c) \<Rightarrow> (Some CapRefused, st\<lparr>ctr := c\<rparr>)
      | (Some rsv, c) \<Rightarrow>
          (let st = st\<lparr>ctr := c, objs := store_object p stored (objs st)\<rparr> in
           if failed then (Some InnerFailed, settleAfterWriteError ta rl ph pr deletes p prev rsv n st)
           else settle ta rl deletes p prev rsv (effective_size ph (pr 1) got n (objs st) p) n st))"

text \<open>\<open>WriteIfAbsent\<close>; the outer \<open>None\<close> of \<open>written\<close> is an error of the volume below.\<close>

definition WriteIfAbsent ::
  "(int \<Rightarrow> 'c \<Rightarrow> bool \<times> 'c) \<Rightarrow> (int \<Rightarrow> 'c \<Rightarrow> 'c) \<Rightarrow> phys \<Rightarrow> bool \<Rightarrow> (nat \<Rightarrow> bool) \<Rightarrow> bool \<Rightarrow> entry option \<Rightarrow> int \<Rightarrow> bool option \<Rightarrow>
    string \<Rightarrow> int \<Rightarrow> 'c cap_fs \<Rightarrow> (cap_error + bool) \<times> 'c cap_fs" where
  "WriteIfAbsent ta rl ph supported pr deletes stored got written p n st =
     (if \<not> supported then (Inl CapUnsupported, st)
      else
        let prev = physSize ph (pr 0) (objs st) p in
        case reserve_write ta ph n prev (ctr st) of
          (None, c) \<Rightarrow> (Inl CapRefused, st\<lparr>ctr := c\<rparr>)
        | (Some rsv, c) \<Rightarrow>
            (case written of
               None \<Rightarrow>
                 (Inl InnerFailed, settleAfterWriteError ta rl ph pr deletes p prev rsv n
                    (st\<lparr>ctr := c, objs := store_object p stored (objs st)\<rparr>))
             | Some False \<Rightarrow> (Inr False, st\<lparr>ctr := (if 0 < rsv then rl rsv c else c)\<rparr>)
             | Some True \<Rightarrow>
                 (let st = st\<lparr>ctr := c, objs := store_object p stored (objs st)\<rparr> in
                  case settle ta rl deletes p prev rsv (effective_size ph (pr 1) got n (objs st) p) n st of
                    (Some e, st) \<Rightarrow> (Inl e, st)
                  | (None, st) \<Rightarrow> (Inr True, st))))"

section \<open>Moving, copying, deleting\<close>

definition move_object :: "string \<Rightarrow> string \<Rightarrow> objects \<Rightarrow> objects" where
  "move_object src dst f = (if src = dst then f else f(dst := f src, src := None))"

definition Rename :: "(int \<Rightarrow> 'c \<Rightarrow> 'c) \<Rightarrow> phys \<Rightarrow> bool \<Rightarrow> bool \<Rightarrow> string \<Rightarrow> string \<Rightarrow> 'c cap_fs \<Rightarrow> cap_error option \<times> 'c cap_fs" where
  "Rename rl ph answers works src dst st =
     (let old = physSize ph answers (objs st) dst in
      if \<not> works then (Some InnerFailed, st)
      else (None, st\<lparr>objs := move_object src dst (objs st), ctr := rl old (ctr st)\<rparr>))"

definition Move :: "(int \<Rightarrow> 'c \<Rightarrow> 'c) \<Rightarrow> phys \<Rightarrow> bool \<Rightarrow> bool \<Rightarrow> bool \<Rightarrow> string \<Rightarrow> string \<Rightarrow> 'c cap_fs \<Rightarrow> cap_error option \<times> 'c cap_fs" where
  "Move rl ph supported answers works src dst st =
     (if \<not> supported then (Some CapUnsupported, st)
      else
        let old = physSize ph answers (objs st) dst in
        if \<not> works then (Some InnerFailed, st)
        else (None, st\<lparr>objs := move_object src dst (objs st), ctr := rl old (ctr st)\<rparr>))"

definition Delete :: "(int \<Rightarrow> 'c \<Rightarrow> 'c) \<Rightarrow> phys \<Rightarrow> bool \<Rightarrow> bool \<Rightarrow> string \<Rightarrow> 'c cap_fs \<Rightarrow> cap_error option \<times> 'c cap_fs" where
  "Delete rl ph answers works p st =
     (let n = physSize ph answers (objs st) p in
      if \<not> works then (Some InnerFailed, st)
      else (None, st\<lparr>objs := (objs st)(p := None), ctr := rl n (ctr st)\<rparr>))"

definition Copy ::
  "(int \<Rightarrow> 'c \<Rightarrow> bool \<times> 'c) \<Rightarrow> (int \<Rightarrow> 'c \<Rightarrow> 'c) \<Rightarrow> phys \<Rightarrow> bool \<Rightarrow> (nat \<Rightarrow> bool) \<Rightarrow> bool \<Rightarrow>
    string \<Rightarrow> string \<Rightarrow> 'c cap_fs \<Rightarrow> cap_error option \<times> 'c cap_fs" where
  "Copy ta rl ph supported pr works src dst st =
     (if \<not> supported then (Some CapUnsupported, st)
      else
        let old = physSize ph (pr 0) (objs st) dst; added = physSize ph (pr 1) (objs st) src in
        case (if 0 < added then ta added (ctr st) else (True, ctr st)) of
          (False, c) \<Rightarrow> (Some CapRefused, st\<lparr>ctr := c\<rparr>)
        | (True, c) \<Rightarrow>
            if \<not> works then (Some InnerFailed, st\<lparr>ctr := (if 0 < added then rl added c else c)\<rparr>)
            else (None, st\<lparr>objs := (objs st)(dst := objs st src), ctr := rl old c\<rparr>))"

text \<open>
  \<open>ReserveSpace\<close>: the answer of the volume below, \<open>None\<close> when it has none; then room left under the limit.
\<close>

definition ReserveSpace :: "cap_error option option \<Rightarrow> int \<Rightarrow> int \<Rightarrow> int \<Rightarrow> cap_error option" where
  "ReserveSpace inner capacity used n =
     (case inner of
        Some r \<Rightarrow> r
      | None \<Rightarrow>
          if capacity \<le> 0 then Some CapUnsupported
          else if n \<le> 0 then None
          else if wrap64 (capacity - used) < n then Some CapShort else None)"

section \<open>The limit file\<close>

definition WriteVolumeState :: "int \<Rightarrow> int \<Rightarrow> string" where
  "WriteVolumeState limit used = FormatInt limit @ [newline] @ FormatInt used @ [newline]"

definition LoadVolumeLimit :: "string option \<Rightarrow> int \<Rightarrow> bool \<Rightarrow> int" where
  "LoadVolumeLimit b capacity unlimited =
     (if unlimited \<or> 0 < capacity then capacity
      else case b of
        None \<Rightarrow> 0
      | Some b \<Rightarrow> (case ParseInt (TrimSpace (split_newlines (TrimSpace b) ! 0)) of None \<Rightarrow> 0 | Some n \<Rightarrow> if n < 0 then 0 else n))"

definition LoadVolumeUsed :: "string option \<Rightarrow> int" where
  "LoadVolumeUsed b =
     (case b of
        None \<Rightarrow> 0
      | Some b \<Rightarrow>
          (let ls = split_newlines (TrimSpace b) in
           if length ls < 2 then 0
           else case ParseInt (TrimSpace (ls ! 1)) of None \<Rightarrow> 0 | Some n \<Rightarrow> if n < 0 then 0 else n))"

section \<open>What the volume below promises\<close>

text \<open>
  \<open>small\<close>: sizes up to 2 EiB, so that no sum of three of them leaves \<open>int64\<close>. A write stores no more than the bound of its declared
  length, a lookup that follows a write answers, and a write of unknown length that does not fit can be deleted again. A lookup before a write, a
  deletion or a renaming may fail at any time.
\<close>

definition small :: "int \<Rightarrow> bool" where
  "small n \<longleftrightarrow> 0 \<le> n \<and> n \<le> 2305843009213693952"

definition small_entry :: "phys \<Rightarrow> entry option \<Rightarrow> bool" where
  "small_entry ph e \<longleftrightarrow> small (charge ph e)"

definition write_env :: "phys \<Rightarrow> (nat \<Rightarrow> bool) \<Rightarrow> bool \<Rightarrow> entry option \<Rightarrow> int \<Rightarrow> int \<Rightarrow> bool" where
  "write_env ph pr deletes stored got n \<longleftrightarrow> small_entry ph stored \<and> small got \<and> (0 < n \<longrightarrow> small n \<and> small (physBound ph n) \<and> charge ph stored \<le> physBound ph n)
     \<and> pr 1 \<and> (n \<le> 0 \<longrightarrow> pr 2 \<and> deletes)"

section \<open>The invariant\<close>

definition charged :: "phys \<Rightarrow> objects \<Rightarrow> int" where
  "charged ph f = tot (\<lambda>p. charge ph (f p))"

definition objects_ok :: "phys \<Rightarrow> objects \<Rightarrow> bool" where
  "objects_ok ph f \<longleftrightarrow> finite {p. charge ph (f p) \<noteq> 0} \<and> (\<forall>p. small_entry ph (f p))"

lemma charge_None [simp]: "charge ph None = 0"
  by (simp add: charge_def)

lemma small_entry_None [simp]: "small_entry ph None"
  by (simp add: small_entry_def small_def)

lemma charged_upd: "objects_ok ph f \<Longrightarrow> small_entry ph e \<Longrightarrow>
    objects_ok ph (f(p := e)) \<and> charged ph (f(p := e)) = charged ph f - charge ph (f p) + charge ph e"
proof -
  assume ok: "objects_ok ph f" and e: "small_entry ph e"
  have g: "(\<lambda>q. charge ph ((f(p := e)) q)) = (\<lambda>q. charge ph (f q))(p := charge ph e)" by auto
  have "{q. charge ph ((f(p := e)) q) \<noteq> 0} = {q. ((\<lambda>q. charge ph (f q))(p := charge ph e)) q \<noteq> 0}" by auto
  moreover have "\<forall>q. small_entry ph ((f(p := e)) q)" using ok e by (simp add: objects_ok_def)
  moreover have "finite {q. charge ph (f q) \<noteq> 0}" using ok by (simp add: objects_ok_def)
  ultimately show ?thesis using tot_upd [of "\<lambda>q. charge ph (f q)" p "charge ph e"]
    unfolding charged_def objects_ok_def g by metis
qed

lemma charged_nonneg: "objects_ok ph f \<Longrightarrow> 0 \<le> charged ph f"
  by (auto simp: charged_def tot_def objects_ok_def small_entry_def small_def intro: sum_nonneg)

lemma charge_le: "objects_ok ph f \<Longrightarrow> charge ph (f p) \<le> charged ph f"
  using charged_upd [of ph f None p] charged_nonneg [of ph "f(p := None)"] by simp

lemma physSize_le: "objects_ok ph f \<Longrightarrow> 0 \<le> physSize ph b f p \<and> physSize ph b f p \<le> charge ph (f p) \<and> small (physSize ph b f p)"
  by (auto simp: physSize_def objects_ok_def small_entry_def small_def)

lemma stored_ok:
  "objects_ok ph f \<Longrightarrow> small_entry ph stored \<Longrightarrow> objects_ok ph (store_object p stored f)
    \<and> charged ph (store_object p stored f) = charged ph f - charge ph (f p) + charge ph (store_object p stored f p)"
  using charged_upd [of ph f stored p] by (auto simp: store_object_def split: option.splits)

lemma Move_Rename:
  "Move rl ph supported answers works src dst st = (if supported then Rename rl ph answers works src dst st else (Some CapUnsupported, st))"
  by (simp add: Move_def Rename_def)

context capacity_counter
begin

definition fs_inv :: "phys \<Rightarrow> 'c cap_fs \<Rightarrow> bool" where
  "fs_inv ph st \<longleftrightarrow> good (ctr st) \<and> 0 < limit (ctr st) \<and> small (limit (ctr st)) \<and> amount (ctr st) \<le> limit (ctr st)
     \<and> objects_ok ph (objs st) \<and> charged ph (objs st) \<le> amount (ctr st)"

text \<open>One call of the counter, in a form that the steps below share.\<close>

lemma add_small:
  assumes "good c" "small (limit c)" "amount c \<le> limit c" "n \<le> 6917529027641081855" "try_add n c = (ok, c')"
  shows "good c' \<and> limit c' = limit c \<and> amount c' = (if ok \<and> 0 < n then amount c + n else amount c) \<and> (0 < limit c \<longrightarrow> amount c' \<le> limit c)"
proof -
  have "n \<le> max_int64 - amount c" using assms(2-4) by (simp add: small_def)
  from add_law [OF assms(1) this assms(5)] show ?thesis using assms(3) by auto
qed

lemma release_le:
  assumes "good c" "0 \<le> n"
  shows "good (release n c) \<and> limit (release n c) = limit c \<and> amount c - n \<le> amount (release n c) \<and> amount (release n c) \<le> amount c
    \<and> 0 \<le> amount (release n c)"
  using release_law [OF assms(1), of n] amount_nonneg [OF assms(1)] assms(2) by auto

text \<open>\<open>settle\<close> with \<open>S\<close> bytes charged to all other files: the counter covers them and the file afterwards.\<close>

lemma settle_covers:
  assumes "good (ctr st)" "0 < limit (ctr st)" "small (limit (ctr st))" "amount (ctr st) \<le> limit (ctr st)"
    and "small prev" "small rsv" "small eff" "objects_ok ph (objs st)" "charge ph (objs st p) \<le> eff"
    and "charged ph (objs st) - charge ph (objs st p) + prev + rsv \<le> amount (ctr st)"
    and "0 < n \<Longrightarrow> charged ph (objs st) \<le> amount (ctr st)" and "n \<le> 0 \<Longrightarrow> deletes"
    and "settle try_add release deletes p prev rsv eff n st = (e, st')"
  shows "fs_inv ph st' \<and> limit (ctr st') = limit (ctr st)"
proof -
  let ?adj = "eff - prev - rsv"
  have adj: "wrap64 ?adj = ?adj" "wrap64 (rsv - (eff - prev)) = rsv - (eff - prev)" "?adj \<le> 6917529027641081855"
    using assms(5-7) by (auto simp: small_def wrap64_id in64_def)
  have del: "objects_ok ph ((objs st)(p := None))" "charged ph ((objs st)(p := None)) = charged ph (objs st) - charge ph (objs st p)"
    using charged_upd [OF assms(8), of None p] by auto
  consider "0 < ?adj" | "?adj < 0" | "?adj = 0" by linarith
  then show ?thesis
  proof cases
    case 1
    obtain ok c where a: "try_add ?adj (ctr st) = (ok, c)" by (cases "try_add ?adj (ctr st)")
    note A = add_small [OF assms(1,3,4) adj(3) a]
    show ?thesis
    proof (cases ok)
      case True
      then have "st' = st\<lparr>ctr := c\<rparr>" using assms(13) 1 a by (simp add: settle_def adj Let_def)
      then show ?thesis using A True 1 assms(2,3,8-10) by (auto simp: fs_inv_def)
    next
      case False
      show ?thesis
      proof (cases "n \<le> 0")
        case True
        then have "st' = st\<lparr>ctr := c, objs := (objs st)(p := None)\<rparr>" using assms(12,13) 1 a False by (simp add: settle_def adj Let_def)
        then show ?thesis using A False assms(2,3,5,6,10) del by (auto simp: fs_inv_def small_def)
      next
        case n: False
        then have "st' = st\<lparr>ctr := c\<rparr>" using assms(13) 1 a False by (simp add: settle_def adj Let_def)
        then show ?thesis using A False n assms(2,3,8,11) by (auto simp: fs_inv_def)
      qed
    qed
  next
    case 2
    then have "st' = st\<lparr>ctr := release (- ?adj) (ctr st)\<rparr>" using assms(13) by (simp add: settle_def adj Let_def)
    then show ?thesis using release_le [OF assms(1), of "- ?adj"] 2 assms(2-4,8-10) by (auto simp: fs_inv_def)
  next
    case 3
    then have "st' = st" using assms(13) by (simp add: settle_def adj Let_def)
    then show ?thesis using 3 assms(1-4,8-10) by (auto simp: fs_inv_def)
  qed
qed

lemma reserve_write_covers:
  assumes "fs_inv ph st" "small prev" "0 < n \<Longrightarrow> small (physBound ph n)" "reserve_write try_add ph n prev (ctr st) = (r, c)"
  shows "good c \<and> limit c = limit (ctr st) \<and> amount c \<le> limit c
    \<and> (r = None \<longrightarrow> amount c = amount (ctr st))
    \<and> (\<forall>rsv. r = Some rsv \<longrightarrow> small rsv \<and> amount c = amount (ctr st) + rsv \<and> (0 < n \<longrightarrow> physBound ph n \<le> prev + rsv))"
proof (cases "0 < n \<and> prev < physBound ph n")
  case True
  then have b: "wrap64 (physBound ph n - prev) = physBound ph n - prev" "small (physBound ph n - prev)"
    using assms(2,3) by (auto simp: small_def wrap64_id in64_def)
  obtain ok c' where a: "try_add (physBound ph n - prev) (ctr st) = (ok, c')" by (cases "try_add (physBound ph n - prev) (ctr st)")
  have "good c' \<and> limit c' = limit (ctr st) \<and> amount c' = (if ok then amount (ctr st) + (physBound ph n - prev) else amount (ctr st))
      \<and> amount c' \<le> limit (ctr st)"
    using add_small [OF _ _ _ _ a] assms(1) b(2) True by (auto simp: fs_inv_def small_def)
  then show ?thesis using assms(4) True a b by (cases ok) (auto simp: reserve_write_def Let_def)
next
  case False
  have "r = Some 0" "c = ctr st"
    using assms(2-4) False by (auto simp: reserve_write_def Let_def small_def wrap64_id in64_def not_less split: if_splits)
  then show ?thesis using assms(1) False by (auto simp: fs_inv_def small_def)
qed

lemma effective_covers:
  assumes "write_env ph pr deletes stored got n" "objects_ok ph f"
  shows "small (effective_size ph (pr 1) got n f p) \<and> charge ph (f p) \<le> effective_size ph (pr 1) got n f p"
  using assms by (auto simp: effective_size_def Let_def write_env_def physSize_def objects_ok_def small_entry_def small_def)

lemma settle_error_covers:
  assumes "good (ctr st)" "0 < limit (ctr st)" "small (limit (ctr st))" "amount (ctr st) \<le> limit (ctr st)"
    and "small prev" "small rsv" "objects_ok ph (objs st)"
    and "charged ph (objs st) - charge ph (objs st p) + prev + rsv \<le> amount (ctr st)"
    and "0 < n \<Longrightarrow> charged ph (objs st) \<le> amount (ctr st)" and "n \<le> 0 \<Longrightarrow> deletes \<and> pr 2 \<and> rsv = 0" and "pr 1"
  shows "fs_inv ph (settleAfterWriteError try_add release ph pr deletes p prev rsv n st)
    \<and> limit (ctr (settleAfterWriteError try_add release ph pr deletes p prev rsv n st)) = limit (ctr st)"
proof (cases "physSizeChecked ph (pr 1) (pr 2) (objs st) p")
  case None
  then have "0 < n" using assms(10) by (force simp: physSizeChecked_def innerSizeChecked_def split: if_splits)
  then show ?thesis using None assms(1-4,7-9) by (auto simp: settleAfterWriteError_def fs_inv_def)
next
  case (Some a)
  then have a: "a = charge ph (objs st p)"
    using assms(11) by (auto simp: physSizeChecked_def innerSizeChecked_def charge_def split: if_splits option.splits)
  then have "small a" using assms(7) by (auto simp: objects_ok_def small_entry_def)
  obtain e u where u: "settle try_add release deletes p prev rsv a n st = (e, u)" by (cases "settle try_add release deletes p prev rsv a n st")
  have inv: "fs_inv ph u" "limit (ctr u) = limit (ctr st)"
    using settle_covers [OF assms(1-6) \<open>small a\<close> assms(7) _ assms(8,9) _ u] a assms(10) by auto
  show ?thesis
  proof (cases e)
    case None
    then show ?thesis using Some u inv by (simp add: settleAfterWriteError_def)
  next
    case (Some er)
    have "n \<le> 0" using u Some by (auto simp: settle_def Let_def split: if_splits prod.splits bool.splits)
    then have z: "deletes" "rsv = 0" using assms(10) by auto
    have g: "good (ctr u)" "objects_ok ph (objs u)" using inv by (simp_all add: fs_inv_def)
    have "0 \<le> charge ph (objs u p)" using g(2) by (simp add: objects_ok_def small_entry_def small_def)
    then show ?thesis
      using Some \<open>physSizeChecked _ _ _ _ _ = Some a\<close> u inv z release_le [OF g(1), of 0] charged_upd [OF g(2), of None p]
      by (auto simp: settleAfterWriteError_def fs_inv_def)
  qed
qed

text \<open>Both kinds of write, from the reservation on.\<close>

lemma write_covers:
  assumes inv: "fs_inv ph st" and env: "write_env ph pr deletes stored got n"
    and r: "reserve_write try_add ph n (physSize ph (pr 0) (objs st) p) (ctr st) = (Some rsv, c)"
  defines "u \<equiv> st\<lparr>ctr := c, objs := store_object p stored (objs st)\<rparr>" and "prev \<equiv> physSize ph (pr 0) (objs st) p"
  shows "settle try_add release deletes p prev rsv (effective_size ph (pr 1) got n (objs u) p) n u = (e, st') \<Longrightarrow>
      fs_inv ph st' \<and> limit (ctr st') = limit (ctr st)"
    and "fs_inv ph (settleAfterWriteError try_add release ph pr deletes p prev rsv n u)
      \<and> limit (ctr (settleAfterWriteError try_add release ph pr deletes p prev rsv n u)) = limit (ctr st)"
    and "fs_inv ph (st\<lparr>ctr := release rsv c\<rparr>) \<and> limit (release rsv c) = limit (ctr st)"
proof -
  have ok: "objects_ok ph (objs st)" and cov: "charged ph (objs st) \<le> amount (ctr st)" "0 < limit (ctr st)" "small (limit (ctr st))"
    using inv by (simp_all add: fs_inv_def)
  have prev: "prev \<le> charge ph (objs st p)" "small prev" using physSize_le [OF ok] by (simp_all add: prev_def)
  have res: "good c" "limit c = limit (ctr st)" "amount c \<le> limit c" "small rsv" "amount c = amount (ctr st) + rsv" "0 < n \<longrightarrow> physBound ph n \<le> prev + rsv"
    using reserve_write_covers [OF inv prev(2) _ r [folded prev_def]] env by (auto simp: write_env_def)
  have st: "objects_ok ph (objs u)" "charged ph (objs u) = charged ph (objs st) - charge ph (objs st p) + charge ph (objs u p)"
    using stored_ok [OF ok, of stored p] env by (simp_all add: u_def write_env_def)
  have room: "charged ph (objs u) - charge ph (objs u p) + prev + rsv \<le> amount (ctr u)" using st(2) prev(1) cov(1) res(5) by (simp add: u_def)
  have bound: "charged ph (objs u) \<le> amount (ctr u)" if "0 < n"
  proof (cases stored)
    case None
    then show ?thesis using cov(1) res(4,5) by (simp add: u_def store_object_def small_def)
  next
    case (Some e)
    then have "charge ph (objs u p) \<le> physBound ph n" using env that by (auto simp: u_def store_object_def write_env_def)
    then show ?thesis using st(2) res(5,6) that prev(1) cov(1) by (simp add: u_def)
  qed
  have u: "good (ctr u)" "0 < limit (ctr u)" "small (limit (ctr u))" "amount (ctr u) \<le> limit (ctr u)" "limit (ctr u) = limit (ctr st)"
    using res cov by (simp_all add: u_def)
  have free: "deletes \<and> pr 2 \<and> rsv = 0" if "n \<le> 0"
    using env that r by (auto simp: write_env_def reserve_write_def Let_def split: if_splits)
  note eff = effective_covers [OF env st(1), of p]
  show "fs_inv ph st' \<and> limit (ctr st') = limit (ctr st)"
    if "settle try_add release deletes p prev rsv (effective_size ph (pr 1) got n (objs u) p) n u = (e, st')"
    using settle_covers [OF u(1-4) prev(2) res(4) _ st(1) _ room bound _ that] eff free u(5) by auto
  show "fs_inv ph (settleAfterWriteError try_add release ph pr deletes p prev rsv n u)
      \<and> limit (ctr (settleAfterWriteError try_add release ph pr deletes p prev rsv n u)) = limit (ctr st)"
    using settle_error_covers [where pr = pr, OF u(1-4) prev(2) res(4) st(1) room bound free] env u(5) by (simp add: write_env_def)
  show "fs_inv ph (st\<lparr>ctr := release rsv c\<rparr>) \<and> limit (release rsv c) = limit (ctr st)"
    using release_le [OF res(1), of rsv] res cov ok by (auto simp: fs_inv_def small_def)
qed

lemma WriteFile_covers:
  assumes "fs_inv ph st" "write_env ph pr deletes stored got n"
    and "WriteFile try_add release ph pr deletes stored got failed p n st = (e, st')"
  shows "fs_inv ph st' \<and> limit (ctr st') = limit (ctr st)"
proof -
  obtain r c where r: "reserve_write try_add ph n (physSize ph (pr 0) (objs st) p) (ctr st) = (r, c)"
    by (cases "reserve_write try_add ph n (physSize ph (pr 0) (objs st) p) (ctr st)")
  show ?thesis
  proof (cases r)
    case None
    have "small (physSize ph (pr 0) (objs st) p)" using assms(1) physSize_le by (auto simp: fs_inv_def)
    then show ?thesis
      using reserve_write_covers [OF assms(1) _ _ r] assms r None by (auto simp: WriteFile_def Let_def fs_inv_def write_env_def)
  next
    case (Some rsv)
    note w = write_covers [OF assms(1,2) r [unfolded Some]]
    show ?thesis using w(1) w(2) assms(3) r Some by (auto simp: WriteFile_def Let_def split: if_splits)
  qed
qed

lemma WriteIfAbsent_covers:
  assumes "fs_inv ph st" "write_env ph pr deletes stored got n"
    and "WriteIfAbsent try_add release ph supported pr deletes stored got written p n st = (e, st')"
  shows "fs_inv ph st' \<and> limit (ctr st') = limit (ctr st)"
proof (cases supported)
  case True
  obtain r c where r: "reserve_write try_add ph n (physSize ph (pr 0) (objs st) p) (ctr st) = (r, c)"
    by (cases "reserve_write try_add ph n (physSize ph (pr 0) (objs st) p) (ctr st)")
  show ?thesis
  proof (cases r)
    case None
    have "small (physSize ph (pr 0) (objs st) p)" using assms(1) physSize_le by (auto simp: fs_inv_def)
    then show ?thesis
      using reserve_write_covers [OF assms(1) _ _ r] assms r None True by (auto simp: WriteIfAbsent_def Let_def fs_inv_def write_env_def)
  next
    case (Some rsv)
    note w = write_covers [OF assms(1,2) r [unfolded Some]]
    have z: "st\<lparr>ctr := c\<rparr> = st" if "\<not> 0 < rsv" 
      using reserve_write_covers [OF assms(1) _ _ r] r Some that by (auto simp: reserve_write_def Let_def split: if_splits prod.splits bool.splits)
    show ?thesis using w assms(1,3) r Some True z
      by (auto simp: WriteIfAbsent_def Let_def split: if_splits option.splits bool.splits prod.splits)
  qed
next
  case False
  then show ?thesis using assms by (simp add: WriteIfAbsent_def)
qed

lemma release_covers:
  assumes "fs_inv ph st" "objects_ok ph f" "0 \<le> n" "charged ph f + n \<le> charged ph (objs st)"
  shows "fs_inv ph (st\<lparr>objs := f, ctr := release n (ctr st)\<rparr>) \<and> limit (release n (ctr st)) = limit (ctr st)"
  using release_le [of "ctr st" n] assms by (auto simp: fs_inv_def)

lemma move_object_charged:
  assumes "objects_ok ph f" "src \<noteq> dst"
  shows "objects_ok ph (move_object src dst f) \<and> charged ph (move_object src dst f) = charged ph f - charge ph (f dst)"
  using charged_upd [OF assms(1), of "f src" dst] charged_upd [of ph "f(dst := f src)" None src] assms
  by (auto simp: move_object_def objects_ok_def)

lemma Rename_covers:
  assumes "fs_inv ph st" "src \<noteq> dst" "Rename release ph answers works src dst st = (e, st')"
  shows "fs_inv ph st' \<and> limit (ctr st') = limit (ctr st)"
proof -
  have ok: "objects_ok ph (objs st)" using assms(1) by (simp add: fs_inv_def)
  show ?thesis
    using release_covers [OF assms(1), of "move_object src dst (objs st)" "physSize ph answers (objs st) dst"]
      move_object_charged [OF ok assms(2)] physSize_le [OF ok, of answers dst] assms by (auto simp: Rename_def Let_def split: if_splits)
qed

lemma Delete_covers:
  assumes "fs_inv ph st" "Delete release ph answers works p st = (e, st')"
  shows "fs_inv ph st' \<and> limit (ctr st') = limit (ctr st)"
proof -
  have ok: "objects_ok ph (objs st)" using assms(1) by (simp add: fs_inv_def)
  show ?thesis
    using release_covers [OF assms(1), of "(objs st)(p := None)" "physSize ph answers (objs st) p"]
      charged_upd [OF ok, of None p] physSize_le [OF ok, of answers p] assms by (auto simp: Delete_def Let_def split: if_splits)
qed

lemma Copy_covers:
  assumes "fs_inv ph st" "pr 1" "Copy try_add release ph supported pr works src dst st = (e, st')"
  shows "fs_inv ph st' \<and> limit (ctr st') = limit (ctr st)"
proof (cases supported)
  case True
  let ?n = "charge ph (objs st src)" and ?old = "physSize ph (pr 0) (objs st) dst"
  have ok: "objects_ok ph (objs st)" and I: "good (ctr st)" "0 < limit (ctr st)" "small (limit (ctr st))" "amount (ctr st) \<le> limit (ctr st)"
      "charged ph (objs st) \<le> amount (ctr st)" using assms(1) by (simp_all add: fs_inv_def)
  have n: "small ?n" "small_entry ph (objs st src)" using ok by (simp_all add: objects_ok_def small_entry_def)
  note old = physSize_le [OF ok, of "pr 0" dst]
  note new = charged_upd [OF ok n(2), of dst]
  obtain r c where a: "(if 0 < ?n then try_add ?n (ctr st) else (True, ctr st)) = (r, c)" by (metis surj_pair)
  have A: "good c \<and> limit c = limit (ctr st) \<and> amount c = (if r then amount (ctr st) + ?n else amount (ctr st)) \<and> amount c \<le> limit (ctr st)"
    using add_small [OF I(1,3,4), of ?n r c] a n(1) I by (auto simp: small_def split: if_splits)
  have run: "Copy try_add release ph supported pr works src dst st =
      (if \<not> r then (Some CapRefused, st\<lparr>ctr := c\<rparr>)
       else if \<not> works then (Some InnerFailed, st\<lparr>ctr := (if 0 < ?n then release ?n c else c)\<rparr>)
       else (None, st\<lparr>objs := (objs st)(dst := objs st src), ctr := release ?old c\<rparr>))"
    using True assms(2) a by (cases r) (simp_all add: Copy_def Let_def physSize_def)
  show ?thesis
    using assms(3) run A I ok new old n(1) release_le [of c ?n] release_le [of c ?old] by (auto simp: fs_inv_def small_def split: if_splits)
next
  case False
  then show ?thesis using assms by (simp add: Copy_def)
qed

lemma WriteFile_success:
  assumes "fs_inv ph st" "\<And>k. pr k" "0 < n" "small (physBound ph n)" "0 < charge ph (Some s)" "charge ph (Some s) \<le> physBound ph n"
    and "WriteFile try_add release ph pr deletes (Some s) got False p n st = (e, st')"
  shows "e = Some CapRefused \<and> objs st' = objs st \<and> amount (ctr st') = amount (ctr st)
    \<or> e = None \<and> objs st' = (objs st)(p \<mapsto> s) \<and> amount (ctr st') = amount (ctr st) - charge ph (objs st p) + charge ph (Some s)"
proof -
  have ok: "objects_ok ph (objs st)" and cov: "charged ph (objs st) \<le> amount (ctr st)" using assms(1) by (simp_all add: fs_inv_def)
  let ?old = "charge ph (objs st p)" and ?new = "charge ph (Some s)"
  have old: "physSize ph (pr 0) (objs st) p = ?old" "small ?old" "?old \<le> charged ph (objs st)"
    using assms(2) ok charge_le [OF ok] by (simp_all add: physSize_def objects_ok_def small_entry_def)
  obtain r c where r: "reserve_write try_add ph n ?old (ctr st) = (r, c)" by (cases "reserve_write try_add ph n ?old (ctr st)")
  note res = reserve_write_covers [OF assms(1) old(2) assms(4) r]
  show ?thesis
  proof (cases r)
    case None
    then show ?thesis using assms(7) r res old(1) by (auto simp: WriteFile_def)
  next
    case (Some rsv)
    then have R: "small rsv" "amount c = amount (ctr st) + rsv" "physBound ph n \<le> ?old + rsv" "good c" using res assms(3) by auto
    let ?u = "st\<lparr>ctr := c, objs := (objs st)(p \<mapsto> s)\<rparr>" and ?gap = "?old + rsv - ?new"
    have eff: "effective_size ph (pr 1) got n ((objs st)(p \<mapsto> s)) p = ?new"
      using assms(2,5) by (simp add: effective_size_def physSize_def Let_def)
    have adj: "wrap64 (?new - ?old - rsv) = ?new - ?old - rsv" "wrap64 (rsv - (?new - ?old)) = ?gap"
      using assms(4-6) old(2) R(1) by (auto simp: small_def wrap64_id in64_def)
    have "(e, st') = settle try_add release deletes p ?old rsv ?new n ?u"
      using assms(7) r Some old(1) eff by (simp add: WriteFile_def store_object_def)
    then have st': "e = None" "objs st' = (objs st)(p \<mapsto> s)" "ctr st' = (if 0 < ?gap then release ?gap c else c)"
      using R(3) assms(6) by (auto simp: settle_def Let_def adj split: if_splits)
    have "?gap \<le> amount c" "0 \<le> ?gap" using R(2,3) old(3) cov assms(5,6) by auto
    then have "amount (ctr st') = amount c - ?gap" using release_law [OF R(4), of ?gap] st'(3) by auto
    then show ?thesis using st' R(2) by simp
  qed
qed

lemma WriteFile_undone:
  assumes "fs_inv ph st" "\<And>k. pr k" "0 < n \<Longrightarrow> small (physBound ph n)"
    and "WriteFile try_add release ph pr deletes None got True p n st = (e, st')"
  shows "e \<noteq> None \<and> objs st' = objs st \<and> amount (ctr st') = amount (ctr st)"
proof -
  have ok: "objects_ok ph (objs st)" using assms(1) by (simp add: fs_inv_def)
  let ?old = "charge ph (objs st p)"
  have old: "physSize ph (pr 0) (objs st) p = ?old" "small ?old"
    "physSizeChecked ph (pr 1) (pr 2) (objs st) p = Some ?old"
    using assms(2) ok by (auto simp: physSize_def objects_ok_def small_entry_def physSizeChecked_def innerSizeChecked_def charge_def split: option.splits)
  obtain r c where r: "reserve_write try_add ph n ?old (ctr st) = (r, c)" by (cases "reserve_write try_add ph n ?old (ctr st)")
  note res = reserve_write_covers [OF assms(1) old(2) assms(3) r]
  show ?thesis
  proof (cases r)
    case None
    then show ?thesis using assms(4) r res old(1) by (auto simp: WriteFile_def)
  next
    case (Some rsv)
    then have R: "small rsv" "amount c = amount (ctr st) + rsv" "good c" using res by auto
    have adj: "wrap64 rsv = rsv" "wrap64 (- rsv) = - rsv" using R(1) by (simp_all add: small_def wrap64_id in64_def)
    have "0 \<le> amount (ctr st)" using assms(1) amount_nonneg by (simp add: fs_inv_def)
    then have "amount (release rsv c) = amount (ctr st)" using release_law [OF R(3), of rsv] R(1,2) by (simp add: small_def)
    moreover have "e = Some InnerFailed" "objs st' = objs st" "ctr st' = (if 0 < rsv then release rsv c else c)"
      using assms(4) r Some old R(1)
      by (auto simp: WriteFile_def settleAfterWriteError_def settle_def store_object_def Let_def adj small_def)
    ultimately show ?thesis using R(1,2) by (auto simp: small_def)
  qed
qed

end

section \<open>All histories of a volume\<close>

type_synonym volume_fs = "(ledger_counter \<times> world) cap_fs"

text \<open>An operation, with what the volume below does during it.\<close>

datatype fs_op =
    OpWrite "nat \<Rightarrow> bool" bool "entry option" int bool string int
  | OpWriteIfAbsent bool "nat \<Rightarrow> bool" bool "entry option" int "bool option" string int
  | OpRename bool bool string string
  | OpMove bool bool bool string string
  | OpDelete bool bool string
  | OpCopy bool "nat \<Rightarrow> bool" bool string string
  | OpCompact
  | OpReap

fun fs_apply :: "phys \<Rightarrow> fs_op \<Rightarrow> volume_fs \<Rightarrow> volume_fs" where
  "fs_apply ph (OpWrite pr deletes stored got failed p n) st = snd (WriteFile counter_try counter_release ph pr deletes stored got failed p n st)"
| "fs_apply ph (OpWriteIfAbsent avail pr deletes stored got written p n) st =
     snd (WriteIfAbsent counter_try counter_release ph avail pr deletes stored got written p n st)"
| "fs_apply ph (OpRename answers works src dst) st = snd (Rename counter_release ph answers works src dst st)"
| "fs_apply ph (OpMove avail answers works src dst) st = snd (Move counter_release ph avail answers works src dst st)"
| "fs_apply ph (OpDelete answers works p) st = snd (Delete counter_release ph answers works p st)"
| "fs_apply ph (OpCopy avail pr works src dst) st = snd (Copy counter_try counter_release ph avail pr works src dst st)"
| "fs_apply ph OpCompact st = st\<lparr>ctr := snd (Counter_Compact (fst (ctr st)) (snd (ctr st)))\<rparr>"
| "fs_apply ph OpReap st = st\<lparr>ctr := snd (ReapEmptyShards (fst (ctr st)) (snd (ctr st)))\<rparr>"

text \<open>The promises of the volume below, and no renaming of a file to itself.\<close>

fun op_env :: "phys \<Rightarrow> fs_op \<Rightarrow> bool" where
  "op_env ph (OpWrite pr deletes stored got failed p n) = write_env ph pr deletes stored got n"
| "op_env ph (OpWriteIfAbsent avail pr deletes stored got written p n) = write_env ph pr deletes stored got n"
| "op_env ph (OpRename answers works src dst) = (src \<noteq> dst)"
| "op_env ph (OpMove avail answers works src dst) = (src \<noteq> dst)"
| "op_env ph (OpCopy avail pr works src dst) = pr 1"
| "op_env ph _ = True"

definition fs_run :: "phys \<Rightarrow> fs_op list \<Rightarrow> volume_fs \<Rightarrow> volume_fs" where
  "fs_run ph ops st = foldl (\<lambda>st op. fs_apply ph op st) st ops"

lemma fs_apply_inv:
  assumes "lc.fs_inv ph st" "op_env ph op"
  shows "lc.fs_inv ph (fs_apply ph op st) \<and> cmax (fst (ctr (fs_apply ph op st))) = cmax (fst (ctr st))"
proof (cases op)
  case (OpWrite pr deletes stored got failed p n)
  then show ?thesis
    using lc.WriteFile_covers [OF assms(1), of pr deletes stored got n failed p] assms(2)
    by (cases "WriteFile counter_try counter_release ph pr deletes stored got failed p n st") simp
next
  case (OpWriteIfAbsent avail pr deletes stored got written p n)
  then show ?thesis
    using lc.WriteIfAbsent_covers [OF assms(1), of pr deletes stored got n avail written p] assms(2)
    by (cases "WriteIfAbsent counter_try counter_release ph avail pr deletes stored got written p n st") simp
next
  case (OpRename answers works src dst)
  then show ?thesis
    using lc.Rename_covers [OF assms(1), of src dst answers works] assms(2)
    by (cases "Rename counter_release ph answers works src dst st") simp
next
  case (OpMove avail answers works src dst)
  then show ?thesis
    using lc.Rename_covers [OF assms(1), of src dst answers works] assms
    by (cases "Rename counter_release ph answers works src dst st"; cases avail) (simp_all add: Move_Rename)
next
  case (OpDelete answers works p)
  then show ?thesis
    using lc.Delete_covers [OF assms(1), of answers works p] by (cases "Delete counter_release ph answers works p st") simp
next
  case (OpCopy avail pr works src dst)
  then show ?thesis
    using lc.Copy_covers [OF assms(1), of pr avail works src dst] assms(2)
    by (cases "Copy counter_try counter_release ph avail pr works src dst st") simp
next
  case OpCompact
  obtain e c w where "Counter_Compact (fst (ctr st)) (snd (ctr st)) = (e, c, w)" by (metis surj_pair)
  then show ?thesis using OpCompact assms(1) Compact_good [of "fst (ctr st)" "snd (ctr st)" e c w] by (auto simp: lc.fs_inv_def)
next
  case OpReap
  obtain e c w where "ReapEmptyShards (fst (ctr st)) (snd (ctr st)) = (e, c, w)" by (metis surj_pair)
  then show ?thesis using OpReap assms(1) Reap_good [of "fst (ctr st)" "snd (ctr st)" e c w] by (auto simp: lc.fs_inv_def)
qed

lemma fs_run_inv:
  "lc.fs_inv ph st \<Longrightarrow> list_all (op_env ph) ops \<Longrightarrow>
    lc.fs_inv ph (fs_run ph ops st) \<and> cmax (fst (ctr (fs_run ph ops st))) = cmax (fst (ctr st))"
  unfolding fs_run_def by (induction ops arbitrary: st) (auto dest: fs_apply_inv)

definition empty_fs :: "ledger_counter \<Rightarrow> world \<Rightarrow> volume_fs" where
  "empty_fs c w = \<lparr>objs = Map.empty, ctr = (c, w)\<rparr>"

lemma empty_fs_inv:
  "counter_good c w \<Longrightarrow> 0 < cmax c \<Longrightarrow> small (cmax c) \<Longrightarrow> volume_total w \<le> cmax c \<Longrightarrow> lc.fs_inv ph (empty_fs c w)"
  using lc.amount_nonneg [of "(c, w)"] by (simp add: lc.fs_inv_def empty_fs_def charged_def tot_def objects_ok_def)





text \<open>C29. The limit and the usage of a volume survive in its state file: what \<open>WriteVolumeState\<close> writes is read back by \<open>LoadVolumeLimit\<close>
  when a volume is made again without a limit of its own, and by \<open>LoadVolumeUsed\<close>; an explicit limit goes before the file.\<close>

theorem volume_state_roundtrip:
  assumes "in64 limit" "in64 used" "0 \<le> limit" "0 \<le> used"
  shows "LoadVolumeLimit (Some (WriteVolumeState limit used)) 0 False = limit \<and> LoadVolumeUsed (Some (WriteVolumeState limit used)) = used
    \<and> (\<forall>c > 0. LoadVolumeLimit (Some (WriteVolumeState limit used)) c False = c)"
proof -
  have t: "TrimSpace (WriteVolumeState limit used) = FormatInt limit @ newline # FormatInt used"
    using TrimSpace_block [OF printable_FormatInt FormatInt_ne printable_FormatInt FormatInt_ne, of limit "[newline]" used]
    by (simp add: WriteVolumeState_def)
  have "split_newlines (FormatInt limit @ newline # FormatInt used) = [FormatInt limit, FormatInt used]"
    by (simp add: split_newlines_append split_newlines_line newline_printable printable_FormatInt)
  then show ?thesis using t assms
    by (simp add: LoadVolumeLimit_def LoadVolumeUsed_def TrimSpace_printable printable_FormatInt ParseInt_FormatInt Let_def)
qed

theorem volume_state_roundtrip_witness:
  "LoadVolumeLimit (Some (WriteVolumeState 1000 12)) 0 False = 1000 \<and> LoadVolumeUsed (Some (WriteVolumeState 1000 12)) = 12"
  using volume_state_roundtrip [of 1000 12] by (simp add: in64_def)

section \<open>Outside the promises\<close>

definition usage_of :: "volume_fs \<Rightarrow> int \<times> int" where
  "usage_of st = (fst (Used (fst (ctr st)) (snd (ctr st))), charge None (objs st ''a''))"

definition demo_fs :: "int \<Rightarrow> volume_fs" where
  "demo_fs n = snd (WriteFile counter_try counter_release None (\<lambda>_. True) True (Some \<lparr>esize = n, ephys = n\<rparr>) n False ''a'' n
     (empty_fs (disk_counter None 10) \<lparr>wvol = fresh_volume, wpools = two_level\<rparr>))"

text \<open>A file renamed to itself is still there, but no longer counted.\<close>

lemma rename_to_itself: "usage_of (demo_fs 8) = (8, 8)" "usage_of (snd (Rename counter_release None True True ''a'' ''a'' (demo_fs 8))) = (0, 8)"
  by code_simp+

text \<open>A write of unknown length that reports an error but has stored six bytes, and whose file cannot be looked up again, is not counted.\<close>

lemma unknown_length_uncounted:
  "usage_of (snd (WriteFile counter_try counter_release None (\<lambda>k. k = 0) True (Some \<lparr>esize = 6, ephys = 6\<rparr>) 6 True ''a'' (- 1)
     (empty_fs (disk_counter None 10) \<lparr>wvol = fresh_volume, wpools = two_level\<rparr>))) = (0, 6)"
  by code_simp

text \<open>A write of unknown length that fails and stores nothing deletes the old file when the lookup before it has failed and the volume is almost full.\<close>

lemma failed_write_deletes_old:
  "objs (snd (WriteFile counter_try counter_release None (\<lambda>k. k \<noteq> 0) True None 0 True ''a'' (- 1) (demo_fs 8))) ''a'' = None"
  by code_simp

end
