(* ===== verification/Storage_Names.thy ===== *)
theory Storage_Names
  imports Go_Strings
begin

text \<open>
  Names and relative paths of the storage layer (\<open>pkg/storage/name.go\<close>, \<open>pkg/storage/path.go\<close>, \<open>pkg/storage/tenant.go\<close>,
  \<open>pkg/pathguard/validate.go\<close>): the check of a single path segment, the normalisation of a path sent by a client, the mapping into
  the buckets of a tenant and the reserved bucket names, over a model of \<open>filepath.Clean\<close> for a Unix host. Strings are byte strings.
\<close>

section \<open>Splitting, joining and cleaning paths\<close>

abbreviation SL :: char where
  "SL \<equiv> CHR ''/''"

abbreviation backslash :: char where
  "backslash \<equiv> CHR 0x5C"

text \<open>\<open>strings.Split(s, sep)\<close> and \<open>strings.Join(ss, sep)\<close> for a separator of one byte.\<close>

fun Split1 :: "char \<Rightarrow> string \<Rightarrow> string list" where
  "Split1 d [] = [[]]"
| "Split1 d (c # s) = (if c = d then [] # Split1 d s
     else case Split1 d s of [] \<Rightarrow> [[c]] | l # ls \<Rightarrow> (c # l) # ls)"

fun Join1 :: "char \<Rightarrow> string list \<Rightarrow> string" where
  "Join1 d [] = []"
| "Join1 d [s] = s"
| "Join1 d (s # t # ss) = s @ d # Join1 d (t # ss)"

text \<open>\<open>strings.Cut(s, sep)\<close> for a separator of one byte.\<close>

definition cut_at :: "char \<Rightarrow> string \<Rightarrow> (string \<times> string) option" where
  "cut_at d s = (if d \<in> set s then Some (takeWhile (\<lambda>c. c \<noteq> d) s, tl (dropWhile (\<lambda>c. c \<noteq> d) s)) else None)"

text \<open>\<open>filepath.Clean\<close>: the segments read so far are a stack, the last one first.\<close>

fun clean_segs :: "bool \<Rightarrow> string list \<Rightarrow> string list \<Rightarrow> string list" where
  "clean_segs rooted st [] = rev st"
| "clean_segs rooted st (s # ss) =
     (if s = [] \<or> s = ''.'' then clean_segs rooted st ss
      else if s = ''..'' then
        (if st \<noteq> [] \<and> hd st \<noteq> ''..'' then clean_segs rooted (tl st) ss
         else if rooted then clean_segs rooted st ss
         else clean_segs rooted (s # st) ss)
      else clean_segs rooted (s # st) ss)"

definition Clean :: "string \<Rightarrow> string" where
  "Clean p =
     (let rooted = HasPrefix p [SL];
          q = Join1 SL (clean_segs rooted [] (Split1 SL p))
      in if rooted then SL # q else if q = [] then ''.'' else q)"

text \<open>\<open>filepath.Join(a, b)\<close>: empty elements are ignored.\<close>

definition Join2 :: "string \<Rightarrow> string \<Rightarrow> string" where
  "Join2 a b = (if a = [] \<and> b = [] then [] else if a = [] then Clean b else if b = [] then Clean a else Clean (a @ SL # b))"

definition ReplaceAll1 :: "char \<Rightarrow> char \<Rightarrow> string \<Rightarrow> string" where
  "ReplaceAll1 a b s = map (\<lambda>c. if c = a then b else c) s"

section \<open>Segments\<close>

definition upper_ascii :: "char \<Rightarrow> char" where
  "upper_ascii c = (if 97 \<le> (of_char c :: nat) \<and> (of_char c :: nat) \<le> 122 then char_of ((of_char c :: nat) - 32) else c)"

definition lower_ascii :: "char \<Rightarrow> char" where
  "lower_ascii c = (if 65 \<le> (of_char c :: nat) \<and> (of_char c :: nat) \<le> 90 then char_of ((of_char c :: nat) + 32) else c)"

definition windowsReservedBaseNames :: "string list" where
  "windowsReservedBaseNames = [''CON'', ''NUL'', ''PRN'', ''AUX'',
     ''COM1'', ''COM2'', ''COM3'', ''COM4'', ''COM5'', ''COM6'', ''COM7'', ''COM8'', ''COM9'',
     ''LPT1'', ''LPT2'', ''LPT3'', ''LPT4'', ''LPT5'', ''LPT6'', ''LPT7'', ''LPT8'', ''LPT9'']"

text \<open>
  \<open>ContainsAny\<close> with ASCII characters looks at bytes, and a character below 0x20 is a byte below 0x20. The letters of the reserved
  device names have no upper-case preimage outside ASCII, so \<open>ToUpper\<close> is the ASCII one as far as the lookup can tell.
\<close>

definition ContainsAny :: "string \<Rightarrow> string \<Rightarrow> bool" where
  "ContainsAny s cs \<longleftrightarrow> list_ex (\<lambda>c. c \<in> set cs) s"

definition ValidSegmentName :: "string \<Rightarrow> bool" where
  "ValidSegmentName name =
     (if name = [] then False
      else if name = ''.'' \<or> name = ''..'' then False
      else if ContainsAny name [SL, backslash] then False
      else if ContainsAny name [CHR ''<'', CHR ''>'', CHR '':'', CHR 0x22, CHR ''|'', CHR ''?'', CHR ''*''] then False
      else if list_ex (\<lambda>c. (of_char c :: nat) < 0x20) name then False
      else if HasPrefix name ''.__'' then False
      else if HasSuffix name ''.'' \<or> HasSuffix name '' '' then False
      else if 255 < length name then False
      else let base = (case cut_at (CHR ''.'') name of Some (before, _) \<Rightarrow> before | None \<Rightarrow> name)
           in \<not> map upper_ascii base \<in> set windowsReservedBaseNames)"

section \<open>Paths sent by a client\<close>

definition NormalizeRemote :: "string \<Rightarrow> string option" where
  "NormalizeRemote remotePath =
     (let norm = TrimSpace remotePath in
      if norm = [] then None
      else let norm = ReplaceAll1 backslash SL norm in
           if HasPrefix norm [SL] then None
           else if 2 \<le> length norm \<and> norm ! 1 = CHR '':'' then None
           else if list_ex (\<lambda>seg. seg = [] \<or> seg = ''.'' \<or> seg = ''..'') (Split1 SL norm) then None
           else Some norm)"

definition validSegments :: "string \<Rightarrow> bool" where
  "validSegments rel = list_all ValidSegmentName (Split1 SL rel)"

definition JoinRel :: "string list \<Rightarrow> string" where
  "JoinRel segs = Join1 SL segs"

definition isLegacyUnderscorePrefix :: "string \<Rightarrow> bool" where
  "isLegacyUnderscorePrefix seg = HasPrefix seg ''__''"

definition bucketUser :: string where
  "bucketUser = ''user''"

definition featureBuckets :: "string list" where
  "featureBuckets = [bucketUser, ''cloud'', ''archive'', ''chunk'', ''version'', ''meta'', ''trash'', ''backup'']"

definition Buckets :: "string list" where
  "Buckets = [bucketUser, ''cloud'', ''archive'', ''chunk'', ''version'', ''meta'', ''trash'']"

definition QuotaBucketNames :: "string list" where
  "QuotaBucketNames = [bucketUser, ''cloud'', ''archive'', ''chunk'', ''version'', ''meta'']"

definition UserRel :: "string \<Rightarrow> string option" where
  "UserRel remotePath =
     (case NormalizeRemote remotePath of
        None \<Rightarrow> None
      | Some normalized \<Rightarrow>
          if \<not> validSegments normalized then None
          else let first = (case cut_at SL normalized of Some (f, _) \<Rightarrow> f | None \<Rightarrow> normalized)
               in if isLegacyUnderscorePrefix first then None
                  else Some (bucketUser @ SL # normalized))"

text \<open>
  \<open>strings.EqualFold(b, s)\<close> for a lower-case ASCII \<open>b\<close>: an ASCII letter of either case, the long s U+017F for \<open>s\<close> and the Kelvin
  sign U+212A for \<open>k\<close>, the only other characters that fold to a letter.
\<close>

fun equal_fold :: "string \<Rightarrow> string \<Rightarrow> bool" where
  "equal_fold [] s = (s = [])"
| "equal_fold (b # bs) s =
     (if s \<noteq> [] \<and> lower_ascii (hd s) = b then equal_fold bs (tl s)
      else if b = CHR ''s'' \<and> take 2 s = [CHR 0xC5, CHR 0xBF] then equal_fold bs (drop 2 s)
      else if b = CHR ''k'' \<and> take 3 s = [CHR 0xE2, CHR 0x84, CHR 0xAA] then equal_fold bs (drop 3 s)
      else False)"

definition IsReservedBucketName :: "string \<Rightarrow> bool" where
  "IsReservedBucketName name = list_ex (\<lambda>b. equal_fold b name) featureBuckets"

definition isValidBucket :: "string \<Rightarrow> bool" where
  "isValidBucket bucket = IsReservedBucketName bucket"

definition FeatureRel :: "string \<Rightarrow> string \<Rightarrow> string option" where
  "FeatureRel bucket sub =
     (if \<not> isValidBucket bucket then None
      else let norm = TrimSpace sub in
           if norm = [] then Some bucket
           else case NormalizeRemote norm of
                  None \<Rightarrow> None
                | Some normalized \<Rightarrow> if \<not> validSegments normalized then None else Some (bucket @ SL # normalized))"

datatype tenant_error = NilRoot | IllegalOwner | ReservedOwner

record 'r tenant =
  tenant_ID :: string
  tenant_root :: 'r

definition NewTenant :: "string \<Rightarrow> 'r option \<Rightarrow> tenant_error + 'r tenant" where
  "NewTenant owner root =
     (case root of
        None \<Rightarrow> Inl NilRoot
      | Some rt \<Rightarrow> if \<not> ValidSegmentName owner then Inl IllegalOwner
                  else if IsReservedBucketName owner then Inl ReservedOwner
                  else Inr \<lparr>tenant_ID = owner, tenant_root = rt\<rparr>)"

section \<open>The path guard\<close>

datatype path_error = EmptyPath | NulByte | AbsolutePath | InvalidPath | Traversal

definition ValidateFilePath :: "string \<Rightarrow> path_error + string" where
  "ValidateFilePath filename0 =
     (let filename = TrimSpace filename0 in
      if filename = [] then Inl EmptyPath
      else if CHR 0x00 \<in> set filename then Inl NulByte
      else if hd filename = SL \<or> hd filename = backslash then Inl AbsolutePath
      else let cleaned = Clean filename in
           if cleaned = ''.'' then Inl InvalidPath
           else if HasPrefix cleaned [SL] then Inl AbsolutePath
           else if ''..'' \<in> set (Split1 SL cleaned) then Inl Traversal
           else Inr cleaned)"

definition HasServiceInternalPrefix :: "string \<Rightarrow> bool" where
  "HasServiceInternalPrefix rel =
     (let segs = filter (\<lambda>s. s \<noteq> []) (Split1 SL (ReplaceAll1 backslash SL rel))
      in list_ex (\<lambda>seg. HasPrefix seg ''.__'') segs \<or> (segs \<noteq> [] \<and> HasPrefix (hd segs) ''__''))"

section \<open>Laws of splitting and cleaning\<close>

lemma Split1_ne [simp]: "Split1 d s \<noteq> []"
  by (induction s) (auto split: list.split)

lemma join_split: "Join1 d (Split1 d s) = s"
proof (induction s)
  case (Cons c s)
  obtain l ls where l: "Split1 d s = l # ls" by (cases "Split1 d s") auto
  then show ?case using Cons by (cases ls) auto
qed simp

lemma Split1_append: "Split1 d (a @ d # b) = Split1 d a @ Split1 d b"
proof (induction a)
  case (Cons c a)
  obtain l ls where "Split1 d a = l # ls" by (cases "Split1 d a") auto
  then show ?case using Cons by simp
qed simp

lemma Split1_single: "d \<notin> set s \<Longrightarrow> Split1 d s = [s]"
  by (induction s) auto

lemma split_join: "ss \<noteq> [] \<Longrightarrow> list_all (\<lambda>s. d \<notin> set s) ss \<Longrightarrow> Split1 d (Join1 d ss) = ss"
  by (induction d ss rule: Join1.induct) (auto simp: Split1_append Split1_single)

lemma Join1_append:
  "xs \<noteq> [] \<Longrightarrow> ys \<noteq> [] \<Longrightarrow> Join1 d (xs @ ys) = Join1 d xs @ d # Join1 d ys"
proof (induction d xs rule: Join1.induct)
  case (2 d s)
  then show ?case by (cases ys) auto
qed auto

definition ordinary :: "string \<Rightarrow> bool" where
  "ordinary s \<longleftrightarrow> s \<noteq> [] \<and> s \<noteq> ''.'' \<and> s \<noteq> ''..'' \<and> SL \<notin> set s"

lemma clean_segs_ordinary: "list_all ordinary ss \<Longrightarrow> clean_segs r st ss = rev st @ ss"
  by (induction ss arbitrary: st) (auto simp: ordinary_def)

lemma clean_segs_append: "list_all ordinary ys \<Longrightarrow> clean_segs r st (xs @ ys) = clean_segs r st xs @ ys"
  by (induction r st xs rule: clean_segs.induct) (auto simp: clean_segs_ordinary)

text \<open>A path of ordinary segments is its own cleaned form, and appending it to a rooted path never leaves that path.\<close>

lemma Clean_ordinary:
  assumes "ss \<noteq> []" "list_all ordinary ss"
  shows "Clean (Join1 SL ss) = Join1 SL ss"
proof -
  have sp: "Split1 SL (Join1 SL ss) = ss"
    using assms by (intro split_join) (auto simp: ordinary_def list_all_iff)
  obtain c t ts where ss: "ss = (c # t) # ts" using assms by (cases ss; cases "hd ss") (auto simp: ordinary_def)
  then have "c \<noteq> SL" using assms by (auto simp: ordinary_def)
  then have "\<not> HasPrefix (Join1 SL ss) [SL]" by (cases ts) (auto simp: ss HasPrefix_def)
  moreover have "Join1 SL ss \<noteq> []" by (cases ts) (auto simp: ss)
  ultimately show ?thesis by (simp add: Clean_def Let_def sp clean_segs_ordinary assms)
qed

lemma Clean_append:
  assumes root: "HasPrefix root [SL]" and ss: "ss \<noteq> []" "list_all ordinary ss"
  shows "Clean (root @ SL # Join1 SL ss) = (if Clean root = [SL] then [] else Clean root) @ SL # Join1 SL ss"
proof -
  let ?st = "clean_segs True [] (Split1 SL root)"
  have pre: "HasPrefix (root @ SL # Join1 SL ss) [SL]" using root by (cases root) (auto simp: HasPrefix_def)
  have sp: "Split1 SL (Join1 SL ss) = ss"
    using ss by (intro split_join) (auto simp: ordinary_def list_all_iff)
  have c: "Clean (root @ SL # Join1 SL ss) = SL # Join1 SL (?st @ ss)"
    using pre by (simp add: Clean_def Let_def Split1_append sp clean_segs_append ss)
  have r: "Clean root = SL # Join1 SL ?st" using root by (simp add: Clean_def Let_def)
  show ?thesis
  proof (cases "?st = []")
    case False
    have "s \<noteq> []" if "s \<in> set (clean_segs r st xs)" "\<forall>s \<in> set st. s \<noteq> []" for s r st xs
      using that by (induction r st xs rule: clean_segs.induct) (auto split: if_splits dest: list.set_sel(2))
    then have "s \<noteq> []" if "s \<in> set ?st" for s using that by force
    then have "Join1 SL ?st \<noteq> []" using False by (cases ?st; cases "tl ?st") auto
    then show ?thesis using c r False ss by (simp add: Join1_append)
  qed (simp add: c r)
qed

section \<open>Laws of trimming\<close>

lemma space_len_0: "space_len s = 0 \<longleftrightarrow>
    \<not> (s \<noteq> [] \<and> ascii_space (of_char (s ! 0)))
    \<and> \<not> (2 \<le> length s \<and> (of_char (s ! 0) :: nat) = 0xC2 \<and> ((of_char (s ! 1) :: nat) = 0x85 \<or> (of_char (s ! 1) :: nat) = 0xA0))
    \<and> \<not> (3 \<le> length s \<and> space3 (of_char (s ! 0)) (of_char (s ! 1)) (of_char (s ! 2)))"
  by (cases s; cases "tl s"; cases "tl (tl s)") (auto simp add: space_len_def Let_def simp del: space3.simps)

lemma space_len_take: "space_len s = 0 \<Longrightarrow> space_len (take n s) = 0"
  unfolding space_len_0 by (cases "n = 0") (simp_all del: space3.simps)

lemma trim_left_start: "trim_left s = [] \<or> space_len (trim_left s) = 0"
  by (induction s rule: trim_left.induct) (subst (1 2) trim_left.simps, auto)

lemma trim_right_end: "trim_right s = [] \<or> last_space (trim_right s) = 0"
  by (induction s rule: trim_right.induct) (subst (1 2) trim_right.simps, auto)

lemma trim_right_prefix: "\<exists>n. trim_right s = take n s"
proof (induction s rule: trim_right.induct)
  case (1 s)
  show ?case
  proof (cases "last_space s = 0 \<or> s = []")
    case True
    then have "trim_right s = take (length s) s" by (subst trim_right.simps) simp
    then show ?thesis ..
  next
    case False
    then have "trim_right s = trim_right (take (length s - last_space s) s)" by (subst trim_right.simps) simp
    then show ?thesis using 1 [OF False] by (metis take_take)
  qed
qed

definition trimmed :: "string \<Rightarrow> bool" where
  "trimmed s \<longleftrightarrow> space_len s = 0 \<and> last_space s = 0"

lemma trimmed_Nil [simp]: "trimmed []"
  by (simp add: trimmed_def space_len_def last_space_def)

lemma TrimSpace_trimmed: "trimmed (TrimSpace s)"
proof -
  have "space_len (trim_left s) = 0" using trim_left_start [of s] by (auto simp: space_len_def)
  then have "space_len (TrimSpace s) = 0"
    using trim_right_prefix [of "trim_left s"] by (auto simp: TrimSpace_def space_len_take)
  moreover have "last_space (TrimSpace s) = 0"
    using trim_right_end [of "trim_left s"] by (metis TrimSpace_def trimmed_Nil trimmed_def)
  ultimately show ?thesis by (simp add: trimmed_def)
qed

lemma trimmed_id: "trimmed s \<Longrightarrow> TrimSpace s = s"
  by (simp add: TrimSpace_def trimmed_def trim_left.simps trim_right.simps)

lemma space_len_replace: "space_len (ReplaceAll1 backslash SL s) = space_len s"
proof -
  let ?f = "\<lambda>c. if c = backslash then SL else c"
  have eq: "(of_char (map ?f s ! i) :: nat) = k \<longleftrightarrow> (of_char (s ! i) :: nat) = k"
    if "i < length s" "k \<notin> {47, 92}" for i k using that by auto
  have rng: "lo \<le> (of_char (map ?f s ! i) :: nat) \<and> (of_char (map ?f s ! i) :: nat) \<le> hi
      \<longleftrightarrow> lo \<le> (of_char (s ! i) :: nat) \<and> (of_char (s ! i) :: nat) \<le> hi"
    if "i < length s" "92 < lo \<or> hi < 47" for i lo hi using that by auto
  show ?thesis
    by (cases s; cases "tl s"; cases "tl (tl s)") (auto simp: space_len_def ReplaceAll1_def Let_def ascii_space_def)
qed

lemma trimmed_replace: "trimmed (ReplaceAll1 backslash SL s) = trimmed s"
proof -
  have d: "drop n (ReplaceAll1 backslash SL s) = ReplaceAll1 backslash SL (drop n s)" for n
    by (simp add: ReplaceAll1_def drop_map)
  have l: "length (ReplaceAll1 backslash SL s) = length s" by (simp add: ReplaceAll1_def)
  show ?thesis by (simp add: trimmed_def last_space_def d l space_len_replace)
qed

lemma ReplaceAll1_id: "a \<notin> set s \<Longrightarrow> ReplaceAll1 a b s = s"
  by (induction s) (auto simp: ReplaceAll1_def)

section \<open>Laws of the path checks\<close>

lemma ContainsAny_iff: "ContainsAny s cs \<longleftrightarrow> set s \<inter> set cs \<noteq> {}"
  by (auto simp: ContainsAny_def list_ex_iff)

lemma ValidSegmentName_ordinary: "ValidSegmentName s \<Longrightarrow> ordinary s"
  by (auto simp: ValidSegmentName_def ordinary_def ContainsAny_iff split: if_splits)

lemma ValidSegmentName_safe:
  "ValidSegmentName s \<Longrightarrow> backslash \<notin> set s \<and> CHR 0x00 \<notin> set s \<and> CHR '':'' \<notin> set s \<and> length s \<le> 255
     \<and> \<not> HasPrefix s ''.__'' \<and> \<not> map upper_ascii s \<in> set windowsReservedBaseNames"
proof -
  assume v: "ValidSegmentName s"
  have base: "\<not> map upper_ascii s \<in> set windowsReservedBaseNames"
  proof
    assume r: "map upper_ascii s \<in> set windowsReservedBaseNames"
    have "CHR ''.'' \<notin> set s"
    proof
      assume "CHR ''.'' \<in> set s"
      then have "upper_ascii (CHR ''.'') \<in> set (map upper_ascii s)" by auto
      moreover have "upper_ascii (CHR ''.'') = CHR ''.''" by (simp add: upper_ascii_def)
      moreover have "CHR ''.'' \<notin> set w" if "w \<in> set windowsReservedBaseNames" for w
        using that by (auto simp: windowsReservedBaseNames_def)
      ultimately show False using r by metis
    qed
    then have "cut_at (CHR ''.'') s = None" by (simp add: cut_at_def)
    then show False using v r by (auto simp: ValidSegmentName_def Let_def split: if_splits)
  qed
  then show ?thesis using v
    by (auto simp: ValidSegmentName_def ContainsAny_iff list_ex_iff split: if_splits)
qed

lemma NormalizeRemote_Some:
  assumes "NormalizeRemote p = Some n"
  shows "n = ReplaceAll1 backslash SL (TrimSpace p)" "trimmed n" "n \<noteq> []" "backslash \<notin> set n"
    "list_all ordinary (Split1 SL n)" "\<not> (2 \<le> length n \<and> n ! 1 = CHR '':'')"
proof -
  have n: "n = ReplaceAll1 backslash SL (TrimSpace p)" "TrimSpace p \<noteq> []"
    "\<not> list_ex (\<lambda>seg. seg = [] \<or> seg = ''.'' \<or> seg = ''..'') (Split1 SL n)"
    "\<not> (2 \<le> length n \<and> n ! 1 = CHR '':'')"
    using assms by (auto simp: NormalizeRemote_def Let_def split: if_splits)
  show "n = ReplaceAll1 backslash SL (TrimSpace p)" "trimmed n" "n \<noteq> []" "backslash \<notin> set n"
    "\<not> (2 \<le> length n \<and> n ! 1 = CHR '':'')"
    using n trimmed_replace [of "TrimSpace p"] TrimSpace_trimmed [of p] by (auto simp: ReplaceAll1_def split: if_splits)
  have "SL \<notin> set seg" if "seg \<in> set (Split1 SL s)" for seg s
    using that by (induction s arbitrary: seg) (auto split: list.splits if_splits)
  then show "list_all ordinary (Split1 SL n)"
    using n(3) by (auto simp: list_all_iff list_ex_iff ordinary_def)
qed

lemma NormalizeRemote_idem:
  assumes "NormalizeRemote p = Some n"
  shows "NormalizeRemote n = Some n"
proof -
  note n = NormalizeRemote_Some [OF assms]
  have "TrimSpace n = n" "ReplaceAll1 backslash SL n = n" using n by (auto simp: trimmed_id ReplaceAll1_id)
  moreover have "\<not> HasPrefix n [SL]"
    using n(5) by (cases n) (auto simp: HasPrefix_def ordinary_def)
  moreover have "\<not> list_ex (\<lambda>seg. seg = [] \<or> seg = ''.'' \<or> seg = ''..'') (Split1 SL n)"
    using n(5) by (auto simp: list_all_iff list_ex_iff ordinary_def)
  ultimately show ?thesis using n(3,6) by (auto simp: NormalizeRemote_def)
qed

lemma UserRel_Some:
  assumes "UserRel p = Some r"
  obtains n where "NormalizeRemote p = Some n" "r = ''user/'' @ n" "list_all ValidSegmentName (Split1 SL n)"
    "\<not> HasPrefix (hd (Split1 SL n)) ''__''"
proof -
  obtain n where n: "NormalizeRemote p = Some n" "r = ''user/'' @ n" "list_all ValidSegmentName (Split1 SL n)"
    "\<not> HasPrefix (case cut_at SL n of Some (f, _) \<Rightarrow> f | None \<Rightarrow> n) ''__''"
    using assms by (auto simp: UserRel_def Let_def validSegments_def isLegacyUnderscorePrefix_def bucketUser_def
        split: option.splits if_splits)
  have "(case cut_at SL n of Some (f, _) \<Rightarrow> f | None \<Rightarrow> n) = hd (Split1 SL n)"
  proof -
    have "hd (Split1 SL n) = takeWhile (\<lambda>c. c \<noteq> SL) n"
      by (induction n) (auto split: list.splits)
    moreover have "takeWhile (\<lambda>c. c \<noteq> SL) n = n" if "SL \<notin> set n" using that by (auto simp: takeWhile_eq_all_conv)
    ultimately show ?thesis by (cases "SL \<in> set n") (simp_all add: cut_at_def)
  qed
  then show ?thesis using n that by metis
qed

text \<open>C35. A path sent by a client never leaves the user bucket of its tenant: what \<open>UserRel\<close> accepts is \<open>user/\<close> followed by one or more
  segments that pass \<open>ValidSegmentName\<close> (no separator, no dot segment, no NUL, no colon, at most 255 bytes, no reserved prefix), is
  already in cleaned form, and joined to any rooted directory stays below that directory. Mapping the accepted path again changes
  nothing, so the result is a canonical name, and the read-side check \<open>HasServiceInternalPrefix\<close> never fires on it.
\<close>

theorem UserRel_confined:
  assumes "UserRel p = Some r"
  shows "\<exists>segs. segs \<noteq> [] \<and> list_all ValidSegmentName segs \<and> r = Join1 SL (bucketUser # segs)
      \<and> Clean r = r
      \<and> (HasPrefix root [SL] \<longrightarrow> Clean (root @ SL # r) = (if Clean root = [SL] then [] else Clean root) @ SL # r)
      \<and> UserRel (Join1 SL segs) = Some r
      \<and> \<not> HasServiceInternalPrefix (Join1 SL segs)"
proof -
  obtain n where n: "NormalizeRemote p = Some n" "r = ''user/'' @ n" "list_all ValidSegmentName (Split1 SL n)"
    "\<not> HasPrefix (hd (Split1 SL n)) ''__''" using UserRel_Some [OF assms] by metis
  define segs where "segs = Split1 SL n"
  have ne: "segs \<noteq> []" by (simp add: segs_def)
  have j: "Join1 SL segs = n" by (simp add: segs_def join_split)
  have r: "r = Join1 SL (bucketUser # segs)" using n(2) ne j by (cases segs) (auto simp: bucketUser_def)
  have ord: "list_all ordinary (bucketUser # segs)" using n(3)
    by (auto simp: segs_def list_all_iff ValidSegmentName_ordinary) (simp add: ordinary_def bucketUser_def)
  have "UserRel n = Some r"
    using NormalizeRemote_idem [OF n(1)] assms n(1) by (simp add: UserRel_def)
  moreover have "\<not> HasServiceInternalPrefix n"
  proof -
    have "filter (\<lambda>s. s \<noteq> []) segs = segs" using ord by (auto simp: filter_id_conv list_all_iff ordinary_def)
    moreover have "ReplaceAll1 backslash SL n = n" using NormalizeRemote_Some(4) [OF n(1)] by (simp add: ReplaceAll1_id)
    ultimately show ?thesis using n(3,4) ValidSegmentName_safe
      by (auto simp: HasServiceInternalPrefix_def Let_def segs_def list_ex_iff list_all_iff)
  qed
  ultimately show ?thesis
    using ne n(3) r j Clean_ordinary [OF _ ord] Clean_append [OF _ _ ord, of root]
    by (intro exI [of _ segs]) (auto simp: segs_def)
qed

theorem UserRel_confined_witness:
  "UserRel ('' a'' @ backslash # ''b.txt'') = Some ''user/a/b.txt''
   \<and> Clean (''/srv/x/../data'' @ SL # ''user/a/b.txt'') = ''/srv/data/user/a/b.txt''"
proof -
  have u: "UserRel ('' a'' @ backslash # ''b.txt'') = Some ''user/a/b.txt''" by code_simp
  have "Clean (''/srv/x/../data'') = ''/srv/data''" "HasPrefix ''/srv/x/../data'' [SL]" by code_simp+
  then show ?thesis using UserRel_confined [OF u, of "''/srv/x/../data''"] u by auto
qed

text \<open>
  A tenant's name is a path segment of its own and is told apart from every bucket name, whatever the case of its letters.
\<close>

lemma equal_fold_ascii: "map lower_ascii s = b \<Longrightarrow> equal_fold b s"
  by (induction s arbitrary: b) auto

lemma NewTenant_names:
  assumes "NewTenant owner root = Inr t"
  shows "tenant_ID t = owner \<and> ordinary owner \<and> map lower_ascii owner \<notin> set featureBuckets"
  using assms equal_fold_ascii
  by (auto simp: NewTenant_def IsReservedBucketName_def list_ex_iff ValidSegmentName_ordinary split: option.splits if_splits)

text \<open>
  \<open>FeatureRel\<close> keeps the spelling of the bucket it is given, although the bucket is looked up without regard to case: an upper-case
  name is accepted and names another directory than the bucket's own on a case-sensitive file system.
\<close>

lemma FeatureRel_keeps_case: "FeatureRel ''META'' ''x'' = Some ''META/x'' \<and> FeatureRel ''meta'' ''x'' = Some ''meta/x''"
  by code_simp

end
