(* ===== verification/Upload_Plan.thy ===== *)
theory Upload_Plan
  imports Storage_Names "HOL-Library.Word"
begin

text \<open>
  The static side of chunked uploads (\<open>pkg/files/chunked_upload.go\<close>, \<open>pkg/files/chunked_store.go\<close>): the session record, the checks
  of an init request, the negotiation of the chunk size, the geometry of the chunks and the names of the files an upload in progress
  is written to. \<open>int\<close> and \<open>int64\<close> of the source are both 64 bits wide. A file is its bytes; the hexadecimal SHA-256 digest of
  the standard library is the parameter \<open>H\<close>, of which \<open>hex_digest\<close> says that it is 64 lower-case hexadecimal digits.
\<close>

type_synonym octets = "8 word list"
type_synonym digest = "octets \<Rightarrow> string"

section \<open>Sessions\<close>

text \<open>
  \<open>Reservation\<close>, \<open>Pool\<close> and \<open>PoolRes\<close> are handles of the quota ledger, kept as names. \<open>MetaExtra\<close>, which no operation here
  looks into, and the mutex \<open>persistMu\<close> are left out.
\<close>

record upload_session =
  UploadID :: string
  Filename :: string
  TotalSize :: int
  ChunkSize :: int
  TotalChunks :: int
  ReceivedChunks :: "bool list"
  ChunkChecksums :: "string list"
  FileChecksum :: string
  FileModTime :: int
  CreatedAt :: int
  ExpiresAt :: int
  Completed :: bool
  gen :: nat
  Completing :: bool
  TempPath :: string
  Volume :: string
  ExternalTarget :: bool
  StagingVolume :: string
  ScopeRes :: "nat option"
  VolPool :: "nat option"
  PoolRes :: "nat option"
  StorageMgrReserved :: int

record init_request =
  rUploadID :: string
  rFilename :: string
  rTotalSize :: int
  rChunkSize :: int
  rTotalChunks :: int
  rFileChecksum :: string
  rFileModTime :: int

section \<open>Checks of an init request\<close>

text \<open>A string of 64 octets decodes as hexadecimal if every byte is a digit: the length is even.\<close>

definition validateChunkChecksum :: "string \<Rightarrow> bool" where
  "validateChunkChecksum cs = (if length cs \<noteq> 64 then False else list_all is_hex cs)"

datatype plan_error = TotalSizeNotPositive | ChunkSizeNotPositive | TotalChunksNotPositive | TooManyChunks
  | PlanOverflow | PlanTooShort

definition maxTotalChunks :: int where
  "maxTotalChunks = 65536"

definition validateChunkPlan :: "int \<Rightarrow> int \<Rightarrow> int \<Rightarrow> plan_error option" where
  "validateChunkPlan totalSize chunkSize totalChunks =
     (if totalSize \<le> 0 then Some TotalSizeNotPositive
      else if chunkSize \<le> 0 then Some ChunkSizeNotPositive
      else if totalChunks \<le> 0 then Some TotalChunksNotPositive
      else if maxTotalChunks < totalChunks then Some TooManyChunks
      else if max_int64 div totalChunks < chunkSize then Some PlanOverflow
      else if wrap64 (chunkSize * totalChunks) < totalSize then Some PlanTooShort
      else None)"

definition DefaultChunkSize :: int where
  "DefaultChunkSize = 4 * 1024 * 1024"

definition DefaultChunkBodyLimit :: int where
  "DefaultChunkBodyLimit = 64 * 1024 * 1024"

definition chunkOverheadMargin :: int where
  "chunkOverheadMargin = 4 * 1024"

definition negotiateChunkSize :: "int \<Rightarrow> int \<Rightarrow> int \<times> bool" where
  "negotiateChunkSize clientChunkSize cfgChunkSize =
     (let cs = (if clientChunkSize \<le> 0 then cfgChunkSize else clientChunkSize);
          cs = (if cs \<le> 0 then DefaultChunkSize else cs)
      in if DefaultChunkBodyLimit - chunkOverheadMargin < cs
         then (DefaultChunkBodyLimit - chunkOverheadMargin, True) else (cs, False))"

definition negotiateInitChunkSize :: "int \<Rightarrow> init_request \<Rightarrow> plan_error + (int \<times> init_request)" where
  "negotiateInitChunkSize cfgChunkSize req =
     (case negotiateChunkSize (rChunkSize req) cfgChunkSize of
        (chunkSize, adjusted) \<Rightarrow>
          if adjusted then
            let tc = rTotalSize req div chunkSize;
                tc = (if rTotalSize req mod chunkSize \<noteq> 0 then wrap64 (tc + 1) else tc);
                req' = req\<lparr>rTotalChunks := tc\<rparr>
            in case validateChunkPlan (rTotalSize req) chunkSize tc of
                 Some e \<Rightarrow> Inl e
               | None \<Rightarrow> Inr (chunkSize, req')
          else Inr (chunkSize, req))"

datatype init_error = MissingUploadID | BadUploadID | BadFilename | BadPlan plan_error | BadChecksum

definition validateInitRequest :: "init_request \<Rightarrow> init_error option" where
  "validateInitRequest req =
     (if rUploadID req = [] then Some MissingUploadID
      else if \<not> ValidSegmentName (rUploadID req) then Some BadUploadID
      else case ValidateFilePath (rFilename req) of
        Inl _ \<Rightarrow> Some BadFilename
      | Inr _ \<Rightarrow>
          (case validateChunkPlan (rTotalSize req) (rChunkSize req) (rTotalChunks req) of
             Some e \<Rightarrow> Some (BadPlan e)
           | None \<Rightarrow> if \<not> validateChunkChecksum (rFileChecksum req) then Some BadChecksum else None))"

section \<open>Chunk geometry\<close>

definition chunk_offset :: "upload_session \<Rightarrow> int \<Rightarrow> int" where
  "chunk_offset s i = wrap64 (i * ChunkSize s)"

definition chunkLenAt :: "upload_session \<Rightarrow> int \<Rightarrow> int" where
  "chunkLenAt s i =
     (let offset = chunk_offset s i in
      if TotalSize s \<le> offset then 0
      else let remaining = wrap64 (TotalSize s - offset)
           in if remaining < ChunkSize s then remaining else ChunkSize s)"

fun countReceived :: "bool list \<Rightarrow> int" where
  "countReceived [] = 0"
| "countReceived (b # bs) = (if b then 1 else 0) + countReceived bs"

definition MissingChunks :: "upload_session \<Rightarrow> int list" where
  "MissingChunks s = map int (filter (\<lambda>i. \<not> ReceivedChunks s ! i) [0..<length (ReceivedChunks s)])"

definition allMismatchIndices :: "upload_session \<Rightarrow> int list" where
  "allMismatchIndices s = map int [0..<nat (TotalChunks s)]"

section \<open>Names of files in flight\<close>

definition InflightPrefix :: string where
  "InflightPrefix = ''.inflight-''"

definition bytes_of :: "string \<Rightarrow> octets" where
  "bytes_of s = map of_char s"

definition InflightTempName :: "digest \<Rightarrow> string \<Rightarrow> string \<Rightarrow> string" where
  "InflightTempName H name uploadID = InflightPrefix @ take 16 (H (bytes_of name)) @ ''-'' @ uploadID @ ''.part''"

definition lower_hex :: "char \<Rightarrow> bool" where
  "lower_hex c = (let n = (of_char c :: nat) in 48 \<le> n \<and> n \<le> 57 \<or> 97 \<le> n \<and> n \<le> 102)"

definition inflightTempID :: "string \<Rightarrow> string option" where
  "inflightTempID name =
     (case CutPrefix name InflightPrefix of
        None \<Rightarrow> None
      | Some rest \<Rightarrow>
          (case cut_at (CHR ''-'') rest of
             None \<Rightarrow> None
           | Some (token, idPart) \<Rightarrow>
               if length token \<noteq> 16 \<or> \<not> HasSuffix idPart ''.part'' then None
               else if \<not> list_all lower_hex token then None
               else Some (TrimSuffix idPart ''.part'')))"

definition IsInflightTempName :: "string \<Rightarrow> bool" where
  "IsInflightTempName name = (inflightTempID name \<noteq> None)"

definition IsInflightTempNameFor :: "string \<Rightarrow> string \<Rightarrow> bool" where
  "IsInflightTempNameFor name uploadID =
     (if uploadID = [] then False else inflightTempID name = Some uploadID)"

text \<open>\<open>filepath.Dir\<close> of a relative path: everything up to the last slash, cleaned.\<close>

definition dir_name :: "string \<Rightarrow> string" where
  "dir_name p = Clean (rev (dropWhile (\<lambda>c. c \<noteq> SL) (rev p)))"

definition TempRelForUser :: "digest \<Rightarrow> upload_session \<Rightarrow> string \<Rightarrow> string" where
  "TempRelForUser H s rel =
     (let userRel = TrimPrefix rel ''user/'';
          dir = dir_name userRel;
          dir = (if dir = ''.'' then [] else dir);
          tempName = InflightTempName H rel (UploadID s)
      in if dir = [] then ''user/'' @ tempName else ''user/'' @ dir @ SL # tempName)"

section \<open>Accepted plans\<close>

text \<open>What the checks leave of a plan: no product of the geometry wraps around.\<close>

definition plan_ok :: "upload_session \<Rightarrow> bool" where
  "plan_ok s \<longleftrightarrow> validateChunkPlan (TotalSize s) (ChunkSize s) (TotalChunks s) = None \<and> TotalSize s \<le> max_int64"

definition chunk_data :: "upload_session \<Rightarrow> 'b list \<Rightarrow> int \<Rightarrow> 'b list" where
  "chunk_data s f i = take (nat (chunkLenAt s i)) (drop (nat (chunk_offset s i)) f)"

lemma validateChunkPlan_None:
  "validateChunkPlan ts cs tc = None \<longleftrightarrow>
     0 < ts \<and> 0 < cs \<and> 0 < tc \<and> tc \<le> maxTotalChunks \<and> cs * tc \<le> max_int64 \<and> ts \<le> cs * tc"
proof -
  have "max_int64 div tc < cs \<longleftrightarrow> max_int64 < cs * tc" if "0 < tc"
  proof
    assume "max_int64 div tc < cs"
    then have "tc * (max_int64 div tc + 1) \<le> tc * cs" using that by (intro mult_left_mono) auto
    moreover have "max_int64 < tc * (max_int64 div tc + 1)"
      using pos_mod_bound [OF that, of max_int64] mult_div_mod_eq [of tc max_int64]
      by (simp only: distrib_left mult_1_right)
    ultimately show "max_int64 < cs * tc" by (simp add: mult.commute)
  next
    assume "max_int64 < cs * tc"
    moreover have "tc * (max_int64 div tc) \<le> max_int64"
      using pos_mod_sign [OF that, of max_int64] mult_div_mod_eq [of tc max_int64] by linarith
    ultimately have "tc * (max_int64 div tc) < tc * cs" by (simp add: mult.commute)
    then show "max_int64 div tc < cs" using that by (simp add: mult_less_cancel_left)
  qed
  then show ?thesis by (auto simp: validateChunkPlan_def wrap64_nonneg split: if_splits)
qed

lemma plan_okD:
  assumes "plan_ok s"
  shows "0 < TotalSize s" "0 < ChunkSize s" "0 < TotalChunks s" "TotalChunks s \<le> 65536"
    "ChunkSize s * TotalChunks s \<le> max_int64" "TotalSize s \<le> ChunkSize s * TotalChunks s"
  using assms by (auto simp: plan_ok_def validateChunkPlan_None maxTotalChunks_def)

lemma chunk_offset_eq:
  assumes "plan_ok s" "0 \<le> i" "i \<le> TotalChunks s"
  shows "chunk_offset s i = i * ChunkSize s"
proof -
  have "i * ChunkSize s \<le> TotalChunks s * ChunkSize s" using assms plan_okD(2) [OF assms(1)] by (intro mult_right_mono) auto
  then have "i * ChunkSize s \<le> max_int64" using plan_okD(5) [OF assms(1)] by (simp only: mult.commute [of "TotalChunks s"])
  moreover have "0 \<le> i * ChunkSize s" using assms plan_okD(2) [OF assms(1)] by simp
  ultimately show ?thesis by (simp add: chunk_offset_def wrap64_nonneg)
qed

lemma chunkLenAt_eq:
  assumes "plan_ok s" "0 \<le> i" "i < TotalChunks s"
  shows "chunkLenAt s i = max 0 (min (ChunkSize s) (TotalSize s - i * ChunkSize s))"
proof -
  have "0 \<le> i * ChunkSize s" using assms plan_okD(2) [OF assms(1)] by auto
  then have "TotalSize s - i * ChunkSize s \<le> max_int64" "- max_int64 \<le> TotalSize s - i * ChunkSize s \<or> TotalSize s \<le> i * ChunkSize s"
    using assms(1) plan_okD(1) [OF assms(1)] by (auto simp: plan_ok_def)
  then show ?thesis using assms chunk_offset_eq [OF assms(1,2)] plan_okD(2) [OF assms(1)]
    by (auto simp: chunkLenAt_def Let_def wrap64_nonneg)
qed

text \<open>The chunks of a byte list, cut at equal distances and the last one short, give it again.\<close>

lemma concat_slices: "concat (map (\<lambda>i. take n (drop (i * n) f)) [0..<k]) = take (k * n) f"
proof (induction k)
  case (Suc k)
  have "take (Suc k * n) f = take (k * n) f @ take n (drop (k * n) f)" by (metis add.commute mult_Suc take_add)
  then show ?case using Suc by simp
qed simp

lemma chunk_nats:
  assumes ok: "plan_ok s" and i: "int i < TotalChunks s"
  shows "nat (chunkLenAt s (int i)) = min (nat (ChunkSize s)) (nat (TotalSize s) - i * nat (ChunkSize s))"
    "nat (chunk_offset s (int i)) = i * nat (ChunkSize s)"
proof -
  obtain c t where c: "ChunkSize s = int c" "TotalSize s = int t"
    using plan_okD(1,2) [OF ok] by (metis order_less_imp_le zero_le_imp_eq_int)
  define k where "k = i * c"
  have k: "int i * int c = int k" by (simp add: k_def)
  show "nat (chunkLenAt s (int i)) = min (nat (ChunkSize s)) (nat (TotalSize s) - i * nat (ChunkSize s))"
    using chunkLenAt_eq [OF ok _ i] k by (auto simp: c min_def max_def k_def [symmetric] nat_diff_distrib')
  show "nat (chunk_offset s (int i)) = i * nat (ChunkSize s)"
    using chunk_offset_eq [OF ok, of "int i"] i k by (simp add: c k_def [symmetric])
qed

lemma concat_chunk_data:
  assumes ok: "plan_ok s" and len: "int (length f) = TotalSize s"
  shows "concat (map (\<lambda>i. chunk_data s f (int i)) [0..<nat (TotalChunks s)]) = f"
proof -
  let ?n = "nat (ChunkSize s)"
  note p = plan_okD [OF ok]
  have l: "nat (TotalSize s) = length f" using len by linarith
  have "chunk_data s f (int i) = take ?n (drop (i * ?n) f)" if "i < nat (TotalChunks s)" for i
  proof -
    have "int i < TotalChunks s" using that by auto
    then have "chunk_data s f (int i) = take (min ?n (length f - i * ?n)) (drop (i * ?n) f)"
      using chunk_nats [OF ok] l by (simp add: chunk_data_def)
    then show ?thesis by (simp add: min_def)
  qed
  then have "map (\<lambda>i. chunk_data s f (int i)) [0..<nat (TotalChunks s)]
      = map (\<lambda>i. take ?n (drop (i * ?n) f)) [0..<nat (TotalChunks s)]" by (intro map_cong) auto
  then have "concat (map (\<lambda>i. chunk_data s f (int i)) [0..<nat (TotalChunks s)]) = take (nat (TotalChunks s) * ?n) f"
    by (simp only: concat_slices)
  moreover have "length f \<le> nat (TotalChunks s) * ?n"
  proof -
    have "int (length f) \<le> TotalChunks s * ChunkSize s" using len p by (simp add: mult.commute)
    then show ?thesis using p by (metis nat_int nat_mono nat_mult_distrib order_less_imp_le)
  qed
  ultimately show ?thesis by simp
qed

lemma length_chunk_data:
  assumes "plan_ok s" "int (length f) = TotalSize s" "0 \<le> i" "i < TotalChunks s"
  shows "int (length (chunk_data s f i)) = chunkLenAt s i"
proof -
  obtain k where k: "i = int k" using assms(3) zero_le_imp_eq_int by blast
  have "nat (TotalSize s) = length f" using assms(2) by linarith
  then have "length (chunk_data s f i) = nat (chunkLenAt s i)"
    using chunk_nats [OF assms(1), of k] assms(4) by (simp add: chunk_data_def k)
  moreover have "0 \<le> chunkLenAt s i" using chunkLenAt_eq [OF assms(1,3,4)] by simp
  ultimately show ?thesis by simp
qed

lemma negotiated_plan_ok:
  assumes v: "validateInitRequest req = None" and n: "negotiateInitChunkSize cfg req = Inr (cs, req')"
    and b: "rTotalSize req \<le> max_int64"
    and s: "TotalSize s = rTotalSize req'" "ChunkSize s = cs" "TotalChunks s = rTotalChunks req'"
  shows "plan_ok s \<and> cs \<le> DefaultChunkBodyLimit - chunkOverheadMargin \<and> rTotalSize req' = rTotalSize req"
proof -
  have plan: "validateChunkPlan (rTotalSize req) (rChunkSize req) (rTotalChunks req) = None"
    using v by (auto simp: validateInitRequest_def split: if_splits option.splits sum.splits)
  then have "0 < rChunkSize req" by (simp add: validateChunkPlan_None)
  then show ?thesis using plan n s b
    by (auto simp: plan_ok_def negotiateInitChunkSize_def negotiateChunkSize_def Let_def split: if_splits option.splits)
qed

text \<open>C33. A plan that passes the checks of init, clipped or not, is a partition of the file: there are between 1 and 65536 chunks, each
  at most the body limit less the form's overhead, no offset wraps around, and the lengths of the chunks add up to the size of the file:
  cutting any file of that size into its chunks and joining them gives the file again, so that writing every chunk at its offset
  writes every byte exactly once.
\<close>

theorem chunk_plan_partition:
  assumes "validateInitRequest req = None" "negotiateInitChunkSize cfg req = Inr (cs, req')"
    "rTotalSize req \<le> max_int64" "TotalSize s = rTotalSize req'" "ChunkSize s = cs" "TotalChunks s = rTotalChunks req'"
  shows "1 \<le> TotalChunks s \<and> TotalChunks s \<le> 65536
    \<and> 0 < ChunkSize s \<and> ChunkSize s \<le> DefaultChunkBodyLimit - chunkOverheadMargin
    \<and> (\<forall>i. 0 \<le> i \<and> i < TotalChunks s \<longrightarrow> chunk_offset s i = i * ChunkSize s \<and> 0 \<le> chunkLenAt s i \<and> chunkLenAt s i \<le> ChunkSize s)
    \<and> (\<Sum>i<nat (TotalChunks s). chunkLenAt s (int i)) = rTotalSize req
    \<and> (\<forall>f :: octets. int (length f) = rTotalSize req \<longrightarrow>
         concat (map (\<lambda>i. chunk_data s f (int i)) [0..<nat (TotalChunks s)]) = f)"
proof -
  have ok: "plan_ok s" and cs: "cs \<le> DefaultChunkBodyLimit - chunkOverheadMargin" and ts: "TotalSize s = rTotalSize req"
    using negotiated_plan_ok [OF assms] assms(4) by auto
  note p = plan_okD [OF ok]
  have each: "chunk_offset s i = i * ChunkSize s \<and> 0 \<le> chunkLenAt s i \<and> chunkLenAt s i \<le> ChunkSize s"
    if "0 \<le> i \<and> i < TotalChunks s" for i
    using that chunk_offset_eq [OF ok] chunkLenAt_eq [OF ok] p(2) by auto
  define z where "z = replicate (nat (TotalSize s)) (0::8 word)"
  have z: "int (length z) = TotalSize s" using p by (simp add: z_def)
  have "(\<Sum>i<nat (TotalChunks s). chunkLenAt s (int i)) = (\<Sum>i<nat (TotalChunks s). int (length (chunk_data s z (int i))))"
    using length_chunk_data [OF ok z] by (intro sum.cong) auto
  also have "\<dots> = int (length (concat (map (\<lambda>i. chunk_data s z (int i)) [0..<nat (TotalChunks s)])))"
    by (simp add: length_concat comp_def sum_list_sum_nth atLeast0LessThan)
  also have "\<dots> = rTotalSize req" using concat_chunk_data [OF ok z] z ts by simp
  finally show ?thesis using each p cs assms(5) concat_chunk_data [OF ok] ts by auto
qed

definition sample_init :: init_request where
  "sample_init = \<lparr>rUploadID = ''u1'', rFilename = ''d/f.bin'', rTotalSize = 10, rChunkSize = 4, rTotalChunks = 3,
     rFileChecksum = replicate 64 (CHR ''a''), rFileModTime = 0\<rparr>"

definition sample_session :: upload_session where
  "sample_session = \<lparr>UploadID = ''u1'', Filename = ''d/f.bin'', TotalSize = 10, ChunkSize = 4, TotalChunks = 3,
     ReceivedChunks = [False, False, False], ChunkChecksums = [[], [], []], FileChecksum = replicate 64 (CHR ''a''),
     FileModTime = 0, CreatedAt = 0, ExpiresAt = 100, Completed = False, gen = 1, Completing = False, TempPath = [],
     Volume = [], ExternalTarget = False, StagingVolume = [], ScopeRes = None, VolPool = None, PoolRes = None, StorageMgrReserved = 0\<rparr>"

theorem chunk_plan_partition_witness:
  "validateInitRequest sample_init = None
   \<and> (\<Sum>i<nat (TotalChunks sample_session). chunkLenAt sample_session (int i)) = 10"
proof -
  have v: "validateInitRequest sample_init = None" by code_simp
  moreover have n: "negotiateInitChunkSize 0 sample_init = Inr (4, sample_init)" by code_simp
  ultimately show ?thesis
    using chunk_plan_partition [OF v n, of sample_session] by (simp add: sample_session_def sample_init_def)
qed

section \<open>Names in flight\<close>

definition hex_digest :: "digest \<Rightarrow> bool" where
  "hex_digest H \<longleftrightarrow> (\<forall>b. length (H b) = 64 \<and> list_all lower_hex (H b))"

lemma lower_hex_dash: "list_all lower_hex s \<Longrightarrow> CHR ''-'' \<notin> set s"
  by (auto simp: list_all_iff lower_hex_def Let_def)

lemma inflightTempID_InflightTempName:
  assumes "hex_digest H"
  shows "inflightTempID (InflightTempName H name uploadID) = Some uploadID"
proof -
  let ?t = "take 16 (H (bytes_of name))"
  have t: "length ?t = 16" "list_all lower_hex ?t"
    using assms by (auto simp: hex_digest_def list_all_iff dest: in_set_takeD)
  have "CutPrefix (InflightTempName H name uploadID) InflightPrefix = Some (?t @ ''-'' @ uploadID @ ''.part'')"
    by (simp add: CutPrefix_def InflightTempName_def)
  moreover have "cut_at (CHR ''-'') (?t @ ''-'' @ uploadID @ ''.part'') = Some (?t, uploadID @ ''.part'')"
    using lower_hex_dash [OF t(2)] by (simp add: cut_at_def takeWhile_append dropWhile_append)
  ultimately show ?thesis using t
    by (simp add: inflightTempID_def HasSuffix_def TrimSuffix_def)
qed

lemma inflightTempID_iff:
  "inflightTempID n = Some uid \<longleftrightarrow>
     (\<exists>tok. length tok = 16 \<and> list_all lower_hex tok \<and> n = InflightPrefix @ tok @ ''-'' @ uid @ ''.part'')"
proof
  assume "inflightTempID n = Some uid"
  then obtain rest tok idp where r: "CutPrefix n InflightPrefix = Some rest" "cut_at (CHR ''-'') rest = Some (tok, idp)"
    "length tok = 16" "HasSuffix idp ''.part''" "list_all lower_hex tok" "uid = TrimSuffix idp ''.part''"
    by (auto simp: inflightTempID_def split: option.splits if_splits)
  have "n = InflightPrefix @ rest" using r(1) by (auto simp: CutPrefix_def split: if_splits) (metis append_take_drop_id)
  moreover have "rest = tok @ CHR ''-'' # idp"
  proof -
    have "CHR ''-'' \<in> set rest" "tok = takeWhile (\<lambda>c. c \<noteq> CHR ''-'') rest" "idp = tl (dropWhile (\<lambda>c. c \<noteq> CHR ''-'') rest)"
      using r(2) by (auto simp: cut_at_def split: if_splits)
    moreover from this have "dropWhile (\<lambda>c. c \<noteq> CHR ''-'') rest \<noteq> []" "hd (dropWhile (\<lambda>c. c \<noteq> CHR ''-'') rest) = CHR ''-''"
      using hd_dropWhile [of "\<lambda>c. c \<noteq> CHR ''-''" rest] by (auto simp: dropWhile_eq_Nil_conv)
    ultimately show ?thesis by (metis list.collapse takeWhile_dropWhile_id)
  qed
  moreover have "idp = uid @ ''.part''"
    using r(4,6) append_take_drop_id [of "length idp - length ''.part''" idp] by (auto simp: HasSuffix_def TrimSuffix_def)
  ultimately show "\<exists>tok. length tok = 16 \<and> list_all lower_hex tok \<and> n = InflightPrefix @ tok @ ''-'' @ uid @ ''.part''"
    using r(3,5) by auto
next
  assume "\<exists>tok. length tok = 16 \<and> list_all lower_hex tok \<and> n = InflightPrefix @ tok @ ''-'' @ uid @ ''.part''"
  then obtain tok where t: "length tok = 16" "list_all lower_hex tok" "n = InflightPrefix @ tok @ ''-'' @ uid @ ''.part''" by blast
  have "cut_at (CHR ''-'') (tok @ CHR ''-'' # uid @ ''.part'') = Some (tok, uid @ ''.part'')"
    using lower_hex_dash [OF t(2)] by (simp add: cut_at_def takeWhile_append dropWhile_append)
  then show "inflightTempID n = Some uid" using t
    by (simp add: inflightTempID_def CutPrefix_def HasSuffix_def TrimSuffix_def)
qed

lemma base_name_slash: "SL \<notin> set b \<Longrightarrow> base_name (a @ SL # b) = b"
  by (simp add: base_name_def takeWhile_append)

lemma InflightTempName_no_slash:
  assumes "hex_digest H" "SL \<notin> set uid"
  shows "SL \<notin> set (InflightTempName H name uid)"
proof -
  have "SL \<notin> set (take 16 (H (bytes_of name)))"
    using assms(1) by (auto simp: hex_digest_def list_all_iff lower_hex_def Let_def dest!: in_set_takeD) force
  then show ?thesis using assms(2) by (simp add: InflightTempName_def InflightPrefix_def)
qed

lemma base_name_TempRelForUser:
  assumes "hex_digest H" "SL \<notin> set (UploadID s)"
  shows "base_name (TempRelForUser H s rel) = InflightTempName H rel (UploadID s)"
  using InflightTempName_no_slash [OF assms, of rel] base_name_slash [of _ "''user''"]
    base_name_slash [of _ "''user/'' @ dir_name (TrimPrefix rel ''user/'')"]
  by (auto simp: TempRelForUser_def Let_def)

text \<open>C34. The name of a file in flight tells exactly which upload it belongs to: reading the name that init generates gives the upload's
  id back, whatever bytes the id has, the ownership test that guards every deletion accepts it for that id and for no other, and what
  the parser accepts is exactly the prefix, sixteen lower-case hexadecimal digits, a dash, the id and the suffix.
\<close>

theorem inflight_name_ownership:
  assumes "hex_digest H" "ValidSegmentName (UploadID s)"
  shows "inflightTempID (base_name (TempRelForUser H s rel)) = Some (UploadID s)
    \<and> (IsInflightTempNameFor (base_name (TempRelForUser H s rel)) uid \<longleftrightarrow> uid = UploadID s)
    \<and> (InflightTempName H rel (UploadID s) = InflightTempName H rel' uid \<longrightarrow> uid = UploadID s)
    \<and> (inflightTempID n = Some uid \<longleftrightarrow>
        (\<exists>tok. length tok = 16 \<and> list_all lower_hex tok \<and> n = InflightPrefix @ tok @ ''-'' @ uid @ ''.part''))"
proof -
  have "SL \<notin> set (UploadID s)" "UploadID s \<noteq> []" using ValidSegmentName_ordinary [OF assms(2)] by (auto simp: ordinary_def)
  then have "inflightTempID (base_name (TempRelForUser H s rel)) = Some (UploadID s)"
    using base_name_TempRelForUser [OF assms(1)] inflightTempID_InflightTempName [OF assms(1)] by simp
  moreover have "uid = UploadID s" if "InflightTempName H rel (UploadID s) = InflightTempName H rel' uid"
    using that inflightTempID_InflightTempName [OF assms(1)] by (metis option.inject)
  ultimately show ?thesis using \<open>UploadID s \<noteq> []\<close> inflightTempID_iff by (auto simp: IsInflightTempNameFor_def)
qed

definition zero_digest :: digest where
  "zero_digest b = replicate 64 (CHR ''0'')"

lemma zero_digest_hex: "hex_digest zero_digest"
  by (simp add: hex_digest_def zero_digest_def lower_hex_def list_all_iff)

theorem inflight_name_ownership_witness:
  "inflightTempID (base_name (TempRelForUser zero_digest sample_session ''user/d/f.bin'')) = Some ''u1''
   \<and> \<not> IsInflightTempNameFor (base_name (TempRelForUser zero_digest sample_session ''user/d/f.bin'')) ''1''"
proof -
  have "ValidSegmentName (UploadID sample_session)" by code_simp
  from inflight_name_ownership [OF zero_digest_hex this, of "''user/d/f.bin''" "''1''"]
  show ?thesis by (simp add: sample_session_def)
qed

text \<open>
  The name in flight need not be a legal segment: an id of more than 223 bytes passes the check of init and makes a name of more than
  255 bytes, which a file system refuses, so such an upload fails in the creation of its file.
\<close>

lemma inflight_name_too_long:
  assumes "hex_digest H" "223 < length uid"
  shows "\<not> ValidSegmentName (InflightTempName H rel uid)"
proof -
  have "255 < length (InflightTempName H rel uid)"
    using assms by (simp add: InflightTempName_def InflightPrefix_def hex_digest_def)
  then show ?thesis by (auto simp: ValidSegmentName_def)
qed

end
