(* ===== verification/Upload_Store.thy ===== *)
theory Upload_Store
  imports Upload_Plan "HOL-Library.List_Lexorder" "HOL-Library.Char_ord"
begin

text \<open>
  The store of upload sessions (\<open>UploadStore\<close>, \<open>pkg/files/chunked_store.go\<close>): the table of sessions with its generation counter, the
  session directories with \<open>session.json\<close> and the per-chunk checksum files, the files in flight, registration, publication, bookkeeping
  of chunks, completion flags, persistence and removal. A critical section of \<open>us.mu\<close> is one step; where the source leaves the mutex
  and takes it again, the definition is split in two, so that other steps may come between.

  The object a table entry points to is identified by its generation, which is what the code compares where it compares pointers. The
  iteration order of a Go map is a parameter. The calls the store makes on the quota ledger and on the storage manager are recorded in the order in which they are made.
  Strings are valid UTF-8, so that \<open>session.json\<close> reads back what was written. A removal that fails is logged by the code and
  leaves the file in place; here removals succeed.
\<close>

section \<open>State\<close>

datatype json_file = NoJson | Corrupt | Json upload_session

record session_dir =
  json :: json_file
  sidecars :: "int \<Rightarrow> string option"

datatype quota_call = ReleaseRes nat | ReleaseChunked int

record upload_store =
  sessions :: "string \<Rightarrow> upload_session option"
  nextGen :: nat
  stopped :: bool
  persistCh :: "string list"
  sessionTTL :: int
  hasStorageMgr :: bool
  volTenantRoots :: "string \<Rightarrow> string option"
  ownRoot :: string
  dirs :: "string \<Rightarrow> session_dir option"
  disk :: "string \<Rightarrow> octets option"
  calls :: "quota_call list"

datatype store_error = IdEmpty | IdUnknown | IndexOutOfRange | MetaMismatch | AlreadyCompleted | NotCurrent
  | MkdirFailed | WriteFailed | SidecarFailed | IndexPanic

text \<open>The outcome of writing a file by way of a temporary one: done, failed with the old file in place, or, when the rename
  and both of its fallbacks failed, failed with the old file gone or half written.\<close>

datatype io = IoOk | IoFail | IoLost | IoTorn

definition with_session :: "string \<Rightarrow> upload_session option \<Rightarrow> upload_store \<Rightarrow> upload_store" where
  "with_session uid s us = us\<lparr>sessions := (sessions us)(uid := s)\<rparr>"

definition with_dir :: "string \<Rightarrow> session_dir option \<Rightarrow> upload_store \<Rightarrow> upload_store" where
  "with_dir uid d us = us\<lparr>dirs := (dirs us)(uid := d)\<rparr>"

definition SetStorageMgr :: "bool \<Rightarrow> upload_store \<Rightarrow> upload_store" where
  "SetStorageMgr sm us = us\<lparr>hasStorageMgr := sm\<rparr>"

section \<open>Paths\<close>

definition SetVolumeTenantRoot :: "string \<Rightarrow> string \<Rightarrow> upload_store \<Rightarrow> upload_store" where
  "SetVolumeTenantRoot vol root us =
     (if vol = [] \<or> root = [] then us else us\<lparr>volTenantRoots := (volTenantRoots us)(vol := Some root)\<rparr>)"

definition tenantRootFor :: "upload_store \<Rightarrow> string \<Rightarrow> string" where
  "tenantRootFor us vol =
     (if vol \<noteq> [] then case volTenantRoots us vol of Some r \<Rightarrow> if r \<noteq> [] then r else ownRoot us | None \<Rightarrow> ownRoot us
      else ownRoot us)"

definition tenantRootForStaging :: "upload_store \<Rightarrow> upload_session option \<Rightarrow> string" where
  "tenantRootForStaging us so =
     (case so of
        Some s \<Rightarrow> if StagingVolume s \<noteq> [] then tenantRootFor us (StagingVolume s) else tenantRootFor us (Volume s)
      | None \<Rightarrow> tenantRootFor us [])"

definition tempAbsPath :: "upload_store \<Rightarrow> upload_session option \<Rightarrow> string option" where
  "tempAbsPath us so =
     (case so of
        None \<Rightarrow> None
      | Some s \<Rightarrow>
          if \<not> HasPrefix (TempPath s) ''user/'' then None
          else let root = tenantRootForStaging us so;
                   clean = Clean (Join2 root (TempPath s))
               in if clean \<noteq> root \<and> \<not> HasPrefix clean (root @ [SL]) then None else Some clean)"

section \<open>Registration\<close>

definition newSession :: "string \<Rightarrow> string \<Rightarrow> int \<Rightarrow> int \<Rightarrow> int \<Rightarrow> string \<Rightarrow> int \<Rightarrow> int \<Rightarrow> int \<Rightarrow> upload_session" where
  "newSession uid fn ts cs tc ck mt ttl now =
     \<lparr>UploadID = uid, Filename = fn, TotalSize = ts, ChunkSize = cs, TotalChunks = tc,
      ReceivedChunks = replicate (nat tc) False, ChunkChecksums = replicate (nat tc) [], FileChecksum = ck,
      FileModTime = mt, CreatedAt = now, ExpiresAt = now + ttl, Completed = False, gen = 0, Completing = False,
      TempPath = [], Volume = [], ExternalTarget = False, StagingVolume = [], ScopeRes = None, VolPool = None,
      PoolRes = None, StorageMgrReserved = 0\<rparr>"

text \<open>What \<open>json.Marshal\<close> keeps of a session.\<close>

definition persisted :: "upload_session \<Rightarrow> upload_session" where
  "persisted s = s\<lparr>gen := 0, Completing := False, ScopeRes := None, VolPool := None, PoolRes := None, StorageMgrReserved := 0\<rparr>"

definition writeSessionJSON :: "io \<Rightarrow> upload_session \<Rightarrow> upload_store \<Rightarrow> store_error option \<times> upload_store" where
  "writeSessionJSON w s us =
     (case dirs us (UploadID s) of
        None \<Rightarrow> (Some WriteFailed, us)
      | Some d \<Rightarrow>
          (case w of
             IoOk \<Rightarrow> (None, with_dir (UploadID s) (Some (d\<lparr>json := Json (persisted s)\<rparr>)) us)
           | IoFail \<Rightarrow> (Some WriteFailed, us)
           | IoLost \<Rightarrow> (Some WriteFailed, with_dir (UploadID s) (Some (d\<lparr>json := NoJson\<rparr>)) us)
           | IoTorn \<Rightarrow> (Some WriteFailed, with_dir (UploadID s) (Some (d\<lparr>json := Corrupt\<rparr>)) us)))"

definition mkdir_session :: "string \<Rightarrow> upload_store \<Rightarrow> upload_store" where
  "mkdir_session uid us =
     (case dirs us uid of Some _ \<Rightarrow> us | None \<Rightarrow> with_dir uid (Some \<lparr>json = NoJson, sidecars = (\<lambda>_. None)\<rparr>) us)"

definition nextGenLocked :: "upload_store \<Rightarrow> nat \<times> upload_store" where
  "nextGenLocked us = (let g = (nextGen us + 1) mod 18446744073709551616 in (g, us\<lparr>nextGen := g\<rparr>))"

definition register_session :: "upload_session \<Rightarrow> upload_store \<Rightarrow> upload_session \<times> upload_store" where
  "register_session s us = (case nextGenLocked us of (g, us') \<Rightarrow>
     let s' = s\<lparr>gen := g\<rparr> in (s', with_session (UploadID s) (Some s') us'))"

definition saveNewSession :: "bool \<Rightarrow> io \<Rightarrow> upload_session \<Rightarrow> upload_store \<Rightarrow> (store_error + upload_session) \<times> upload_store" where
  "saveNewSession mkdir w s us =
     (if \<not> mkdir then (Inl MkdirFailed, us)
      else case writeSessionJSON w s (mkdir_session (UploadID s) us) of
             (Some e, us1) \<Rightarrow> (Inl e, with_dir (UploadID s) None us1)
           | (None, us1) \<Rightarrow> (case register_session s us1 of (s', us2) \<Rightarrow> (Inr s', us2)))"

definition CreateSession :: "bool \<Rightarrow> io \<Rightarrow> int \<Rightarrow> string \<Rightarrow> string \<Rightarrow> int \<Rightarrow> int \<Rightarrow> int \<Rightarrow> string \<Rightarrow> int \<Rightarrow> upload_store
    \<Rightarrow> (store_error + upload_session) \<times> upload_store" where
  "CreateSession mkdir w now uid fn ts cs tc ck mt us =
     (if uid = [] then (Inl IdEmpty, us)
      else saveNewSession mkdir w (newSession uid fn ts cs tc ck mt (sessionTTL us) now) us)"

definition GetSession :: "upload_store \<Rightarrow> string \<Rightarrow> upload_session option" where
  "GetSession us uid = sessions us uid"

text \<open>The first session in iteration order that satisfies a condition.\<close>

fun find_session :: "string list \<Rightarrow> (upload_session \<Rightarrow> bool) \<Rightarrow> upload_store \<Rightarrow> upload_session option" where
  "find_session [] P us = None"
| "find_session (k # ks) P us =
     (case sessions us k of Some s \<Rightarrow> if P s then Some s else find_session ks P us | None \<Rightarrow> find_session ks P us)"

definition GetSessionByFilename :: "string list \<Rightarrow> upload_store \<Rightarrow> string \<Rightarrow> upload_session option" where
  "GetSessionByFilename ord us fn = find_session ord (\<lambda>s. Filename s = fn \<and> \<not> Completed s) us"

text \<open>The flag of the result says that an existing session was found.\<close>

definition GetOrCreateSession :: "string list \<Rightarrow> bool \<Rightarrow> io \<Rightarrow> int \<Rightarrow> string \<Rightarrow> string \<Rightarrow> int \<Rightarrow> int \<Rightarrow> int \<Rightarrow> string \<Rightarrow> int
    \<Rightarrow> upload_store \<Rightarrow> (store_error + upload_session \<times> bool) \<times> upload_store" where
  "GetOrCreateSession ord mkdir w now uid fn ts cs tc ck mt us =
     (let create =
        (case find_session ord (\<lambda>s. Filename s = fn \<and> \<not> Completed s \<and> FileChecksum s = ck \<and> TotalSize s = ts) us of
           Some s \<Rightarrow> (Inr (s, True), us)
         | None \<Rightarrow>
             if uid = [] then (Inl IdEmpty, us)
             else if \<not> mkdir then (Inl MkdirFailed, us)
             else let s = newSession uid fn ts cs tc ck mt (sessionTTL us) now
                  in case writeSessionJSON w s (mkdir_session uid us) of
                       (Some e, us1) \<Rightarrow> (Inl e, with_dir uid None us1)
                     | (None, us1) \<Rightarrow> (case register_session s us1 of (s', us2) \<Rightarrow> (Inr (s', False), us2)))
      in case (if uid = [] then None else sessions us uid) of
           Some s \<Rightarrow>
             if \<not> Completed s then
               (if Filename s \<noteq> fn \<or> FileChecksum s \<noteq> ck \<or> TotalSize s \<noteq> ts then (Inl MetaMismatch, us)
                else (Inr (s, True), us))
             else create
         | None \<Rightarrow> create)"

section \<open>Listing\<close>

record session_meta =
  mUploadID :: string
  mFilename :: string
  mTotalSize :: int
  mChunkSize :: int
  mTotalChunks :: int
  mReceivedCount :: int
  mMissingCount :: int
  mFileChecksum :: string
  mFileModTime :: int
  mExpiresAt :: int
  mCompleted :: bool

definition meta_of :: "upload_session \<Rightarrow> session_meta" where
  "meta_of s = \<lparr>mUploadID = UploadID s, mFilename = Filename s, mTotalSize = TotalSize s, mChunkSize = ChunkSize s,
     mTotalChunks = TotalChunks s, mReceivedCount = countReceived (ReceivedChunks s),
     mMissingCount = TotalChunks s - countReceived (ReceivedChunks s), mFileChecksum = FileChecksum s,
     mFileModTime = FileModTime s, mExpiresAt = ExpiresAt s, mCompleted = Completed s\<rparr>"

definition ListSessions :: "string list \<Rightarrow> upload_store \<Rightarrow> session_meta list" where
  "ListSessions ord us = sort_key mUploadID (map meta_of (List.map_filter (sessions us) ord))"

section \<open>Chunks received\<close>

definition request_persist :: "string \<Rightarrow> upload_store \<Rightarrow> upload_store" where
  "request_persist uid us = (if stopped us then us else us\<lparr>persistCh := persistCh us @ [uid]\<rparr>)"

definition persistChunkChecksum :: "bool \<Rightarrow> string \<Rightarrow> int \<Rightarrow> string \<Rightarrow> upload_store \<Rightarrow> bool \<times> upload_store" where
  "persistChunkChecksum w uid i ck us =
     (case dirs us uid of
        None \<Rightarrow> (False, us)
      | Some d \<Rightarrow> if w then (True, with_dir uid (Some (d\<lparr>sidecars := (sidecars d)(i := Some ck)\<rparr>)) us) else (False, us))"

text \<open>\<open>MarkChunkReceived\<close> up to the second acquisition of the mutex: the checks and the checksum file.\<close>

definition MarkChunk_begin :: "bool \<Rightarrow> string \<Rightarrow> int \<Rightarrow> string \<Rightarrow> upload_store \<Rightarrow> store_error option \<times> upload_store" where
  "MarkChunk_begin w uid i ck us =
     (case sessions us uid of
        None \<Rightarrow> (Some IdUnknown, us)
      | Some s \<Rightarrow>
          if i < 0 \<or> TotalChunks s \<le> i then (Some IndexOutOfRange, us)
          else case persistChunkChecksum w uid i ck us of
                 (False, us1) \<Rightarrow> (Some SidecarFailed, us1)
               | (True, us1) \<Rightarrow> (None, us1))"

definition set_received :: "int \<Rightarrow> bool \<Rightarrow> string \<Rightarrow> upload_session \<Rightarrow> upload_session option" where
  "set_received i b ck s =
     (if 0 \<le> i \<and> nat i < length (ReceivedChunks s) \<and> nat i < length (ChunkChecksums s)
      then Some (s\<lparr>ReceivedChunks := (ReceivedChunks s)[nat i := b], ChunkChecksums := (ChunkChecksums s)[nat i := ck]\<rparr>)
      else None)"

definition MarkChunk_finish :: "string \<Rightarrow> int \<Rightarrow> string \<Rightarrow> upload_store \<Rightarrow> store_error option \<times> upload_store" where
  "MarkChunk_finish uid i ck us =
     (case sessions us uid of
        None \<Rightarrow> (Some IdUnknown, us)
      | Some s \<Rightarrow>
          (case set_received i True ck s of
             None \<Rightarrow> (Some IndexPanic, us)
           | Some s' \<Rightarrow> (None, request_persist uid (with_session uid (Some s') us))))"

definition MarkChunkReceived :: "bool \<Rightarrow> string \<Rightarrow> int \<Rightarrow> string \<Rightarrow> upload_store \<Rightarrow> store_error option \<times> upload_store" where
  "MarkChunkReceived w uid i ck us =
     (case MarkChunk_begin w uid i ck us of
        (Some e, us1) \<Rightarrow> (Some e, us1)
      | (None, us1) \<Rightarrow> MarkChunk_finish uid i ck us1)"

fun clear_loop :: "int list \<Rightarrow> upload_session \<Rightarrow> store_error option \<times> upload_session" where
  "clear_loop [] s = (None, s)"
| "clear_loop (i # is) s =
     (if i < 0 \<or> TotalChunks s \<le> i then (Some IndexOutOfRange, s)
      else case set_received i False [] s of None \<Rightarrow> (Some IndexPanic, s) | Some s' \<Rightarrow> clear_loop is s')"

definition ClearChunksReceived :: "string \<Rightarrow> int list \<Rightarrow> upload_store \<Rightarrow> store_error option \<times> upload_store" where
  "ClearChunksReceived uid indices us =
     (case sessions us uid of
        None \<Rightarrow> (Some IdUnknown, us)
      | Some s \<Rightarrow>
          (case clear_loop (sort indices) s of
             (Some e, s') \<Rightarrow> (Some e, with_session uid (Some s') us)
           | (None, s') \<Rightarrow> (None, request_persist uid (with_session uid (Some s') us))))"

definition AllChunksReceived :: "upload_store \<Rightarrow> string \<Rightarrow> bool" where
  "AllChunksReceived us uid =
     (case sessions us uid of None \<Rightarrow> False | Some s \<Rightarrow> if Completed s then True else list_all (\<lambda>r. r) (ReceivedChunks s))"

section \<open>Completion\<close>

definition BeginComplete :: "string \<Rightarrow> upload_store \<Rightarrow> bool \<times> upload_store" where
  "BeginComplete uid us =
     (case sessions us uid of
        None \<Rightarrow> (False, us)
      | Some s \<Rightarrow> if Completed s \<or> Completing s then (False, us)
                 else (True, with_session uid (Some (s\<lparr>Completing := True\<rparr>)) us))"

definition EndComplete :: "string \<Rightarrow> upload_store \<Rightarrow> upload_store" where
  "EndComplete uid us =
     (case sessions us uid of None \<Rightarrow> us | Some s \<Rightarrow> with_session uid (Some (s\<lparr>Completing := False\<rparr>)) us)"

definition CompleteSession :: "string \<Rightarrow> upload_store \<Rightarrow> store_error option \<times> upload_store" where
  "CompleteSession uid us =
     (case sessions us uid of
        None \<Rightarrow> (Some IdUnknown, us)
      | Some s \<Rightarrow> if Completed s then (Some AlreadyCompleted, us)
                 else (None, request_persist uid (with_session uid (Some (s\<lparr>Completed := True\<rparr>)) us)))"

section \<open>Removal\<close>

definition releaseSessionReservations :: "upload_session option \<Rightarrow> upload_store \<Rightarrow> upload_store" where
  "releaseSessionReservations so us =
     (case so of
        None \<Rightarrow> us
      | Some s \<Rightarrow>
          us\<lparr>calls := calls us
            @ (case ScopeRes s of
                 Some h \<Rightarrow> [ReleaseRes h]
               | None \<Rightarrow> if 0 < StorageMgrReserved s \<and> \<not> Completed s \<and> hasStorageMgr us
                         then [ReleaseChunked (StorageMgrReserved s)] else [])
            @ (case PoolRes s of Some h \<Rightarrow> [ReleaseRes h] | None \<Rightarrow> [])\<rparr>)"

definition deleteSessionArtifactsAt :: "string \<Rightarrow> string option \<Rightarrow> upload_store \<Rightarrow> upload_store" where
  "deleteSessionArtifactsAt uid temp us =
     (let us1 = (case temp of
                   None \<Rightarrow> us
                 | Some t \<Rightarrow> if IsInflightTempNameFor (base_name t) uid then us\<lparr>disk := (disk us)(t := None)\<rparr> else us)
      in with_dir uid None us1)"

definition deleteSessionArtifacts :: "string \<Rightarrow> upload_session option \<Rightarrow> upload_store \<Rightarrow> upload_store" where
  "deleteSessionArtifacts uid so us = deleteSessionArtifactsAt uid (tempAbsPath us so) us"

definition DeleteSession :: "string \<Rightarrow> upload_store \<Rightarrow> upload_store" where
  "DeleteSession uid us =
     (let so = sessions us uid;
          us1 = with_session uid None us
      in deleteSessionArtifacts uid so (releaseSessionReservations so us1))"

text \<open>\<open>cleanupExpiredArtifacts\<close>: skipped if the id has been taken over by another session.\<close>

definition cleanupExpiredArtifacts :: "string \<Rightarrow> upload_session \<Rightarrow> upload_store \<Rightarrow> bool \<times> upload_store" where
  "cleanupExpiredArtifacts uid s us =
     (let temp = tempAbsPath us (Some s) in
      case sessions us uid of
        Some cur \<Rightarrow> if gen cur \<noteq> gen s then (False, us) else (True, deleteSessionArtifactsAt uid temp us)
      | None \<Rightarrow> (True, deleteSessionArtifactsAt uid temp us))"

text \<open>\<open>CleanupExpired\<close>: the sessions past their time leave the table in one critical section; then each is treated on its own.\<close>

fun collect_expired :: "int \<Rightarrow> string list \<Rightarrow> upload_store \<Rightarrow> (string \<times> upload_session) list \<times> upload_store" where
  "collect_expired now [] us = ([], us)"
| "collect_expired now (k # ks) us =
     (case sessions us k of
        Some s \<Rightarrow> if ExpiresAt s < now
                  then (case collect_expired now ks (with_session k None us) of (xs, us') \<Rightarrow> ((k, s) # xs, us'))
                  else collect_expired now ks us
      | None \<Rightarrow> collect_expired now ks us)"

definition release_expired :: "upload_session \<Rightarrow> upload_store \<Rightarrow> upload_store" where
  "release_expired s us =
     (let p5 = (if Completed s then 0 else StorageMgrReserved s) in
      us\<lparr>calls := calls us
        @ (case ScopeRes s of
             Some h \<Rightarrow> [ReleaseRes h]
           | None \<Rightarrow> if 0 < p5 \<and> hasStorageMgr us then [ReleaseChunked p5] else [])
        @ (case PoolRes s of Some h \<Rightarrow> [ReleaseRes h] | None \<Rightarrow> [])\<rparr>)"

definition expire_item :: "string \<times> upload_session \<Rightarrow> upload_store \<Rightarrow> upload_store" where
  "expire_item x us = snd (cleanupExpiredArtifacts (fst x) (snd x) (release_expired (snd x) us))"

definition CleanupExpired :: "int \<Rightarrow> string list \<Rightarrow> upload_store \<Rightarrow> upload_store" where
  "CleanupExpired now ord us = (case collect_expired now ord us of (xs, us1) \<Rightarrow> fold expire_item xs us1)"

definition cleanupSessionIfCurrent :: "string \<Rightarrow> upload_session option \<Rightarrow> upload_store \<Rightarrow> upload_store" where
  "cleanupSessionIfCurrent uid expect us =
     (case expect of
        None \<Rightarrow> us
      | Some e \<Rightarrow>
          (case sessions us uid of
             None \<Rightarrow> us
           | Some s \<Rightarrow>
               if gen s \<noteq> gen e then us
               else releaseSessionReservations (Some s)
                      (deleteSessionArtifactsAt uid (tempAbsPath us (Some s)) (with_session uid None us))))"

section \<open>Persistence\<close>

definition persistSession :: "io \<Rightarrow> string \<Rightarrow> upload_store \<Rightarrow> upload_store" where
  "persistSession w uid us = (case sessions us uid of None \<Rightarrow> us | Some s \<Rightarrow> snd (writeSessionJSON w s us))"

text \<open>One request of the persistence channel, or of a goroutine started because the channel was full, is served.\<close>

definition persist_step :: "io \<Rightarrow> nat \<Rightarrow> upload_store \<Rightarrow> upload_store" where
  "persist_step w k us =
     (if k < length (persistCh us)
      then persistSession w (persistCh us ! k) (us\<lparr>persistCh := take k (persistCh us) @ drop (Suc k) (persistCh us)\<rparr>)
      else us)"

definition PersistNow :: "io \<Rightarrow> string \<Rightarrow> upload_store \<Rightarrow> store_error option \<times> upload_store" where
  "PersistNow w uid us = (case sessions us uid of None \<Rightarrow> (Some IdUnknown, us) | Some s \<Rightarrow> writeSessionJSON w s us)"

definition PersistNowIfCurrent :: "io \<Rightarrow> upload_session option \<Rightarrow> upload_store \<Rightarrow> store_error option \<times> upload_store" where
  "PersistNowIfCurrent w expect us =
     (case expect of
        None \<Rightarrow> (Some NotCurrent, us)
      | Some e \<Rightarrow>
          (case sessions us (UploadID e) of
             None \<Rightarrow> (Some IdUnknown, us)
           | Some s \<Rightarrow> if gen s \<noteq> gen e then (Some NotCurrent, us) else writeSessionJSON w s us))"

definition Stop :: "(nat \<Rightarrow> io) \<Rightarrow> upload_store \<Rightarrow> upload_store" where
  "Stop w us =
     (if stopped us then us
      else let q = persistCh us
           in fold (\<lambda>k. persistSession (w k) (q ! k)) [0..<length q] (us\<lparr>stopped := True, persistCh := []\<rparr>))"

section \<open>Publication\<close>

definition publishSession :: "string \<Rightarrow> upload_session option \<Rightarrow> (upload_session \<Rightarrow> upload_session) \<Rightarrow> upload_store
    \<Rightarrow> bool \<times> upload_store" where
  "publishSession uid expect f us =
     (case sessions us uid of
        None \<Rightarrow> (False, us)
      | Some s \<Rightarrow>
          if (case expect of Some e \<Rightarrow> gen s \<noteq> gen e | None \<Rightarrow> False) then (False, us)
          else (True, with_session uid (Some (f s)) us))"

definition publishSessionIfCurrent :: "upload_session option \<Rightarrow> (upload_session \<Rightarrow> upload_session) \<Rightarrow> upload_store
    \<Rightarrow> bool \<times> upload_store" where
  "publishSessionIfCurrent expect f us =
     (case expect of
        None \<Rightarrow> (False, us)
      | Some e \<Rightarrow> if UploadID e = [] then (False, us) else publishSession (UploadID e) expect f us)"

definition setSessionRouteIfCurrent :: "upload_session option \<Rightarrow> string \<Rightarrow> nat option \<Rightarrow> nat option \<Rightarrow> nat option \<Rightarrow> upload_store
    \<Rightarrow> bool \<times> upload_store" where
  "setSessionRouteIfCurrent expect vol res pool poolRes =
     publishSessionIfCurrent expect (\<lambda>s. s\<lparr>Volume := vol, ScopeRes := res, VolPool := pool, PoolRes := poolRes\<rparr>)"

definition setSessionStagingVolumeIfCurrent :: "upload_session option \<Rightarrow> string \<Rightarrow> upload_store \<Rightarrow> bool \<times> upload_store" where
  "setSessionStagingVolumeIfCurrent expect vol = publishSessionIfCurrent expect (\<lambda>s. s\<lparr>StagingVolume := vol\<rparr>)"

definition setSessionExternalTargetIfCurrent :: "upload_session option \<Rightarrow> upload_store \<Rightarrow> bool \<times> upload_store" where
  "setSessionExternalTargetIfCurrent expect = publishSessionIfCurrent expect (\<lambda>s. s\<lparr>ExternalTarget := True\<rparr>)"

definition setSessionStorageMgrReservedIfCurrent :: "upload_session option \<Rightarrow> int \<Rightarrow> upload_store \<Rightarrow> bool \<times> upload_store" where
  "setSessionStorageMgrReservedIfCurrent expect n = publishSessionIfCurrent expect (\<lambda>s. s\<lparr>StorageMgrReserved := n\<rparr>)"

definition setSessionTempPathIfCurrent :: "upload_session option \<Rightarrow> string \<Rightarrow> upload_store \<Rightarrow> bool \<times> upload_store" where
  "setSessionTempPathIfCurrent expect rel = publishSessionIfCurrent expect (\<lambda>s. s\<lparr>TempPath := rel\<rparr>)"

text \<open>\<open>RemoveUnclaimedTemp\<close>: the path the caller's closure removes is an argument.\<close>

definition RemoveUnclaimedTemp :: "string \<Rightarrow> string \<Rightarrow> string \<Rightarrow> upload_store \<Rightarrow> bool \<times> upload_store" where
  "RemoveUnclaimedTemp uid rel absp us =
     (case sessions us uid of
        Some s \<Rightarrow> if TempPath s = rel then (True, us) else (False, us\<lparr>disk := (disk us)(absp := None)\<rparr>)
      | None \<Rightarrow> (False, us\<lparr>disk := (disk us)(absp := None)\<rparr>))"

section \<open>Interleaved runs\<close>

text \<open>
  A step of the store, in the order the mutex is granted. The two halves of \<open>MarkChunkReceived\<close> are steps of their own, and so are
  the collection of expired sessions and the treatment of each; the list beside the store holds the sessions collected and not yet treated.
\<close>

datatype publication = PubRoute string "nat option" "nat option" "nat option" | PubStaging string | PubExternal
  | PubReserved int | PubTemp string

fun publish :: "publication \<Rightarrow> upload_session option \<Rightarrow> upload_store \<Rightarrow> bool \<times> upload_store" where
  "publish (PubRoute v r p pr) e = setSessionRouteIfCurrent e v r p pr"
| "publish (PubStaging v) e = setSessionStagingVolumeIfCurrent e v"
| "publish PubExternal e = setSessionExternalTargetIfCurrent e"
| "publish (PubReserved n) e = setSessionStorageMgrReservedIfCurrent e n"
| "publish (PubTemp t) e = setSessionTempPathIfCurrent e t"

datatype store_op =
    OpCreate bool io int string string int int int string int
  | OpGetOrCreate "string list" bool io int string string int int int string int
  | OpMarkBegin bool string int string
  | OpMarkFinish string int string
  | OpClear string "int list"
  | OpBeginComplete string
  | OpEndComplete string
  | OpComplete string
  | OpDelete string
  | OpCollect int "string list"
  | OpExpireItem
  | OpCleanupIfCurrent string "upload_session option"
  | OpPersist io nat
  | OpPersistNow io string
  | OpPersistIfCurrent io "upload_session option"
  | OpPublish publication "upload_session option"
  | OpStop "nat \<Rightarrow> io"

type_synonym run_state = "upload_store \<times> (string \<times> upload_session) list"

fun store_step :: "store_op \<Rightarrow> run_state \<Rightarrow> run_state" where
  "store_step (OpCreate m w now uid fn ts cs tc ck mt) (us, xs) = (snd (CreateSession m w now uid fn ts cs tc ck mt us), xs)"
| "store_step (OpGetOrCreate ord m w now uid fn ts cs tc ck mt) (us, xs) =
     (snd (GetOrCreateSession ord m w now uid fn ts cs tc ck mt us), xs)"
| "store_step (OpMarkBegin w uid i ck) (us, xs) = (snd (MarkChunk_begin w uid i ck us), xs)"
| "store_step (OpMarkFinish uid i ck) (us, xs) = (snd (MarkChunk_finish uid i ck us), xs)"
| "store_step (OpClear uid js) (us, xs) = (snd (ClearChunksReceived uid js us), xs)"
| "store_step (OpBeginComplete uid) (us, xs) = (snd (BeginComplete uid us), xs)"
| "store_step (OpEndComplete uid) (us, xs) = (EndComplete uid us, xs)"
| "store_step (OpComplete uid) (us, xs) = (snd (CompleteSession uid us), xs)"
| "store_step (OpDelete uid) (us, xs) = (DeleteSession uid us, xs)"
| "store_step (OpCollect now ord) (us, xs) = (case collect_expired now ord us of (ys, us1) \<Rightarrow> (us1, xs @ ys))"
| "store_step OpExpireItem (us, xs) = (case xs of [] \<Rightarrow> (us, []) | y # ys \<Rightarrow> (expire_item y us, ys))"
| "store_step (OpCleanupIfCurrent uid e) (us, xs) = (cleanupSessionIfCurrent uid e us, xs)"
| "store_step (OpPersist w k) (us, xs) = (persist_step w k us, xs)"
| "store_step (OpPersistNow w uid) (us, xs) = (snd (PersistNow w uid us), xs)"
| "store_step (OpPersistIfCurrent w e) (us, xs) = (snd (PersistNowIfCurrent w e us), xs)"
| "store_step (OpPublish f e) (us, xs) = (snd (publish f e us), xs)"
| "store_step (OpStop w) (us, xs) = (Stop w us, xs)"

definition store_run :: "store_op list \<Rightarrow> run_state \<Rightarrow> run_state" where
  "store_run ops st = fold store_step ops st"

text \<open>What a step may do to the table: change sessions in place or remove them, or register one new session.\<close>

definition keeps :: "upload_session \<Rightarrow> upload_session \<Rightarrow> bool" where
  "keeps s t \<longleftrightarrow> gen t = gen s \<and> UploadID t = UploadID s \<and> TotalChunks t = TotalChunks s
     \<and> length (ReceivedChunks t) = length (ReceivedChunks s) \<and> length (ChunkChecksums t) = length (ChunkChecksums s)
     \<and> (Completed s \<longrightarrow> Completed t)"

definition session_ok :: "upload_session \<Rightarrow> bool" where
  "session_ok s \<longleftrightarrow> Completed s \<or> nat (TotalChunks s) \<le> length (ReceivedChunks s) \<and> nat (TotalChunks s) \<le> length (ChunkChecksums s)"

definition modifies :: "upload_store \<Rightarrow> upload_store \<Rightarrow> bool" where
  "modifies us us' \<longleftrightarrow> nextGen us' = nextGen us
     \<and> (\<forall>k t. sessions us' k = Some t \<longrightarrow> (\<exists>s. sessions us k = Some s \<and> keeps s t))"

definition registers :: "upload_store \<Rightarrow> upload_store \<Rightarrow> bool" where
  "registers us us' \<longleftrightarrow> (\<exists>s. nextGen us' = (nextGen us + 1) mod 18446744073709551616 \<and> gen s = nextGen us' \<and> session_ok s
     \<and> sessions us' = (sessions us)(UploadID s := Some s))"

lemma keeps_refl [simp]: "keeps s s"
  by (simp add: keeps_def)

lemma keeps_trans: "keeps s t \<Longrightarrow> keeps t u \<Longrightarrow> keeps s u"
  by (auto simp: keeps_def)

lemma modifies_refl [simp]: "modifies us us"
  by (simp add: modifies_def)

lemma modifies_trans: "modifies us us1 \<Longrightarrow> modifies us1 us2 \<Longrightarrow> modifies us us2"
  unfolding modifies_def by (auto intro: keeps_trans) (blast intro: keeps_trans)

lemma modifies_same: "sessions us' = sessions us \<Longrightarrow> nextGen us' = nextGen us \<Longrightarrow> modifies us us'"
  by (simp add: modifies_def)

lemma modifies_update: "sessions us uid = Some s \<Longrightarrow> keeps s t \<Longrightarrow> modifies us (with_session uid (Some t) us)"
  by (auto simp: modifies_def with_session_def)

lemma modifies_remove: "modifies us (with_session uid None us)"
  by (auto simp: modifies_def with_session_def)

lemma same_table [simp]:
  "sessions (with_dir uid d us) = sessions us" "nextGen (with_dir uid d us) = nextGen us"
  "sessions (snd (writeSessionJSON w s us)) = sessions us" "nextGen (snd (writeSessionJSON w s us)) = nextGen us"
  "sessions (mkdir_session uid us) = sessions us" "nextGen (mkdir_session uid us) = nextGen us"
  "sessions (request_persist uid us) = sessions us" "nextGen (request_persist uid us) = nextGen us"
  "sessions (snd (persistChunkChecksum b uid i ck us)) = sessions us" "nextGen (snd (persistChunkChecksum b uid i ck us)) = nextGen us"
  "sessions (releaseSessionReservations so us) = sessions us" "nextGen (releaseSessionReservations so us) = nextGen us"
  "sessions (deleteSessionArtifactsAt uid t us) = sessions us" "nextGen (deleteSessionArtifactsAt uid t us) = nextGen us"
  "sessions (deleteSessionArtifacts uid so us) = sessions us" "nextGen (deleteSessionArtifacts uid so us) = nextGen us"
  "sessions (release_expired x us) = sessions us" "nextGen (release_expired x us) = nextGen us"
  "sessions (snd (cleanupExpiredArtifacts uid x us)) = sessions us" "nextGen (snd (cleanupExpiredArtifacts uid x us)) = nextGen us"
  "sessions (expire_item y us) = sessions us" "nextGen (expire_item y us) = nextGen us"
  "sessions (persistSession w uid us) = sessions us" "nextGen (persistSession w uid us) = nextGen us"
  "sessions (persist_step w k us) = sessions us" "nextGen (persist_step w k us) = nextGen us"
  "sessions (snd (PersistNow w uid us)) = sessions us" "nextGen (snd (PersistNow w uid us)) = nextGen us"
  "sessions (snd (PersistNowIfCurrent w e us)) = sessions us" "nextGen (snd (PersistNowIfCurrent w e us)) = nextGen us"
proof -
  show a [simp]: "sessions (with_dir uid d us) = sessions us" "nextGen (with_dir uid d us) = nextGen us" for uid d us
    by (simp_all add: with_dir_def)
  show b [simp]: "sessions (snd (writeSessionJSON w s us)) = sessions us" "nextGen (snd (writeSessionJSON w s us)) = nextGen us" for w s us
    by (auto simp: writeSessionJSON_def split: option.split io.split)
  show "sessions (mkdir_session uid us) = sessions us" "nextGen (mkdir_session uid us) = nextGen us"
    by (auto simp: mkdir_session_def split: option.split)
  show "sessions (request_persist uid us) = sessions us" "nextGen (request_persist uid us) = nextGen us"
    by (simp_all add: request_persist_def)
  show "sessions (snd (persistChunkChecksum b uid i ck us)) = sessions us" "nextGen (snd (persistChunkChecksum b uid i ck us)) = nextGen us"
    by (auto simp: persistChunkChecksum_def split: option.split)
  show "sessions (releaseSessionReservations so us) = sessions us" "nextGen (releaseSessionReservations so us) = nextGen us"
    by (auto simp: releaseSessionReservations_def split: option.split)
  show c [simp]: "sessions (deleteSessionArtifactsAt uid t us) = sessions us" "nextGen (deleteSessionArtifactsAt uid t us) = nextGen us" for uid t us
    by (auto simp: deleteSessionArtifactsAt_def Let_def split: option.split)
  show "sessions (deleteSessionArtifacts uid so us) = sessions us" "nextGen (deleteSessionArtifacts uid so us) = nextGen us"
    by (simp_all add: deleteSessionArtifacts_def)
  show d [simp]: "sessions (release_expired x us) = sessions us" "nextGen (release_expired x us) = nextGen us" for x us
    by (simp_all add: release_expired_def Let_def)
  show e [simp]: "sessions (snd (cleanupExpiredArtifacts uid x us)) = sessions us" "nextGen (snd (cleanupExpiredArtifacts uid x us)) = nextGen us" for uid x us
    by (auto simp: cleanupExpiredArtifacts_def Let_def split: option.split)
  show "sessions (expire_item y us) = sessions us" "nextGen (expire_item y us) = nextGen us"
    by (simp_all add: expire_item_def)
  show f [simp]: "sessions (persistSession w uid us) = sessions us" "nextGen (persistSession w uid us) = nextGen us" for w uid us
    by (auto simp: persistSession_def split: option.split)
  show "sessions (persist_step w k us) = sessions us" "nextGen (persist_step w k us) = nextGen us"
    by (simp_all add: persist_step_def)
  show "sessions (snd (PersistNow w uid us)) = sessions us" "nextGen (snd (PersistNow w uid us)) = nextGen us"
    by (auto simp: PersistNow_def split: option.split)
  show "sessions (snd (PersistNowIfCurrent w e us)) = sessions us" "nextGen (snd (PersistNowIfCurrent w e us)) = nextGen us"
    by (auto simp: PersistNowIfCurrent_def split: option.split)
qed

lemma session_ok_newSession: "session_ok (newSession uid fn ts cs tc ck mt ttl now)"
  by (simp add: session_ok_def newSession_def)

lemma UploadID_newSession [simp]: "UploadID (newSession uid fn ts cs tc ck mt ttl now) = uid"
  by (simp add: newSession_def)

lemma register_registers:
  assumes "register_session s us = (t, us')" "session_ok s"
  shows "registers us us'"
  using assms by (auto simp: register_session_def nextGenLocked_def registers_def with_session_def Let_def session_ok_def intro!: exI [of _ t])

lemma registers_after: "sessions us1 = sessions us \<Longrightarrow> nextGen us1 = nextGen us \<Longrightarrow> registers us1 us' \<Longrightarrow> registers us us'"
  by (simp only: registers_def)

lemma write_table:
  "writeSessionJSON w s us = (r, us') \<Longrightarrow> sessions us' = sessions us \<and> nextGen us' = nextGen us"
  by (metis same_table(3,4) snd_conv)

lemma sidecar_table:
  "persistChunkChecksum b uid i ck us = (r, us') \<Longrightarrow> sessions us' = sessions us \<and> nextGen us' = nextGen us"
  by (metis same_table(9,10) snd_conv)

lemma create_table:
  fixes us :: upload_store
  assumes ok: "session_ok s" and us': "us' = snd (case writeSessionJSON w s (mkdir_session uid us) of
      (Some e, us1) \<Rightarrow> (Inl e, with_dir uid None us1)
    | (None, us1) \<Rightarrow> (case register_session s us1 of (s', us2) \<Rightarrow> (Inr (f s') :: store_error + 'c, us2)))"
  shows "modifies us us' \<or> registers us us'"
proof -
  obtain r us1 where w: "writeSessionJSON w s (mkdir_session uid us) = (r, us1)" by (cases "writeSessionJSON w s (mkdir_session uid us)")
  then have t: "sessions us1 = sessions us" "nextGen us1 = nextGen us" using write_table by fastforce+
  obtain s' us2 where g: "register_session s us1 = (s', us2)" by (cases "register_session s us1")
  show ?thesis
  proof (cases r)
    case None
    then have "us' = us2" using w g by (simp add: us')
    then show ?thesis using registers_after [OF t register_registers [OF g ok]] by simp
  next
    case (Some e)
    then have "us' = with_dir uid None us1" using w by (simp add: us')
    then show ?thesis using t by (simp add: modifies_same)
  qed
qed

lemma saveNewSession_table:
  assumes "session_ok s"
  shows "modifies us (snd (saveNewSession m w s us)) \<or> registers us (snd (saveNewSession m w s us))"
  using create_table [where us = us and w = w and uid = "UploadID s" and f = "\<lambda>x. x", OF assms refl] by (simp add: saveNewSession_def)

lemma GetOrCreateSession_table:
  "modifies us (snd (GetOrCreateSession ord m w now uid fn ts cs tc ck mt us))
   \<or> registers us (snd (GetOrCreateSession ord m w now uid fn ts cs tc ck mt us))"
proof -
  note c = create_table [where us = us and w = w and uid = uid and f = "\<lambda>x. (x, False)",
    OF session_ok_newSession [of uid fn ts cs tc ck mt "sessionTTL us" now] refl]
  show ?thesis unfolding GetOrCreateSession_def Let_def
    using c by (simp split: option.split)
qed

lemma set_received_keeps: "set_received i b ck s = Some t \<Longrightarrow> keeps s t"
  by (auto simp: set_received_def keeps_def split: if_splits)

lemma clear_loop_keeps: "clear_loop js s = (r, t) \<Longrightarrow> keeps s t"
  by (induction js s rule: clear_loop.induct)
     (auto split: if_splits option.splits dest: set_received_keeps intro: keeps_trans)

lemma modifies_request: "modifies us us1 \<Longrightarrow> modifies us (request_persist uid us1)"
  by (simp add: modifies_def)

lemma publish_table: "modifies us (snd (publish f e us))"
  by (cases f)
     (auto simp: setSessionRouteIfCurrent_def setSessionStagingVolumeIfCurrent_def setSessionExternalTargetIfCurrent_def
        setSessionStorageMgrReservedIfCurrent_def setSessionTempPathIfCurrent_def publishSessionIfCurrent_def publishSession_def
        split: option.split intro!: modifies_update simp: keeps_def)

lemma collect_expired_table: "modifies us (snd (collect_expired now ks us))"
  by (induction now ks us rule: collect_expired.induct)
     (auto split: option.split prod.split intro: modifies_trans [OF modifies_remove])

lemma fold_persist_table:
  "sessions (fold (\<lambda>k. persistSession (w k) (q ! k)) ks us) = sessions us
   \<and> nextGen (fold (\<lambda>k. persistSession (w k) (q ! k)) ks us) = nextGen us"
  by (induction ks arbitrary: us) auto

lemma Stop_table: "modifies us (Stop w us)"
  using fold_persist_table [of w "persistCh us" "[0..<length (persistCh us)]"]
  by (auto simp: Stop_def Let_def intro: modifies_same)

lemma store_step_table: "modifies us (fst (store_step a (us, xs))) \<or> registers us (fst (store_step a (us, xs)))"
proof (cases a)
  case (OpCreate m w now uid fn ts cs tc ck mt)
  then show ?thesis using saveNewSession_table [OF session_ok_newSession] by (auto simp: CreateSession_def)
next
  case (OpGetOrCreate ord m w now uid fn ts cs tc ck mt)
  then show ?thesis using GetOrCreateSession_table by simp
next
  case (OpMarkBegin w uid i ck)
  then show ?thesis
    by (auto simp: MarkChunk_begin_def split: option.split prod.split bool.split intro!: modifies_same dest!: sidecar_table)
next
  case (OpMarkFinish uid i ck)
  then show ?thesis
    by (auto simp: MarkChunk_finish_def split: option.split intro!: modifies_request modifies_update set_received_keeps)
next
  case (OpClear uid js)
  then show ?thesis
    by (auto simp: ClearChunksReceived_def split: option.split prod.split intro!: modifies_request modifies_update clear_loop_keeps)
next
  case (OpBeginComplete uid)
  then show ?thesis by (auto simp: BeginComplete_def keeps_def split: option.split intro!: modifies_update)
next
  case (OpEndComplete uid)
  then show ?thesis by (auto simp: EndComplete_def keeps_def split: option.split intro!: modifies_update)
next
  case (OpComplete uid)
  then show ?thesis by (auto simp: CompleteSession_def keeps_def split: option.split intro!: modifies_request modifies_update)
next
  case (OpDelete uid)
  then show ?thesis using modifies_remove [of us uid] by (simp add: DeleteSession_def Let_def modifies_def)
next
  case (OpCollect now ord)
  then show ?thesis using collect_expired_table [of us now ord] by (auto split: prod.split)
next
  case OpExpireItem
  then show ?thesis by (auto split: list.split intro: modifies_same)
next
  case (OpCleanupIfCurrent uid e)
  then show ?thesis using modifies_remove [of us uid]
    by (auto simp: cleanupSessionIfCurrent_def modifies_def split: option.split)
next
  case (OpStop w)
  then show ?thesis using Stop_table by simp
qed (auto intro: modifies_same simp: publish_table)

section \<open>Invariant of the table\<close>

definition table_ok :: "upload_store \<Rightarrow> bool" where
  "table_ok us \<longleftrightarrow> (\<forall>k s. sessions us k = Some s \<longrightarrow> session_ok s \<and> 0 < gen s \<and> gen s \<le> nextGen us)
     \<and> (\<forall>k l s t. sessions us k = Some s \<longrightarrow> sessions us l = Some t \<longrightarrow> gen s = gen t \<longrightarrow> k = l)"

definition keyed :: "upload_store \<Rightarrow> bool" where
  "keyed us \<longleftrightarrow> (\<forall>k s. sessions us k = Some s \<longrightarrow> UploadID s = k)"

text \<open>No session of the table has generation \<open>g\<close>, and none will: it has been given out.\<close>

definition revoked :: "nat \<Rightarrow> upload_store \<Rightarrow> bool" where
  "revoked g us \<longleftrightarrow> g \<le> nextGen us \<and> (\<forall>k s. sessions us k = Some s \<longrightarrow> gen s \<noteq> g)"

lemma keeps_ok: "keeps s t \<Longrightarrow> session_ok s \<Longrightarrow> session_ok t"
  by (auto simp: keeps_def session_ok_def)

lemma modifies_ok:
  assumes "modifies us us'"
  shows "table_ok us \<Longrightarrow> table_ok us'" "keyed us \<Longrightarrow> keyed us'" "revoked g us \<Longrightarrow> revoked g us'" "nextGen us' = nextGen us"
proof -
  have m: "nextGen us' = nextGen us" "\<exists>s. sessions us k = Some s \<and> keeps s t" if "sessions us' k = Some t" for k t
    using assms that by (auto simp: modifies_def)
  have g: "nextGen us' = nextGen us" using assms by (simp add: modifies_def)
  show "nextGen us' = nextGen us" by (rule g)
  show "table_ok us'" if t: "table_ok us"
    unfolding table_ok_def
  proof (intro conjI allI impI)
    fix k s assume "sessions us' k = Some s"
    then obtain u where u: "sessions us k = Some u" "keeps u s" using m(2) by blast
    then show "session_ok s" "0 < gen s" "gen s \<le> nextGen us'"
      using t g keeps_ok by (auto simp: table_ok_def keeps_def)
  next
    fix k l s v assume a: "sessions us' k = Some s" "sessions us' l = Some v" "gen s = gen v"
    obtain u w where "sessions us k = Some u" "keeps u s" "sessions us l = Some w" "keeps w v" using a m(2) by blast
    then show "k = l" using t a(3) by (auto simp: table_ok_def keeps_def)
  qed
  show "keyed us'" if "keyed us" using that m(2) by (fastforce simp: keyed_def keeps_def)
  show "revoked g us'" if "revoked g us" using that m(2) g by (fastforce simp: revoked_def keeps_def)
qed

definition registers_as :: "string \<Rightarrow> upload_session \<Rightarrow> upload_store \<Rightarrow> upload_store \<Rightarrow> bool" where
  "registers_as k s us us' \<longleftrightarrow> nextGen us' = (nextGen us + 1) mod 18446744073709551616 \<and> gen s = nextGen us' \<and> session_ok s
     \<and> sessions us' = (sessions us)(k := Some s)"

lemma registers_as_ok:
  assumes r: "registers_as k s us us'" and b: "nextGen us + 1 < 18446744073709551616"
  shows "table_ok us \<Longrightarrow> table_ok us'" "revoked g us \<Longrightarrow> revoked g us'" "nextGen us' = nextGen us + 1"
proof -
  have s: "gen s = nextGen us'" "session_ok s" "sessions us' = (sessions us)(k := Some s)"
    using r by (simp_all add: registers_as_def)
  have g: "nextGen us' = nextGen us + 1" using r b unfolding registers_as_def by (simp only: mod_less)
  show "nextGen us' = nextGen us + 1" by (rule g)
  have old: "gen t \<le> nextGen us" if "table_ok us" "sessions us l = Some t" for l t using that by (auto simp: table_ok_def)
  show "table_ok us'" if t: "table_ok us"
    unfolding table_ok_def
  proof (intro conjI allI impI)
    fix l u assume "sessions us' l = Some u"
    then have "u = s \<or> sessions us l = Some u" using s(3) by (auto split: if_splits)
    then show "session_ok u" "0 < gen u" "gen u \<le> nextGen us'" using t g s(1,2) by (auto simp: table_ok_def intro: le_SucI)
  next
    fix l m u v assume a: "sessions us' l = Some u" "sessions us' m = Some v" "gen u = gen v"
    show "l = m"
    proof (cases "l = k \<or> m = k")
      case True
      then show ?thesis using a s(1,3) g old [OF t] by (fastforce split: if_splits)
    next
      case False
      then show ?thesis using a s(3) t by (auto simp: table_ok_def)
    qed
  qed
  show "revoked g us'" if "revoked g us" using that s(1,3) g by (auto simp: revoked_def)
qed

lemma registers_ok:
  assumes "registers us us'" and b: "nextGen us + 1 < 18446744073709551616"
  shows "table_ok us \<Longrightarrow> table_ok us'" "keyed us \<Longrightarrow> keyed us'" "revoked g us \<Longrightarrow> revoked g us'" "nextGen us' = nextGen us + 1"
proof -
  obtain s where s: "registers_as (UploadID s) s us us'" using assms(1) unfolding registers_def registers_as_def by blast
  show "table_ok us \<Longrightarrow> table_ok us'" "revoked g us \<Longrightarrow> revoked g us'" "nextGen us' = nextGen us + 1"
    using registers_as_ok [OF s b] by blast+
  show "keyed us'" if "keyed us" using that s by (auto simp: keyed_def registers_as_def)
qed

lemma store_step_ok:
  assumes "nextGen us + 1 < 18446744073709551616"
    and u: "us' = fst (store_step a (us, xs))"
  shows "(table_ok us \<longrightarrow> table_ok us') \<and> (keyed us \<longrightarrow> keyed us') \<and> (revoked g us \<longrightarrow> revoked g us') \<and> nextGen us' \<le> nextGen us + 1"
  using store_step_table [of us a xs] modifies_ok [of us us'] registers_ok [of us us', OF _ assms(1)] unfolding u by auto

lemma store_run_Cons: "store_run (a # ops) st = store_run ops (store_step a st)"
  by (simp add: store_run_def)

lemma store_run_ok:
  assumes "nextGen (fst st) + length ops < 18446744073709551616"
    and u: "us' = fst (store_run ops st)"
  shows "(table_ok (fst st) \<longrightarrow> table_ok us') \<and> (keyed (fst st) \<longrightarrow> keyed us') \<and> (revoked g (fst st) \<longrightarrow> revoked g us')"
  using assms(1) unfolding u
proof (induction ops arbitrary: st)
  case (Cons a ops)
  obtain us xs where st: "st = (us, xs)" by (cases st)
  have b: "nextGen us + 1 < 18446744073709551616" using Cons.prems st by simp
  note o = store_step_ok [OF b refl, of a xs g]
  have "nextGen (fst (store_step a st)) + length ops < 18446744073709551616" using o Cons.prems st by auto
  from Cons.IH [OF this] o show ?case using st by (simp add: store_run_Cons)
qed (simp add: store_run_def)

section \<open>Handles of sessions that are gone\<close>

lemma publish_revoked: "revoked (gen e) us \<Longrightarrow> publish f (Some e) us = (False, us)"
  by (cases f)
     (auto simp: setSessionRouteIfCurrent_def setSessionStagingVolumeIfCurrent_def setSessionExternalTargetIfCurrent_def
        setSessionStorageMgrReservedIfCurrent_def setSessionTempPathIfCurrent_def publishSessionIfCurrent_def publishSession_def
        revoked_def split: option.split)

lemma removed_revoked:
  assumes "table_ok us" "sessions us uid = Some s" "sessions us' = (sessions us)(uid := None)" "nextGen us' = nextGen us"
  shows "revoked (gen s) us'"
  using assms unfolding table_ok_def revoked_def by (metis fun_upd_apply option.discI)


definition empty_uploads :: "string \<Rightarrow> upload_store" where
  "empty_uploads root = \<lparr>sessions = (\<lambda>_. None), nextGen = 0, stopped = False, persistCh = [], sessionTTL = 100, hasStorageMgr = True,
     volTenantRoots = (\<lambda>_. None), ownRoot = root, dirs = (\<lambda>_. None), disk = (\<lambda>_. None), calls = []\<rparr>"

definition sample_store :: upload_store where
  "sample_store = snd (CreateSession True IoOk 0 ''u1'' ''d/f.bin'' 10 4 3 (replicate 64 (CHR ''a'')) 0 (empty_uploads ''/t''))"

lemma sample_store_table:
  "sessions sample_store = (\<lambda>_. None)(''u1'' := Some sample_session) \<and> nextGen sample_store = 1"
  by (simp add: sample_store_def empty_uploads_def CreateSession_def saveNewSession_def mkdir_session_def writeSessionJSON_def
      register_session_def nextGenLocked_def with_session_def with_dir_def newSession_def sample_session_def Let_def numeral_2_eq_2 numeral_3_eq_3)

lemma sample_store_ok: "table_ok sample_store"
  using sample_store_table by (auto simp: table_ok_def session_ok_def sample_session_def split: if_splits)


section \<open>What the store deletes\<close>

text \<open>The ids under which a step may remove files.\<close>

fun deletes :: "store_op \<Rightarrow> run_state \<Rightarrow> string set" where
  "deletes (OpDelete uid) st = {uid}"
| "deletes (OpCleanupIfCurrent uid e) st = {uid}"
| "deletes OpExpireItem st = (case snd st of [] \<Rightarrow> {} | y # ys \<Rightarrow> {fst y})"
| "deletes _ st = {}"

lemma same_disk [simp]:
  "disk (with_dir uid d us) = disk us" "disk (with_session uid so us) = disk us"
  "disk (mkdir_session uid us) = disk us" "disk (request_persist uid us) = disk us"
  "disk (releaseSessionReservations so us) = disk us" "disk (release_expired x us) = disk us"
  by (auto simp: with_dir_def with_session_def mkdir_session_def request_persist_def releaseSessionReservations_def release_expired_def Let_def
      split: option.split)

lemma write_disk: "writeSessionJSON w s us = (r, us') \<Longrightarrow> disk us' = disk us"
  by (auto simp: writeSessionJSON_def split: option.splits io.splits)

lemma sidecar_disk: "persistChunkChecksum b uid i ck us = (r, us') \<Longrightarrow> disk us' = disk us"
  by (auto simp: persistChunkChecksum_def split: option.splits if_splits)

lemma register_disk: "register_session s us = (t, us') \<Longrightarrow> disk us' = disk us"
  by (auto simp: register_session_def nextGenLocked_def Let_def)

lemma persistSession_disk [simp]: "disk (persistSession w uid us) = disk us"
  by (auto simp: persistSession_def split: option.split) (metis prod.collapse write_disk)

lemma publish_disk [simp]: "disk (snd (publish f e us)) = disk us"
  by (cases f)
     (auto simp: setSessionRouteIfCurrent_def setSessionStagingVolumeIfCurrent_def setSessionExternalTargetIfCurrent_def
        setSessionStorageMgrReservedIfCurrent_def setSessionTempPathIfCurrent_def publishSessionIfCurrent_def publishSession_def
        split: option.split)

lemma collect_expired_disk [simp]: "disk (snd (collect_expired now ks us)) = disk us"
  by (induction now ks us rule: collect_expired.induct) (auto split: option.split prod.split)

lemma fold_persist_disk: "disk (fold (\<lambda>k. persistSession (w k) (q ! k)) ks us) = disk us"
  by (induction ks arbitrary: us) auto

lemma deleteSessionArtifactsAt_disk:
  "disk (deleteSessionArtifactsAt uid temp us) t = disk us t
   \<or> disk (deleteSessionArtifactsAt uid temp us) t = None \<and> IsInflightTempNameFor (base_name t) uid"
  by (auto simp: deleteSessionArtifactsAt_def Let_def split: option.split)

lemma deleteSessionArtifacts_disk:
  "disk (deleteSessionArtifacts uid so us) t = disk us t
   \<or> disk (deleteSessionArtifacts uid so us) t = None \<and> IsInflightTempNameFor (base_name t) uid"
  unfolding deleteSessionArtifacts_def by (rule deleteSessionArtifactsAt_disk)

lemma create_disk:
  "disk (snd (case writeSessionJSON w s (mkdir_session uid us) of
      (Some e, us1) \<Rightarrow> (Inl e, with_dir uid None us1)
    | (None, us1) \<Rightarrow> (case register_session s us1 of (s', us2) \<Rightarrow> (Inr (f s') :: store_error + 'c, us2)))) = disk us"
proof -
  obtain r us1 where w: "writeSessionJSON w s (mkdir_session uid us) = (r, us1)" by (cases "writeSessionJSON w s (mkdir_session uid us)")
  obtain s' us2 where g: "register_session s us1 = (s', us2)" by (cases "register_session s us1")
  show ?thesis using w g write_disk [OF w] register_disk [OF g] by (cases r) auto
qed

lemma saveNewSession_disk: "disk (snd (saveNewSession m w s us)) = disk us"
  using create_disk [where w = w and s = s and uid = "UploadID s" and us = us and f = "\<lambda>x. x"] by (simp add: saveNewSession_def)

lemma store_step_disk:
  "disk (fst (store_step a st)) t = disk (fst st) t
   \<or> disk (fst (store_step a st)) t = None \<and> (\<exists>u \<in> deletes a st. IsInflightTempNameFor (base_name t) u)"
proof -
  obtain us xs where st: "st = (us, xs)" by (cases st)
  show ?thesis
  proof (cases a)
    case (OpCreate m w now uid fn ts cs tc ck mt)
    then show ?thesis by (simp add: st CreateSession_def saveNewSession_disk)
  next
    case (OpGetOrCreate ord m w now uid fn ts cs tc ck mt)
    note c = create_disk [where w = w and s = "newSession uid fn ts cs tc ck mt (sessionTTL us) now" and uid = uid and us = us
      and f = "\<lambda>x. (x, False)"]
    have "disk (snd (GetOrCreateSession ord m w now uid fn ts cs tc ck mt us)) = disk us"
      unfolding GetOrCreateSession_def Let_def using c by (simp split: option.split)
    then show ?thesis using OpGetOrCreate st by simp
  next
    case (OpMarkBegin w uid i ck)
    then show ?thesis
      by (auto simp: st MarkChunk_begin_def split: option.split prod.split bool.split dest!: sidecar_disk)
  next
    case (OpDelete uid)
    then show ?thesis using deleteSessionArtifacts_disk [of uid] by (simp add: st DeleteSession_def Let_def) (metis same_disk(2,5))
  next
    case (OpCollect now ord)
    have "disk us1 = disk us" if "collect_expired now ord us = (ys, us1)" for ys us1
      using that collect_expired_disk [of now ord us] by (metis snd_conv)
    then show ?thesis by (auto simp: OpCollect st split: prod.split)
  next
    case OpExpireItem
    show ?thesis
    proof (cases xs)
      case (Cons y ys)
      show ?thesis
        using deleteSessionArtifactsAt_disk [of "fst y" "tempAbsPath (release_expired (snd y) us) (Some (snd y))" "release_expired (snd y) us" t]
        by (auto simp: OpExpireItem st Cons expire_item_def cleanupExpiredArtifacts_def Let_def split: option.split)
    qed (simp add: OpExpireItem st)
  next
    case (OpCleanupIfCurrent uid e)
    then show ?thesis using deleteSessionArtifactsAt_disk [of uid _ _ t]
      by (simp add: st cleanupSessionIfCurrent_def split: option.split) (metis same_disk(2))
  next
    case (OpPersistNow w uid)
    then show ?thesis by (auto simp: st PersistNow_def split: option.split) (metis prod.collapse write_disk)
  next
    case (OpPersistIfCurrent w e)
    then show ?thesis by (auto simp: st PersistNowIfCurrent_def split: option.split) (metis prod.collapse write_disk)+
  next
    case (OpStop w)
    then show ?thesis by (simp add: st Stop_def Let_def fold_persist_disk)
  qed (auto simp: st MarkChunk_finish_def ClearChunksReceived_def BeginComplete_def EndComplete_def CompleteSession_def persist_step_def
      split: option.split prod.split)
qed

lemma store_run_disk: "\<not> IsInflightTempName (base_name t) \<Longrightarrow> disk (fst (store_run ops st)) t = disk (fst st) t"
proof (induction ops arbitrary: st)
  case (Cons a ops)
  have "disk (fst (store_step a st)) t = disk (fst st) t"
    using store_step_disk [of a st t] Cons.prems by (auto simp: IsInflightTempName_def IsInflightTempNameFor_def split: if_splits)
  then show ?case using Cons by (simp add: store_run_Cons)
qed (simp add: store_run_def)



section \<open>A mark that meets another session\<close>

text \<open>
  \<open>MarkChunkReceived\<close> checks the index, leaves the mutex to write the checksum file, and then uses the index on whatever session the
  id has by then. If the session expired and the id was taken over by a session of fewer chunks, the index is out of range
  while the mutex is held without a deferred unlock.
\<close>

lemma mark_after_takeover_panics:
  "\<exists>us1 us2 xs. MarkChunk_begin True ''u1'' 2 ck sample_store = (None, us1)
     \<and> store_run [OpCollect 200 [''u1''], OpExpireItem, OpGetOrCreate [] True IoOk 200 ''u1'' ''g'' 3 4 1 (replicate 64 (CHR ''b'')) 0] (us1, [])
         = (us2, xs)
     \<and> dirs us2 ''u1'' \<noteq> None \<and> fst (MarkChunk_finish ''u1'' 2 ck us2) = Some IndexPanic"
  by (simp add: sample_store_def empty_uploads_def CreateSession_def saveNewSession_def mkdir_session_def writeSessionJSON_def
      register_session_def nextGenLocked_def with_session_def with_dir_def newSession_def Let_def MarkChunk_begin_def persistChunkChecksum_def
      store_run_def expire_item_def release_expired_def cleanupExpiredArtifacts_def deleteSessionArtifactsAt_def tempAbsPath_def HasPrefix_def
      GetOrCreateSession_def MarkChunk_finish_def set_received_def)

end
