(* ===== verification/Upload_Recover.thy ===== *)
theory Upload_Recover
  imports Upload_Store
begin

text \<open>
  Restart of the upload store (\<open>NewUploadStore\<close>, \<open>recoverSessions\<close>, \<open>restoreSession\<close>, \<open>pkg/files/chunked_store.go\<close>): the
  session directories are read, the checksum of every acknowledged chunk is taken from its own file, and the bytes in flight are
  hashed chunk by chunk against these checksums. A file that cannot be opened is an absent one; reading an opened file does not fail.
  The directory entries are a parameter, in the order \<open>os.ReadDir\<close> lists them.
\<close>

section \<open>Checksum files\<close>

definition grow :: "int \<Rightarrow> 'a \<Rightarrow> 'a list \<Rightarrow> 'a list" where
  "grow n z l = (if int (length l) < n then l @ replicate (nat n - length l) z else l)"

text \<open>The contents of the checksum file of a chunk, if there is one that is not blank.\<close>

definition dir_sum :: "session_dir \<Rightarrow> int \<Rightarrow> string option" where
  "dir_sum d i = (case sidecars d i of None \<Rightarrow> None
     | Some b \<Rightarrow> if TrimSpace b \<noteq> [] then Some (TrimSpace b) else None)"

definition sidecar_sum :: "upload_store \<Rightarrow> string \<Rightarrow> int \<Rightarrow> string option" where
  "sidecar_sum us uid i = (case dirs us uid of None \<Rightarrow> None | Some d \<Rightarrow> dir_sum d i)"

definition load_step :: "upload_store \<Rightarrow> nat \<Rightarrow> upload_session \<Rightarrow> upload_session" where
  "load_step us i s =
     (case sidecar_sum us (UploadID s) (int i) of
        None \<Rightarrow> s
      | Some c \<Rightarrow> s\<lparr>ChunkChecksums := (ChunkChecksums s)[i := c], ReceivedChunks := (ReceivedChunks s)[i := True]\<rparr>)"

definition loadChunkChecksumSidecars :: "upload_store \<Rightarrow> upload_session \<Rightarrow> upload_session" where
  "loadChunkChecksumSidecars us s =
     (if TotalChunks s \<le> 0 then s
      else fold (load_step us) [0..<nat (TotalChunks s)]
             (s\<lparr>ChunkChecksums := grow (TotalChunks s) [] (ChunkChecksums s),
                ReceivedChunks := grow (TotalChunks s) False (ReceivedChunks s)\<rparr>))"

section \<open>Verification of the bytes in flight\<close>

text \<open>\<open>None\<close> is the error of a seek to a negative offset; a limit that is not positive reads nothing.\<close>

definition verifyChunkChecksum :: "digest \<Rightarrow> octets \<Rightarrow> int \<Rightarrow> int \<Rightarrow> string \<Rightarrow> bool option" where
  "verifyChunkChecksum H f offset len want =
     (if offset < 0 then None else Some (H (take (nat len) (drop (nat offset) f)) = want))"

definition verify_step :: "digest \<Rightarrow> octets \<Rightarrow> nat \<Rightarrow> upload_session \<Rightarrow> upload_session" where
  "verify_step H f i s =
     (let offset = chunk_offset s (int i);
          want = ChunkChecksums s ! i;
          remaining = wrap64 (TotalSize s - offset);
          len = (if remaining < ChunkSize s then remaining else ChunkSize s)
      in if want = [] then s\<lparr>ReceivedChunks := (ReceivedChunks s)[i := False]\<rparr>
         else case verifyChunkChecksum H f offset len want of
                None \<Rightarrow> s\<lparr>ReceivedChunks := (ReceivedChunks s)[i := False]\<rparr>
              | Some ok \<Rightarrow> if \<not> ok then s\<lparr>ReceivedChunks := (ReceivedChunks s)[i := False]\<rparr> else s)"

definition clear_received :: "upload_session \<Rightarrow> upload_session" where
  "clear_received s = s\<lparr>ReceivedChunks := replicate (length (ReceivedChunks s)) False\<rparr>"

definition temp_file :: "upload_store \<Rightarrow> upload_session \<Rightarrow> octets option" where
  "temp_file us s = (case tempAbsPath us (Some s) of None \<Rightarrow> None | Some p \<Rightarrow> disk us p)"

definition verifyTempChunks :: "digest \<Rightarrow> upload_store \<Rightarrow> upload_session \<Rightarrow> upload_session" where
  "verifyTempChunks H us s =
     (case tempAbsPath us (Some s) of
        None \<Rightarrow> clear_received s
      | Some p \<Rightarrow>
          (case disk us p of
             None \<Rightarrow> clear_received s
           | Some f \<Rightarrow> fold (verify_step H f) [0..<nat (TotalChunks s)] s))"

section \<open>Restoring\<close>

definition register_as :: "string \<Rightarrow> upload_session \<Rightarrow> upload_store \<Rightarrow> upload_store" where
  "register_as uid s us = (case nextGenLocked us of (g, us') \<Rightarrow> with_session uid (Some (s\<lparr>gen := g\<rparr>)) us')"

definition restoreSession :: "digest \<Rightarrow> int \<Rightarrow> string \<Rightarrow> json_file \<Rightarrow> upload_store \<Rightarrow> upload_store" where
  "restoreSession H now uid data us =
     (case data of
        Json j \<Rightarrow>
          let s = persisted j in
          if ExpiresAt s < now then deleteSessionArtifacts uid (Some s) us
          else if Completed s then register_as uid s us
          else let s1 = loadChunkChecksumSidecars us s;
                   s2 = (if TempPath s1 \<noteq> [] then verifyTempChunks H us s1 else s1)
               in register_as uid s2 us
      | _ \<Rightarrow> deleteSessionArtifacts uid None us)"

definition recover_entry :: "digest \<Rightarrow> int \<Rightarrow> string \<Rightarrow> upload_store \<Rightarrow> upload_store" where
  "recover_entry H now uid us =
     (case dirs us uid of
        None \<Rightarrow> us
      | Some d \<Rightarrow> (case json d of
                     NoJson \<Rightarrow> deleteSessionArtifacts uid None us
                   | data \<Rightarrow> restoreSession H now uid data us))"

definition recoverSessions :: "digest \<Rightarrow> int \<Rightarrow> string list \<Rightarrow> upload_store \<Rightarrow> upload_store" where
  "recoverSessions H now entries us = fold (recover_entry H now) entries us"

text \<open>
  A new process: the table is empty, the directories and files are those the last one left. A volume without a name or a root is not
  registered, and a time to live of zero is a day; times are in nanoseconds.
\<close>

definition NewUploadStore :: "digest \<Rightarrow> int \<Rightarrow> int \<Rightarrow> string \<Rightarrow> (string \<times> string) list \<Rightarrow> string list
    \<Rightarrow> (string \<Rightarrow> session_dir option) \<Rightarrow> (string \<Rightarrow> octets option) \<Rightarrow> upload_store" where
  "NewUploadStore H now ttl root volumeRoots entries ds fs =
     (let us0 = \<lparr>sessions = (\<lambda>_. None), nextGen = 0, stopped = False, persistCh = [],
                 sessionTTL = (if ttl = 0 then 24 * 3600 * 1000000000 else ttl), hasStorageMgr = False,
                 volTenantRoots = (\<lambda>_. None), ownRoot = root, dirs = ds, disk = fs, calls = []\<rparr>
      in recoverSessions H now entries (fold (\<lambda>(v, r). SetVolumeTenantRoot v r) volumeRoots us0))"

section \<open>The loops in closed form\<close>

lemma length_grow: "length (grow n z l) = max (length l) (nat n)"
  by (auto simp: grow_def)

lemma map_upt_update: "i < n \<Longrightarrow> (map f [0..<n])[i := v] = map (f(i := v)) [0..<n]"
  by (rule nth_equalityI) (auto simp: nth_list_update)

lemma list_as_map: "l = map ((!) l) [0..<length l]"
  by (simp add: map_nth)

lemma load_fold:
  assumes "n \<le> length (ReceivedChunks s)" "n \<le> length (ChunkChecksums s)"
  shows "fold (load_step us) [0..<n] s = s\<lparr>
      ReceivedChunks := map (\<lambda>i. if i < n \<and> sidecar_sum us (UploadID s) (int i) \<noteq> None then True else ReceivedChunks s ! i)
        [0..<length (ReceivedChunks s)],
      ChunkChecksums := map (\<lambda>i. case (if i < n then sidecar_sum us (UploadID s) (int i) else None) of
          Some c \<Rightarrow> c | None \<Rightarrow> ChunkChecksums s ! i) [0..<length (ChunkChecksums s)]\<rparr>"
  using assms
proof (induction n)
  case 0
  then show ?case by (simp add: map_nth)
next
  case (Suc n)
  let ?R = "\<lambda>n i. if i < n \<and> sidecar_sum us (UploadID s) (int i) \<noteq> None then True else ReceivedChunks s ! i"
  let ?C = "\<lambda>n i. case (if i < n then sidecar_sum us (UploadID s) (int i) else None) of Some c \<Rightarrow> c | None \<Rightarrow> ChunkChecksums s ! i"
  have f: "fold (load_step us) [0..<n] s = s\<lparr>ReceivedChunks := map (?R n) [0..<length (ReceivedChunks s)],
      ChunkChecksums := map (?C n) [0..<length (ChunkChecksums s)]\<rparr>" using Suc by simp
  show ?case
  proof (cases "sidecar_sum us (UploadID s) (int n)")
    case None
    have r: "?R n = ?R (Suc n)" "?C n = ?C (Suc n)" using None by (auto simp: fun_eq_iff less_Suc_eq split: option.split)
    have "fold (load_step us) [0..<Suc n] s = load_step us n (fold (load_step us) [0..<n] s)" by simp
    also have "\<dots> = s\<lparr>ReceivedChunks := map (?R n) [0..<length (ReceivedChunks s)],
        ChunkChecksums := map (?C n) [0..<length (ChunkChecksums s)]\<rparr>"
      unfolding f using None by (simp add: load_step_def)
    finally show ?thesis unfolding r .
  next
    case (Some c)
    have r: "(?R n)(n := True) = ?R (Suc n)" "(?C n)(n := c) = ?C (Suc n)"
      using Some by (auto simp: fun_eq_iff less_Suc_eq split: option.split)
    have "fold (load_step us) [0..<Suc n] s = load_step us n (fold (load_step us) [0..<n] s)" by simp
    also have "\<dots> = s\<lparr>ReceivedChunks := map ((?R n)(n := True)) [0..<length (ReceivedChunks s)],
        ChunkChecksums := map ((?C n)(n := c)) [0..<length (ChunkChecksums s)]\<rparr>"
      unfolding f using Some Suc.prems by (simp add: load_step_def map_upt_update del: fun_upd_apply)
    finally show ?thesis unfolding r .
  qed
qed

text \<open>The length the verification reads is the length the writer wrote, and the chunk verifies if its bytes hash to the checksum.\<close>

definition verified :: "digest \<Rightarrow> octets \<Rightarrow> upload_session \<Rightarrow> nat \<Rightarrow> bool" where
  "verified H f s i \<longleftrightarrow> ChunkChecksums s ! i \<noteq> [] \<and>
     (let offset = chunk_offset s (int i); remaining = wrap64 (TotalSize s - offset);
          len = (if remaining < ChunkSize s then remaining else ChunkSize s)
      in verifyChunkChecksum H f offset len (ChunkChecksums s ! i) = Some True)"

lemma verify_step_eq: "i < length (ReceivedChunks s) \<Longrightarrow>
    verify_step H f i s = s\<lparr>ReceivedChunks := (ReceivedChunks s)[i := ReceivedChunks s ! i \<and> verified H f s i]\<rparr>"
  by (auto simp: verify_step_def verified_def Let_def verifyChunkChecksum_def)

lemma verified_received [simp]: "verified H f (s\<lparr>ReceivedChunks := r\<rparr>) i = verified H f s i"
  by (simp add: verified_def chunk_offset_def)

lemma verify_fold:
  assumes "n \<le> length (ReceivedChunks s)"
  shows "fold (verify_step H f) [0..<n] s = s\<lparr>ReceivedChunks :=
      map (\<lambda>i. ReceivedChunks s ! i \<and> (i < n \<longrightarrow> verified H f s i)) [0..<length (ReceivedChunks s)]\<rparr>"
  using assms
proof (induction n)
  case 0
  then show ?case by (simp add: map_nth)
next
  case (Suc n)
  let ?R = "\<lambda>n i. ReceivedChunks s ! i \<and> (i < n \<longrightarrow> verified H f s i)"
  have r: "(?R n)(n := ?R n n \<and> verified H f s n) = ?R (Suc n)" by (auto simp: fun_eq_iff less_Suc_eq)
  have "fold (verify_step H f) [0..<Suc n] s = verify_step H f n (fold (verify_step H f) [0..<n] s)" by simp
  also have "\<dots> = s\<lparr>ReceivedChunks := map ((?R n)(n := ?R n n \<and> verified H f s n)) [0..<length (ReceivedChunks s)]\<rparr>"
    using Suc by (simp add: verify_step_eq map_upt_update del: fun_upd_apply)
  finally show ?case unfolding r .
qed

section \<open>One entry\<close>

definition restored :: "digest \<Rightarrow> upload_store \<Rightarrow> upload_session \<Rightarrow> upload_session" where
  "restored H us j =
     (let s1 = loadChunkChecksumSidecars us (persisted j)
      in if TempPath s1 \<noteq> [] then verifyTempChunks H us s1 else s1)"

lemma load_fields:
  "UploadID (loadChunkChecksumSidecars us s) = UploadID s" "TotalChunks (loadChunkChecksumSidecars us s) = TotalChunks s"
  "TotalSize (loadChunkChecksumSidecars us s) = TotalSize s" "ChunkSize (loadChunkChecksumSidecars us s) = ChunkSize s"
  "TempPath (loadChunkChecksumSidecars us s) = TempPath s" "Volume (loadChunkChecksumSidecars us s) = Volume s"
  "StagingVolume (loadChunkChecksumSidecars us s) = StagingVolume s" "Completed (loadChunkChecksumSidecars us s) = Completed s"
  "length (ReceivedChunks (loadChunkChecksumSidecars us s)) = max (length (ReceivedChunks s)) (nat (TotalChunks s))"
  "length (ChunkChecksums (loadChunkChecksumSidecars us s)) = max (length (ChunkChecksums s)) (nat (TotalChunks s))"
  by (auto simp: loadChunkChecksumSidecars_def load_fold length_grow)

lemma load_nth:
  assumes "i < nat (TotalChunks s)"
  shows "ReceivedChunks (loadChunkChecksumSidecars us s) ! i \<longleftrightarrow>
      sidecar_sum us (UploadID s) (int i) \<noteq> None \<or> i < length (ReceivedChunks s) \<and> ReceivedChunks s ! i"
    "ChunkChecksums (loadChunkChecksumSidecars us s) ! i =
      (case sidecar_sum us (UploadID s) (int i) of Some c \<Rightarrow> c
       | None \<Rightarrow> if i < length (ChunkChecksums s) then ChunkChecksums s ! i else [])"
  using assms by (auto simp: loadChunkChecksumSidecars_def load_fold length_grow grow_def nth_append split: option.split)

lemma tempAbsPath_fields:
  "TempPath t = TempPath s \<Longrightarrow> Volume t = Volume s \<Longrightarrow> StagingVolume t = StagingVolume s \<Longrightarrow> tempAbsPath us (Some t) = tempAbsPath us (Some s)"
  by (simp add: tempAbsPath_def tenantRootForStaging_def)

lemma verifyTempChunks_eq:
  assumes "nat (TotalChunks s) \<le> length (ReceivedChunks s)"
  shows "verifyTempChunks H us s = s\<lparr>ReceivedChunks :=
      map (\<lambda>i. case temp_file us s of None \<Rightarrow> False
        | Some f \<Rightarrow> ReceivedChunks s ! i \<and> (i < nat (TotalChunks s) \<longrightarrow> verified H f s i)) [0..<length (ReceivedChunks s)]\<rparr>"
  using assms by (auto simp: verifyTempChunks_def temp_file_def clear_received_def verify_fold map_replicate_const split: option.split)

lemma session_ok_restored: "session_ok (restored H us j)"
proof -
  have "nat (TotalChunks s) \<le> length (ReceivedChunks (loadChunkChecksumSidecars us s))" for s by (simp add: load_fields)
  then show ?thesis by (auto simp: restored_def Let_def session_ok_def verifyTempChunks_eq load_fields)
qed

lemma recover_entry_cases:
  obtains (keep) so where "recover_entry H now uid us = us \<or> recover_entry H now uid us = deleteSessionArtifacts uid so us"
  | (completed) d j where "dirs us uid = Some d" "json d = Json j" "\<not> ExpiresAt j < now" "Completed j"
      "recover_entry H now uid us = register_as uid (persisted j) us"
  | (active) d j where "dirs us uid = Some d" "json d = Json j" "\<not> ExpiresAt j < now" "\<not> Completed j"
      "recover_entry H now uid us = register_as uid (restored H us j) us"
proof (cases "dirs us uid")
  case None
  then show ?thesis by (intro keep) (simp add: recover_entry_def)
next
  case (Some d)
  show ?thesis
  proof (cases "json d")
    case (Json j)
    have p: "ExpiresAt (persisted j) = ExpiresAt j" "Completed (persisted j) = Completed j" by (simp_all add: persisted_def)
    consider "ExpiresAt j < now" | "\<not> ExpiresAt j < now" "Completed j" | "\<not> ExpiresAt j < now" "\<not> Completed j" by blast
    then show ?thesis
    proof cases
      case 1
      then show ?thesis by (intro keep [of "Some (persisted j)"]) (simp add: recover_entry_def restoreSession_def Some Json p Let_def)
    next
      case 2
      then show ?thesis by (intro completed [OF Some Json]) (simp_all add: recover_entry_def restoreSession_def Some Json p Let_def)
    next
      case 3
      then show ?thesis
        by (intro active [OF Some Json]) (simp_all add: recover_entry_def restoreSession_def Some Json p Let_def restored_def)
    qed
  qed (auto intro!: keep [of None] simp: recover_entry_def restoreSession_def Some)
qed

lemma register_as_table: "session_ok s \<Longrightarrow> registers_as k (s\<lparr>gen := nextGen (register_as k s us)\<rparr>) us (register_as k s us)"
  by (auto simp: registers_as_def register_as_def nextGenLocked_def with_session_def Let_def session_ok_def)

lemma recover_entry_ok:
  assumes b: "nextGen us + 1 < 18446744073709551616" and ok: "table_ok us"
  shows "table_ok (recover_entry H now uid us) \<and> nextGen (recover_entry H now uid us) \<le> nextGen us + 1"
proof (cases rule: recover_entry_cases [of H now uid us])
  case (keep so)
  then show ?thesis using ok by (auto simp: table_ok_def)
next
  case (completed d j)
  have "session_ok (persisted j)" using completed by (simp add: session_ok_def persisted_def)
  then show ?thesis using registers_as_ok [OF register_as_table b] ok completed by fastforce
next
  case (active d j)
  then show ?thesis using registers_as_ok [OF register_as_table [OF session_ok_restored] b] ok by fastforce
qed

lemma recoverSessions_ok:
  "nextGen us + length entries < 18446744073709551616 \<Longrightarrow> table_ok us
   \<Longrightarrow> table_ok (recoverSessions H now entries us) \<and> nextGen (recoverSessions H now entries us) \<le> nextGen us + length entries"
proof (induction entries arbitrary: us)
  case (Cons k ks)
  have b: "nextGen us + 1 < 18446744073709551616" using Cons.prems by simp
  note e = recover_entry_ok [OF b Cons.prems(2), of H now k]
  have "nextGen (recover_entry H now k us) + length ks < 18446744073709551616" using e Cons.prems(1) by simp
  from Cons.IH [OF this] e show ?case by (simp add: recoverSessions_def)
qed (simp add: recoverSessions_def)

lemma volume_roots_table:
  "sessions (fold (\<lambda>(v, r). SetVolumeTenantRoot v r) vs us) = sessions us \<and> nextGen (fold (\<lambda>(v, r). SetVolumeTenantRoot v r) vs us) = nextGen us
   \<and> dirs (fold (\<lambda>(v, r). SetVolumeTenantRoot v r) vs us) = dirs us \<and> disk (fold (\<lambda>(v, r). SetVolumeTenantRoot v r) vs us) = disk us
   \<and> ownRoot (fold (\<lambda>(v, r). SetVolumeTenantRoot v r) vs us) = ownRoot us"
  by (induction vs arbitrary: us) (auto simp: SetVolumeTenantRoot_def)

lemma set_received_in_range:
  "session_ok s \<Longrightarrow> \<not> Completed s \<Longrightarrow> 0 \<le> i \<Longrightarrow> i < TotalChunks s \<Longrightarrow> set_received i v c s \<noteq> None"
  by (auto simp: session_ok_def set_received_def)

lemma clear_loop_no_panic: "session_ok s \<Longrightarrow> \<not> Completed s \<Longrightarrow> fst (clear_loop js s) \<noteq> Some IndexPanic"
proof (induction js s rule: clear_loop.induct)
  case (2 i js u)
  show ?case
  proof (cases "i < 0 \<or> TotalChunks u \<le> i")
    case False
    then obtain u' where u': "set_received i False [] u = Some u'" using set_received_in_range [of u i False "[]"] 2 by force
    then have "session_ok u'" "\<not> Completed u'"
      using 2 keeps_ok [OF set_received_keeps [OF u']] by (auto simp: set_received_def split: if_splits)
    then show ?thesis using 2 False u' by simp
  qed simp
qed simp

lemma Clear_no_panic:
  assumes "sessions us k = Some s" "session_ok s" "\<not> Completed s"
  shows "fst (ClearChunksReceived k js us) \<noteq> Some IndexPanic"
  using assms clear_loop_no_panic [of s "sort js"] by (auto simp: ClearChunksReceived_def split: prod.split option.split)

lemma Mark_no_panic:
  assumes "sessions us k = Some s" "session_ok s" "\<not> Completed s"
  shows "fst (MarkChunkReceived w k i ck us) \<noteq> Some IndexPanic"
proof (cases "i < 0 \<or> TotalChunks s \<le> i")
  case False
  obtain r us1 where p: "persistChunkChecksum w k i ck us = (r, us1)" by (cases "persistChunkChecksum w k i ck us")
  obtain t where t: "set_received i True ck s = Some t" using set_received_in_range [OF assms(2,3), of i True ck] False by force
  show ?thesis using False assms(1) p t sidecar_table [OF p]
    by (cases r) (simp_all add: MarkChunkReceived_def MarkChunk_begin_def MarkChunk_finish_def)
qed (use assms in \<open>auto simp: MarkChunkReceived_def MarkChunk_begin_def\<close>)


definition short_session :: upload_session where
  "short_session = sample_session\<lparr>ReceivedChunks := [], ChunkChecksums := [], TempPath := ''user/x''\<rparr>"


section \<open>What a restart finds\<close>

lemma verified_chunk:
  assumes "plan_ok s" "i < nat (TotalChunks s)"
  shows "verified H f s i \<longleftrightarrow> ChunkChecksums s ! i \<noteq> [] \<and> H (chunk_data s f (int i)) = ChunkChecksums s ! i"
proof -
  let ?o = "chunk_offset s (int i)"
  let ?r = "wrap64 (TotalSize s - ?o)"
  have i: "int i < TotalChunks s" using assms(2) by simp
  note p = plan_okD [OF assms(1)]
  have o: "?o = int i * ChunkSize s" "0 \<le> ?o" using chunk_offset_eq [OF assms(1), of "int i"] i p(2) by auto
  have "?o \<le> max_int64"
    unfolding chunk_offset_def using wrap64_in64 [of "int i * ChunkSize s"] by (simp add: in64_def)
  then have r: "?r = TotalSize s - ?o" using o(2) p(1) assms(1) by (intro wrap64_id) (auto simp: in64_def plan_ok_def)
  have "nat (if ?r < ChunkSize s then ?r else ChunkSize s) = nat (chunkLenAt s (int i))"
    using chunkLenAt_eq [OF assms(1) _ i] r o(1) p(2) by auto
  then show ?thesis using o(2) by (auto simp: verified_def verifyChunkChecksum_def chunk_data_def Let_def)
qed

lemma tempAbsPath_roots:
  "ownRoot us' = ownRoot us \<Longrightarrow> volTenantRoots us' = volTenantRoots us \<Longrightarrow> tempAbsPath us' so = tempAbsPath us so"
proof -
  assume r: "ownRoot us' = ownRoot us" "volTenantRoots us' = volTenantRoots us"
  have "tenantRootFor us' v = tenantRootFor us v" for v unfolding tenantRootFor_def r by (rule refl)
  then have "tenantRootForStaging us' so = tenantRootForStaging us so" by (cases so) (simp_all add: tenantRootForStaging_def)
  then show ?thesis by (cases so) (simp_all add: tempAbsPath_def)
qed

lemma delete_artifacts_other:
  assumes "k \<noteq> uid"
  shows "dirs (deleteSessionArtifacts k so us) uid = dirs us uid"
    "inflightTempID (base_name p) = Some uid \<Longrightarrow> disk (deleteSessionArtifacts k so us) p = disk us p"
    "ownRoot (deleteSessionArtifacts k so us) = ownRoot us" "volTenantRoots (deleteSessionArtifacts k so us) = volTenantRoots us"
  using assms by (auto simp: deleteSessionArtifacts_def deleteSessionArtifactsAt_def IsInflightTempNameFor_def with_dir_def Let_def split: option.split)

lemma register_as_fields [simp]:
  "dirs (register_as k s us) = dirs us" "disk (register_as k s us) = disk us" "ownRoot (register_as k s us) = ownRoot us"
  "volTenantRoots (register_as k s us) = volTenantRoots us" "sessions (register_as k s us) = (sessions us)(k := Some (s\<lparr>gen := nextGen (register_as k s us)\<rparr>))"
  by (simp_all add: register_as_def nextGenLocked_def with_session_def Let_def)

definition same_upload :: "string \<Rightarrow> upload_store \<Rightarrow> upload_store \<Rightarrow> bool" where
  "same_upload uid us us' \<longleftrightarrow> sessions us' uid = sessions us uid \<and> dirs us' uid = dirs us uid
     \<and> (\<forall>p. inflightTempID (base_name p) = Some uid \<longrightarrow> disk us' p = disk us p)
     \<and> ownRoot us' = ownRoot us \<and> volTenantRoots us' = volTenantRoots us"

lemma recover_entry_other: "k \<noteq> uid \<Longrightarrow> same_upload uid us (recover_entry H now k us)"
  by (cases rule: recover_entry_cases [of H now k us]) (auto simp: same_upload_def delete_artifacts_other)

lemma recoverSessions_other: "uid \<notin> set ks \<Longrightarrow> same_upload uid us (recoverSessions H now ks us)"
proof (induction ks arbitrary: us)
  case (Cons k ks)
  then have "same_upload uid us (recover_entry H now k us)"
    "same_upload uid (recover_entry H now k us) (recoverSessions H now ks (recover_entry H now k us))"
    using recover_entry_other by auto
  then show ?case by (auto simp: same_upload_def recoverSessions_def)
qed (simp add: same_upload_def recoverSessions_def)

lemma recoverSessions_restored:
  assumes e: "distinct entries" "uid \<in> set entries" and d: "dirs us uid = Some d" "json d = Json j"
    and j: "\<not> ExpiresAt j < now" "\<not> Completed j"
  obtains us1 s where "same_upload uid us us1" "sessions (recoverSessions H now entries us) uid = Some s"
    "ReceivedChunks s = ReceivedChunks (restored H us1 j)" "ChunkChecksums s = ChunkChecksums (restored H us1 j)"
proof -
  obtain xs ys where split: "entries = xs @ uid # ys" "uid \<notin> set xs" "uid \<notin> set ys"
    using e by (metis (full_types) disjoint_iff distinct_append in_set_conv_decomp_first list.set_intros(1) distinct.simps(2))
  let ?u1 = "recoverSessions H now xs us"
  let ?u2 = "recover_entry H now uid ?u1"
  have u1: "same_upload uid us ?u1" using recoverSessions_other [OF split(2)] .
  then have d1: "dirs ?u1 uid = Some d" using d by (simp add: same_upload_def)
  then have "?u2 = register_as uid (restored H ?u1 j) ?u1"
    using j d(2) by (cases rule: recover_entry_cases [of H now uid ?u1])
      (auto simp: recover_entry_def restoreSession_def persisted_def restored_def Let_def)
  then have "sessions ?u2 uid = Some ((restored H ?u1 j)\<lparr>gen := nextGen ?u2\<rparr>)" by simp
  moreover have "recoverSessions H now entries us = recoverSessions H now ys ?u2" by (simp add: split(1) recoverSessions_def)
  moreover have "same_upload uid ?u2 (recoverSessions H now ys ?u2)" using recoverSessions_other [OF split(3)] .
  ultimately have "sessions (recoverSessions H now entries us) uid = Some ((restored H ?u1 j)\<lparr>gen := nextGen ?u2\<rparr>)"
    by (simp add: same_upload_def)
  then show ?thesis using u1 that by fastforce
qed

lemma persisted_fields [simp]:
  "UploadID (persisted j) = UploadID j" "ReceivedChunks (persisted j) = ReceivedChunks j" "ChunkChecksums (persisted j) = ChunkChecksums j"
  "TotalChunks (persisted j) = TotalChunks j" "TotalSize (persisted j) = TotalSize j" "ChunkSize (persisted j) = ChunkSize j"
  "TempPath (persisted j) = TempPath j" "Volume (persisted j) = Volume j" "StagingVolume (persisted j) = StagingVolume j"
  by (simp_all add: persisted_def)

lemma restored_nth:
  assumes "TempPath j \<noteq> []" "plan_ok j" "i < nat (TotalChunks j)"
    and c: "c = (case sidecar_sum us (UploadID j) (int i) of Some c \<Rightarrow> c
      | None \<Rightarrow> if i < length (ChunkChecksums j) then ChunkChecksums j ! i else [])"
  shows "ChunkChecksums (restored H us j) ! i = c"
    "ReceivedChunks (restored H us j) ! i \<longleftrightarrow>
       (sidecar_sum us (UploadID j) (int i) \<noteq> None \<or> i < length (ReceivedChunks j) \<and> ReceivedChunks j ! i)
       \<and> c \<noteq> [] \<and> (\<exists>f. temp_file us j = Some f \<and> H (chunk_data j f (int i)) = c)"
proof -
  define l where "l = loadChunkChecksumSidecars us (persisted j)"
  have f: "UploadID l = UploadID j" "TotalChunks l = TotalChunks j" "TotalSize l = TotalSize j" "ChunkSize l = ChunkSize j" "TempPath l = TempPath j"
    "temp_file us l = temp_file us j" "length (ReceivedChunks l) = max (length (ReceivedChunks j)) (nat (TotalChunks j))"
    using tempAbsPath_fields [of l j us] by (simp_all add: l_def load_fields temp_file_def)
  have r: "restored H us j = verifyTempChunks H us l" using f(5) assms(1) by (simp add: restored_def Let_def l_def)
  have n: "nat (TotalChunks l) \<le> length (ReceivedChunks l)" using f by simp
  have p: "plan_ok l" "\<And>(g :: octets) k. chunk_data l g k = chunk_data j g k"
    using assms(2) f by (simp_all add: plan_ok_def chunk_data_def chunk_offset_def chunkLenAt_def Let_def)
  have cl: "ChunkChecksums l ! i = c"
    using load_nth(2) [of i "persisted j" us] assms(3) unfolding l_def c by (simp split: option.split)
  have rl: "ReceivedChunks l ! i \<longleftrightarrow> sidecar_sum us (UploadID j) (int i) \<noteq> None \<or> i < length (ReceivedChunks j) \<and> ReceivedChunks j ! i"
    using load_nth(1) [of i "persisted j" us] assms(3) by (simp add: l_def)
  show "ChunkChecksums (restored H us j) ! i = c" using cl by (simp add: r verifyTempChunks_eq [OF n])
  have "i < length (ReceivedChunks l)" using f assms(3) by simp
  then show "ReceivedChunks (restored H us j) ! i \<longleftrightarrow>
       (sidecar_sum us (UploadID j) (int i) \<noteq> None \<or> i < length (ReceivedChunks j) \<and> ReceivedChunks j ! i)
       \<and> c \<noteq> [] \<and> (\<exists>f. temp_file us j = Some f \<and> H (chunk_data j f (int i)) = c)"
    using rl cl f assms(3) p verified_chunk [OF p(1), of i] by (auto simp: r verifyTempChunks_eq [OF n] split: option.splits)
qed

definition known_sum :: "session_dir \<Rightarrow> upload_session \<Rightarrow> nat \<Rightarrow> string" where
  "known_sum d j i = (case dir_sum d (int i) of Some c \<Rightarrow> c
     | None \<Rightarrow> if i < length (ChunkChecksums j) then ChunkChecksums j ! i else [])"

text \<open>C37. A restart keeps exactly the chunks whose bytes can be vouched for. For a session directory with a readable
  \<open>session.json\<close> of an upload that is neither completed nor expired, over any other directories and files: the session is in the table
  again; the checksum of a chunk is the one of its own file if there is one, else the one of \<open>session.json\<close>; and the
  chunk counts as received if and only if it was acknowledged in either place and the file in flight can be opened and holds, at the place of
  the chunk, bytes that hash to this checksum.\<close>

theorem recovery_exact:
  assumes e: "distinct entries" "uid \<in> set entries" and d: "ds uid = Some d" "json d = Json j" and u: "UploadID j = uid"
    and j: "\<not> ExpiresAt j < now" "\<not> Completed j" "TempPath j \<noteq> []" "plan_ok j"
    and us: "us = NewUploadStore H now ttl root vols entries ds fs"
    and t: "tempAbsPath us (Some j) = Some p" "IsInflightTempNameFor (base_name p) uid"
  shows "\<exists>s. sessions us uid = Some s \<and> (\<forall>i < nat (TotalChunks j).
      ChunkChecksums s ! i = known_sum d j i
      \<and> (ReceivedChunks s ! i \<longleftrightarrow>
           (dir_sum d (int i) \<noteq> None \<or> i < length (ReceivedChunks j) \<and> ReceivedChunks j ! i)
           \<and> known_sum d j i \<noteq> [] \<and> (\<exists>f. fs p = Some f \<and> H (chunk_data j f (int i)) = known_sum d j i)))"
proof -
  define us0 where "us0 = fold (\<lambda>(v, r). SetVolumeTenantRoot v r) vols \<lparr>sessions = (\<lambda>_. None), nextGen = 0, stopped = False, persistCh = [],
      sessionTTL = (if ttl = 0 then 24 * 3600 * 1000000000 else ttl), hasStorageMgr = False,
      volTenantRoots = (\<lambda>_. None), ownRoot = root, dirs = ds, disk = fs, calls = []\<rparr>"
  have us0: "us = recoverSessions H now entries us0" "dirs us0 = ds" "disk us0 = fs"
    using volume_roots_table by (auto simp: us us0_def NewUploadStore_def Let_def)
  obtain us1 s where r: "same_upload uid us0 us1" "sessions us uid = Some s"
    "ReceivedChunks s = ReceivedChunks (restored H us1 j)" "ChunkChecksums s = ChunkChecksums (restored H us1 j)"
    using recoverSessions_restored [OF e _ d(2) j(1,2), of us0] d(1) us0 by metis
  have roots: "ownRoot (recoverSessions H now ks v) = ownRoot v \<and> volTenantRoots (recoverSessions H now ks v) = volTenantRoots v" for ks v
  proof (induction ks arbitrary: v)
    case (Cons k ks)
    have "ownRoot (recover_entry H now k v) = ownRoot v \<and> volTenantRoots (recover_entry H now k v) = volTenantRoots v"
      by (cases rule: recover_entry_cases [of H now k v])
         (auto simp: deleteSessionArtifacts_def deleteSessionArtifactsAt_def with_dir_def Let_def split: option.splits)
    then show ?case using Cons by (simp add: recoverSessions_def)
  qed (simp add: recoverSessions_def)
  have "tempAbsPath us1 (Some j) = Some p"
  proof -
    have "tempAbsPath us (Some j) = tempAbsPath us0 (Some j)" using roots [of entries us0] unfolding us0(1) by (intro tempAbsPath_roots) auto
    moreover have "tempAbsPath us1 (Some j) = tempAbsPath us0 (Some j)" using r(1) by (intro tempAbsPath_roots) (auto simp: same_upload_def)
    ultimately show ?thesis using t(1) by simp
  qed
  moreover have "disk us1 p = fs p"
    using r(1) t(2) us0(3) by (auto simp: same_upload_def IsInflightTempNameFor_def split: if_splits)
  ultimately have tf: "temp_file us1 j = fs p" by (simp add: temp_file_def)
  have "dirs us1 uid = Some d" using r(1) us0(2) d(1) by (simp add: same_upload_def)
  then have sd: "sidecar_sum us1 (UploadID j) i = dir_sum d i" for i by (simp add: sidecar_sum_def u)
  show ?thesis
  proof (intro exI conjI allI impI)
    show "sessions us uid = Some s" by (rule r(2))
    fix i assume i: "i < nat (TotalChunks j)"
    note n = restored_nth [where us = us1 and H = H, OF j(3,4) i refl]
    show "ChunkChecksums s ! i = known_sum d j i" using n(1) by (simp add: r(4) sd known_sum_def)
    show "ReceivedChunks s ! i \<longleftrightarrow>
           (dir_sum d (int i) \<noteq> None \<or> i < length (ReceivedChunks j) \<and> ReceivedChunks j ! i)
           \<and> known_sum d j i \<noteq> [] \<and> (\<exists>f. fs p = Some f \<and> H (chunk_data j f (int i)) = known_sum d j i)"
      using n(2) by (simp only: r(3) sd tf known_sum_def)
  qed
qed

definition flight_session :: upload_session where
  "flight_session = sample_session\<lparr>TempPath := TempRelForUser zero_digest sample_session ''user/d/f.bin''\<rparr>"

definition flight_path :: string where
  "flight_path = ''/t/user/d/.inflight-0000000000000000-u1.part''"

definition flight_dir :: session_dir where
  "flight_dir = \<lparr>json = Json flight_session, sidecars = (\<lambda>i. if i = 0 then Some (replicate 64 (CHR ''0'')) else None)\<rparr>"

lemma flight_path_fields:
  "TempPath flight_session \<noteq> []" "plan_ok flight_session" "IsInflightTempNameFor (base_name flight_path) ''u1''"
  "UploadID flight_session = ''u1''" "\<not> Completed flight_session" "ExpiresAt flight_session = 100" "TotalChunks flight_session = 3"
  by code_simp+

lemma flight_tempAbsPath: "ownRoot us = ''/t'' \<Longrightarrow> tempAbsPath us (Some flight_session) = Some flight_path"
proof -
  assume r: "ownRoot us = ''/t''"
  have "tenantRootForStaging us (Some flight_session) = ''/t''"
    by (simp add: tenantRootForStaging_def tenantRootFor_def flight_session_def sample_session_def r)
  moreover have "HasPrefix (TempPath flight_session) ''user/''" "Clean (Join2 ''/t'' (TempPath flight_session)) = flight_path"
    "HasPrefix flight_path (''/t'' @ [SL])" by code_simp+
  ultimately show ?thesis by (simp add: tempAbsPath_def)
qed

definition flight_store :: "upload_store" where
  "flight_store = NewUploadStore zero_digest 5 0 ''/t'' [] [''u1''] ((\<lambda>_. None)(''u1'' := Some flight_dir))
     ((\<lambda>_. None)(flight_path := Some (replicate 10 7)))"

lemma roots_kept: "ownRoot (recover_entry H now k v) = ownRoot v"
  by (cases rule: recover_entry_cases [of H now k v])
     (auto simp: deleteSessionArtifacts_def deleteSessionArtifactsAt_def with_dir_def Let_def split: option.splits)

theorem recovery_exact_witness:
  "\<exists>s. sessions flight_store ''u1'' = Some s \<and> ReceivedChunks s ! 0 \<and> \<not> ReceivedChunks s ! 1"
proof -
  have t: "tempAbsPath flight_store (Some flight_session) = Some flight_path"
    by (intro flight_tempAbsPath) (simp add: flight_store_def NewUploadStore_def recoverSessions_def roots_kept)
  have "\<exists>s. sessions flight_store ''u1'' = Some s \<and> (\<forall>i < nat (TotalChunks flight_session).
      ChunkChecksums s ! i = known_sum flight_dir flight_session i
      \<and> (ReceivedChunks s ! i \<longleftrightarrow>
           (dir_sum flight_dir (int i) \<noteq> None \<or> i < length (ReceivedChunks flight_session) \<and> ReceivedChunks flight_session ! i)
           \<and> known_sum flight_dir flight_session i \<noteq> []
           \<and> (\<exists>f. ((\<lambda>_. None)(flight_path := Some (replicate 10 7))) flight_path = Some f
               \<and> zero_digest (chunk_data flight_session f (int i)) = known_sum flight_dir flight_session i)))"
    by (rule recovery_exact [where entries = "[''u1'']" and ds = "(\<lambda>_. None)(''u1'' := Some flight_dir)", OF _ _ _ _ _ _ _ _ _ flight_store_def t])
       (use flight_path_fields in \<open>auto simp: flight_dir_def\<close>)
  then obtain s where s: "sessions flight_store ''u1'' = Some s" "\<And>i. i < 3 \<Longrightarrow> ReceivedChunks s ! i \<longleftrightarrow>
           (dir_sum flight_dir (int i) \<noteq> None \<or> i < length (ReceivedChunks flight_session) \<and> ReceivedChunks flight_session ! i)
           \<and> known_sum flight_dir flight_session i \<noteq> []
           \<and> (\<exists>f. ((\<lambda>_. None)(flight_path := Some (replicate 10 7))) flight_path = Some f
               \<and> zero_digest (chunk_data flight_session f (int i)) = known_sum flight_dir flight_session i)"
    using flight_path_fields(7) by auto
  have "dir_sum flight_dir 0 = Some (replicate 64 (CHR ''0''))" "dir_sum flight_dir 1 = None" by code_simp+
  moreover have "\<not> ReceivedChunks flight_session ! 1" by code_simp
  ultimately show ?thesis using s(1) s(2) [of 0] s(2) [of 1] by (auto simp: known_sum_def zero_digest_def)
qed

section \<open>Acknowledged chunks\<close>

lemma lower_hex_printable: "list_all lower_hex s \<Longrightarrow> printable s"
  by (auto simp: printable_def lower_hex_def Let_def list_all_iff)

lemma Mark_sidecar:
  assumes "MarkChunkReceived w uid i ck us = (None, us1)"
  shows "\<exists>d. dirs us1 uid = Some d \<and> sidecars d i = Some ck"
  using assms
  by (auto simp: MarkChunkReceived_def MarkChunk_begin_def MarkChunk_finish_def persistChunkChecksum_def request_persist_def
      with_session_def with_dir_def split: option.splits prod.splits if_splits bool.splits)

text \<open>C38. What was acknowledged survives a crash. If \<open>MarkChunkReceived\<close> has returned without an error, and the process dies at that
  moment, with whatever older state of the session in \<open>session.json\<close>, then the next process has the chunk as received, with the
  checksum that was acknowledged, provided the bytes of the chunk are in the file in flight.\<close>

theorem acknowledged_chunk_survives:
  assumes H: "hex_digest H" and ack: "MarkChunkReceived w uid (int i) (H data) us = (None, us1)"
    and d: "dirs us1 uid = Some d" "json d = Json j" "UploadID j = uid" "i < nat (TotalChunks j)"
    and f: "disk us1 p = Some f" "chunk_data j f (int i) = data"
    and j: "\<not> ExpiresAt j < now" "\<not> Completed j" "TempPath j \<noteq> []" "plan_ok j"
    and e: "distinct entries" "uid \<in> set entries"
    and us: "us2 = NewUploadStore H now ttl root vols entries (dirs us1) (disk us1)"
    and t: "tempAbsPath us2 (Some j) = Some p" "IsInflightTempNameFor (base_name p) uid"
  shows "\<exists>s. sessions us2 uid = Some s \<and> ReceivedChunks s ! i \<and> ChunkChecksums s ! i = H data"
proof -
  have "sidecars d (int i) = Some (H data)" using Mark_sidecar [OF ack] d(1) by simp
  moreover have "TrimSpace (H data) = H data" "H data \<noteq> []"
    using H TrimSpace_printable [OF lower_hex_printable, of "H data"] by (auto simp: hex_digest_def) (metis list.size(3) zero_neq_numeral)
  ultimately have "dir_sum d (int i) = Some (H data)" "known_sum d j i = H data" by (simp_all add: dir_sum_def known_sum_def)
  then show ?thesis using recovery_exact [OF e d(1-3) j us t] d(4) f \<open>H data \<noteq> []\<close> by auto
qed

definition flight_before :: upload_store where
  "flight_before = (empty_uploads ''/t'')\<lparr>sessions := (\<lambda>_. None)(''u1'' := Some flight_session),
     dirs := (\<lambda>_. None)(''u1'' := Some \<lparr>json = Json flight_session, sidecars = (\<lambda>_. None)\<rparr>),
     disk := (\<lambda>_. None)(flight_path := Some (replicate 10 7))\<rparr>"

theorem acknowledged_chunk_survives_witness:
  "\<exists>us1 s. MarkChunkReceived True ''u1'' 0 (zero_digest (replicate 4 7)) flight_before = (None, us1)
     \<and> sessions (NewUploadStore zero_digest 5 0 ''/t'' [] [''u1''] (dirs us1) (disk us1)) ''u1'' = Some s \<and> ReceivedChunks s ! 0"
proof -
  let ?h = "zero_digest (replicate 4 7)"
  obtain r us1 where m: "MarkChunkReceived True ''u1'' 0 ?h flight_before = (r, us1)" by (cases "MarkChunkReceived True ''u1'' 0 ?h flight_before")
  have rl: "length (ReceivedChunks flight_session) = 3" "length (ChunkChecksums flight_session) = 3" by code_simp+
  have m': "r = None" "dirs us1 = (\<lambda>_. None)(''u1'' := Some \<lparr>json = Json flight_session, sidecars = (\<lambda>_. None)(0 := Some ?h)\<rparr>)"
    "disk us1 = disk flight_before"
    using m flight_path_fields(7) rl
    by (auto simp: flight_before_def empty_uploads_def MarkChunkReceived_def MarkChunk_begin_def MarkChunk_finish_def persistChunkChecksum_def
        set_received_def request_persist_def with_session_def with_dir_def)
  have a: "MarkChunkReceived True ''u1'' (int 0) ?h flight_before = (None, us1)" using m m'(1) by simp
  let ?us2 = "NewUploadStore zero_digest 5 0 ''/t'' [] [''u1''] (dirs us1) (disk us1)"
  have t: "tempAbsPath ?us2 (Some flight_session) = Some flight_path"
    by (intro flight_tempAbsPath) (simp add: NewUploadStore_def recoverSessions_def roots_kept)
  have c: "chunk_data flight_session (replicate 10 7) 0 = replicate 4 (7 :: 8 word)" by code_simp
  have "\<exists>s. sessions ?us2 ''u1'' = Some s \<and> ReceivedChunks s ! 0 \<and> ChunkChecksums s ! 0 = ?h"
    by (rule acknowledged_chunk_survives [where j = flight_session and p = flight_path and f = "replicate 10 7"
          and d = "\<lparr>json = Json flight_session, sidecars = (\<lambda>_. None)(0 := Some ?h)\<rparr>",
          OF zero_digest_hex a _ _ _ _ _ _ _ _ _ _ _ _ refl t])
       (use m m' flight_path_fields c in \<open>auto simp: flight_before_def\<close>)
  then show ?thesis using m m'(1) by blast
qed

end
