(* ===== verification/Upload_Chunks.thy ===== *)
theory Upload_Chunks
  imports Upload_Recover Accounts
begin

text \<open>
  The requests of a chunked upload (\<open>pkg/files/chunked_upload.go\<close>): writing one chunk at its offset, checking the whole file at
  completion, renaming it into place and settling its reservations. Requests have been parsed; the staging tenant of a session has the root
  the store resolves for it, and the target is a local volume without encryption at rest. The outcome of an I/O operation is an
  argument: how many bytes a failing write still wrote, whether the checksum file could be written, whether the rename worked,
  the charged size of the file that is replaced. Saving a version of the replaced file and the metadata after success do not touch the
  files in flight nor the target and are left out.
\<close>

section \<open>Paths below a root\<close>

definition Root_Abs :: "string \<Rightarrow> string \<Rightarrow> string option" where
  "Root_Abs base rel =
     (if rel = [] then Some base
      else let norm = ReplaceAll1 backslash SL rel in
           if HasPrefix norm [SL] then None
           else let clean = Clean norm in
                if clean = ''..'' \<or> HasPrefix clean ''../'' then None
                else let absp = Join2 base clean in
                     if absp \<noteq> base \<and> \<not> HasPrefix absp (base @ [SL]) then None else Some absp)"

definition session_root :: "upload_store \<Rightarrow> upload_session \<Rightarrow> string" where
  "session_root us s = tenantRootForStaging us (Some s)"

section \<open>One chunk\<close>

datatype chunk_reply = ChunkReceived | ChunkSkipped | ChunkGone | ChunkMerging | ChunkBadIndex | ChunkUnknown
  | ChunkNoTemp | ChunkMismatch | ChunkWriteFailed | ChunkMarkFailed

definition checkChunkAcceptable :: "upload_session \<Rightarrow> int \<Rightarrow> string \<Rightarrow> chunk_reply option" where
  "checkChunkAcceptable s i ck =
     (if Completed s then Some ChunkGone
      else if Completing s then Some ChunkMerging
      else if i < 0 \<or> TotalChunks s \<le> i then Some ChunkBadIndex
      else if ReceivedChunks s ! nat i \<and> ChunkChecksums s ! nat i = ck then Some ChunkSkipped
      else None)"

definition openSessionTempWrite :: "upload_store \<Rightarrow> upload_session \<Rightarrow> (string \<times> octets) option" where
  "openSessionTempWrite us s =
     (case Root_Abs (session_root us s) (TempPath s) of
        None \<Rightarrow> None
      | Some p \<Rightarrow> (case disk us p of None \<Rightarrow> None | Some f \<Rightarrow> Some (p, f)))"

definition writeChunkDirect :: "nat option \<Rightarrow> upload_session \<Rightarrow> int \<Rightarrow> int \<Rightarrow> octets \<Rightarrow> upload_store \<Rightarrow> bool \<times> upload_store" where
  "writeChunkDirect fault s offset limit data us =
     (case openSessionTempWrite us s of
        None \<Rightarrow> (False, us)
      | Some (p, f) \<Rightarrow>
          (case BoundWriter_Write fault f (NewBoundWriter offset limit 0) data of
             ((n, r), w, f') \<Rightarrow> (r \<noteq> BwIOErr, us\<lparr>disk := (disk us)(p := Some f')\<rparr>)))"

text \<open>\<open>verifyAndWriteChunk\<close>. The checksum is compared with that of the data as sent; what is longer than the chunk is cut off.\<close>

definition verifyAndWriteChunk :: "digest \<Rightarrow> nat option \<Rightarrow> bool \<Rightarrow> upload_session \<Rightarrow> string \<Rightarrow> int \<Rightarrow> string \<Rightarrow> octets \<Rightarrow> upload_store
    \<Rightarrow> chunk_reply \<times> upload_store" where
  "verifyAndWriteChunk H fault side s uid i ck data us =
     (if H data \<noteq> ck then (ChunkMismatch, us)
      else case writeChunkDirect fault s (chunk_offset s i) (chunkLenAt s i) data us of
             (False, us1) \<Rightarrow> (ChunkWriteFailed, us1)
           | (True, us1) \<Rightarrow>
               (case MarkChunkReceived side uid i (H data) us1 of
                  (Some e, us2) \<Rightarrow> (ChunkMarkFailed, us2)
                | (None, us2) \<Rightarrow> (ChunkReceived, us2)))"

text \<open>\<open>UploadChunk\<close> after the lock of the upload has been taken: the session is read again.\<close>

definition UploadChunk_locked :: "digest \<Rightarrow> nat option \<Rightarrow> bool \<Rightarrow> string \<Rightarrow> int \<Rightarrow> string \<Rightarrow> octets \<Rightarrow> upload_store
    \<Rightarrow> chunk_reply \<times> upload_store" where
  "UploadChunk_locked H fault side uid i ck data us =
     (case GetSession us uid of
        None \<Rightarrow> (ChunkUnknown, us)
      | Some s \<Rightarrow>
          (case checkChunkAcceptable s i ck of
             Some r \<Rightarrow> (r, us)
           | None \<Rightarrow> if TempPath s = [] then (ChunkNoTemp, us) else verifyAndWriteChunk H fault side s uid i ck data us))"

definition UploadChunk :: "digest \<Rightarrow> nat option \<Rightarrow> bool \<Rightarrow> string \<Rightarrow> int \<Rightarrow> string \<Rightarrow> octets \<Rightarrow> upload_store
    \<Rightarrow> chunk_reply \<times> upload_store" where
  "UploadChunk H fault side uid i ck data us =
     (case GetSession us uid of
        None \<Rightarrow> (ChunkUnknown, us)
      | Some s \<Rightarrow>
          (case checkChunkAcceptable s i ck of
             Some r \<Rightarrow> (r, us)
           | None \<Rightarrow> UploadChunk_locked H fault side uid i ck data us))"

section \<open>Completion\<close>

datatype complete_reply = CompleteOk | CompleteAlready | CompleteNoId | CompleteUnknown | CompleteMissing "int list"
  | CompleteBusy | CompleteLocked | CompleteFailed | CompleteMismatch "int list" | CompleteRenameFailed

definition validateCompleteSession :: "upload_store \<Rightarrow> string \<Rightarrow> complete_reply + upload_session" where
  "validateCompleteSession us uid =
     (if uid = [] then Inl CompleteNoId
      else case GetSession us uid of
             None \<Rightarrow> Inl CompleteUnknown
           | Some s \<Rightarrow>
               if Completed s then Inl CompleteAlready
               else if \<not> AllChunksReceived us uid then Inl (CompleteMissing (MissingChunks s))
               else Inr s)"

fun mismatch_loop :: "digest \<Rightarrow> octets \<Rightarrow> upload_session \<Rightarrow> nat list \<Rightarrow> int list option" where
  "mismatch_loop H f s [] = Some []"
| "mismatch_loop H f s (i # is) =
     (if ChunkChecksums s ! i = [] then mismatch_loop H f s is
      else case verifyChunkChecksum H f (chunk_offset s (int i)) (chunkLenAt s (int i)) (ChunkChecksums s ! i) of
             None \<Rightarrow> None
           | Some ok \<Rightarrow> (case mismatch_loop H f s is of None \<Rightarrow> None | Some ms \<Rightarrow> Some (if ok then ms else int i # ms)))"

definition findMismatchChunks :: "digest \<Rightarrow> upload_store \<Rightarrow> upload_session \<Rightarrow> int list" where
  "findMismatchChunks H us s =
     (case tempAbsPath us (Some s) of
        None \<Rightarrow> allMismatchIndices s
      | Some p \<Rightarrow>
          (case disk us p of
             None \<Rightarrow> allMismatchIndices s
           | Some f \<Rightarrow>
               (case mismatch_loop H f s [0..<nat (TotalChunks s)] of None \<Rightarrow> allMismatchIndices s | Some ms \<Rightarrow> ms)))"

datatype merge_result = Merged | MergeMismatch "int list" | MergeFailed

definition prepareMergedTemp :: "digest \<Rightarrow> upload_session \<Rightarrow> upload_store \<Rightarrow> merge_result \<times> upload_store" where
  "prepareMergedTemp H s us =
     (if TempPath s = [] then (MergeFailed, us)
      else case Root_Abs (session_root us s) (TempPath s) of
        None \<Rightarrow> (MergeFailed, us)
      | Some p \<Rightarrow>
          (case disk us p of
             None \<Rightarrow> (MergeMismatch (allMismatchIndices s), us)
           | Some f \<Rightarrow>
               if H f = FileChecksum s then (Merged, us)
               else let m = findMismatchChunks H us s;
                        m = (if m = [] then allMismatchIndices s else m)
                    in (MergeMismatch m, snd (ClearChunksReceived (UploadID s) m us))))"

text \<open>The calls on the quota ledger that settle a completed upload: reservations committed, replaced bytes given back.\<close>

datatype settle_call = CommitScope nat int | ReleaseUsage int | AdjustPool nat int int | ReleasePool nat | CommitPool nat int

definition settleCompleteQuota :: "bool \<Rightarrow> int \<Rightarrow> int \<Rightarrow> upload_session \<Rightarrow> settle_call list" where
  "settleCompleteQuota hasScope charge prev s =
     (if hasScope then
        (case ScopeRes s of Some h \<Rightarrow> [CommitScope h charge] | None \<Rightarrow> [])
        @ (if 0 < prev then [ReleaseUsage prev] else [])
      else [])
     @ (case (VolPool s, PoolRes s) of
          (Some p, Some h) \<Rightarrow> if 0 < prev then [AdjustPool p prev charge, ReleasePool h] else [CommitPool h charge]
        | _ \<Rightarrow> [])"

text \<open>
  \<open>UploadComplete\<close> in three parts: the checks with the flag that keeps chunks out, the verification under the exclusive lock,
  and the rename. \<open>free\<close> says that the lock of the target file was granted.
\<close>

definition complete_target :: "upload_store \<Rightarrow> upload_session \<Rightarrow> string option" where
  "complete_target us s = (case UserRel (Filename s) of None \<Rightarrow> None | Some rel \<Rightarrow> Root_Abs (session_root us s) rel)"

definition complete_begin :: "string \<Rightarrow> upload_store \<Rightarrow> (complete_reply + upload_session) \<times> upload_store" where
  "complete_begin uid us =
     (case validateCompleteSession us uid of
        Inl r \<Rightarrow> (Inl r, us)
      | Inr s \<Rightarrow> (case BeginComplete uid us of (False, us1) \<Rightarrow> (Inl CompleteBusy, us1) | (True, us1) \<Rightarrow> (Inr s, us1)))"

definition complete_rename :: "bool \<Rightarrow> upload_session \<Rightarrow> upload_store \<Rightarrow> bool \<times> upload_store" where
  "complete_rename renamed s us =
     (case (Root_Abs (session_root us s) (TempPath s), complete_target us s) of
        (Some p, Some q) \<Rightarrow>
          if renamed \<and> disk us p \<noteq> None then (True, us\<lparr>disk := (disk us)(p := None, q := disk us p)\<rparr>) else (False, us)
      | _ \<Rightarrow> (False, us))"

definition finishSessionAfterComplete :: "string \<Rightarrow> upload_store \<Rightarrow> upload_store" where
  "finishSessionAfterComplete uid us = snd (CompleteSession uid us)"

definition UploadComplete :: "digest \<Rightarrow> bool \<Rightarrow> bool \<Rightarrow> bool \<Rightarrow> int \<Rightarrow> string \<Rightarrow> upload_store
    \<Rightarrow> (complete_reply \<times> settle_call list) \<times> upload_store" where
  "UploadComplete H free renamed hasScope prev uid us =
     (case complete_begin uid us of
        (Inl r, us1) \<Rightarrow> ((r, []), us1)
      | (Inr s, us1) \<Rightarrow>
          if \<not> free then ((CompleteLocked, []), EndComplete uid us1)
          else case prepareMergedTemp H s us1 of
                 (MergeFailed, us2) \<Rightarrow> ((CompleteFailed, []), EndComplete uid us2)
               | (MergeMismatch m, us2) \<Rightarrow> ((CompleteMismatch m, []), EndComplete uid us2)
               | (Merged, us2) \<Rightarrow>
                   (case complete_rename renamed s us2 of
                      (False, us3) \<Rightarrow> ((CompleteRenameFailed, []), EndComplete uid us3)
                    | (True, us3) \<Rightarrow>
                        ((CompleteOk, settleCompleteQuota hasScope (TotalSize s) prev s),
                         EndComplete uid (finishSessionAfterComplete uid us3))))"

section \<open>Writing a chunk into the file\<close>

lemma chunk_range:
  assumes "plan_ok s" "0 \<le> i" "i < TotalChunks s"
  shows "0 \<le> chunk_offset s i" "0 \<le> chunkLenAt s i" "chunk_offset s i + chunkLenAt s i \<le> max_int64"
    "chunkLenAt s i = 0 \<or> chunk_offset s i + chunkLenAt s i \<le> TotalSize s"
proof -
  note p = plan_okD [OF assms(1)]
  have o: "chunk_offset s i = i * ChunkSize s" using chunk_offset_eq [OF assms(1,2)] assms(3) by simp
  have l: "chunkLenAt s i = max 0 (min (ChunkSize s) (TotalSize s - i * ChunkSize s))" by (rule chunkLenAt_eq [OF assms])
  show a: "0 \<le> chunk_offset s i" "0 \<le> chunkLenAt s i" using o l p(2) assms(2) by auto
  show b: "chunkLenAt s i = 0 \<or> chunk_offset s i + chunkLenAt s i \<le> TotalSize s" using o l by auto
  have "chunk_offset s i \<le> max_int64" unfolding chunk_offset_def using wrap64_in64 [of "i * ChunkSize s"] by (simp add: in64_def)
  then show "chunk_offset s i + chunkLenAt s i \<le> max_int64" using b assms(1) by (auto simp: plan_ok_def)
qed

lemma chunk_disjoint:
  assumes "plan_ok s" "0 \<le> i" "i < TotalChunks s" "0 \<le> j" "j < TotalChunks s" "i \<noteq> j"
  shows "chunk_offset s i + chunkLenAt s i \<le> chunk_offset s j \<or> chunk_offset s j + chunkLenAt s j \<le> chunk_offset s i
    \<or> chunkLenAt s i = 0 \<or> chunkLenAt s j = 0"
proof -
  note p = plan_okD [OF assms(1)]
  have o: "chunk_offset s i = i * ChunkSize s" "chunk_offset s j = j * ChunkSize s"
    using chunk_offset_eq [OF assms(1)] assms by auto
  have l: "chunkLenAt s i \<le> ChunkSize s" "chunkLenAt s j \<le> ChunkSize s"
    using chunkLenAt_eq [OF assms(1)] assms p(2) by auto
  have "i + 1 \<le> j \<or> j + 1 \<le> i" using assms(6) by auto
  then have "(i + 1) * ChunkSize s \<le> j * ChunkSize s \<or> (j + 1) * ChunkSize s \<le> i * ChunkSize s"
    using p(2) by (auto intro: mult_right_mono)
  then show ?thesis using o l by (auto simp: distrib_right)
qed

lemma length_chunk_data_le: "length (chunk_data s f i) = min (length f - nat (chunk_offset s i)) (nat (chunkLenAt s i))"
  by (simp add: chunk_data_def min.commute)

lemma nth_chunk_data: "k < length (chunk_data s f i) \<Longrightarrow> chunk_data s f i ! k = f ! (nat (chunk_offset s i) + k)"
  by (cases "nat (chunk_offset s i) \<le> length f") (simp_all add: chunk_data_def)

lemma length_write_chunk:
  assumes "plan_ok s" "0 \<le> i" "i < TotalChunks s" "int (length f) = TotalSize s" "int (length d) \<le> chunkLenAt s i"
  shows "length (writeAt f d (nat (chunk_offset s i))) = length f"
  using chunk_range [OF assms(1-3)] assms(4,5) by (auto simp: length_writeAt)

lemma write_chunk_other:
  assumes ok: "plan_ok s" and i: "0 \<le> i" "i < TotalChunks s" and len: "int (length f) = TotalSize s"
    and d: "int (length d) \<le> chunkLenAt s i" and j: "0 \<le> j" "j < TotalChunks s" "i \<noteq> j"
  shows "chunk_data s (writeAt f d (nat (chunk_offset s i))) j = chunk_data s f j"
proof (rule nth_equalityI)
  show l: "length (chunk_data s (writeAt f d (nat (chunk_offset s i))) j) = length (chunk_data s f j)"
    using length_write_chunk [OF ok i len d] by (simp add: length_chunk_data_le)
  fix k assume k: "k < length (chunk_data s (writeAt f d (nat (chunk_offset s i))) j)"
  let ?k = "nat (chunk_offset s j) + k"
  have "k < length (chunk_data s f j)" using k l by simp
  then have "k < nat (chunkLenAt s j)" "k < length f - nat (chunk_offset s j)" by (simp_all add: length_chunk_data_le)
  then have kl: "int k < chunkLenAt s j" "?k < length f" by linarith+
  have "?k < nat (chunk_offset s i) \<or> nat (chunk_offset s i) + length d \<le> ?k"
    using chunk_disjoint [OF ok i j] kl(1) d chunk_range(1,2) [OF ok i] chunk_range(1,2) [OF ok j(1,2)] by linarith
  then have "writeAt f d (nat (chunk_offset s i)) ! ?k = f ! ?k" by (rule writeAt_outside [OF kl(2)])
  then show "chunk_data s (writeAt f d (nat (chunk_offset s i))) j ! k = chunk_data s f j ! k"
    using k l by (simp add: nth_chunk_data)
qed

lemma write_chunk_same:
  assumes "plan_ok s" "0 \<le> i" "i < TotalChunks s" "int (length f) = TotalSize s" and l: "int (length d) = chunkLenAt s i"
  shows "chunk_data s (writeAt f d (nat (chunk_offset s i))) i = d"
proof (cases "d = []")
  case False
  then have "nat (chunk_offset s i) \<le> length f" using chunk_range [OF assms(1-3)] assms(4) l by auto
  moreover have "nat (chunkLenAt s i) = length d" using l by simp
  ultimately show ?thesis using False by (simp add: chunk_data_def writeAt_def)
qed (use l in \<open>simp add: chunk_data_def\<close>)

lemma bound_write_chunk:
  assumes "plan_ok s" "0 \<le> i" "i < TotalChunks s" and l: "int (length data) = chunkLenAt s i"
    and w: "BoundWriter_Write fault f (NewBoundWriter (chunk_offset s i) (chunkLenAt s i) 0) data = ((n, r), w', f')"
  shows "f' = writeAt f (take (nat n) data) (nat (chunk_offset s i)) \<and> (r \<noteq> BwIOErr \<longrightarrow> take (nat n) data = data)"
proof -
  note c = chunk_range [OF assms(1-3)]
  have "bw_ok (NewBoundWriter (chunk_offset s i) (chunkLenAt s i) 0)" using c by (simp add: bw_ok_def NewBoundWriter_def)
  then have f': "f' = writeAt f (take (nat n) data) (nat (chunk_offset s i))"
    using BoundWriter_Write_eq [OF _ w] by (simp add: NewBoundWriter_def)
  have "wrap64 (chunkLenAt s i) = chunkLenAt s i" using c by (intro wrap64_nonneg) auto
  then have "take (nat n) data = data" if "r \<noteq> BwIOErr"
    using w that l c(2) by (auto simp: BoundWriter_Write_def NewBoundWriter_def Let_def split: if_splits option.splits)
  then show ?thesis using f' by blast
qed

section \<open>An upload in progress\<close>

text \<open>
  The session is \<open>s0\<close> but for its bitmap and checksums, the file in flight has its full length, and every chunk that counts as received
  has the bytes of \<open>file\<close> in place.
\<close>

definition uploading :: "digest \<Rightarrow> octets \<Rightarrow> string \<Rightarrow> upload_session \<Rightarrow> string \<Rightarrow> upload_store \<Rightarrow> bool" where
  "uploading H fl uid s0 p us \<longleftrightarrow> (\<exists>R C f d. sessions us uid = Some (s0\<lparr>ReceivedChunks := R, ChunkChecksums := C\<rparr>)
     \<and> length R = nat (TotalChunks s0) \<and> length C = nat (TotalChunks s0)
     \<and> disk us p = Some f \<and> int (length f) = TotalSize s0 \<and> dirs us uid = Some d
     \<and> Root_Abs (session_root us s0) (TempPath s0) = Some p
     \<and> (\<forall>i < nat (TotalChunks s0). R ! i \<longrightarrow> C ! i = H (chunk_data s0 fl (int i)) \<and> chunk_data s0 f (int i) = chunk_data s0 fl (int i)))"

definition upload_plan :: "octets \<Rightarrow> upload_session \<Rightarrow> bool" where
  "upload_plan fl s0 \<longleftrightarrow> plan_ok s0 \<and> \<not> Completed s0 \<and> \<not> Completing s0 \<and> TempPath s0 \<noteq> [] \<and> int (length fl) = TotalSize s0"

definition chunk_there :: "upload_store \<Rightarrow> string \<Rightarrow> nat \<Rightarrow> bool" where
  "chunk_there us uid i = (case sessions us uid of None \<Rightarrow> False | Some s \<Rightarrow> ReceivedChunks s ! i)"

lemma chunk_bitmap [simp]:
  "chunk_data (s\<lparr>ReceivedChunks := R, ChunkChecksums := C\<rparr>) (g :: octets) i = chunk_data s g i"
  "chunk_offset (s\<lparr>ReceivedChunks := R, ChunkChecksums := C\<rparr>) i = chunk_offset s i"
  "chunkLenAt (s\<lparr>ReceivedChunks := R, ChunkChecksums := C\<rparr>) i = chunkLenAt s i"
  "session_root us (s\<lparr>ReceivedChunks := R, ChunkChecksums := C\<rparr>) = session_root us s"
  by (simp_all add: chunk_data_def chunk_offset_def chunkLenAt_def session_root_def tenantRootForStaging_def Let_def)

lemma session_root_store:
  "ownRoot us' = ownRoot us \<Longrightarrow> volTenantRoots us' = volTenantRoots us \<Longrightarrow> session_root us' s = session_root us s"
  by (simp only: session_root_def tenantRootForStaging_def tenantRootFor_def option.case)

lemma uploading_write:
  assumes pl: "upload_plan fl s0" and up: "uploading H fl uid s0 p us" and i: "0 \<le> i" "i < TotalChunks s0"
    and nr: "\<not> chunk_there us uid (nat i)" and l: "int (length d) \<le> chunkLenAt s0 i" and f: "disk us p = Some f"
  shows "uploading H fl uid s0 p (us\<lparr>disk := (disk us)(p := Some (writeAt f d (nat (chunk_offset s0 i))))\<rparr>)"
proof -
  obtain R C e where u: "sessions us uid = Some (s0\<lparr>ReceivedChunks := R, ChunkChecksums := C\<rparr>)"
    "length R = nat (TotalChunks s0)" "length C = nat (TotalChunks s0)" "int (length f) = TotalSize s0" "dirs us uid = Some e"
    "Root_Abs (session_root us s0) (TempPath s0) = Some p"
    "\<And>k. k < nat (TotalChunks s0) \<Longrightarrow> R ! k \<Longrightarrow> C ! k = H (chunk_data s0 fl (int k)) \<and> chunk_data s0 f (int k) = chunk_data s0 fl (int k)"
    using up f by (auto simp: uploading_def)
  let ?f = "writeAt f d (nat (chunk_offset s0 i))"
  have ok: "plan_ok s0" using pl by (simp add: upload_plan_def)
  have "chunk_data s0 ?f (int k) = chunk_data s0 fl (int k)" if "k < nat (TotalChunks s0)" "R ! k" for k
  proof -
    have "i \<noteq> int k" using nr u(1) that by (auto simp: chunk_there_def)
    then show ?thesis using write_chunk_other [OF ok i u(4) l, of "int k"] that u(7) [OF that] by simp
  qed
  moreover have "int (length ?f) = TotalSize s0" using length_write_chunk [OF ok i u(4) l] u(4) by simp
  moreover have "session_root (us\<lparr>disk := (disk us)(p := Some ?f)\<rparr>) s0 = session_root us s0" by (rule session_root_store) simp_all
  ultimately show ?thesis using u unfolding uploading_def by (intro exI [of _ R] exI [of _ C] exI [of _ ?f] exI [of _ e]) auto
qed

lemma uploading_mark:
  assumes up: "uploading H fl uid s0 p us" and i: "0 \<le> i" "i < TotalChunks s0"
    and f: "disk us p = Some f" "chunk_data s0 f i = chunk_data s0 fl i"
    and m: "MarkChunkReceived side uid i (H (chunk_data s0 fl i)) us = (r, us')"
  shows "uploading H fl uid s0 p us' \<and> (side \<longrightarrow> r = None) \<and> (r = None \<longrightarrow> chunk_there us' uid (nat i))
    \<and> (\<forall>k. chunk_there us uid k \<longrightarrow> chunk_there us' uid k)"
proof -
  obtain R C d where u: "sessions us uid = Some (s0\<lparr>ReceivedChunks := R, ChunkChecksums := C\<rparr>)"
    "length R = nat (TotalChunks s0)" "length C = nat (TotalChunks s0)" "int (length f) = TotalSize s0" "dirs us uid = Some d"
    "Root_Abs (session_root us s0) (TempPath s0) = Some p"
    "\<forall>k < nat (TotalChunks s0). R ! k \<longrightarrow> C ! k = H (chunk_data s0 fl (int k)) \<and> chunk_data s0 f (int k) = chunk_data s0 fl (int k)"
    using up f(1) by (auto simp: uploading_def)
  let ?h = "H (chunk_data s0 fl i)"
  let ?t = "s0\<lparr>ReceivedChunks := R[nat i := True], ChunkChecksums := C[nat i := ?h]\<rparr>"
  let ?u1 = "with_dir uid (Some (d\<lparr>sidecars := (sidecars d)(i := Some ?h)\<rparr>)) us"
  show ?thesis
  proof (cases side)
    case False
    then have "us' = us \<and> r \<noteq> None"
      using m u(1,5) i by (auto simp: MarkChunkReceived_def MarkChunk_begin_def persistChunkChecksum_def)
    then show ?thesis using up False by auto
  next
    case True
    have st: "set_received i True ?h (s0\<lparr>ReceivedChunks := R, ChunkChecksums := C\<rparr>) = Some ?t"
      using u(2,3) i by (simp add: set_received_def)
    have us': "r = None" "us' = request_persist uid (with_session uid (Some ?t) ?u1)"
      using m u(1,5) i True st
      by (auto simp: MarkChunkReceived_def MarkChunk_begin_def persistChunkChecksum_def MarkChunk_finish_def)
    have s': "sessions us' uid = Some ?t" "disk us' = disk us" "dirs us' uid \<noteq> None" "session_root us' s0 = session_root us s0"
      by (auto simp: us'(2) request_persist_def with_session_def with_dir_def intro!: session_root_store)
    have "\<forall>k < nat (TotalChunks s0). R[nat i := True] ! k \<longrightarrow>
        C[nat i := ?h] ! k = H (chunk_data s0 fl (int k)) \<and> chunk_data s0 f (int k) = chunk_data s0 fl (int k)"
      using u(2,3,7) f(2) i by (auto simp: nth_list_update)
    then have "uploading H fl uid s0 p us'" unfolding uploading_def using s' u f(1)
      by (intro exI [of _ "R[nat i := True]"] exI [of _ "C[nat i := ?h]"] exI [of _ f]) auto
    moreover have "chunk_there us' uid (nat i)" using s'(1) u(2) i by (simp add: chunk_there_def)
    moreover have "chunk_there us' uid k" if "chunk_there us uid k" for k
      using that s'(1) u(1,2) i by (cases "k = nat i") (auto simp: chunk_there_def)
    ultimately show ?thesis using us'(1) by blast
  qed
qed

definition honest :: "digest \<Rightarrow> octets \<Rightarrow> upload_session \<Rightarrow> int \<Rightarrow> string \<Rightarrow> octets \<Rightarrow> bool" where
  "honest H fl s0 i ck data \<longleftrightarrow> (H data = ck \<and> 0 \<le> i \<and> i < TotalChunks s0 \<longrightarrow> data = chunk_data s0 fl i)"

lemma UploadChunk_step:
  assumes pl: "upload_plan fl s0" and up: "uploading H fl uid s0 p us" and h: "honest H fl s0 i ck data"
    and c: "UploadChunk H fault side uid i ck data us = (r, us')"
  shows "uploading H fl uid s0 p us' \<and> (\<forall>k. chunk_there us uid k \<longrightarrow> chunk_there us' uid k)
    \<and> (fault = None \<and> side \<and> H data = ck \<and> 0 \<le> i \<and> i < TotalChunks s0 \<longrightarrow> chunk_there us' uid (nat i))"
proof -
  obtain R C f d where u: "sessions us uid = Some (s0\<lparr>ReceivedChunks := R, ChunkChecksums := C\<rparr>)" "disk us p = Some f"
    "Root_Abs (session_root us s0) (TempPath s0) = Some p"
    "\<forall>k < nat (TotalChunks s0). R ! k \<longrightarrow> C ! k = H (chunk_data s0 fl (int k))" and flen: "int (length f) = TotalSize s0"
    using up by (auto simp: uploading_def)
  let ?s = "s0\<lparr>ReceivedChunks := R, ChunkChecksums := C\<rparr>"
  have ok: "plan_ok s0" "\<not> Completed s0" "\<not> Completing s0" "TempPath s0 \<noteq> []" "int (length fl) = TotalSize s0"
    using pl by (auto simp: upload_plan_def)
  show ?thesis
  proof (cases "checkChunkAcceptable ?s i ck")
    case (Some q)
    then have "us' = us" using c u(1) by (simp add: UploadChunk_def GetSession_def)
    moreover have "chunk_there us uid (nat i)" if "0 \<le> i" "i < TotalChunks s0"
      using Some that ok u(1) by (auto simp: checkChunkAcceptable_def chunk_there_def split: if_splits)
    ultimately show ?thesis using up by blast
  next
    case None
    then have i: "0 \<le> i" "i < TotalChunks s0" and nr: "\<not> (R ! nat i \<and> C ! nat i = ck)"
      by (auto simp: checkChunkAcceptable_def split: if_splits)
    have c1: "verifyAndWriteChunk H fault side ?s uid i ck data us = (r, us')"
      using c u(1) None ok(4) by (simp add: UploadChunk_def UploadChunk_locked_def GetSession_def)
    show ?thesis
    proof (cases "H data = ck")
      case False
      then show ?thesis using c1 up by (auto simp: verifyAndWriteChunk_def)
    next
      case True
      then have data: "data = chunk_data s0 fl i" using h i by (simp add: honest_def)
      have nri: "\<not> chunk_there us uid (nat i)" using nr u(1,4) i True data by (auto simp: chunk_there_def)
      have dl: "int (length data) = chunkLenAt s0 i" using length_chunk_data [OF ok(1,5) i] data by simp
      obtain n rr w' f' where bw: "BoundWriter_Write fault f (NewBoundWriter (chunk_offset s0 i) (chunkLenAt s0 i) 0) data = ((n, rr), w', f')"
        by (cases "BoundWriter_Write fault f (NewBoundWriter (chunk_offset s0 i) (chunkLenAt s0 i) 0) data") auto
      note f' = bound_write_chunk [OF ok(1) i dl bw]
      let ?u1 = "us\<lparr>disk := (disk us)(p := Some f')\<rparr>"
      have wd: "writeChunkDirect fault ?s (chunk_offset ?s i) (chunkLenAt ?s i) data us = (rr \<noteq> BwIOErr, ?u1)"
        using bw u(2,3) by (simp add: writeChunkDirect_def openSessionTempWrite_def)
      have up1: "uploading H fl uid s0 p ?u1"
        using uploading_write [OF pl up i nri _ u(2), of "take (nat n) data"] f' dl by simp
      have same: "chunk_there ?u1 uid = chunk_there us uid" by (simp add: chunk_there_def fun_eq_iff)
      show ?thesis
      proof (cases "rr = BwIOErr")
        case io: True
        have "us' = ?u1" using c1 True wd io by (simp add: verifyAndWriteChunk_def)
        moreover have "fault \<noteq> None"
          using bw io chunk_range(1) [OF ok(1) i] wrap64_in64 [of "i * ChunkSize s0"]
          by (auto simp: BoundWriter_Write_def NewBoundWriter_def Let_def chunk_offset_def split: if_splits)
        ultimately show ?thesis using up1 same by auto
      next
        case False
        obtain mr u2 where m: "MarkChunkReceived side uid i (H (chunk_data s0 fl i)) ?u1 = (mr, u2)"
          by (cases "MarkChunkReceived side uid i (H (chunk_data s0 fl i)) ?u1")
        have cd: "chunk_data s0 f' i = chunk_data s0 fl i"
          using write_chunk_same [OF ok(1) i flen dl] f' False data by simp
        note mk = uploading_mark [OF up1 i _ cd m]
        have "us' = u2" using c1 True wd False m data by (auto simp: verifyAndWriteChunk_def split: option.splits)
        then show ?thesis using mk same by auto
      qed
    qed
  qed
qed

type_synonym chunk_request = "nat option \<times> bool \<times> int \<times> string \<times> octets"

fun send_chunk :: "digest \<Rightarrow> string \<Rightarrow> chunk_request \<Rightarrow> upload_store \<Rightarrow> upload_store" where
  "send_chunk H uid (fault, side, i, ck, data) us = snd (UploadChunk H fault side uid i ck data us)"

lemma send_chunks:
  assumes pl: "upload_plan fl s0" and up: "uploading H fl uid s0 p us"
    and h: "\<forall>(fault, side, i, ck, data) \<in> set reqs. honest H fl s0 i ck data"
  shows "uploading H fl uid s0 p (fold (send_chunk H uid) reqs us)
    \<and> (\<forall>k. chunk_there us uid k \<longrightarrow> chunk_there (fold (send_chunk H uid) reqs us) uid k)
    \<and> (\<forall>i data. 0 \<le> i \<and> i < TotalChunks s0 \<and> (None, True, i, H data, data) \<in> set reqs
         \<longrightarrow> chunk_there (fold (send_chunk H uid) reqs us) uid (nat i))"
  using up h
proof (induction reqs arbitrary: us)
  case (Cons a reqs)
  obtain fault side i ck data where a: "a = (fault, side, i, ck, data)" by (cases a)
  obtain r us' where c: "UploadChunk H fault side uid i ck data us = (r, us')" by (cases "UploadChunk H fault side uid i ck data us")
  have h1: "honest H fl s0 i ck data" "\<forall>(fault, side, i, ck, data) \<in> set reqs. honest H fl s0 i ck data" using Cons.prems(2) a by auto
  note st = UploadChunk_step [OF pl Cons.prems(1) h1(1) c]
  then have "uploading H fl uid s0 p us'" by blast
  note IH = Cons.IH [OF this h1(2)]
  have f: "fold (send_chunk H uid) (a # reqs) us = fold (send_chunk H uid) reqs us'" using c a by simp
  show ?case unfolding f using IH st a by auto
qed simp

lemma uploading_complete_file:
  assumes pl: "upload_plan fl s0" and up: "uploading H fl uid s0 p us"
    and all: "\<And>i. i < nat (TotalChunks s0) \<Longrightarrow> chunk_there us uid i"
  shows "disk us p = Some fl \<and> AllChunksReceived us uid"
proof -
  obtain R C f where u: "sessions us uid = Some (s0\<lparr>ReceivedChunks := R, ChunkChecksums := C\<rparr>)" "length R = nat (TotalChunks s0)"
    "disk us p = Some f" "int (length f) = TotalSize s0"
    "\<forall>k < nat (TotalChunks s0). R ! k \<longrightarrow> chunk_data s0 f (int k) = chunk_data s0 fl (int k)"
    using up by (auto simp: uploading_def)
  have R: "R ! k" if "k < nat (TotalChunks s0)" for k using all [OF that] u(1) by (simp add: chunk_there_def)
  have ok: "plan_ok s0" "int (length fl) = TotalSize s0" using pl by (auto simp: upload_plan_def)
  have "map (\<lambda>i. chunk_data s0 f (int i)) [0..<nat (TotalChunks s0)] = map (\<lambda>i. chunk_data s0 fl (int i)) [0..<nat (TotalChunks s0)]"
    using u(5) R by (intro map_cong) auto
  then have "f = fl" using concat_chunk_data [OF ok(1) u(4)] concat_chunk_data [OF ok] by metis
  moreover have "list_all (\<lambda>r. r) R" using R u(2) by (auto simp: list_all_length)
  ultimately show ?thesis using u(1,3) by (simp add: AllChunksReceived_def)
qed

text \<open>C30. What is uploaded is what arrives. Let an upload of a file be in progress and let the client send its chunks in any order, any number
  of times, with requests in between whose checksum does not fit their data, and with writes and checksum files that fail halfway; if every chunk
  is sent at least once without such a failure, completing the upload succeeds and puts exactly the bytes of the file at the target,
  the file in flight is gone, the session is completed and no longer merging, and the reservations are settled once.\<close>

theorem upload_roundtrip:
  assumes pl: "upload_plan fl s0" and uid: "uid \<noteq> []" and ck: "FileChecksum s0 = H fl"
    and up: "uploading H fl uid s0 p us"
    and h: "\<forall>(fault, side, i, ck, data) \<in> set reqs. honest H fl s0 i ck data"
    and sent: "\<forall>i. 0 \<le> i \<and> i < TotalChunks s0 \<longrightarrow> (\<exists>data. (None, True, i, H data, data) \<in> set reqs)"
    and t: "complete_target (fold (send_chunk H uid) reqs us) s0 = Some q" "q \<noteq> p"
    and c: "UploadComplete H True True hasScope prev uid (fold (send_chunk H uid) reqs us) = ((r, qs), us')"
  shows "r = CompleteOk \<and> disk us' q = Some fl \<and> disk us' p = None
    \<and> (\<exists>s. sessions us' uid = Some s \<and> Completed s \<and> \<not> Completing s)
    \<and> qs = settleCompleteQuota hasScope (TotalSize s0) prev s0"
proof -
  let ?u = "fold (send_chunk H uid) reqs us"
  note sc = send_chunks [OF pl up h]
  have "chunk_there ?u uid i" if "i < nat (TotalChunks s0)" for i
  proof -
    have i: "0 \<le> int i" "int i < TotalChunks s0" using that by auto
    then obtain data where "(None, True, int i, H data, data) \<in> set reqs" using sent by blast
    then have "chunk_there ?u uid (nat (int i))" using sc i by blast
    then show ?thesis by simp
  qed
  then have st: "uploading H fl uid s0 p ?u" "\<And>i. i < nat (TotalChunks s0) \<Longrightarrow> chunk_there ?u uid i" using sc by blast+
  note fin = uploading_complete_file [OF pl st]
  obtain R C where u: "sessions ?u uid = Some (s0\<lparr>ReceivedChunks := R, ChunkChecksums := C\<rparr>)"
    "Root_Abs (session_root ?u s0) (TempPath s0) = Some p" using st(1) by (auto simp: uploading_def)
  let ?s = "s0\<lparr>ReceivedChunks := R, ChunkChecksums := C\<rparr>"
  let ?u1 = "with_session uid (Some (?s\<lparr>Completing := True\<rparr>)) ?u"
  have ok: "\<not> Completed s0" "\<not> Completing s0" "TempPath s0 \<noteq> []" using pl by (auto simp: upload_plan_def)
  have b: "complete_begin uid ?u = (Inr ?s, ?u1)"
    using u(1) ok uid fin by (simp add: complete_begin_def validateCompleteSession_def GetSession_def BeginComplete_def)
  have root: "session_root ?u1 ?s = session_root ?u s0" using session_root_store [of ?u1 ?u s0] by (simp add: with_session_def)
  have m: "prepareMergedTemp H ?s ?u1 = (Merged, ?u1)"
    using ok(3) u(2) root fin ck by (simp add: prepareMergedTemp_def)
  let ?u2 = "?u1\<lparr>disk := (disk ?u)(p := None, q := Some fl)\<rparr>"
  have rn: "complete_rename True ?s ?u1 = (True, ?u2)"
    using u(2) root fin t(1) by (simp add: complete_rename_def complete_target_def split: option.splits)
  have "UploadComplete H True True hasScope prev uid ?u = ((CompleteOk, settleCompleteQuota hasScope (TotalSize ?s) prev ?s),
      EndComplete uid (finishSessionAfterComplete uid ?u2))"
    using b m rn by (simp add: UploadComplete_def)
  then have res: "r = CompleteOk" "qs = settleCompleteQuota hasScope (TotalSize s0) prev s0"
    "us' = EndComplete uid (finishSessionAfterComplete uid ?u2)" using c by (auto simp: settleCompleteQuota_def)
  have "sessions us' uid = Some (?s\<lparr>Completing := False, Completed := True\<rparr>)" "disk us' = disk ?u2"
    using ok(1) unfolding res(3)
    by (auto simp: EndComplete_def finishSessionAfterComplete_def CompleteSession_def with_session_def request_persist_def)
  then show ?thesis using res t(2) by simp
qed

definition two_session :: upload_session where
  "two_session = sample_session\<lparr>UploadID := ''u2'', Filename := ''f'', TotalSize := 3, ChunkSize := 2, TotalChunks := 2,
     ReceivedChunks := [False, False], ChunkChecksums := [[], []], FileChecksum := replicate 64 (CHR ''0''), TempPath := ''user/.inflight-0000000000000000-u2.part''\<rparr>"

definition two_path :: string where
  "two_path = ''/t/user/.inflight-0000000000000000-u2.part''"

definition two_store :: upload_store where
  "two_store = (empty_uploads ''/t'')\<lparr>sessions := (\<lambda>_. None)(''u2'' := Some two_session),
     dirs := (\<lambda>_. None)(''u2'' := Some \<lparr>json = NoJson, sidecars = (\<lambda>_. None)\<rparr>), disk := (\<lambda>_. None)(two_path := Some [0, 0, 0])\<rparr>"

definition two_requests :: "chunk_request list" where
  "two_requests = [(None, True, 1, replicate 64 (CHR ''0''), [7]), (Some 1, True, 0, replicate 64 (CHR ''0''), [5, 6]),
     (None, True, 0, ''bad'', [9]), (None, True, 0, replicate 64 (CHR ''0''), [5, 6])]"

lemma two_upload: "upload_plan [5, 6, 7] two_session" "uploading zero_digest [5, 6, 7] ''u2'' two_session two_path two_store"
proof -
  show "upload_plan [5, 6, 7] two_session" by code_simp
  have "Root_Abs (session_root two_store two_session) (TempPath two_session) = Some two_path" by code_simp
  then show "uploading zero_digest [5, 6, 7] ''u2'' two_session two_path two_store" unfolding uploading_def
    by (intro exI [of _ "[False, False]"] exI [of _ "[[], []]"] exI [of _ "[0, 0, 0]"] exI [of _ "\<lparr>json = NoJson, sidecars = (\<lambda>_. None)\<rparr>"])
       (auto simp: two_store_def two_session_def less_Suc_eq numeral_2_eq_2)
qed

theorem upload_roundtrip_witness:
  "\<exists>us'. UploadComplete zero_digest True True False 0 ''u2'' (fold (send_chunk zero_digest ''u2'') two_requests two_store)
       = ((CompleteOk, []), us') \<and> disk us' ''/t/user/f'' = Some [5, 6, 7]"
proof -
  let ?u = "fold (send_chunk zero_digest ''u2'') two_requests two_store"
  obtain r qs us' where c: "UploadComplete zero_digest True True False 0 ''u2'' ?u = ((r, qs), us')"
    by (cases "UploadComplete zero_digest True True False 0 ''u2'' ?u") auto
  have t: "complete_target ?u two_session = Some ''/t/user/f''" by code_simp
  have cd: "chunk_data two_session [5, 6, 7 :: 8 word] 0 = [5, 6]" "chunk_data two_session [5, 6, 7 :: 8 word] 1 = [7]" by code_simp+
  have tc: "TotalChunks two_session = 2" by (simp add: two_session_def)
  have h: "\<forall>(fault, side, i, ck, data) \<in> set two_requests. honest zero_digest [5, 6, 7] two_session i ck data"
  proof -
    have "replicate 64 (CHR ''0'') \<noteq> ''bad''" by code_simp
    then show ?thesis using cd by (simp add: two_requests_def honest_def zero_digest_def)
  qed
  have s: "\<forall>i. 0 \<le> i \<and> i < TotalChunks two_session \<longrightarrow> (\<exists>data. (None, True, i, zero_digest data, data) \<in> set two_requests)"
  proof (intro allI impI)
    fix i assume "0 \<le> i \<and> i < TotalChunks two_session"
    then have "i = 0 \<or> i = 1" using tc by auto
    then show "\<exists>data. (None, True, i, zero_digest data, data) \<in> set two_requests" by (auto simp: two_requests_def zero_digest_def)
  qed
  have "FileChecksum two_session = zero_digest [5, 6, 7]" by (simp add: two_session_def zero_digest_def)
  from upload_roundtrip [OF two_upload(1) _ this two_upload(2) h s t _ c] c show ?thesis
    by (simp add: two_path_def settleCompleteQuota_def two_session_def sample_session_def)
qed

section \<open>Sessions that cannot be finished\<close>

text \<open>
  If the file in flight is missing, completion reports every chunk as damaged but leaves the bitmap as it is, so that a client that sends the
  chunks again is told each time that the chunk is already there: neither request changes anything.
\<close>

lemma missing_temp_stuck:
  assumes s: "sessions us uid = Some s" "uid \<noteq> []" "UploadID s = uid" "\<not> Completed s" "\<not> Completing s" "list_all (\<lambda>r. r) (ReceivedChunks s)"
    and t: "TempPath s \<noteq> []" "Root_Abs (session_root us s) (TempPath s) = Some p" "disk us p = None"
    and i: "0 \<le> i" "i < TotalChunks s" "nat i < length (ReceivedChunks s)"
  shows "fst (UploadComplete H True True hs prev uid us) = (CompleteMismatch (allMismatchIndices s), [])
    \<and> sessions (snd (UploadComplete H True True hs prev uid us)) = sessions us
    \<and> disk (snd (UploadComplete H True True hs prev uid us)) = disk us
    \<and> UploadChunk H fault side uid i (ChunkChecksums s ! nat i) data us = (ChunkSkipped, us)"
proof -
  let ?u1 = "with_session uid (Some (s\<lparr>Completing := True\<rparr>)) us"
  have "complete_begin uid us = (Inr s, ?u1)"
    using s by (simp add: complete_begin_def validateCompleteSession_def GetSession_def BeginComplete_def AllChunksReceived_def)
  moreover have "prepareMergedTemp H s ?u1 = (MergeMismatch (allMismatchIndices s), ?u1)"
    using t session_root_store [of ?u1 us s] by (simp add: prepareMergedTemp_def with_session_def)
  ultimately have "UploadComplete H True True hs prev uid us = ((CompleteMismatch (allMismatchIndices s), []), EndComplete uid ?u1)"
    by (simp add: UploadComplete_def)
  moreover have "sessions (EndComplete uid ?u1) = sessions us" using s by (auto simp: EndComplete_def with_session_def fun_eq_iff)
  moreover have "ReceivedChunks s ! nat i" using s(6) i(3) by (simp add: list_all_length)
  then have "UploadChunk H fault side uid i (ChunkChecksums s ! nat i) data us = (ChunkSkipped, us)"
    using s i by (simp add: UploadChunk_def GetSession_def checkChunkAcceptable_def)
  ultimately show ?thesis by (simp add: EndComplete_def with_session_def split: option.split)
qed

text \<open>
  A session without a file in flight, left by a crash during init, is found again by the next init, which then creates no file:
  sending a chunk is refused and asks for another init, and completing fails.
\<close>

lemma session_without_temp_stuck:
  assumes s: "sessions us uid = Some s" "uid \<noteq> []" "\<not> Completed s" "\<not> Completing s" "TempPath s = []"
    and i: "0 \<le> i" "i < TotalChunks s" "\<not> ReceivedChunks s ! nat i"
  shows "GetOrCreateSession ord m w now uid (Filename s) (TotalSize s) cs tc (FileChecksum s) mt us = (Inr (s, True), us)
    \<and> UploadChunk H fault side uid i ck data us = (ChunkNoTemp, us)"
  using assms by (simp add: GetOrCreateSession_def UploadChunk_def UploadChunk_locked_def GetSession_def checkChunkAcceptable_def)

end
