(* ===== verification/Upload_Barrier.thy ===== *)
theory Upload_Barrier
  imports Upload_Chunks
begin

text \<open>
  Concurrent requests on one upload: \<open>UploadChunk\<close> and \<open>UploadComplete\<close> (\<open>pkg/files/chunked_upload.go\<close>) as threads whose steps interleave, with the
  lock of the upload (\<open>ChunkFileLocker\<close>, \<open>pkg/files/chunked_store.go\<close>): chunks hold it shared, the verification of the whole file holds it alone and gives it up before the
  rename, and from the flag \<open>Completing\<close> on no chunk passes its check. The rest of the system may change everything else of the store,
  and may remove the session and its file together, which also forgets the lock. Registering another session under the same id
  while requests of the removed one still run is left out.
\<close>

section \<open>Threads\<close>

datatype thread = Idle
  | AtLock int string octets | Holding int string octets | Checked upload_session int string octets
  | Written int string | Marked int string
  | Begun upload_session | Merging upload_session | Verified upload_session | Placed | Ending

text \<open>A chunk request holds the shared lock from \<open>Holding\<close> on, a completion the exclusive one in \<open>Merging\<close>.\<close>

fun holds_io :: "thread \<Rightarrow> bool" where
  "holds_io (Holding i ck d) = True"
| "holds_io (Checked s i ck d) = True"
| "holds_io (Written i ck) = True"
| "holds_io (Marked i ck) = True"
| "holds_io _ = False"

fun holds_merge :: "thread \<Rightarrow> bool" where
  "holds_merge (Merging s) = True"
| "holds_merge _ = False"

fun completing :: "thread \<Rightarrow> bool" where
  "completing (Begun s) = True"
| "completing (Merging s) = True"
| "completing (Verified s) = True"
| "completing Placed = True"
| "completing Ending = True"
| "completing _ = False"

type_synonym upload_world = "upload_store \<times> thread list"

text \<open>
  Whether the lock is granted. Removing the session forgets its lock (\<open>DeleteLock\<close>), so that later requests get a new one whoever holds the old one.
\<close>

definition LockChunkIO :: "string \<Rightarrow> upload_store \<Rightarrow> thread list \<Rightarrow> bool" where
  "LockChunkIO uid us ths = (sessions us uid = None \<or> \<not> list_ex holds_merge ths)"

definition LockChunkMerge :: "string \<Rightarrow> upload_store \<Rightarrow> thread list \<Rightarrow> bool" where
  "LockChunkMerge uid us ths = (sessions us uid = None \<or> \<not> list_ex holds_merge ths \<and> \<not> list_ex holds_io ths)"

section \<open>Steps\<close>

text \<open>The steps of \<open>UploadChunk\<close>: the check before the lock, the lock, the check under it, the write, the two halves of marking the chunk.\<close>

definition step_start :: "string \<Rightarrow> int \<Rightarrow> string \<Rightarrow> octets \<Rightarrow> upload_store \<Rightarrow> thread" where
  "step_start uid i ck d us =
     (case GetSession us uid of
        None \<Rightarrow> Idle
      | Some s \<Rightarrow> (case checkChunkAcceptable s i ck of Some r \<Rightarrow> Idle | None \<Rightarrow> AtLock i ck d))"

definition step_check :: "digest \<Rightarrow> string \<Rightarrow> int \<Rightarrow> string \<Rightarrow> octets \<Rightarrow> upload_store \<Rightarrow> thread" where
  "step_check H uid i ck d us =
     (case GetSession us uid of
        None \<Rightarrow> Idle
      | Some s \<Rightarrow> (case checkChunkAcceptable s i ck of
                     Some r \<Rightarrow> Idle
                   | None \<Rightarrow> if TempPath s = [] \<or> H d \<noteq> ck then Idle else Checked s i ck d))"

definition step_write :: "nat option \<Rightarrow> upload_session \<Rightarrow> int \<Rightarrow> string \<Rightarrow> octets \<Rightarrow> upload_store \<Rightarrow> thread \<times> upload_store" where
  "step_write fault s i ck d us =
     (case writeChunkDirect fault s (chunk_offset s i) (chunkLenAt s i) d us of
        (True, us1) \<Rightarrow> (Written i ck, us1) | (False, us1) \<Rightarrow> (Idle, us1))"

definition step_mark :: "bool \<Rightarrow> string \<Rightarrow> int \<Rightarrow> string \<Rightarrow> upload_store \<Rightarrow> thread \<times> upload_store" where
  "step_mark side uid i ck us =
     (case MarkChunk_begin side uid i ck us of (None, us1) \<Rightarrow> (Marked i ck, us1) | (Some e, us1) \<Rightarrow> (Idle, us1))"

text \<open>The steps of \<open>UploadComplete\<close>: the flag, the lock of the target (refused), the exclusive lock, the verification, the rename.\<close>

definition step_begin :: "string \<Rightarrow> upload_store \<Rightarrow> thread \<times> upload_store" where
  "step_begin uid us = (case complete_begin uid us of (Inr s, us1) \<Rightarrow> (Begun s, us1) | (Inl r, us1) \<Rightarrow> (Idle, us1))"

definition step_verify :: "digest \<Rightarrow> upload_session \<Rightarrow> upload_store \<Rightarrow> thread \<times> upload_store" where
  "step_verify H s us = (case prepareMergedTemp H s us of (m, us1) \<Rightarrow> (if m = Merged then Verified s else Ending, us1))"

definition step_rename :: "bool \<Rightarrow> upload_session \<Rightarrow> upload_store \<Rightarrow> thread \<times> upload_store" where
  "step_rename renamed s us = (case complete_rename renamed s us of (ok, us1) \<Rightarrow> (if ok then Placed else Ending, us1))"

text \<open>One thread moves, in a state where the other threads hold the locks they hold. Each rule is one section of the code between two points where another goroutine may run.\<close>

inductive thread_step :: "digest \<Rightarrow> string \<Rightarrow> thread list \<Rightarrow> thread \<Rightarrow> upload_store \<Rightarrow> thread \<Rightarrow> upload_store \<Rightarrow> bool"
  for H :: digest and uid :: string and ths :: "thread list" where
  start: "thread_step H uid ths Idle us (step_start uid i ck d us) us"
| lock_io: "LockChunkIO uid us ths \<Longrightarrow> thread_step H uid ths (AtLock i ck d) us (Holding i ck d) us"
| check_chunk: "thread_step H uid ths (Holding i ck d) us (step_check H uid i ck d us) us"
| write_chunk: "step_write fault s i ck d us = (th, us1) \<Longrightarrow> thread_step H uid ths (Checked s i ck d) us th us1"
| mark_chunk: "step_mark side uid i ck us = (th, us1) \<Longrightarrow> thread_step H uid ths (Written i ck) us th us1"
| mark_finish: "thread_step H uid ths (Marked i ck) us Idle (snd (MarkChunk_finish uid i ck us))"
| begin_complete: "step_begin uid us = (th, us1) \<Longrightarrow> thread_step H uid ths Idle us th us1"
| target_busy: "thread_step H uid ths (Begun s) us Ending us"
| lock_merge: "LockChunkMerge uid us ths \<Longrightarrow> thread_step H uid ths (Begun s) us (Merging s) us"
| verify_file: "step_verify H s us = (th, us1) \<Longrightarrow> thread_step H uid ths (Merging s) us th us1"
| rename_file: "step_rename renamed s us = (th, us1) \<Longrightarrow> thread_step H uid ths (Verified s) us th us1"
| finish_session: "thread_step H uid ths Placed us Ending (finishSessionAfterComplete uid us)"
| end_complete: "thread_step H uid ths Ending us Idle (EndComplete uid us)"

text \<open>
  What the rest of the system may do meanwhile: anything to other sessions and files; to this session only what keeps its identity and flags;
  or remove it together with its file.
\<close>

definition alike :: "upload_session \<Rightarrow> upload_session \<Rightarrow> bool" where
  "alike s t \<longleftrightarrow> TempPath t = TempPath s \<and> Volume t = Volume s \<and> StagingVolume t = StagingVolume s
     \<and> FileChecksum t = FileChecksum s \<and> Filename t = Filename s \<and> UploadID t = UploadID s"

definition others_ok :: "string \<Rightarrow> string \<Rightarrow> upload_store \<Rightarrow> upload_store \<Rightarrow> bool" where
  "others_ok uid p us us' \<longleftrightarrow> ownRoot us' = ownRoot us \<and> volTenantRoots us' = volTenantRoots us
     \<and> (case (sessions us uid, sessions us' uid) of
          (Some s, Some s') \<Rightarrow> alike s s' \<and> Completing s' = Completing s \<and> disk us' p = disk us p
        | (None, Some s') \<Rightarrow> False
        | (_, None) \<Rightarrow> disk us' p = None)"

inductive world_steps :: "digest \<Rightarrow> string \<Rightarrow> string \<Rightarrow> upload_world \<Rightarrow> upload_world \<Rightarrow> bool"
  for H :: digest and uid :: string and p :: string where
  none: "world_steps H uid p w w"
| thread: "world_steps H uid p w (us, ths) \<Longrightarrow> t < length ths \<Longrightarrow> thread_step H uid ths (ths ! t) us th us1
     \<Longrightarrow> world_steps H uid p w (us1, ths[t := th])"
| others: "world_steps H uid p w (us, ths) \<Longrightarrow> others_ok uid p us us1 \<Longrightarrow> world_steps H uid p w (us1, ths)"

section \<open>Invariant\<close>

fun thread_alike :: "upload_session \<Rightarrow> thread \<Rightarrow> bool" where
  "thread_alike s0 (Checked s i ck d) = alike s0 s"
| "thread_alike s0 (Begun s) = alike s0 s"
| "thread_alike s0 (Merging s) = alike s0 s"
| "thread_alike s0 (Verified s) = alike s0 s"
| "thread_alike s0 _ = True"

fun writing :: "thread \<Rightarrow> bool" where
  "writing (Checked s i ck d) = True"
| "writing _ = False"

fun verified_thread :: "thread \<Rightarrow> bool" where
  "verified_thread (Verified s) = True"
| "verified_thread _ = False"

definition intact :: "digest \<Rightarrow> upload_session \<Rightarrow> string \<Rightarrow> upload_store \<Rightarrow> bool" where
  "intact H s0 p us \<longleftrightarrow> (\<forall>f. disk us p = Some f \<longrightarrow> H f = FileChecksum s0)"

text \<open>
  While the session exists: at most one thread completes it, and then its flag is set; nobody writes while the file is verified, nor from
  then until the rename, and what was verified is what is there. Without the session there is no file.
\<close>

definition excluded :: "digest \<Rightarrow> string \<Rightarrow> upload_session \<Rightarrow> upload_session \<Rightarrow> upload_store \<Rightarrow> thread list \<Rightarrow> bool" where
  "excluded H p s0 s us ths \<longleftrightarrow> alike s0 s
     \<and> (\<forall>t < length ths. completing (ths ! t) \<longrightarrow> Completing s \<and> (\<forall>u < length ths. completing (ths ! u) \<longrightarrow> u = t))
     \<and> (\<forall>t < length ths. holds_merge (ths ! t) \<longrightarrow> (\<forall>u < length ths. \<not> holds_io (ths ! u)))
     \<and> (\<forall>t < length ths. verified_thread (ths ! t) \<longrightarrow> (\<forall>u < length ths. \<not> writing (ths ! u)) \<and> intact H s0 p us)"

definition barrier :: "digest \<Rightarrow> string \<Rightarrow> string \<Rightarrow> upload_session \<Rightarrow> upload_world \<Rightarrow> bool" where
  "barrier H uid p s0 w \<longleftrightarrow> (case w of (us, ths) \<Rightarrow>
     Root_Abs (session_root us s0) (TempPath s0) = Some p \<and> UploadID s0 = uid \<and> (\<forall>th \<in> set ths. thread_alike s0 th)
     \<and> (case sessions us uid of None \<Rightarrow> disk us p = None | Some s \<Rightarrow> excluded H p s0 s us ths))"

lemma thread_kinds:
  "verified_thread th \<Longrightarrow> completing th" "holds_merge th \<Longrightarrow> completing th" "writing th \<Longrightarrow> holds_io th"
  "holds_io th \<Longrightarrow> \<not> completing th" "verified_thread th \<Longrightarrow> \<not> holds_merge th"
  by (cases th; simp)+

text \<open>What a step of one thread must satisfy to keep the exclusion.\<close>

definition step_fits :: "digest \<Rightarrow> string \<Rightarrow> upload_session \<Rightarrow> thread list \<Rightarrow> thread \<Rightarrow> upload_session \<Rightarrow> upload_store
    \<Rightarrow> thread \<Rightarrow> upload_session \<Rightarrow> upload_store \<Rightarrow> bool" where
  "step_fits H p s0 ths th s us th1 s1 us1 \<longleftrightarrow> alike s0 s1
     \<and> (completing th1 \<longrightarrow> (if completing th then Completing s \<longrightarrow> Completing s1 else \<not> Completing s \<and> Completing s1))
     \<and> (Completing s \<longrightarrow> Completing s1 \<or> completing th)
     \<and> (holds_merge th1 \<longrightarrow> holds_merge th \<or> \<not> list_ex holds_merge ths \<and> \<not> list_ex holds_io ths)
     \<and> (holds_io th1 \<longrightarrow> holds_io th \<or> \<not> list_ex holds_merge ths)
     \<and> (verified_thread th1 \<longrightarrow> holds_merge th \<and> intact H s0 p us1)
     \<and> (writing th1 \<longrightarrow> \<not> Completing s)
     \<and> (disk us1 p = disk us p \<or> writing th \<or> verified_thread th)"

lemma excludedD:
  assumes "excluded H p s0 s us ths" "t < length ths" "u < length ths"
  shows "completing (ths ! t) \<Longrightarrow> Completing s" "completing (ths ! t) \<Longrightarrow> completing (ths ! u) \<Longrightarrow> u = t"
    "holds_merge (ths ! t) \<Longrightarrow> \<not> holds_io (ths ! u)" "verified_thread (ths ! t) \<Longrightarrow> \<not> writing (ths ! u)"
    "verified_thread (ths ! t) \<Longrightarrow> intact H s0 p us"
  using assms unfolding excluded_def by blast+

lemma excludedI:
  assumes "alike s0 s"
    and "\<And>t. t < length ths \<Longrightarrow> completing (ths ! t) \<Longrightarrow> Completing s"
    and "\<And>t u. t < length ths \<Longrightarrow> u < length ths \<Longrightarrow> t \<noteq> u \<Longrightarrow> completing (ths ! t) \<Longrightarrow> \<not> completing (ths ! u)"
    and "\<And>t u. t < length ths \<Longrightarrow> u < length ths \<Longrightarrow> t \<noteq> u \<Longrightarrow> holds_merge (ths ! t) \<Longrightarrow> \<not> holds_io (ths ! u)"
    and "\<And>t u. t < length ths \<Longrightarrow> u < length ths \<Longrightarrow> t \<noteq> u \<Longrightarrow> verified_thread (ths ! t) \<Longrightarrow> \<not> writing (ths ! u)"
    and "\<And>t. t < length ths \<Longrightarrow> verified_thread (ths ! t) \<Longrightarrow> intact H s0 p us"
  shows "excluded H p s0 s us ths"
proof -
  have "\<not> holds_io (ths ! u)" if "t < length ths" "u < length ths" "holds_merge (ths ! t)" for t u
    using assms(4) [OF that(1,2) _ that(3)] that(3) thread_kinds(2,4) [of "ths ! t"] by (cases "t = u") auto
  moreover have "\<not> writing (ths ! u)" if "t < length ths" "u < length ths" "verified_thread (ths ! t)" for t u
    using assms(5) [OF that(1,2) _ that(3)] that(3) thread_kinds(1,3,4) [of "ths ! t"] by (cases "t = u") auto
  ultimately show ?thesis unfolding excluded_def using assms(1,2,3,6) by blast
qed

lemma step_fitsD:
  assumes "step_fits H p s0 ths th s us th1 s1 us1"
  shows "alike s0 s1" "completing th1 \<Longrightarrow> completing th \<or> \<not> Completing s" "completing th1 \<Longrightarrow> Completing s1 \<or> completing th \<and> \<not> Completing s"
    "Completing s \<Longrightarrow> Completing s1 \<or> completing th"
    "holds_merge th1 \<Longrightarrow> holds_merge th \<or> \<not> list_ex holds_io ths"
    "holds_io th1 \<Longrightarrow> holds_io th \<or> \<not> list_ex holds_merge ths"
    "verified_thread th1 \<Longrightarrow> holds_merge th" "verified_thread th1 \<Longrightarrow> intact H s0 p us1" "writing th1 \<Longrightarrow> \<not> Completing s"
    "disk us1 p = disk us p \<or> writing th \<or> verified_thread th"
  using assms unfolding step_fits_def by (auto split: if_splits)

lemma excluded_step:
  assumes ex: "excluded H p s0 s us ths" and t: "t < length ths" and fit: "step_fits H p s0 ths (ths ! t) s us th1 s1 us1"
  shows "excluded H p s0 s1 us1 (ths[t := th1])"
proof (rule excludedI)
  note f = step_fitsD [OF fit]
  show "alike s0 s1" by (rule f(1))
  fix v assume "v < length (ths[t := th1])"
  then have v: "v < length ths" by simp
  note ev = excludedD [OF ex v t] and et = excludedD [OF ex t v]
  show "Completing s1" if "completing (ths[t := th1] ! v)"
    using that f(3,4) et(1) ev(1,2) t v by (cases "v = t") auto
  show "intact H s0 p us1" if "verified_thread (ths[t := th1] ! v)"
  proof (cases "v = t")
    case False
    then have vv: "verified_thread (ths ! v)" using that by simp
    then have "\<not> verified_thread (ths ! t)" using ev(2) False thread_kinds(1) by blast
    then show ?thesis using f(10) ev(4,5) vv by (simp add: intact_def)
  qed (use that f(8) t in simp)
  fix u assume "u < length (ths[t := th1])" and ne: "v \<noteq> u"
  then have u: "u < length ths" by simp
  note eu = excludedD [OF ex u t] excludedD [OF ex t u] and e = excludedD [OF ex v u]
  show "\<not> completing (ths[t := th1] ! u)" if "completing (ths[t := th1] ! v)"
    using that ne f(2) e(2) ev(1,2) eu(1,2) t by (cases "v = t"; cases "u = t") auto
  show "\<not> holds_io (ths[t := th1] ! u)" if "holds_merge (ths[t := th1] ! v)"
    using that ne f(5,6) e(3) ev(3) et(3) eu(3,8) t u v
    by (cases "v = t"; cases "u = t") (auto simp: list_ex_length)
  show "\<not> writing (ths[t := th1] ! u)" if "verified_thread (ths[t := th1] ! v)"
    using that ne f(7,9) e(4) ev(1,4) eu(8) t u v thread_kinds(1,3) by (cases "v = t"; cases "u = t") auto
qed

section \<open>Every step keeps the exclusion\<close>

definition step_keeps :: "digest \<Rightarrow> string \<Rightarrow> string \<Rightarrow> upload_session \<Rightarrow> thread list \<Rightarrow> thread \<Rightarrow> upload_store \<Rightarrow> thread \<Rightarrow> upload_store \<Rightarrow> bool" where
  "step_keeps H uid p s0 ths th us th1 us1 \<longleftrightarrow> ownRoot us1 = ownRoot us \<and> volTenantRoots us1 = volTenantRoots us \<and> thread_alike s0 th1
     \<and> (case sessions us uid of
          None \<Rightarrow> sessions us1 uid = None \<and> (disk us p = None \<longrightarrow> disk us1 p = None)
        | Some s \<Rightarrow> \<exists>s1. sessions us1 uid = Some s1 \<and> step_fits H p s0 ths th s us th1 s1 us1)"

definition in_place :: "string \<Rightarrow> string \<Rightarrow> upload_session \<Rightarrow> upload_store \<Rightarrow> bool" where
  "in_place uid p s0 us \<longleftrightarrow> Root_Abs (session_root us s0) (TempPath s0) = Some p \<and> UploadID s0 = uid
     \<and> (\<forall>s. sessions us uid = Some s \<longrightarrow> alike s0 s)"

lemma step_keeps_same:
  assumes "in_place uid p s0 us" "thread_alike s0 th1" "\<And>s. sessions us uid = Some s \<Longrightarrow> alike s0 s \<Longrightarrow> step_fits H p s0 ths th s us th1 s us"
  shows "step_keeps H uid p s0 ths th us th1 us"
  using assms by (auto simp: step_keeps_def in_place_def split: option.split)

lemma alike_root: "alike s t \<Longrightarrow> session_root us t = session_root us s"
  by (simp add: alike_def session_root_def tenantRootForStaging_def)

lemma alike_temp: "in_place uid p s0 us \<Longrightarrow> alike s0 s \<Longrightarrow> Root_Abs (session_root us s) (TempPath s) = Some p"
  using alike_root [of s0 s us] by (simp add: in_place_def alike_def)

lemma set_received_alike: "set_received i b ck s = Some s' \<Longrightarrow> alike s s' \<and> Completing s' = Completing s"
  by (auto simp: set_received_def alike_def split: if_splits)

lemma alike_refl [simp]: "alike s s"
  by (simp add: alike_def)

lemma alike_trans: "alike r s \<Longrightarrow> alike s t \<Longrightarrow> alike r t"
  by (simp add: alike_def)

lemma clear_loop_alike: "clear_loop is s = (e, s') \<Longrightarrow> alike s s' \<and> Completing s' = Completing s"
  by (induction "is" arbitrary: s e s')
     (auto simp: alike_def split: if_splits option.splits dest: set_received_alike)

text \<open>A change of the session's bookkeeping that keeps its flag.\<close>

definition same_book :: "string \<Rightarrow> upload_store \<Rightarrow> upload_store \<Rightarrow> bool" where
  "same_book uid us us1 \<longleftrightarrow> ownRoot us1 = ownRoot us \<and> volTenantRoots us1 = volTenantRoots us \<and> disk us1 = disk us
     \<and> (case sessions us uid of
          None \<Rightarrow> sessions us1 uid = None
        | Some s \<Rightarrow> \<exists>s1. sessions us1 uid = Some s1 \<and> alike s s1 \<and> Completing s1 = Completing s)"

lemma same_book_refl [simp]: "same_book uid us us"
  by (simp add: same_book_def split: option.split)

lemma step_keeps_book:
  assumes i: "in_place uid p s0 us" and b: "same_book uid us us1" and a: "thread_alike s0 th1"
    and f: "\<And>s s1. sessions us uid = Some s \<Longrightarrow> alike s0 s1 \<Longrightarrow> Completing s1 = Completing s \<Longrightarrow> disk us1 = disk us
      \<Longrightarrow> step_fits H p s0 ths th s us th1 s1 us1"
  shows "step_keeps H uid p s0 ths th us th1 us1"
proof (cases "sessions us uid")
  case None
  then show ?thesis using b a by (simp add: same_book_def step_keeps_def)
next
  case (Some s)
  then obtain s1 where s1: "sessions us1 uid = Some s1" "alike s s1" "Completing s1 = Completing s" "disk us1 = disk us"
    "ownRoot us1 = ownRoot us" "volTenantRoots us1 = volTenantRoots us"
    using b by (auto simp: same_book_def)
  have "alike s0 s1" using i Some s1(2) alike_trans by (auto simp: in_place_def)
  then show ?thesis using f [OF Some _ s1(3,4)] s1 Some a by (auto simp: step_keeps_def)
qed

lemma same_book_ops:
  "same_book uid us (snd (MarkChunk_finish uid i ck us))"
  "same_book uid us (snd (MarkChunk_begin side uid i ck us))"
  "same_book uid us (snd (ClearChunksReceived uid ms us))"
  "same_book uid us (finishSessionAfterComplete uid us)"
proof -
  show "same_book uid us (snd (MarkChunk_finish uid i ck us))"
    by (auto simp: MarkChunk_finish_def same_book_def request_persist_def with_session_def split: option.split dest: set_received_alike)
  show "same_book uid us (snd (MarkChunk_begin side uid i ck us))"
    by (auto simp: MarkChunk_begin_def persistChunkChecksum_def same_book_def with_dir_def split: option.split)
  show "same_book uid us (snd (ClearChunksReceived uid ms us))"
    by (auto simp: ClearChunksReceived_def same_book_def request_persist_def with_session_def split: option.split prod.split dest: clear_loop_alike)
  show "same_book uid us (finishSessionAfterComplete uid us)"
    by (auto simp: finishSessionAfterComplete_def CompleteSession_def same_book_def request_persist_def with_session_def alike_def split: option.split)
qed

lemma same_book_verify: "UploadID s = uid \<Longrightarrow> prepareMergedTemp H s us = (m, us1) \<Longrightarrow> same_book uid us us1"
  using same_book_ops(3) [of uid us] by (auto simp: prepareMergedTemp_def Let_def split: if_splits option.splits)

lemma verify_ok:
  assumes "in_place uid p s0 us" "alike s0 s" "prepareMergedTemp H s us = (Merged, us1)"
  shows "intact H s0 p us1"
  using assms alike_temp [OF assms(1,2)]
  by (auto simp: prepareMergedTemp_def intact_def alike_def Let_def split: if_splits option.splits)

lemmas fits = step_fits_def LockChunkIO_def LockChunkMerge_def

lemma check_acceptable: "checkChunkAcceptable s i ck = None \<Longrightarrow> \<not> Completing s"
  by (auto simp: checkChunkAcceptable_def split: if_splits)

lemma complete_begin_inr:
  "complete_begin uid us = (Inr s, us1) \<longleftrightarrow>
     validateCompleteSession us uid = Inr s \<and> sessions us uid = Some s \<and> \<not> Completed s \<and> \<not> Completing s
     \<and> us1 = with_session uid (Some (s\<lparr>Completing := True\<rparr>)) us"
  by (auto simp: complete_begin_def validateCompleteSession_def GetSession_def BeginComplete_def split: option.splits if_splits)

lemma writeChunkDirect_effect:
  assumes "Root_Abs (session_root us s) (TempPath s) = Some p" "snd (writeChunkDirect fault s off limit d us) = us1"
  shows "ownRoot us1 = ownRoot us \<and> volTenantRoots us1 = volTenantRoots us \<and> sessions us1 = sessions us \<and> (disk us p = None \<longrightarrow> us1 = us)"
  using assms by (auto simp: writeChunkDirect_def openSessionTempWrite_def split: option.splits prod.splits)

lemma complete_rename_effect:
  assumes "Root_Abs (session_root us s) (TempPath s) = Some p" "snd (complete_rename b s us) = us1"
  shows "ownRoot us1 = ownRoot us \<and> volTenantRoots us1 = volTenantRoots us \<and> sessions us1 = sessions us \<and> (disk us p = None \<longrightarrow> us1 = us)"
  using assms by (auto simp: complete_rename_def split: option.splits)

lemma thread_step_ok:
  assumes "thread_step H uid ths th us th1 us1" "in_place uid p s0 us" "thread_alike s0 th"
  shows "step_keeps H uid p s0 ths th us th1 us1"
  using assms
proof (cases rule: thread_step.cases)
  case (start i ck d)
  have "step_start uid i ck d us = Idle \<or> step_start uid i ck d us = AtLock i ck d" by (auto simp: step_start_def split: option.split)
  then show ?thesis using start assms by (auto intro!: step_keeps_same simp: fits)
next
  case (check_chunk i ck d)
  then show ?thesis using assms
    by (auto intro!: step_keeps_same simp: fits step_check_def GetSession_def in_place_def check_acceptable split: option.split)
next
  case (lock_io i ck d)
  then show ?thesis using assms by (auto intro!: step_keeps_same simp: fits)
next
  case (lock_merge s)
  then show ?thesis using assms by (auto intro!: step_keeps_same simp: fits in_place_def)
next
  case (target_busy s)
  then show ?thesis using assms by (auto intro!: step_keeps_same simp: fits)
next
  case (mark_chunk side i ck)
  then have "us1 = snd (MarkChunk_begin side uid i ck us)" "th1 = Idle \<or> th1 = Marked i ck"
    by (auto simp: step_mark_def split: prod.splits option.splits)
  then show ?thesis using mark_chunk assms same_book_ops(2) by (intro step_keeps_book) (auto simp: fits)
next
  case (mark_finish i ck)
  then show ?thesis using assms same_book_ops(1) by (intro step_keeps_book) (auto simp: fits)
next
  case finish_session
  then show ?thesis using assms same_book_ops(4) by (intro step_keeps_book) (auto simp: fits)
next
  case (verify_file s)
  then obtain m where m: "prepareMergedTemp H s us = (m, us1)" "th1 = (if m = Merged then Verified s else Ending)"
    by (auto simp: step_verify_def split: prod.splits)
  have "UploadID s = uid" using assms verify_file by (auto simp: alike_def in_place_def)
  note sb = same_book_verify [OF this m(1)]
  show ?thesis using verify_file assms m sb verify_ok [of uid p s0 us s H us1] by (intro step_keeps_book) (auto simp: fits)
next
  case end_complete
  then show ?thesis using assms by (cases "sessions us uid") (simp_all add: step_keeps_def fits EndComplete_def with_session_def in_place_def alike_def)
next
  case begin_complete
  show ?thesis
  proof (cases "fst (complete_begin uid us)")
    case (Inl r)
    then have "th1 = Idle" "us1 = us"
      using begin_complete
      by (auto simp: step_begin_def complete_begin_def BeginComplete_def split: sum.splits prod.splits option.splits if_splits)
    then show ?thesis using begin_complete assms by (auto intro!: step_keeps_same simp: fits)
  next
    case (Inr s)
    then have cb: "complete_begin uid us = (Inr s, snd (complete_begin uid us))" by (metis prod.collapse)
    then have "th1 = Begun s" "us1 = snd (complete_begin uid us)" using begin_complete(2) by (auto simp: step_begin_def split: prod.splits)
    then have "th1 = Begun s" "us1 = with_session uid (Some (s\<lparr>Completing := True\<rparr>)) us" "sessions us uid = Some s" "\<not> Completing s"
      using cb [unfolded complete_begin_inr] by simp_all
    then show ?thesis using begin_complete assms by (simp add: step_keeps_def fits with_session_def in_place_def alike_def)
  qed
next
  case (write_chunk fault s i ck d)
  then have w: "snd (writeChunkDirect fault s (chunk_offset s i) (chunkLenAt s i) d us) = us1" and th1: "th1 = Idle \<or> th1 = Written i ck"
    by (auto simp: step_write_def split: prod.splits bool.splits)
  have "Root_Abs (session_root us s) (TempPath s) = Some p" using alike_temp [OF assms(2)] assms(3) write_chunk by simp
  note w1 = writeChunkDirect_effect [OF this w]
  show ?thesis using write_chunk assms th1 w1 by (auto simp: step_keeps_def fits in_place_def split: option.split)
next
  case (rename_file b s)
  then have r: "snd (complete_rename b s us) = us1" and th1: "th1 = Placed \<or> th1 = Ending"
    by (auto simp: step_rename_def split: prod.splits if_splits)
  have "Root_Abs (session_root us s) (TempPath s) = Some p" using alike_temp [OF assms(2)] assms(3) rename_file by simp
  note r1 = complete_rename_effect [OF this r]
  show ?thesis using rename_file assms th1 r1 by (auto simp: step_keeps_def fits in_place_def split: option.split)
qed

lemma excluded_alike: "excluded H p s0 s us ths \<Longrightarrow> alike s0 s"
  by (simp add: excluded_def)

lemma excluded_others:
  assumes "excluded H p s0 s us ths" "alike s s1" "Completing s1 = Completing s" "disk us1 p = disk us p"
  shows "excluded H p s0 s1 us1 ths"
proof -
  have "alike s0 s1" using assms(2) excluded_alike [OF assms(1)] alike_trans by blast
  then show ?thesis using assms(1) unfolding excluded_def intact_def assms(3,4) by blast
qed

lemma barrierD:
  assumes "barrier H uid p s0 (us, ths)"
  shows "Root_Abs (session_root us s0) (TempPath s0) = Some p" "UploadID s0 = uid" "\<forall>th \<in> set ths. thread_alike s0 th"
    "case sessions us uid of None \<Rightarrow> disk us p = None | Some s \<Rightarrow> excluded H p s0 s us ths"
  using assms unfolding barrier_def prod.case by blast+

lemma barrier_steps:
  assumes "world_steps H uid p w w1" "barrier H uid p s0 w"
  shows "barrier H uid p s0 w1"
  using assms
proof (induction rule: world_steps.induct)
  case (thread w us ths t th us1)
  have "barrier H uid p s0 (us, ths)" using thread.IH thread.prems by blast
  note b = barrierD [OF this]
  have i: "in_place uid p s0 us" using b(1,2,4) excluded_alike [of H p s0 _ us ths] by (cases "sessions us uid") (simp_all add: in_place_def)
  have "thread_alike s0 (ths ! t)" using b(3) thread.hyps(2) by simp
  note so = thread_step_ok [OF thread.hyps(3) i this, unfolded step_keeps_def]
  have "\<forall>th \<in> set (ths[t := th]). thread_alike s0 th" using b(3) so set_update_subset_insert [of ths t th] by blast
  moreover have "session_root us1 s0 = session_root us s0" using so by (intro session_root_store) auto
  moreover have "case sessions us1 uid of None \<Rightarrow> disk us1 p = None | Some s \<Rightarrow> excluded H p s0 s us1 (ths[t := th])"
    using so b(4) excluded_step [OF _ thread.hyps(2)] by (cases "sessions us uid") auto
  ultimately show ?case using b(1,2) by (simp add: barrier_def)
next
  case (others w us ths us1)
  have "barrier H uid p s0 (us, ths)" using others.IH others.prems by blast
  note b = barrierD [OF this] and o = others.hyps(2) [unfolded others_ok_def]
  have "session_root us1 s0 = session_root us s0" using o by (intro session_root_store) auto
  moreover have "case sessions us1 uid of None \<Rightarrow> disk us1 p = None | Some s \<Rightarrow> excluded H p s0 s us1 ths"
    using o b(4) excluded_others [of H p s0 _ us ths] by (auto split: option.splits)
  ultimately show ?case using b(1,2,3) by (simp add: barrier_def)
qed

section \<open>What is placed has been verified\<close>

text \<open>C31. However the requests on one upload interleave, with chunks still being written while another request completes the upload, what the rename puts
  at the target is the file in flight as it was verified: its checksum is the one the session promises. No chunk is written between the
  verification and the rename, and the file the rename moves is the one of this session.\<close>

theorem placed_file_verified:
  assumes run: "world_steps H uid p (us0, replicate n Idle) (us, ths)"
    and s0: "sessions us0 uid = Some s0" "UploadID s0 = uid" "Root_Abs (session_root us0 s0) (TempPath s0) = Some p"
    and t: "t < length ths" "ths ! t = Verified s" and r: "complete_rename b s us = (True, us1)"
  shows "\<exists>q f. complete_target us s = Some q \<and> disk us p = Some f \<and> disk us1 q = Some f \<and> H f = FileChecksum s0"
proof -
  have "excluded H p s0 s0 us0 (replicate n Idle)" by (simp add: excluded_def)
  then have "barrier H uid p s0 (us0, replicate n Idle)" using s0 by (simp add: barrier_def)
  note b = barrierD [OF barrier_steps [OF run this]]
  have "alike s0 s" using b(3) t nth_mem [OF t(1)] by fastforce
  then have pp: "Root_Abs (session_root us s) (TempPath s) = Some p" using alike_root [of s0 s us] b(1) by (simp add: alike_def)
  then obtain q f where q: "complete_target us s = Some q" "disk us p = Some f" "disk us1 q = Some f"
    using r by (auto simp: complete_rename_def split: option.splits if_splits)
  then obtain s1 where "sessions us uid = Some s1" "excluded H p s0 s1 us ths" using b(4) by (auto split: option.splits)
  then have "intact H s0 p us" using excludedD(5) [of H p s0 s1 us ths t t] t by simp
  then show ?thesis using q by (auto simp: intact_def)
qed

definition ready_session :: upload_session where
  "ready_session = two_session\<lparr>ReceivedChunks := [True, True], ChunkChecksums := [''old'', replicate 64 (CHR ''0'')]\<rparr>"

definition ready_store :: upload_store where
  "ready_store = two_store\<lparr>sessions := (\<lambda>_. None)(''u2'' := Some ready_session), disk := (\<lambda>_. None)(two_path := Some [5, 6, 7])\<rparr>"

definition busy_store :: upload_store where
  "busy_store = with_session ''u2'' (Some (ready_session\<lparr>Completing := True\<rparr>)) ready_store"

text \<open>One request wants to send the first chunk again while another completes the upload: the flag turns it away.\<close>

lemma busy_run:
  "world_steps zero_digest ''u2'' two_path (ready_store, replicate 2 Idle) (busy_store, [Verified ready_session, Idle])"
proof -
  let ?ck = "replicate 64 (CHR ''0'')" and ?d = "[8, 9] :: octets" and ?W = "world_steps zero_digest ''u2'' two_path (ready_store, replicate 2 Idle)"
  have a: "step_start ''u2'' 0 ?ck ?d ready_store = AtLock 0 ?ck ?d" by code_simp
  have "validateCompleteSession ready_store ''u2'' = Inr ready_session"
    by (simp add: validateCompleteSession_def ready_store_def GetSession_def AllChunksReceived_def ready_session_def two_session_def sample_session_def)
  then have "complete_begin ''u2'' ready_store = (Inr ready_session, busy_store)" unfolding complete_begin_inr busy_store_def
    by (simp add: ready_store_def ready_session_def two_session_def sample_session_def)
  then have b: "step_begin ''u2'' ready_store = (Begun ready_session, busy_store)" by (simp add: step_begin_def)
  have c: "step_check zero_digest ''u2'' 0 ?ck ?d busy_store = Idle" by code_simp
  have "Root_Abs (session_root busy_store ready_session) (TempPath ready_session) = Some two_path" "disk busy_store two_path = Some [5, 6, 7]"
    "TempPath ready_session \<noteq> []" "FileChecksum ready_session = ?ck" by code_simp+
  then have v: "step_verify zero_digest ready_session busy_store = (Verified ready_session, busy_store)"
    by (simp add: step_verify_def prepareMergedTemp_def zero_digest_def)
  have "?W (ready_store, (replicate 2 Idle)[1 := AtLock 0 ?ck ?d])"
    by (rule world_steps.thread [OF world_steps.none]) (use thread_step.start [of zero_digest "''u2''" "replicate 2 Idle" ready_store 0 ?ck ?d] a in simp_all)
  then have "?W (ready_store, [Idle, AtLock 0 ?ck ?d])" by (simp add: numeral_2_eq_2)
  then have "?W (busy_store, [Idle, AtLock 0 ?ck ?d][0 := Begun ready_session])"
    by (rule world_steps.thread) (use thread_step.begin_complete [OF b] in simp_all)
  then have "?W (busy_store, [Begun ready_session, AtLock 0 ?ck ?d])" by simp
  then have "?W (busy_store, [Begun ready_session, AtLock 0 ?ck ?d][1 := Holding 0 ?ck ?d])"
    by (rule world_steps.thread) (simp_all add: thread_step.lock_io LockChunkIO_def)
  then have "?W (busy_store, [Begun ready_session, Holding 0 ?ck ?d])" by simp
  then have "?W (busy_store, [Begun ready_session, Holding 0 ?ck ?d][1 := Idle])"
    by (rule world_steps.thread) (use thread_step.check_chunk [of zero_digest "''u2''" "[Begun ready_session, Holding 0 ?ck ?d]" 0 ?ck ?d busy_store] c in simp_all)
  then have "?W (busy_store, [Begun ready_session, Idle])" by simp
  then have "?W (busy_store, [Begun ready_session, Idle][0 := Merging ready_session])"
    by (rule world_steps.thread) (simp_all add: thread_step.lock_merge LockChunkMerge_def)
  then have "?W (busy_store, [Merging ready_session, Idle])" by simp
  then have "?W (busy_store, [Merging ready_session, Idle][0 := Verified ready_session])"
    by (rule world_steps.thread) (use thread_step.verify_file [OF v] in simp_all)
  then show ?thesis by simp
qed

theorem placed_file_verified_witness:
  "\<exists>us1. complete_rename True ready_session busy_store = (True, us1) \<and> disk us1 ''/t/user/f'' = Some [5, 6, 7]"
proof -
  have t: "complete_target busy_store ready_session = Some ''/t/user/f''" "disk busy_store two_path = Some [5, 6, 7]"
    "Root_Abs (session_root busy_store ready_session) (TempPath ready_session) = Some two_path"
    "Root_Abs (session_root ready_store ready_session) (TempPath ready_session) = Some two_path" by code_simp+
  then have r: "complete_rename True ready_session busy_store = (True, snd (complete_rename True ready_session busy_store))"
    by (simp add: complete_rename_def)
  have s: "sessions ready_store ''u2'' = Some ready_session" "UploadID ready_session = ''u2''"
    by (simp_all add: ready_store_def ready_session_def two_session_def)
  have "0 < length [Verified ready_session, Idle]" "[Verified ready_session, Idle] ! 0 = Verified ready_session" by simp_all
  from placed_file_verified [OF busy_run s t(4) this r] t(1,2) r show ?thesis by auto
qed

end
