(* ===== verification/Replay.thy ===== *)
theory Replay
  imports Go_Strings
begin

text \<open>
  The replay check of tunnel requests (\<open>pkg/tunnel/replay.go\<close> and its use in \<open>pkg/tunnel/handler_client.go\<close>): every request carries a
  random identifier and the time it was issued, and the server remembers the identifiers of the last minutes. The clock is an argument of each reading, in seconds, since
  \<open>Validate\<close> reads it once before it takes the mutex and once in each clean-up; times are far from the ends of \<open>int64\<close>.
  The map from identifiers to times is an association list with the keys once each.
\<close>

section \<open>State and operations\<close>

definition replayWindowSize :: int where
  "replayWindowSize = 5 * 60"

definition replayMaxJTILen :: nat where
  "replayMaxJTILen = 32"

definition replayMaxEntries :: int where
  "replayMaxEntries = 100000"

record replay_protector =
  seen :: "(string \<times> int) list"
  cleanupN :: int

definition NewReplayProtector :: replay_protector where
  "NewReplayProtector = \<lparr>seen = [], cleanupN = 0\<rparr>"

datatype replay_error = IatOutOfWindow | JtiBadLength | JtiBadHex | JtiDuplicate | TooManyEntries

definition in_window :: "int \<Rightarrow> int \<Rightarrow> bool" where
  "in_window now iat = (\<not> (iat < now - replayWindowSize \<or> iat > now + replayWindowSize))"

definition cleanup :: "int \<Rightarrow> replay_protector \<Rightarrow> replay_protector" where
  "cleanup now rp = rp\<lparr>seen := filter (\<lambda>(jti, iat). in_window now iat) (seen rp)\<rparr>"

text \<open>\<open>Validate\<close> before the mutex is taken, at \<open>now\<close>, and under it, with the times of its two clean-ups.\<close>

definition Validate_pre :: "int \<Rightarrow> string \<Rightarrow> int \<Rightarrow> replay_error option" where
  "Validate_pre now jti iat =
     (if \<not> in_window now iat then Some IatOutOfWindow
      else if length jti = 0 \<or> length jti > replayMaxJTILen then Some JtiBadLength
      else if \<not> hex_decodes jti then Some JtiBadHex
      else None)"

definition Validate_locked :: "int \<Rightarrow> int \<Rightarrow> string \<Rightarrow> int \<Rightarrow> replay_protector \<Rightarrow> replay_error option \<times> replay_protector" where
  "Validate_locked t1 t2 jti iat rp =
     (if map_of (seen rp) jti \<noteq> None then (Some JtiDuplicate, rp)
      else let rp = rp\<lparr>seen := (jti, iat) # seen rp, cleanupN := cleanupN rp + 1\<rparr>;
               rp = (if cleanupN rp \<ge> 1000 then (cleanup t1 rp)\<lparr>cleanupN := 0\<rparr> else rp)
           in if int (length (seen rp)) \<ge> replayMaxEntries
              then let rp = cleanup t2 rp in
                   if int (length (seen rp)) \<ge> replayMaxEntries then (Some TooManyEntries, rp) else (None, rp)
              else (None, rp))"

definition Validate :: "int \<Rightarrow> int \<Rightarrow> int \<Rightarrow> string \<Rightarrow> int \<Rightarrow> replay_protector \<Rightarrow> replay_error option \<times> replay_protector" where
  "Validate now t1 t2 jti iat rp =
     (case Validate_pre now jti iat of Some e \<Rightarrow> (Some e, rp) | None \<Rightarrow> Validate_locked t1 t2 jti iat rp)"

definition Replay_Len :: "replay_protector \<Rightarrow> int" where
  "Replay_Len rp = int (length (seen rp))"

text \<open>The handler checks a request that carries a time or an identifier.\<close>

definition replay_check :: "int \<Rightarrow> int \<Rightarrow> int \<Rightarrow> string \<Rightarrow> int \<Rightarrow> replay_protector \<Rightarrow> replay_error option \<times> replay_protector" where
  "replay_check now t1 t2 jti iat rp =
     (if iat > 0 \<or> jti \<noteq> [] then Validate now t1 t2 jti iat rp else (None, rp))"

text \<open>\<open>generateJTI\<close>, from sixteen random bytes or, if there are none, from the clock in nanoseconds.\<close>

fun hex_nat :: "nat \<Rightarrow> string" where
  "hex_nat n = (if n < 16 then [hex_char n] else hex_nat (n div 16) @ [hex_char (n mod 16)])"

declare hex_nat.simps [simp del]

definition generateJTI :: "nat list option \<Rightarrow> nat \<Rightarrow> string" where
  "generateJTI bytes nano = (case bytes of Some bs \<Rightarrow> EncodeToString bs | None \<Rightarrow> hex_nat nano)"

section \<open>A request is accepted once\<close>

text \<open>A call of the server, with the readings of the clock it makes.\<close>

record replay_call =
  at :: int
  clean1 :: int
  clean2 :: int
  jti_of :: string
  iat_of :: int

fun replay_run :: "replay_call list \<Rightarrow> replay_protector \<Rightarrow> replay_error option list \<times> replay_protector" where
  "replay_run [] rp = ([], rp)"
| "replay_run (c # cs) rp =
     (case Validate (at c) (clean1 c) (clean2 c) (jti_of c) (iat_of c) rp of
        (r, rp1) \<Rightarrow> (case replay_run cs rp1 of (rs, rp2) \<Rightarrow> (r # rs, rp2)))"

text \<open>The clock does not run backwards, and each call takes its readings after those of the calls before it.\<close>

fun clock_from :: "int \<Rightarrow> replay_call list \<Rightarrow> bool" where
  "clock_from t [] = True"
| "clock_from t (c # cs) \<longleftrightarrow> t \<le> at c \<and> at c \<le> clean1 c \<and> clean1 c \<le> clean2 c \<and> clock_from (clean2 c) cs"

text \<open>After time \<open>t\<close> the request is known, or too old ever to pass the window again.\<close>

definition spent :: "int \<Rightarrow> string \<Rightarrow> int \<Rightarrow> replay_protector \<Rightarrow> bool" where
  "spent t jti iat rp \<longleftrightarrow> (jti, iat) \<in> set (seen rp) \<and> iat \<le> t + replayWindowSize \<or> iat < t - replayWindowSize"

lemma spent_mono: "spent t jti iat rp \<Longrightarrow> t \<le> t' \<Longrightarrow> spent t' jti iat rp"
  by (auto simp: spent_def)

lemma spent_cleanup: "spent t jti iat rp \<Longrightarrow> spent t jti iat (cleanup t rp)"
  by (auto simp: spent_def cleanup_def in_window_def)

lemma spent_count: "spent t jti iat (rp\<lparr>cleanupN := n\<rparr>) = spent t jti iat rp"
  by (simp add: spent_def)

text \<open>What \<open>Validate_locked\<close> does once the identifier is new.\<close>

lemma Validate_locked_keeps:
  assumes v: "Validate_locked t1 t2 j i rp = (r, rp')" and t: "t \<le> t1" "t1 \<le> t2"
    and s: "spent t jti iat rp \<or> r \<noteq> Some JtiDuplicate \<and> jti = j \<and> iat = i \<and> in_window t i"
  shows "spent t2 jti iat rp'"
proof (cases "map_of (seen rp) j = None")
  case False
  then have "rp' = rp" "r = Some JtiDuplicate" using v by (auto simp: Validate_locked_def)
  then show ?thesis using s t spent_mono by auto
next
  case True
  let ?a = "rp\<lparr>seen := (j, i) # seen rp, cleanupN := cleanupN rp + 1\<rparr>"
  let ?b = "if cleanupN ?a \<ge> 1000 then (cleanup t1 ?a)\<lparr>cleanupN := 0\<rparr> else ?a"
  have "spent t jti iat ?a" using s by (auto simp: spent_def in_window_def)
  then have a: "spent t1 jti iat ?a" using t(1) spent_mono by blast
  then have "spent t1 jti iat ?b" using spent_cleanup [OF a] by (simp only: spent_count split: if_split) simp
  then have b: "spent t2 jti iat ?b" using t(2) spent_mono by blast
  have "rp' = ?b \<or> rp' = cleanup t2 ?b" using v True by (auto simp: Validate_locked_def Let_def split: if_splits)
  then show ?thesis using b spent_cleanup [OF b] by (elim disjE) (simp_all only:)
qed

lemma Validate_spent:
  assumes "spent t jti iat rp" "t \<le> now"
  shows "fst (Validate now t1 t2 jti iat rp) \<noteq> None"
proof (cases "Validate_pre now jti iat")
  case None
  then have "in_window now iat" by (auto simp: Validate_pre_def split: if_splits)
  then have "(jti, iat) \<in> set (seen rp)" using assms by (auto simp: spent_def in_window_def)
  then have "map_of (seen rp) jti \<noteq> None" by (auto simp: map_of_eq_None_iff image_iff intro!: bexI)
  then show ?thesis using None by (simp add: Validate_def Validate_locked_def)
qed (simp add: Validate_def)

lemma Validate_keeps:
  assumes v: "Validate now t1 t2 j i rp = (r, rp')" and t: "t \<le> now" "now \<le> t1" "t1 \<le> t2"
    and s: "spent t jti iat rp \<or> r = None \<and> jti = j \<and> iat = i"
  shows "spent t2 jti iat rp'"
proof (cases "Validate_pre now j i")
  case None
  then have l: "Validate_locked t1 t2 j i rp = (r, rp')" and w: "in_window now i"
    using v by (auto simp: Validate_def Validate_pre_def split: if_splits)
  have "spent now jti iat rp \<or> r \<noteq> Some JtiDuplicate \<and> jti = j \<and> iat = i \<and> in_window now i"
    using s w spent_mono [OF _ t(1)] by auto
  then show ?thesis by (rule Validate_locked_keeps [OF l t(2,3)])
next
  case (Some e)
  then have "rp' = rp" "r = Some e" using v by (simp_all add: Validate_def)
  then show ?thesis using s t spent_mono [of t jti iat rp t2] by auto
qed

lemma replay_run_spent:
  assumes "spent t jti iat rp" "clock_from t cs" "k < length cs" "jti_of (cs ! k) = jti" "iat_of (cs ! k) = iat"
  shows "fst (replay_run cs rp) ! k \<noteq> None"
  using assms
proof (induction cs arbitrary: t rp k)
  case (Cons c cs)
  obtain r rp1 where v: "Validate (at c) (clean1 c) (clean2 c) (jti_of c) (iat_of c) rp = (r, rp1)"
    by (cases "Validate (at c) (clean1 c) (clean2 c) (jti_of c) (iat_of c) rp")
  have tc: "t \<le> at c" "at c \<le> clean1 c" "clean1 c \<le> clean2 c" "clock_from (clean2 c) cs" using Cons.prems(2) by auto
  have "spent (clean2 c) jti iat rp1" using Validate_keeps [OF v tc(1-3)] Cons.prems(1) by blast
  note IH = Cons.IH [OF this tc(4)]
  show ?case
  proof (cases k)
    case 0
    then show ?thesis using Validate_spent [OF Cons.prems(1) tc(1), of "clean1 c" "clean2 c"] v Cons.prems(4,5)
      by (auto split: prod.split)
  next
    case (Suc m)
    then show ?thesis using IH [of m] Cons.prems(3-5) v by (auto split: prod.splits)
  qed
qed simp

lemma length_replay_run [simp]: "length (fst (replay_run cs rp)) = length cs"
proof (induction cs arbitrary: rp)
  case (Cons c cs)
  show ?case using Cons.IH by (simp add: case_prod_beta)
qed simp


definition sample_call :: "int \<Rightarrow> replay_call" where
  "sample_call n = \<lparr>at = n, clean1 = n, clean2 = n, jti_of = ''a0'', iat_of = 1000\<rparr>"


section \<open>Where the check is weaker than it means to be\<close>

text \<open>
  \<open>Validate\<close> tests the window before it waits for the mutex. If the other calls have the mutex meanwhile and one of them cleans up
  after the window of the request has passed, a second copy of the request that was tested in time finds its identifier forgotten and is accepted too. The calls are
  listed in the order in which they get the mutex.
\<close>

lemma replay_race:
  "fst (replay_run
     [\<lparr>at = 1300, clean1 = 1300, clean2 = 1300, jti_of = ''a0'', iat_of = 1000\<rparr>,
      \<lparr>at = 1301, clean1 = 1301, clean2 = 1301, jti_of = ''b0'', iat_of = 1200\<rparr>,
      \<lparr>at = 1300, clean1 = 1301, clean2 = 1301, jti_of = ''a0'', iat_of = 1000\<rparr>]
     \<lparr>seen = [], cleanupN = 998\<rparr>) = [None, None, None]"
  by code_simp

text \<open>
  The limit of the table does not bound it: a call that is refused because there are too many entries has added its own already. As long as nothing has left the window, every
  new identifier makes the table longer, and every later request is refused until enough entries are old.
\<close>

lemma replay_full_grows:
  assumes w: "\<forall>(j, i) \<in> set (seen rp). in_window t i" and full: "replayMaxEntries \<le> Replay_Len rp"
    and new: "map_of (seen rp) jti = None" and ok: "Validate_pre now jti iat = None" "in_window t iat"
  shows "fst (Validate now t t jti iat rp) = Some TooManyEntries \<and> Replay_Len (snd (Validate now t t jti iat rp)) = Replay_Len rp + 1"
proof -
  have "filter (\<lambda>(j, i). in_window t i) (seen rp) = seen rp" using w by (auto simp: filter_id_conv)
  then show ?thesis using full new ok
    by (simp add: Validate_def Validate_locked_def Replay_Len_def cleanup_def Let_def)
qed

section \<open>Identifiers\<close>

lemma hex_nat_digits: "list_all is_hex (hex_nat n) \<and> hex_nat n \<noteq> []"
  by (induction n rule: hex_nat.induct) (subst (1 2) hex_nat.simps, auto)

lemma length_hex_nat: "16 ^ k \<le> n \<Longrightarrow> n < 16 ^ Suc k \<Longrightarrow> length (hex_nat n) = Suc k"
proof (induction k arbitrary: n)
  case 0
  then show ?case by (subst hex_nat.simps) simp
next
  case (Suc k)
  have "16 \<le> n" using Suc.prems(1) one_le_power [of "16 :: nat" k] by (simp add: order_trans [OF _ Suc.prems(1)])
  moreover have "length (hex_nat (n div 16)) = Suc k" using Suc.prems by (intro Suc.IH) (simp_all add: less_mult_imp_div_less)
  ultimately show ?case by (subst hex_nat.simps) simp
qed

text \<open>The identifiers the program makes pass the checks, from random bytes and from the clock of this century alike.\<close>

lemma generateJTI_passes:
  assumes "case bytes of Some bs \<Rightarrow> length bs = 16 | None \<Rightarrow> 16 ^ 15 \<le> nano \<and> nano < 16 ^ 16" and "in_window now iat"
  shows "Validate_pre now (generateJTI bytes nano) iat = None"
proof (cases bytes)
  case None
  then have "length (hex_nat nano) = 16" using assms(1) length_hex_nat [of 15 nano] by simp
  then show ?thesis using None assms(2) hex_nat_digits [of nano]
    by (simp add: Validate_pre_def generateJTI_def hex_decodes_def replayMaxJTILen_def)
next
  case (Some bs)
  then show ?thesis using assms EncodeToString_decodes [of bs] by (simp add: Validate_pre_def generateJTI_def replayMaxJTILen_def)
qed

end
