(* ===== verification/Spec2Isabelle.thy ===== *)
theory Spec2Isabelle
  imports Pool_Tree Quota_Wait Mux_Send Merge3 Signed_Request Vip Vol_FS Upload_Barrier Replay
begin

text \<open>
  Verification of the resource and transport core of sproxy.

  sproxy is a Go server that stores files for its users and tunnels connections between machines. This development treats the parts that carry
  logic of their own rather than effects on files and networks: the quota system (\<open>src/pkg/quota\<close> with \<open>src/pkg/waitq\<close>), through which every
  upload, download task, chunk store and version writer accounts for the bytes it writes; the capacity accounting of external volumes
  (\<open>src/pkg/volume/capacity\<close>), a ledger kept in files that several processes share; the stream multiplexer (\<open>src/pkg/tunnel/mux\<close>), which
  carries all streams of a tunnel over one connection; the addresses the tunnel hub gives out (\<open>src/pkg/tunnel/hub/vip.go\<close>); request signatures
  (\<open>src/pkg/sproxysig\<close>); and the three-way merge of the synchroniser (\<open>src/pkg/sync/merge3.go\<close>).

  \<^bold>\<open>Quota.\<close> A tree of pools counts committed and reserved bytes; every operation on a node is applied to its whole parent
  chain. A caller reserves before it writes and settles afterwards, through one of several handles; a caller that finds no room may
  wait in a queue that is notified whenever room appears.

  \<^item> \<open>Prelude\<close>: \<open>int64\<close> arithmetic with wrap-around, updates of a heap along a list of addresses, shared lemmas.
  \<^item> \<open>Pool\<close>: the ledger of \<open>quota.go\<close>. A \<open>*Pool\<close> is an address into a heap; \<open>reserveUp\<close>, \<open>commitUp\<close>,
    \<open>releaseUp\<close>, \<open>releaseCommittedUp\<close>, \<open>adjustUp\<close>, \<open>TryReserve\<close>, \<open>ProbeReserve\<close>, \<open>Reservation.Commit\<close> and \<open>Release\<close>.
  \<^item> \<open>Ledger\<close>: closed forms of the chain walks and the invariant \<open>ledger_ok\<close>, kept by every ledger operation.
  \<^item> \<open>Claims\<close>: the interface between ledger and handles as the locale \<open>shift_ledger\<close>, with the stability of \<open>backed\<close> proved
    inside it; its interpretation on the ledger is what the handles' theorems rest on.
  \<^item> \<open>Settlement\<close> (\<open>settlement.go\<close>), \<open>Accounts\<close> (\<open>task_account.go\<close>, \<open>quota_writer.go\<close>): the handles. The theorems show that any
    run of a handle's operations moves the ledger by exactly what the handle reports.
  \<^item> \<open>Quota_System\<close>: all handles on one tree, in any interleaving. The books balance in every reachable state and nothing
    stays reserved once all handles are settled.
  \<^item> \<open>Reserve_Spec\<close>: the abstract specification of a reservation (\<open>fits\<close>) and that \<open>TryReserve\<close> implements it exactly; the
    probe, the clamped releases, and what happens when a sum leaves \<open>int64\<close>.
  \<^item> \<open>Pool_Tree\<close> (\<open>quota.go\<close>, \<open>allocation.go\<close>): mounting, resolving and unmounting of scopes, limits carved out of the parent,
    allocation handles, usage reports.
  \<^item> \<open>Waitq\<close> (\<open>waitq.go\<close>): the generic queue; \<open>Wakeups\<close>: the locale \<open>wakeable\<close> and the absence of lost wake-ups for every
    adapter that meets it; \<open>Quota_Wait\<close> (\<open>wait.go\<close>, \<open>waitq_adapter.go\<close>, \<open>staging_tracker.go\<close>, \<open>Settlement.ReserveWait\<close>): the
    adapter of the ledger, its interpretation, and \<open>WaitReserve\<close>.

  \<^bold>\<open>Multiplexer.\<close> Frames with an eight-byte header travel over one connection; a read loop dispatches them to streams, a write
  loop drains a channel of messages, retransmits failed sends and answers pings; a credit window bounds what each stream may
  buffer.

  \<^item> \<open>Frame\<close> (\<open>frame.go\<close>): the codec on bytes, round trips and exact errors.
  \<^item> \<open>Mux_Stream\<close> (\<open>stream.go\<close>): the two receive queues of a stream. The locale \<open>frame_fifo\<close> is their contract, its interpretation
    \<open>stream_queue\<close> the refinement to one first-in first-out queue.
  \<^item> \<open>Mux\<close> (\<open>mux.go\<close>, \<open>stream.go\<close>, \<open>frame_handler.go\<close>, \<open>loop.go\<close>, \<open>retransmit.go\<close>, \<open>udp_datagram.go\<close>): state and operations of
    the multiplexer. Stream objects live in a heap, since the code keeps pointers to streams that have left the table.
  \<^item> \<open>Mux_Table\<close>: invariants over all interleavings: the table, the counters, bounded memory, closing, abort by identity.
  \<^item> \<open>Mux_Flow\<close>: two multiplexers joined by a connection; every byte is delivered in order and every byte of the window is
    accounted for.
  \<^item> \<open>Mux_Send\<close>: failing sends, pings, datagrams, opening, and the schedule of retransmissions.

  \<^bold>\<open>Volumes.\<close> The limit of an external volume is checked against a total that is spread over decimal text files on the volume itself. Every process
  appends to a shard of its own, folds it into a baseline of its own and lists it in a shared index; a counter checks the limit of the
  volume against the sum and the limits above it in the quota tree; a file system in front of the volume reserves before and settles after
  every operation.

  \<^item> \<open>Go_Strings\<close>: what the text formats use of the standard library (\<open>strings\<close>, \<open>strconv\<close>, \<open>bufio.Scanner\<close>), on bytes, with round trips.
  \<^item> \<open>Vol_Ledger\<close> (\<open>ledger.go\<close>): the three stores and the ledger, on file contents, with accesses that may fail. \<open>Vol_Books\<close>: the files
    represent one number; every history of additions, compactions and reapings by any number of processes refines a counter, reads
    included, and two runs show where the code departs from that.
  \<^item> \<open>Vol_Counter\<close> (\<open>ledger.go\<close>, \<open>trueusage.go\<close>, \<open>capacity.go\<close>): \<open>LedgerCounter\<close> over the ledger and the quota tree. The locale
    \<open>capacity_counter\<close> is the contract of the interface \<open>Counter\<close>, its interpretation \<open>lc\<close> on \<open>LedgerCounter\<close> discharges it.
  \<^item> \<open>Vol_FS\<close> (\<open>capacity.go\<close>, \<open>phys.go\<close>): the operations of \<open>CapacityFS\<close> for any counter that keeps the contract: the files of a volume
    never outgrow its counter, and the counter never its limit. The sizes in the statements are below 2 EiB, so that no sum leaves \<open>int64\<close>.

  \<^bold>\<open>Addresses, signatures, merging.\<close>

  \<^item> \<open>Vip\<close> (\<open>vip.go\<close>): allocation, release and reservation of the addresses of a subnet; no address is given twice and an allocation fails only when
    none is left.
  \<^item> \<open>Signed_Request\<close> (\<open>sproxysig.go\<close>, \<open>nonce.go\<close>): header format, canonical text, verification, the pool of used nonces and the check of the body. The
    keyed hash and the body hash are parameters.
  \<^item> \<open>Merge3\<close> (\<open>merge3.go\<close>): the line merge; it keeps the edits of both sides, and a merge with one changed side equals a reference without cursors.

  \<^bold>\<open>Conventions.\<close> Errors are values (\<open>Inl\<close>, \<open>None\<close> or a constructor). A call that would block returns \<open>None\<close> or is a list
  of the events a \<open>select\<close> receives. Which ready case a \<open>select\<close> takes, the order in which a Go map is iterated, the clock
  and the outcome of each \<open>Send\<close> are arguments, so the theorems hold for every choice; where the source gives the closed
  channel no precedence, \<open>writeLoop_round\<close> and \<open>Stream_Write\<close> look at it first. \<open>go m.Close()\<close> sets a flag, and a later step
  runs it. No definition uses fuel: chain walks recurse on addresses that decrease, \<open>read_fill\<close> ends by a measure on the bytes
  still wanted, and the loops that run as long as the connection lives are given as single rounds inside a step relation. The
  capacities in the statements (64 frames of a channel, 65538 bytes of a frame with slack, 256 messages, 4096 retransmissions) are the
  constants of the code.

  \<^bold>\<open>Atomicity.\<close> A step is one call. The source locks the layers of a chain one after the other and some checks of the
  multiplexer outside the lock that the update takes, so states inside a call that another goroutine can see are not
  modelled; in particular \<open>Open\<close> tests the number of streams before it registers one, so overlapping calls may pass the limit by
  their number. For the wait queue, where interleaving is the point, the release and its notification are separate steps.

  \<^bold>\<open>Not modelled.\<close> Metrics callbacks, peak gauges, timings of blocked writes and statistics snapshots, which no decision reads;
  the pool of send buffers; contexts beyond the cancellation event; \<open>buffer_watermark.go\<close>, which has no caller; the forwarding of optional
  capabilities through \<open>CapacityFS\<close>; the encryption and the transports below the multiplexer, built on primitives outside the repository; file
  operations, the volumes themselves, cloud tasks, HTTP handlers and the command line, which are effects on file systems and remote
  services around these packages.

  \<^bold>\<open>Plan.\<close> The chunk bookkeeping of uploads, the quota volume of the registry, and the replay cache of the tunnel.
\<close>

end
